(* ===== verification/Prelude.thy ===== *)
theory Prelude
  imports Main "HOL-Library.Word" "HOL-Library.Monad_Syntax"
begin

text \<open>
  What every component of the model shares: the machine integers of the C++ code, the error
  codes its operations leave in \<open>errno\<close>, the \<open>zmq_assert\<close> of \<open>err.hpp\<close>, and the
  generic lemmas on options, lists and words the component theories rest on.

  Conventions.  A call that can run into a failed \<open>zmq_assert\<close>, or that dereferences a
  pointer the code has no object for, has an \<open>option\<close> result: \<^term>\<open>None\<close> is the
  abort of the process, so that a theorem that an operation is \<^term>\<open>Some\<close> states the
  absence of aborts.  A call that returns \<open>0\<close> or \<open>-1\<close> with an \<open>errno\<close> returns a
  value of the type \<open>rc\<close> below.
\<close>

unbundle bit_operations_syntax

section \<open>Types\<close>

type_synonym byte = "8 word"
type_synonym u16 = "16 word"
type_synonym u32 = "32 word"
type_synonym u64 = "64 word"

text \<open>The addresses of heap objects (pipes, chunks, contents, owned objects).\<close>

type_synonym addr = nat

text \<open>The \<open>errno\<close> values the modelled code sets.\<close>

datatype errno =
    EAGAIN | EINVAL | EFAULT | ENOMEM | ENOTSUP | EACCES | EMFILE | EADDRINUSE
  | ECONNREFUSED | EPROTONOSUPPORT | EINTR | ENOTSOCK
  | EFSM | ENOCOMPATPROTO | ETERM | EMTHREAD

datatype rc = OK | Err errno

section \<open>Collections of facts\<close>

named_theorems bufs \<open>reads and writes of byte buffers\<close>
named_theorems ptrs \<open>pointer and index arithmetic of the containers\<close>
named_theorems absn \<open>abstraction functions applied to the operations\<close>

section \<open>The assertion of err.hpp\<close>

text \<open>
  \<open>zmq_assert (x)\<close> aborts the process unless \<open>x\<close> holds; the other \<open>_assert\<close>
  macros of \<open>err.hpp\<close> differ in the text they print.
\<close>

definition zmq_assert :: "bool \<Rightarrow> unit option" where
  "zmq_assert b = (if b then Some () else None)"

lemma zmq_assert_simps [simp]:
  "zmq_assert True = Some ()" "zmq_assert False = None"
  by (simp_all add: zmq_assert_def)

lemma zmq_assert_eq_Some [simp]: "zmq_assert b = Some u \<longleftrightarrow> b"
  by (simp add: zmq_assert_def)

lemma zmq_assert_bind_Some:
  "(zmq_assert b \<bind> f) = Some x \<longleftrightarrow> b \<and> f () = Some x"
  by (simp add: zmq_assert_def)

section \<open>Lists\<close>

lemma nth_append_last [simp]: "i = length xs \<Longrightarrow> (xs @ [x]) ! i = x"
  by simp

text \<open>\<open>std::swap\<close> of two elements of a vector.\<close>

definition list_swap :: "nat \<Rightarrow> nat \<Rightarrow> 'a list \<Rightarrow> 'a list" where
  "list_swap i j xs = xs[i := xs ! j, j := xs ! i]"

lemma length_list_swap [simp]: "length (list_swap i j xs) = length xs"
  by (simp add: list_swap_def)

lemma nth_list_swap:
  "i < length xs \<Longrightarrow> j < length xs \<Longrightarrow> k < length xs \<Longrightarrow>
   list_swap i j xs ! k = (if k = i then xs ! j else if k = j then xs ! i else xs ! k)"
  by (auto simp: list_swap_def nth_list_update)

lemma set_list_swap [simp]:
  "i < length xs \<Longrightarrow> j < length xs \<Longrightarrow> set (list_swap i j xs) = set xs"
  by (simp add: list_swap_def)

lemma list_swap_same [simp]: "list_swap i i xs = xs"
  by (simp add: list_swap_def)

lemma distinct_list_swap [simp]:
  "i < length xs \<Longrightarrow> j < length xs \<Longrightarrow> distinct (list_swap i j xs) = distinct xs"
  by (simp add: list_swap_def)

lemma take_list_swap: "i < k \<Longrightarrow> j < k \<Longrightarrow> take k (list_swap i j xs) = list_swap i j (take k xs)"
  by (simp add: list_swap_def take_update_swap)

lemma drop_list_swap: "i < k \<Longrightarrow> j < k \<Longrightarrow> drop k (list_swap i j xs) = drop k xs"
  by (simp add: list_swap_def drop_update_swap drop_update_cancel)

text \<open>Moving the element \<open>c\<close> out of the first \<open>n + 1\<close>, and the element \<open>c\<close> into the first \<open>n\<close>.\<close>

lemma set_take_swap_out:
  assumes "c \<le> n" and "n < length xs" and "distinct xs"
  shows "set (take n (list_swap c n xs)) = set (take (Suc n) xs) - {xs ! c}"
    and "set (take (Suc n) xs) = insert (xs ! c) (set (take n (list_swap c n xs)))"
    and "xs ! c \<notin> set (take n (list_swap c n xs))"
proof -
  have "take (Suc n) (list_swap c n xs) = take n (list_swap c n xs) @ [xs ! c]"
    using assms by (simp add: take_Suc_conv_app_nth nth_list_swap)
  moreover have s: "set (take (Suc n) (list_swap c n xs)) = set (take (Suc n) xs)"
    using assms by (simp add: take_list_swap)
  ultimately have "insert (xs ! c) (set (take n (list_swap c n xs))) = set (take (Suc n) xs)"
    by auto
  moreover have "distinct (take (Suc n) (list_swap c n xs))"
    using assms by (simp add: take_list_swap)
  then show "xs ! c \<notin> set (take n (list_swap c n xs))"
    using \<open>take (Suc n) (list_swap c n xs) = _\<close> by simp
  ultimately show "set (take n (list_swap c n xs)) = set (take (Suc n) xs) - {xs ! c}"
    "set (take (Suc n) xs) = insert (xs ! c) (set (take n (list_swap c n xs)))" by auto
qed

lemma set_take_swap_in:
  assumes "n \<le> c" and "c < length xs"
  shows "set (take (Suc n) (list_swap c n xs)) = insert (xs ! c) (set (take n xs))"
proof -
  have "take n (list_swap c n xs) = take n xs"
    using assms by (simp add: list_swap_def)
  then show ?thesis using assms by (simp add: take_Suc_conv_app_nth nth_list_swap)
qed

end
