(* ===== verification/Wire.thy ===== *)
theory Wire
  imports Prelude
begin

text \<open>
  \<open>wire.hpp\<close>: integers in network byte order.  The C++ functions write through and read
  from a pointer into a buffer; here the buffer the pointer starts at is a byte list, and a
  \<open>put\<close> returns the updated buffer.
\<close>

section \<open>The operations\<close>

definition put_uint8 :: "byte list \<Rightarrow> byte \<Rightarrow> byte list" where
  "put_uint8 buf value = buf[0 := value]"

definition get_uint8 :: "byte list \<Rightarrow> byte" where
  "get_uint8 buf = buf ! 0"

definition put_uint16 :: "byte list \<Rightarrow> u16 \<Rightarrow> byte list" where
  "put_uint16 buf value =
     buf[0 := ucast (drop_bit 8 value AND 0xff), 1 := ucast (value AND 0xff)]"

definition get_uint16 :: "byte list \<Rightarrow> u16" where
  "get_uint16 buf = push_bit 8 (ucast (buf ! 0)) OR ucast (buf ! 1)"

definition put_uint32 :: "byte list \<Rightarrow> u32 \<Rightarrow> byte list" where
  "put_uint32 buf value =
     buf[0 := ucast (drop_bit 24 value AND 0xff),
             1 := ucast (drop_bit 16 value AND 0xff),
             2 := ucast (drop_bit 8 value AND 0xff),
             3 := ucast (value AND 0xff)]"

definition get_uint32 :: "byte list \<Rightarrow> u32" where
  "get_uint32 buf =
     push_bit 24 (ucast (buf ! 0)) OR push_bit 16 (ucast (buf ! 1)) OR
     push_bit 8 (ucast (buf ! 2)) OR ucast (buf ! 3)"

definition put_uint64 :: "byte list \<Rightarrow> u64 \<Rightarrow> byte list" where
  "put_uint64 buf value =
     buf[0 := ucast (drop_bit 56 value AND 0xff),
             1 := ucast (drop_bit 48 value AND 0xff),
             2 := ucast (drop_bit 40 value AND 0xff),
             3 := ucast (drop_bit 32 value AND 0xff),
             4 := ucast (drop_bit 24 value AND 0xff),
             5 := ucast (drop_bit 16 value AND 0xff),
             6 := ucast (drop_bit 8 value AND 0xff),
             7 := ucast (value AND 0xff)]"

definition get_uint64 :: "byte list \<Rightarrow> u64" where
  "get_uint64 buf =
     push_bit 56 (ucast (buf ! 0)) OR push_bit 48 (ucast (buf ! 1)) OR
     push_bit 40 (ucast (buf ! 2)) OR push_bit 32 (ucast (buf ! 3)) OR
     push_bit 24 (ucast (buf ! 4)) OR push_bit 16 (ucast (buf ! 5)) OR
     push_bit 8 (ucast (buf ! 6)) OR ucast (buf ! 7)"

section \<open>Frame facts\<close>

lemma length_put [simp, bufs]:
  "length (put_uint8 b v8) = length b" "length (put_uint16 b v16) = length b"
  "length (put_uint32 b v32) = length b" "length (put_uint64 b v64) = length b"
  by (simp_all add: put_uint8_def put_uint16_def put_uint32_def put_uint64_def)

lemma put_uint64_frame [bufs]: "8 \<le> i \<Longrightarrow> put_uint64 b v ! i = b ! i"
  by (simp add: put_uint64_def)

lemma put_uint32_frame [bufs]: "4 \<le> i \<Longrightarrow> put_uint32 b v ! i = b ! i"
  by (simp add: put_uint32_def)

section \<open>Bytes of a word\<close>

text \<open>A byte put back at its place extends the low part of a word by eight bits.\<close>

lemma byte_255: "(255 :: 'a::len word) = mask 8"
  by (simp add: mask_eq_exp_minus_1)

lemma first_byte_put: "n \<le> length b \<Longrightarrow> 0 < n \<Longrightarrow> (b[0 := x]) ! 0 = x"
  by (cases b) auto

lemma byte_of_word: "(ucast (w AND 0xff) :: byte) = ucast (w :: 'a::len word)"
  by (rule bit_word_eqI) (auto simp: byte_255 bit_simps dest: bit_imp_le_length)

lemma low_byte: "(ucast (ucast (w :: 'a::len word) :: byte) :: 'a word) = take_bit 8 w"
  by (rule bit_word_eqI) (auto simp: bit_simps dest: bit_imp_le_length)

lemma next_byte:
  fixes w :: "'a::len word"
  shows "push_bit k (ucast (ucast (drop_bit k w) :: byte)) OR take_bit k w = take_bit (k + 8) w"
proof (rule bit_word_eqI)
  fix n
  assume "n < LENGTH('a)"
  then show "bit (push_bit k (ucast (ucast (drop_bit k w) :: byte)) OR take_bit k w) n
      = bit (take_bit (k + 8) w) n"
    by (cases "k \<le> n") (auto simp: bit_simps)
qed

lemma put_uint16_bytes:
  "2 \<le> length b \<Longrightarrow> put_uint16 b v ! 0 = ucast (drop_bit 8 v)"
  "2 \<le> length b \<Longrightarrow> put_uint16 b v ! 1 = ucast v"
  by (simp_all add: put_uint16_def byte_of_word first_byte_put [of 2])

lemma put_uint32_bytes:
  assumes "4 \<le> length b"
  shows "put_uint32 b v ! 0 = ucast (drop_bit 24 v)" "put_uint32 b v ! 1 = ucast (drop_bit 16 v)"
    "put_uint32 b v ! 2 = ucast (drop_bit 8 v)" "put_uint32 b v ! 3 = ucast v"
  using assms by (simp_all add: put_uint32_def byte_of_word first_byte_put [of 4])

lemma put_uint64_bytes:
  assumes "8 \<le> length b"
  shows "put_uint64 b v ! 0 = ucast (drop_bit 56 v)" "put_uint64 b v ! 1 = ucast (drop_bit 48 v)"
    "put_uint64 b v ! 2 = ucast (drop_bit 40 v)" "put_uint64 b v ! 3 = ucast (drop_bit 32 v)"
    "put_uint64 b v ! 4 = ucast (drop_bit 24 v)" "put_uint64 b v ! 5 = ucast (drop_bit 16 v)"
    "put_uint64 b v ! 6 = ucast (drop_bit 8 v)" "put_uint64 b v ! 7 = ucast v"
  using assms by (simp_all add: put_uint64_def byte_of_word first_byte_put [of 8])

section \<open>Round trips\<close>

lemma get_put_uint8: "1 \<le> length b \<Longrightarrow> get_uint8 (put_uint8 b v) = v"
  by (simp add: get_uint8_def put_uint8_def first_byte_put [of 1])

lemma get_put_uint16: "2 \<le> length b \<Longrightarrow> get_uint16 (put_uint16 b v) = v"
  using next_byte [of 8 v]
  by (simp add: get_uint16_def put_uint16_bytes low_byte or.assoc take_bit_word_eq_self
    del: One_nat_def)

lemma get_put_uint32: "4 \<le> length b \<Longrightarrow> get_uint32 (put_uint32 b v) = v"
  using next_byte [of 8 v] next_byte [of 16 v] next_byte [of 24 v]
  by (simp add: get_uint32_def put_uint32_bytes low_byte or.assoc take_bit_word_eq_self
    del: One_nat_def)

lemma get_put_uint64: "8 \<le> length b \<Longrightarrow> get_uint64 (put_uint64 b v) = v"
  using next_byte [of 8 v] next_byte [of 16 v] next_byte [of 24 v] next_byte [of 32 v]
    next_byte [of 40 v] next_byte [of 48 v] next_byte [of 56 v]
  by (simp add: get_uint64_def put_uint64_bytes low_byte or.assoc take_bit_word_eq_self
    del: One_nat_def)

end
