(* ===== verification/Atomic.thy ===== *)
theory Atomic
  imports Prelude
begin

text \<open>
  \<open>atomic_counter.hpp\<close> and \<open>atomic_ptr.hpp\<close>: the operations the lock-free parts rest
  on.  Each is one atomic step, so it is one function from the old value to the returned value
  and the new one.  All four implementations of the source (Windows, Solaris, x86, mutex) are
  the same function.
\<close>

section \<open>atomic\_counter\_t\<close>

type_synonym atomic_counter = u32

definition counter_set :: "u32 \<Rightarrow> atomic_counter \<Rightarrow> atomic_counter" where
  "counter_set value c = value"

definition counter_add :: "u32 \<Rightarrow> atomic_counter \<Rightarrow> u32 \<times> atomic_counter" where
  "counter_add increment c = (c, c + increment)"

text \<open>The result says whether the counter is still positive after the subtraction.\<close>

definition counter_sub :: "u32 \<Rightarrow> atomic_counter \<Rightarrow> bool \<times> atomic_counter" where
  "counter_sub decrement c = (c \<noteq> decrement, c - decrement)"

definition counter_get :: "atomic_counter \<Rightarrow> u32" where
  "counter_get c = c"

lemma counter_sub_zero: "fst (counter_sub d c) \<longleftrightarrow> snd (counter_sub d c) \<noteq> 0"
  by (simp add: counter_sub_def)

lemma counter_sub_add: "snd (counter_sub d (snd (counter_add d c))) = c"
  by (simp add: counter_sub_def counter_add_def)

section \<open>atomic\_ptr\_t\<close>

text \<open>A pointer is an \<open>option\<close>, with \<^term>\<open>None\<close> for \<open>NULL\<close>.\<close>

definition ptr_set :: "'p option \<Rightarrow> 'p option \<Rightarrow> 'p option" where
  "ptr_set ptr p = ptr"

definition ptr_xchg :: "'p option \<Rightarrow> 'p option \<Rightarrow> 'p option \<times> 'p option" where
  "ptr_xchg val p = (p, val)"

definition ptr_cas :: "'p option \<Rightarrow> 'p option \<Rightarrow> 'p option \<Rightarrow> 'p option \<times> 'p option" where
  "ptr_cas cmp val p = (p, if p = cmp then val else p)"

end
