(* ===== verification/Msg.thy ===== *)
theory Msg
  imports Atomic
begin

text \<open>
  Messages: \<open>zmq_msg_t\<close> (\<open>zmq.h\<close>), \<open>msg_content_t\<close> (\<open>msg_content.hpp\<close>) and the
  \<open>zmq_msg_*\<close> functions of \<open>zmq.cpp\<close>.  The first part is the representation of the
  code, with the heap of reference-counted contents; the second the message as a value (its
  payload and flags), and the proof that the functions keep the values apart and neither leak
  nor release a content too early.  The components that only route messages use the value.
\<close>

section \<open>The representation\<close>

definition ZMQ_MAX_VSM_SIZE :: u64 where "ZMQ_MAX_VSM_SIZE = 30"
definition ZMQ_MSG_MORE :: byte where "ZMQ_MSG_MORE = 1"
definition ZMQ_MSG_SHARED :: byte where "ZMQ_MSG_SHARED = 128"
definition ZMQ_MSG_MASK :: byte where "ZMQ_MSG_MASK = 129"

lemmas zmq_flags = ZMQ_MSG_MORE_def ZMQ_MSG_SHARED_def ZMQ_MSG_MASK_def

text \<open>The \<open>content\<close> pointer: one of the two small integers, or a real pointer.\<close>

datatype content = ZMQ_VSM | ZMQ_DELIMITER | Content addr

record zmq_msg =
  content :: content
  flags :: byte
  vsm_size :: byte
  vsm_data :: "byte list"

text \<open>
  \<open>mc_data\<close> is the buffer the \<open>data\<close> pointer leads to, \<open>mc_ffn\<close> the user's
  deallocation function (\<^term>\<open>None\<close> when \<open>NULL\<close>) and \<open>mc_hint\<close> its argument.
\<close>

record msg_content =
  mc_data :: "byte list"
  mc_size :: u64
  mc_ffn :: "nat option"
  mc_hint :: nat
  mc_refcnt :: atomic_counter

text \<open>The contents allocated, and the calls of deallocation functions made so far.\<close>

record msg_heap =
  contents :: "addr \<rightharpoonup> msg_content"
  ffn_calls :: "(nat \<times> byte list \<times> nat) list"

section \<open>The functions of zmq.cpp\<close>

definition valid_tag :: "zmq_msg \<Rightarrow> bool" where
  "valid_tag m \<longleftrightarrow> flags m OR ZMQ_MSG_MASK = 0xff"

definition shared :: "zmq_msg \<Rightarrow> bool" where
  "shared m \<longleftrightarrow> flags m AND ZMQ_MSG_SHARED \<noteq> 0"

definition zmq_msg_init :: "zmq_msg \<Rightarrow> zmq_msg" where
  "zmq_msg_init m = m\<lparr>content := ZMQ_VSM, flags := NOT ZMQ_MSG_MASK, vsm_size := 0\<rparr>"

text \<open>
  \<open>malloc\<close> is a parameter: for a request it gives the address and the (arbitrary) bytes of
  the block, or \<^term>\<open>None\<close> when there is no memory; \<open>sizeof_content\<close> is
  \<open>sizeof (msg_content_t)\<close>, and the message data follow the structure in the block.  The
  request is a \<open>size_t\<close>, so the addition wraps.
\<close>

definition zmq_msg_init_size ::
    "u64 \<Rightarrow> (u64 \<Rightarrow> (addr \<times> byte list) option) \<Rightarrow> msg_heap \<Rightarrow> zmq_msg \<Rightarrow> u64 \<Rightarrow>
     rc \<times> msg_heap \<times> zmq_msg" where
  "zmq_msg_init_size sizeof_content malloc h m sz =
     (if sz \<le> ZMQ_MAX_VSM_SIZE then
        (OK, h, m\<lparr>content := ZMQ_VSM, flags := NOT ZMQ_MSG_MASK, vsm_size := ucast sz\<rparr>)
      else case malloc (sizeof_content + sz) of
        None \<Rightarrow> (Err ENOMEM, h, m)
      | Some (a, block) \<Rightarrow>
          (OK,
           h\<lparr>contents := (contents h)(a \<mapsto>
               \<lparr>mc_data = drop (unat sizeof_content) block, mc_size = sz, mc_ffn = None,
                mc_hint = 0, mc_refcnt = 0\<rparr>)\<rparr>,
           m\<lparr>content := Content a, flags := NOT ZMQ_MSG_MASK\<rparr>))"

definition zmq_msg_init_data ::
    "(u64 \<Rightarrow> addr option) \<Rightarrow> u64 \<Rightarrow> msg_heap \<Rightarrow> zmq_msg \<Rightarrow> byte list \<Rightarrow> u64 \<Rightarrow> nat option \<Rightarrow> nat \<Rightarrow>
     (rc \<times> msg_heap \<times> zmq_msg) option" where
  "zmq_msg_init_data malloc sizeof_content h m data sz ffn hint = do {
     a \<leftarrow> malloc sizeof_content;
     Some (OK,
       h\<lparr>contents := (contents h)(a \<mapsto>
           \<lparr>mc_data = data, mc_size = sz, mc_ffn = ffn, mc_hint = hint, mc_refcnt = 0\<rparr>)\<rparr>,
       m\<lparr>content := Content a, flags := NOT ZMQ_MSG_MASK\<rparr>)
   }"

text \<open>Deallocation of a content, with the call of its deallocation function.\<close>

definition free_content :: "addr \<Rightarrow> msg_content \<Rightarrow> msg_heap \<Rightarrow> msg_heap" where
  "free_content a c h =
     h\<lparr>contents := (contents h)(a := None),
       ffn_calls := (case mc_ffn c of None \<Rightarrow> ffn_calls h
                     | Some f \<Rightarrow> ffn_calls h @ [(f, mc_data c, mc_hint c)])\<rparr>"

text \<open>A content pointer that leads nowhere (a content already freed) makes the call fail.\<close>

definition zmq_msg_close :: "msg_heap \<Rightarrow> zmq_msg \<Rightarrow> (rc \<times> msg_heap \<times> zmq_msg) option" where
  "zmq_msg_close h m =
     (if \<not> valid_tag m then Some (Err EFAULT, h, m)
      else case content m of
        Content a \<Rightarrow> do {
          c \<leftarrow> contents h a;
          let (positive, n) = counter_sub 1 (mc_refcnt c) in
          if \<not> shared m then Some (OK, free_content a c h, m\<lparr>flags := 0\<rparr>)
          else if \<not> positive then
            Some (OK, free_content a (c\<lparr>mc_refcnt := n\<rparr>) h, m\<lparr>flags := 0\<rparr>)
          else
            Some (OK, h\<lparr>contents := (contents h)(a \<mapsto> c\<lparr>mc_refcnt := n\<rparr>)\<rparr>, m\<lparr>flags := 0\<rparr>)
        }
      | _ \<Rightarrow> Some (OK, h, m\<lparr>flags := 0\<rparr>))"

definition zmq_msg_move ::
    "msg_heap \<Rightarrow> zmq_msg \<Rightarrow> zmq_msg \<Rightarrow> (rc \<times> msg_heap \<times> zmq_msg \<times> zmq_msg) option" where
  "zmq_msg_move h dest src = do {
     (_, h, _) \<leftarrow> zmq_msg_close h dest;
     Some (OK, h, src, zmq_msg_init src)
   }"

definition zmq_msg_copy ::
    "msg_heap \<Rightarrow> zmq_msg \<Rightarrow> zmq_msg \<Rightarrow> (rc \<times> msg_heap \<times> zmq_msg \<times> zmq_msg) option" where
  "zmq_msg_copy h dest src =
     (if \<not> valid_tag dest \<or> \<not> valid_tag src then Some (Err EFAULT, h, dest, src)
      else do {
        (_, h, _) \<leftarrow> zmq_msg_close h dest;
        case content src of
          Content a \<Rightarrow> do {
            c \<leftarrow> contents h a;
            if shared src then
              Some (OK, h\<lparr>contents := (contents h)(a \<mapsto> c\<lparr>mc_refcnt := snd (counter_add 1 (mc_refcnt c))\<rparr>)\<rparr>,
                    src, src)
            else
              let src = src\<lparr>flags := flags src OR ZMQ_MSG_SHARED\<rparr> in
              Some (OK, h\<lparr>contents := (contents h)(a \<mapsto> c\<lparr>mc_refcnt := counter_set 2 (mc_refcnt c)\<rparr>)\<rparr>,
                    src, src)
          }
        | _ \<Rightarrow> Some (OK, h, src, src)
      })"

definition zmq_msg_data :: "msg_heap \<Rightarrow> zmq_msg \<Rightarrow> byte list option" where
  "zmq_msg_data h m = do {
     zmq_assert (valid_tag m);
     case content m of
       ZMQ_VSM \<Rightarrow> Some (vsm_data m)
     | ZMQ_DELIMITER \<Rightarrow> Some []
     | Content a \<Rightarrow> map_option mc_data (contents h a)
   }"

definition zmq_msg_size :: "msg_heap \<Rightarrow> zmq_msg \<Rightarrow> u64 option" where
  "zmq_msg_size h m = do {
     zmq_assert (valid_tag m);
     case content m of
       ZMQ_VSM \<Rightarrow> Some (ucast (vsm_size m))
     | ZMQ_DELIMITER \<Rightarrow> Some 0
     | Content a \<Rightarrow> map_option mc_size (contents h a)
   }"

section \<open>Ownership of the contents\<close>

text \<open>
  \<open>users a ms\<close> are the live messages that point to the content at \<open>a\<close>.  A content is
  well formed when it is allocated exactly as long as it has users, a user not marked shared is
  the only one, and the counter of a content with a shared user is the number of users.
\<close>

definition users :: "addr \<Rightarrow> zmq_msg list \<Rightarrow> zmq_msg list" where
  "users a ms = filter (\<lambda>m. content m = Content a) ms"

fun cell_wf :: "zmq_msg list \<Rightarrow> msg_content option \<Rightarrow> bool" where
  "cell_wf us None = (us = [])"
| "cell_wf us (Some c) = (us \<noteq> [] \<and>
     (\<forall>m \<in> set us. if shared m then unat (mc_refcnt c) = length us else length us = 1))"

definition heap_wf :: "msg_heap \<Rightarrow> zmq_msg list \<Rightarrow> bool" where
  "heap_wf h ms \<longleftrightarrow> (\<forall>m \<in> set ms. valid_tag m) \<and> (\<forall>a. cell_wf (users a ms) (contents h a))"

lemma users_simps [simp]:
  "users a [] = []"
  "users a (m # ms) = (if content m = Content a then m # users a ms else users a ms)"
  by (simp_all add: users_def)

lemma set_users [simp]: "set (users a ms) = {m \<in> set ms. content m = Content a}"
  by (auto simp: users_def)

lemma heap_wf_cell:
  assumes "heap_wf h ms" and "m \<in> set ms" and "content m = Content a"
  obtains c where "contents h a = Some c"
proof (cases "contents h a")
  case None
  with assms(1) have "users a ms = []"
    by (metis cell_wf.simps(1) heap_wf_def)
  with assms(2,3) show ?thesis
    by (auto simp: users_def filter_empty_conv)
next
  case (Some c)
  then show ?thesis by (rule that)
qed

text \<open>
  An operation touches one cell: the others keep their content and their users.
\<close>

lemma heap_wf_update:
  assumes "heap_wf h ms" and "\<And>m. m \<in> set ms' \<Longrightarrow> valid_tag m"
    and "\<And>b. b \<noteq> a \<Longrightarrow> contents h' b = contents h b \<and> users b ms' = users b ms"
    and "cell_wf (users a ms') (contents h' a)"
  shows "heap_wf h' ms'"
  using assms unfolding heap_wf_def by metis

lemma init_tag [simp]: "valid_tag (zmq_msg_init m)"
  by (simp add: valid_tag_def zmq_msg_init_def zmq_flags)

lemma init_content [simp]: "content (zmq_msg_init m) = ZMQ_VSM"
  by (simp add: zmq_msg_init_def)

section \<open>Messages as values\<close>

text \<open>
  The payload a message denotes, and the message as the components that route it see it.  The
  shared bit is an implementation detail of the representation (\<open>zmq.h\<close>: it is ``strictly
  speaking not a message flag''), so the view leaves it out.
\<close>

datatype body = Delimiter | Data "byte list"

record msg =
  m_body :: body
  m_flags :: byte

definition view :: "msg_heap \<Rightarrow> zmq_msg \<Rightarrow> msg" where
  "view h m =
     \<lparr>m_body = (case content m of
        ZMQ_VSM \<Rightarrow> Data (take (unat (vsm_size m)) (vsm_data m))
      | ZMQ_DELIMITER \<Rightarrow> Delimiter
      | Content a \<Rightarrow> (case contents h a of
            None \<Rightarrow> Data []
          | Some c \<Rightarrow> Data (take (unat (mc_size c)) (mc_data c)))),
      m_flags = flags m AND NOT ZMQ_MSG_SHARED\<rparr>"

lemma view_cong:
  assumes "\<And>a. content m = Content a \<Longrightarrow>
     map_option mc_data (contents h a) = map_option mc_data (contents h' a) \<and>
     map_option mc_size (contents h a) = map_option mc_size (contents h' a)"
  shows "view h m = view h' m"
  using assms by (auto simp: view_def split: content.splits option.splits)

section \<open>The functions keep the heap well formed and the values apart\<close>

lemma free_content_simps [simp]:
  "contents (free_content a c h) = (contents h)(a := None)"
  by (simp add: free_content_def)

lemma valid_tag_shared [simp]: "valid_tag (m\<lparr>flags := flags m OR ZMQ_MSG_SHARED\<rparr>) = valid_tag m"
  by (simp add: valid_tag_def zmq_flags or.assoc)

lemma shared_shared [simp]: "shared (m\<lparr>flags := flags m OR ZMQ_MSG_SHARED\<rparr>)"
  by (simp add: shared_def zmq_flags bit.conj_disj_distrib2)

lemma close_content:
  assumes wf: "heap_wf h (m # ms)" and m: "content m = Content a"
  shows "\<exists>h' m'. zmq_msg_close h m = Some (OK, h', m') \<and> heap_wf h' ms \<and>
    (\<forall>b. b \<noteq> a \<longrightarrow> contents h' b = contents h b) \<and>
    (users a ms \<noteq> [] \<longrightarrow> map_option mc_data (contents h' a) = map_option mc_data (contents h a) \<and>
       map_option mc_size (contents h' a) = map_option mc_size (contents h a))"
proof -
  obtain c where c: "contents h a = Some c"
    using heap_wf_cell [OF wf _ m] by auto
  from wf have tag: "valid_tag m" "\<And>x. x \<in> set ms \<Longrightarrow> valid_tag x"
    by (simp_all add: heap_wf_def)
  from wf have "cell_wf (users a (m # ms)) (Some c)"
    unfolding heap_wf_def c [symmetric] by blast
  with m have cell: "\<forall>x \<in> set (m # users a ms).
      if shared x then unat (mc_refcnt c) = Suc (length (users a ms)) else users a ms = []"
    by (auto split: if_splits)
  show ?thesis
  proof (cases "users a ms = []")
    case True
    with cell have "shared m \<longrightarrow> mc_refcnt c = 1"
      by (auto simp: word_unat_eq_iff)
    with True m c tag wf show ?thesis
      by (auto simp: zmq_msg_close_def counter_sub_def intro!: heap_wf_update [OF wf, where a = a])
  next
    case False
    with cell have sh: "shared m" and n: "unat (mc_refcnt c) = Suc (length (users a ms))"
      by (auto split: if_splits)
    from False n have "mc_refcnt c \<noteq> 1" by auto
    from n have dec: "unat (mc_refcnt c - 1) = length (users a ms)"
      by (simp add: unat_sub word_le_nat_alt)
    from cell False have "\<forall>x \<in> set (users a ms). shared x"
      by (auto split: if_splits)
    with False sh c tag wf m dec \<open>mc_refcnt c \<noteq> 1\<close> show ?thesis
      by (auto simp: zmq_msg_close_def counter_sub_def intro!: heap_wf_update [OF wf, where a = a])
  qed
qed

lemma close_other:
  assumes wf: "heap_wf h (m # ms)" and m: "\<And>a. content m \<noteq> Content a"
  shows "zmq_msg_close h m = Some (OK, h, m\<lparr>flags := 0\<rparr>) \<and> heap_wf h ms"
  using assms by (cases "content m") (auto simp: zmq_msg_close_def heap_wf_def)

text \<open>
  A close of a live message succeeds, leaves a well-formed heap for the other live messages, and
  keeps what they denote.
\<close>

lemma close_live:
  assumes wf: "heap_wf h (m # ms)"
  obtains h' m' where "zmq_msg_close h m = Some (OK, h', m')" and "heap_wf h' ms"
    and "\<And>x. x \<in> set ms \<Longrightarrow> view h' x = view h x"
proof (cases "content m")
  case (Content a)
  obtain h' m' where close: "zmq_msg_close h m = Some (OK, h', m')" "heap_wf h' ms"
    and frame: "\<And>b. b \<noteq> a \<Longrightarrow> contents h' b = contents h b"
    and kept: "users a ms \<noteq> [] \<longrightarrow> map_option mc_data (contents h' a) = map_option mc_data (contents h a) \<and>
       map_option mc_size (contents h' a) = map_option mc_size (contents h a)"
    using close_content [OF wf Content] by blast
  have "view h' x = view h x" if "x \<in> set ms" for x
  proof (rule view_cong)
    fix b
    assume "content x = Content b"
    with that have "users b ms \<noteq> []"
      by (auto simp: users_def filter_empty_conv)
    with kept frame show "map_option mc_data (contents h' b) = map_option mc_data (contents h b) \<and>
        map_option mc_size (contents h' b) = map_option mc_size (contents h b)"
      by (cases "b = a") auto
  qed
  with close show thesis by (rule that)
qed (use close_other [OF wf] in \<open>auto intro: that\<close>)

lemma view_shared [simp]: "view h (m\<lparr>flags := flags m OR ZMQ_MSG_SHARED\<rparr>) = view h m"
  by (auto simp: view_def zmq_flags and.assoc bit.conj_disj_distrib2 split: content.splits option.splits)

lemma view_flags:
  "content m = content m' \<Longrightarrow> vsm_size m = vsm_size m' \<Longrightarrow> vsm_data m = vsm_data m' \<Longrightarrow>
   m_body (view h m) = m_body (view h m')"
  by (auto simp: view_def split: content.splits option.splits)

text \<open>
  A copy: both messages denote what the source did, the other live messages are untouched, and
  the heap stays well formed.  The reference counter is 32 bits wide, so fewer than \<open>2 ^ 32 - 1\<close>
  messages may share the content.
\<close>

lemma copy_live:
  assumes wf: "heap_wf h (d # s # ms)" and few: "length ms < 2 ^ 32 - 2"
  obtains h' d' s' where "zmq_msg_copy h d s = Some (OK, h', d', s')"
    and "heap_wf h' (d' # s' # ms)" and "view h' d' = view h s" and "view h' s' = view h s"
    and "\<And>x. x \<in> set ms \<Longrightarrow> view h' x = view h x"
proof -
  obtain h1 d1 where cl: "zmq_msg_close h d = Some (OK, h1, d1)" and wf1: "heap_wf h1 (s # ms)"
    and v1: "\<And>x. x \<in> set (s # ms) \<Longrightarrow> view h1 x = view h x"
    using close_live [OF wf] by metis
  from wf have tags: "valid_tag d" "valid_tag s" "\<And>x. x \<in> set ms \<Longrightarrow> valid_tag x"
    by (simp_all add: heap_wf_def)
  show thesis
  proof (cases "content s")
    case (Content a)
    obtain c where c: "contents h1 a = Some c"
      using heap_wf_cell [OF wf1 _ Content] by auto
    from wf1 have "cell_wf (users a (s # ms)) (Some c)"
      unfolding heap_wf_def c [symmetric] by blast
    with Content have cell: "\<forall>x \<in> set (s # users a ms).
        if shared x then unat (mc_refcnt c) = Suc (length (users a ms)) else users a ms = []"
      by (auto split: if_splits)
    define s' where "s' = (if shared s then s else s\<lparr>flags := flags s OR ZMQ_MSG_SHARED\<rparr>)"
    define n where "n = (if shared s then mc_refcnt c + 1 else 2)"
    define h' where "h' = h1\<lparr>contents := (contents h1)(a \<mapsto> c\<lparr>mc_refcnt := n\<rparr>)\<rparr>"
    have s': "content s' = Content a" "valid_tag s'" "shared s'" "view h' s' = view h' s"
      using Content tags by (auto simp: s'_def)
    have copy: "zmq_msg_copy h d s = Some (OK, h', s', s')"
      using cl Content c tags
      by (auto simp: zmq_msg_copy_def s'_def n_def h'_def counter_add_def counter_set_def
          Let_def)
    have "length (users a ms) < 2 ^ 32 - 2"
      using few by (auto simp: users_def intro: le_less_trans [OF length_filter_le])
    then have n: "unat n = Suc (Suc (length (users a ms)))"
      using cell by (auto simp: n_def unat_word_ariths split: if_splits)
    have "shared x" if "x \<in> set (users a ms)" for x
    proof -
      from that have "users a ms \<noteq> []"
        by (metis empty_iff list.set(1))
      with cell that show ?thesis by (auto split: if_splits)
    qed
    with n s' have "cell_wf (users a (s' # s' # ms)) (contents h' a)"
      by (auto simp: h'_def)
    then have "heap_wf h' (s' # s' # ms)"
      using s' tags Content by (auto simp: h'_def intro!: heap_wf_update [OF wf1, where a = a])
    moreover have v': "view h' x = view h1 x" for x
      using c by (intro view_cong) (auto simp: h'_def)
    ultimately show thesis
      using copy s' v1 by (intro that [of h' s' s']) auto
  qed (use cl tags wf1 v1 in \<open>auto simp: zmq_msg_copy_def heap_wf_def intro!: that\<close>)
qed

text \<open>A move: the value changes hands, and the source becomes the empty message.\<close>

lemma move_live:
  assumes wf: "heap_wf h (d # s # ms)"
  obtains h' d' s' where "zmq_msg_move h d s = Some (OK, h', d', s')"
    and "heap_wf h' (d' # s' # ms)" and "view h' d' = view h s"
    and "view h' s' = \<lparr>m_body = Data [], m_flags = 126\<rparr>"
    and "\<And>x. x \<in> set ms \<Longrightarrow> view h' x = view h x"
proof -
  obtain h1 d1 where cl: "zmq_msg_close h d = Some (OK, h1, d1)" and wf1: "heap_wf h1 (s # ms)"
    and v1: "\<And>x. x \<in> set (s # ms) \<Longrightarrow> view h1 x = view h x"
    using close_live [OF wf] by metis
  have "users b (s # zmq_msg_init s # ms) = users b (s # ms)" for b
    by simp
  with wf1 have "heap_wf h1 (s # zmq_msg_init s # ms)"
    by (auto simp: heap_wf_def simp del: users_simps)
  then show thesis
    using cl v1 by (intro that [of h1 s "zmq_msg_init s"])
      (auto simp: zmq_msg_move_def view_def zmq_msg_init_def zmq_flags)
qed

text \<open>The tests the upper layers make on a message.\<close>

definition has_more :: "msg \<Rightarrow> bool" where
  "has_more m \<longleftrightarrow> m_flags m AND ZMQ_MSG_MORE \<noteq> 0"

definition is_delimiter :: "msg \<Rightarrow> bool" where
  "is_delimiter m \<longleftrightarrow> m_body m = Delimiter"

end
