(* ===== verification/Yqueue.thy ===== *)
theory Yqueue
  imports Atomic
begin

text \<open>
  \<open>yqueue.hpp\<close>: the queue that allocates its elements in chunks of \<open>N\<close> and recycles the
  last chunk it emptied.  The first part is the code, over an explicit heap of chunks; the
  second its representation invariant, the sequence of elements a queue stands for, and the
  effect of each operation on that sequence.

  An operation that dereferences \<open>NULL\<close> or a chunk that is not allocated, or frees a chunk
  twice, is \<^term>\<open>None\<close>.  \<open>malloc\<close> hands out the addresses \<open>q_malloc\<close>, \<open>q_malloc + 1\<close>,
  and so on (it returns a block that is not allocated; \<open>alloc_assert\<close> aborts when there is
  none, so that a queue that exists has got its memory).  The reuse of addresses the algorithm
  itself makes, through \<open>spare_chunk\<close>, is in the model.
\<close>

section \<open>The operations\<close>

text \<open>An array cell is \<^term>\<open>None\<close> until it is first written.\<close>

record 'a chunk =
  chunk_values :: "nat \<Rightarrow> 'a option"
  chunk_prev :: "addr option"
  chunk_next :: "addr option"

record 'a yqueue =
  q_chunks :: "addr \<rightharpoonup> 'a chunk"
  q_malloc :: addr
  begin_chunk :: addr
  begin_pos :: nat
  back_chunk :: "addr option"
  back_pos :: nat
  end_chunk :: addr
  end_pos :: nat
  spare_chunk :: "addr option"

text \<open>A pointer to an element: the chunk it is in, and its index there.\<close>

type_synonym elem_ptr = "addr \<times> nat"

definition fresh_chunk :: "addr option \<Rightarrow> 'a chunk" where
  "fresh_chunk p = \<lparr>chunk_values = (\<lambda>_. None), chunk_prev = p, chunk_next = None\<rparr>"

definition yqueue_init :: "'a yqueue" where
  "yqueue_init =
     \<lparr>q_chunks = [0 \<mapsto> fresh_chunk None], q_malloc = 1, begin_chunk = 0, begin_pos = 0,
      back_chunk = None, back_pos = 0, end_chunk = 0, end_pos = 0, spare_chunk = None\<rparr>"

definition yq_front :: "'a yqueue \<Rightarrow> elem_ptr" where
  "yq_front q = (begin_chunk q, begin_pos q)"

definition yq_back :: "'a yqueue \<Rightarrow> elem_ptr option" where
  "yq_back q = map_option (\<lambda>c. (c, back_pos q)) (back_chunk q)"

text \<open>Reading and assigning the element a pointer leads to.\<close>

definition elem_read :: "'a yqueue \<Rightarrow> elem_ptr \<Rightarrow> 'a option" where
  "elem_read q p = (case q_chunks q (fst p) of None \<Rightarrow> None | Some c \<Rightarrow> chunk_values c (snd p))"

definition elem_write :: "'a yqueue \<Rightarrow> elem_ptr \<Rightarrow> 'a \<Rightarrow> 'a yqueue option" where
  "elem_write q p x = do {
     c \<leftarrow> q_chunks q (fst p);
     Some (q\<lparr>q_chunks := (q_chunks q)(fst p \<mapsto> c\<lparr>chunk_values := (chunk_values c)(snd p \<mapsto> x)\<rparr>)\<rparr>)
   }"

definition free_chunk :: "addr \<Rightarrow> 'a yqueue \<Rightarrow> 'a yqueue option" where
  "free_chunk a q = do {
     _ \<leftarrow> q_chunks q a;
     Some (q\<lparr>q_chunks := (q_chunks q)(a := None)\<rparr>)
   }"

definition yq_push :: "nat \<Rightarrow> 'a yqueue \<Rightarrow> 'a yqueue option" where
  "yq_push N q = (
     let q = q\<lparr>back_chunk := Some (end_chunk q), back_pos := end_pos q\<rparr>;
         q = q\<lparr>end_pos := end_pos q + 1\<rparr>
     in if end_pos q \<noteq> N then Some q
        else
          let (sc, p) = ptr_xchg None (spare_chunk q); q = q\<lparr>spare_chunk := p\<rparr>; e = end_chunk q
          in do {
            ec \<leftarrow> q_chunks q e;
            case sc of
              Some s \<Rightarrow> do {
                sch \<leftarrow> q_chunks q s;
                Some (q\<lparr>q_chunks := (q_chunks q)(e \<mapsto> ec\<lparr>chunk_next := Some s\<rparr>,
                                                  s \<mapsto> sch\<lparr>chunk_prev := Some e\<rparr>),
                        end_chunk := s, end_pos := 0\<rparr>)
              }
            | None \<Rightarrow>
                let a = q_malloc q in
                Some (q\<lparr>q_chunks := (q_chunks q)(e \<mapsto> ec\<lparr>chunk_next := Some a\<rparr>,
                                                  a \<mapsto> fresh_chunk (Some e)),
                        q_malloc := a + 1, end_chunk := a, end_pos := 0\<rparr>)
          })"

text \<open>The two halves of \<open>unpush\<close>: move \<open>back\<close>, then \<open>end\<close>, one position backwards.\<close>

definition unpush_back :: "nat \<Rightarrow> 'a yqueue \<Rightarrow> 'a yqueue option" where
  "unpush_back N q =
     (if back_pos q \<noteq> 0 then Some (q\<lparr>back_pos := back_pos q - 1\<rparr>)
      else do {
        b \<leftarrow> back_chunk q;
        bc \<leftarrow> q_chunks q b;
        Some (q\<lparr>back_pos := N - 1, back_chunk := chunk_prev bc\<rparr>)
      })"

definition unpush_end :: "nat \<Rightarrow> 'a yqueue \<Rightarrow> 'a yqueue option" where
  "unpush_end N q =
     (if end_pos q \<noteq> 0 then Some (q\<lparr>end_pos := end_pos q - 1\<rparr>)
      else do {
        ec \<leftarrow> q_chunks q (end_chunk q);
        e \<leftarrow> chunk_prev ec;
        ec \<leftarrow> q_chunks q e;
        q \<leftarrow> (case chunk_next ec of None \<Rightarrow> Some q | Some x \<Rightarrow> free_chunk x q);
        Some (q\<lparr>q_chunks := (q_chunks q)(e \<mapsto> ec\<lparr>chunk_next := None\<rparr>),
                end_pos := N - 1, end_chunk := e\<rparr>)
      })"

definition yq_unpush :: "nat \<Rightarrow> 'a yqueue \<Rightarrow> 'a yqueue option" where
  "yq_unpush N q = do { q \<leftarrow> unpush_back N q; unpush_end N q }"

definition yq_pop :: "nat \<Rightarrow> 'a yqueue \<Rightarrow> 'a yqueue option" where
  "yq_pop N q = (
     let q = q\<lparr>begin_pos := begin_pos q + 1\<rparr>
     in if begin_pos q \<noteq> N then Some q
        else do {
          let ob = begin_chunk q;
          oc \<leftarrow> q_chunks q ob;
          b \<leftarrow> chunk_next oc;
          bc \<leftarrow> q_chunks q b;
          let q = q\<lparr>q_chunks := (q_chunks q)(b \<mapsto> bc\<lparr>chunk_prev := None\<rparr>),
                    begin_chunk := b, begin_pos := 0\<rparr>;
          let (cs, p) = ptr_xchg (Some ob) (spare_chunk q);
          let q = q\<lparr>spare_chunk := p\<rparr>;
          case cs of None \<Rightarrow> Some q | Some s \<Rightarrow> free_chunk s q
        })"

text \<open>The destructor: a loop along the chunks, then the spare chunk.\<close>

partial_function (option) yq_free_chunks :: "'a yqueue \<Rightarrow> 'a yqueue option" where
  "yq_free_chunks q =
     (if begin_chunk q = end_chunk q then free_chunk (begin_chunk q) q
      else do {
        let ob = begin_chunk q;
        oc \<leftarrow> q_chunks q ob;
        b \<leftarrow> chunk_next oc;
        q \<leftarrow> free_chunk ob (q\<lparr>begin_chunk := b\<rparr>);
        yq_free_chunks q
      })"

declare yq_free_chunks.simps [code]

definition yq_destroy :: "'a yqueue \<Rightarrow> 'a yqueue option" where
  "yq_destroy q = do {
     q \<leftarrow> yq_free_chunks q;
     let (sc, p) = ptr_xchg None (spare_chunk q);
     let q = q\<lparr>spare_chunk := p\<rparr>;
     case sc of None \<Rightarrow> Some q | Some s \<Rightarrow> free_chunk s q
   }"

section \<open>Representation\<close>

text \<open>
  \<open>cs\<close> are the chunks from \<open>begin_chunk\<close> to \<open>end_chunk\<close>.  Elements are counted from the
  start of the first chunk, so the queue holds those at \<open>begin_pos\<close> up to \<open>endx\<close>, and
  \<open>elem_at\<close> is the pointer to the element with a given index.
\<close>

definition elem_at :: "nat \<Rightarrow> addr list \<Rightarrow> nat \<Rightarrow> elem_ptr" where
  "elem_at N cs i = (cs ! (i div N), i mod N)"

definition endx :: "nat \<Rightarrow> 'a yqueue \<Rightarrow> addr list \<Rightarrow> nat" where
  "endx N q cs = (length cs - 1) * N + end_pos q"

definition next_of :: "(addr \<rightharpoonup> 'a chunk) \<Rightarrow> addr \<Rightarrow> addr option" where
  "next_of h a = Option.bind (h a) chunk_next"

definition prev_of :: "(addr \<rightharpoonup> 'a chunk) \<Rightarrow> addr \<Rightarrow> addr option" where
  "prev_of h a = Option.bind (h a) chunk_prev"

definition linked :: "(addr \<rightharpoonup> 'a chunk) \<Rightarrow> addr list \<Rightarrow> bool" where
  "linked h cs \<longleftrightarrow> (\<forall>i. Suc i < length cs \<longrightarrow>
     next_of h (cs ! i) = Some (cs ! Suc i) \<and> prev_of h (cs ! Suc i) = Some (cs ! i))"

definition yq_rep :: "nat \<Rightarrow> 'a yqueue \<Rightarrow> addr list \<Rightarrow> bool" where
  "yq_rep N q cs \<longleftrightarrow>
     0 < N \<and> cs \<noteq> [] \<and> distinct cs \<and> hd cs = begin_chunk q \<and> last cs = end_chunk q \<and>
     dom (q_chunks q) = set cs \<union> set_option (spare_chunk q) \<and>
     set_option (spare_chunk q) \<inter> set cs = {} \<and>
     (\<forall>a \<in> dom (q_chunks q). a < q_malloc q) \<and>
     linked (q_chunks q) cs \<and>
     begin_pos q < N \<and> end_pos q < N \<and> begin_pos q \<le> endx N q cs \<and>
     (begin_pos q < endx N q cs \<longrightarrow> yq_back q = Some (elem_at N cs (endx N q cs - 1)))"

text \<open>The elements of the queue, oldest first (\<^term>\<open>None\<close>: pushed but not yet written).\<close>

definition yq_elems :: "nat \<Rightarrow> 'a yqueue \<Rightarrow> addr list \<Rightarrow> 'a option list" where
  "yq_elems N q cs = map (\<lambda>i. elem_read q (elem_at N cs i)) [begin_pos q ..< endx N q cs]"

lemma elem_at_eq_iff:
  assumes "0 < N" and "distinct cs" and "i < N * length cs" and "j < N * length cs"
  shows "elem_at N cs i = elem_at N cs j \<longleftrightarrow> i = j"
proof
  assume "elem_at N cs i = elem_at N cs j"
  moreover from assms have "i div N < length cs" "j div N < length cs"
    by (simp_all add: less_mult_imp_div_less mult.commute)
  ultimately have "i div N = j div N" "i mod N = j mod N"
    using assms(2) by (simp_all add: elem_at_def nth_eq_iff_index_eq)
  then show "i = j" by (metis div_mult_mod_eq)
qed simp

lemma elem_at_append [simp]: "i < N * length cs \<Longrightarrow> elem_at N (cs @ ds) i = elem_at N cs i"
  by (simp add: elem_at_def nth_append less_mult_imp_div_less mult.commute)

lemma elem_at_tl: "0 < N \<Longrightarrow> N \<le> i \<Longrightarrow> cs \<noteq> [] \<Longrightarrow> elem_at N (tl cs) (i - N) = elem_at N cs i"
  by (cases cs) (auto simp: elem_at_def nth_Cons' le_div_geq le_mod_geq)

lemma endx_bound: "yq_rep N q cs \<Longrightarrow> endx N q cs < N * length cs"
  by (cases cs) (auto simp: yq_rep_def endx_def)

lemma endx_elem: "yq_rep N q cs \<Longrightarrow> elem_at N cs (endx N q cs) = (end_chunk q, end_pos q)"
  by (auto simp: yq_rep_def endx_def elem_at_def last_conv_nth)

lemma front_elem: "yq_rep N q cs \<Longrightarrow> elem_at N cs (begin_pos q) = yq_front q"
  by (auto simp: yq_rep_def elem_at_def yq_front_def hd_conv_nth)

lemma elem_at_fst: "0 < N \<Longrightarrow> i < N * length cs \<Longrightarrow> fst (elem_at N cs i) \<in> set cs"
  by (simp add: elem_at_def less_mult_imp_div_less mult.commute)

section \<open>The operations on the representation\<close>

lemma linked_snoc:
  assumes "linked h cs" and "distinct cs" and "cs \<noteq> []"
    and "\<And>x. x \<in> set cs \<Longrightarrow> x \<noteq> last cs \<Longrightarrow> next_of h' x = next_of h x"
    and "\<And>x. x \<in> set cs \<Longrightarrow> prev_of h' x = prev_of h x"
    and "next_of h' (last cs) = Some a" and "prev_of h' a = Some (last cs)"
  shows "linked h' (cs @ [a])"
  unfolding linked_def
proof (intro allI impI)
  fix i
  assume i: "Suc i < length (cs @ [a])"
  show "next_of h' ((cs @ [a]) ! i) = Some ((cs @ [a]) ! Suc i) \<and>
      prev_of h' ((cs @ [a]) ! Suc i) = Some ((cs @ [a]) ! i)"
  proof (cases "Suc i < length cs")
    case True
    then have "cs ! i \<noteq> last cs"
      using assms(2,3) by (simp add: last_conv_nth nth_eq_iff_index_eq)
    with True assms(1,4,5) show ?thesis
      by (simp add: linked_def nth_append)
  next
    case False
    with i assms(3) have "i = length cs - 1" "i < length cs" by auto
    with assms(3,6,7) show ?thesis
      by (simp add: nth_append last_conv_nth)
  qed
qed

lemma linked_tl:
  assumes "linked h cs" and "\<And>x. x \<in> set (tl cs) \<Longrightarrow> next_of h' x = next_of h x"
    and "\<And>x. x \<in> set (tl (tl cs)) \<Longrightarrow> prev_of h' x = prev_of h x"
  shows "linked h' (tl cs)"
  unfolding linked_def
proof (intro allI impI)
  fix i
  assume i: "Suc i < length (tl cs)"
  then have "tl cs ! i \<in> set (tl cs)" "tl (tl cs) ! i \<in> set (tl (tl cs))" by simp_all
  with assms i show "next_of h' (tl cs ! i) = Some (tl cs ! Suc i) \<and>
      prev_of h' (tl cs ! Suc i) = Some (tl cs ! i)"
    by (simp add: linked_def nth_tl)
qed

lemma linked_butlast:
  assumes "linked h cs" and "distinct cs"
    and "\<And>x. x \<in> set (butlast cs) \<Longrightarrow> x \<noteq> last (butlast cs) \<Longrightarrow> next_of h' x = next_of h x"
    and "\<And>x. x \<in> set (butlast cs) \<Longrightarrow> prev_of h' x = prev_of h x"
  shows "linked h' (butlast cs)"
  unfolding linked_def
proof (intro allI impI)
  fix i
  assume i: "Suc i < length (butlast cs)"
  then have "butlast cs \<noteq> []" by (metis less_zeroE list.size(3))
  with i have "butlast cs ! i \<noteq> last (butlast cs)"
    using assms(2) by (simp add: last_conv_nth nth_eq_iff_index_eq nth_butlast)
  moreover from i have "butlast cs ! i \<in> set (butlast cs)" "butlast cs ! Suc i \<in> set (butlast cs)"
    by (simp_all del: nth_butlast)
  ultimately show "next_of h' (butlast cs ! i) = Some (butlast cs ! Suc i) \<and>
      prev_of h' (butlast cs ! Suc i) = Some (butlast cs ! i)"
    using assms i by (simp add: linked_def nth_butlast)
qed

lemma init_rep: "0 < N \<Longrightarrow> yq_rep N yqueue_init [0]"
  by (auto simp: yq_rep_def yqueue_init_def endx_def linked_def)

text \<open>A push that leaves the last chunk: \<open>a\<close> becomes the chunk at the end.\<close>

lemma push_full:
  assumes rep: "yq_rep N q cs" and full: "Suc (end_pos q) = N" and a: "a \<notin> set cs"
    and h: "dom h = set cs \<union> {a}" "\<forall>x \<in> dom h. x < m"
    and l: "\<And>x. x \<in> set cs \<Longrightarrow> x \<noteq> last cs \<Longrightarrow> next_of h x = next_of (q_chunks q) x"
      "\<And>x. x \<in> set cs \<Longrightarrow> prev_of h x = prev_of (q_chunks q) x"
      "next_of h (last cs) = Some a" "prev_of h a = Some (last cs)"
    and q': "q' = q\<lparr>back_chunk := Some (end_chunk q), back_pos := end_pos q, end_pos := 0,
       q_chunks := h, q_malloc := m, end_chunk := a, spare_chunk := None\<rparr>"
  shows "yq_rep N q' (cs @ [a]) \<and> endx N q' (cs @ [a]) = Suc (endx N q cs) \<and>
    yq_back q' = Some (elem_at N cs (endx N q cs))"
proof -
  from rep have ne: "0 < N" "cs \<noteq> []" by (auto simp: yq_rep_def)
  have ex: "endx N q' (cs @ [a]) = Suc (endx N q cs)"
    using ne full unfolding q' endx_def
    by (cases cs) (auto simp: algebra_simps)
  have bk: "yq_back q' = Some (elem_at N cs (endx N q cs))"
    using endx_elem [OF rep] by (simp add: yq_back_def q')
  have "linked h (cs @ [a])"
    using rep l by (intro linked_snoc [of "q_chunks q"]) (auto simp: yq_rep_def)
  then have "yq_rep N q' (cs @ [a])"
    using rep a h ex bk endx_bound [OF rep] by (auto simp: yq_rep_def q')
  with ex bk show ?thesis by simp
qed

lemma push_rep:
  assumes rep: "yq_rep N q cs"
  obtains q' ds where "yq_push N q = Some q'" and "yq_rep N q' (cs @ ds)"
    and "endx N q' (cs @ ds) = Suc (endx N q cs)"
    and "yq_back q' = Some (elem_at N cs (endx N q cs))"
    and "yq_front q' = yq_front q"
    and "\<And>p. fst p \<in> set cs \<Longrightarrow> elem_read q' p = elem_read q p"
proof (cases "Suc (end_pos q) = N")
  case False
  let ?q = "q\<lparr>back_chunk := Some (end_chunk q), back_pos := end_pos q, end_pos := Suc (end_pos q)\<rparr>"
  have "yq_push N q = Some ?q"
    using False by (simp add: yq_push_def Let_def)
  moreover have bk: "yq_back ?q = Some (elem_at N cs (endx N q cs))"
    using endx_elem [OF rep] by (simp add: yq_back_def)
  moreover have "endx N ?q cs = Suc (endx N q cs)"
    by (simp add: endx_def)
  moreover from rep False bk have "yq_rep N ?q cs"
    by (auto simp: yq_rep_def endx_def yq_back_def)
  ultimately show thesis
    by (intro that [of ?q "[]"]) (auto simp: elem_read_def yq_front_def)
next
  case full: True
  from rep have e: "end_chunk q \<in> dom (q_chunks q)" "last cs = end_chunk q" "last cs \<in> set cs"
    by (auto simp: yq_rep_def dest: last_in_set)
  then obtain ec where ec: "q_chunks q (end_chunk q) = Some ec" by auto
  show thesis
  proof (cases "spare_chunk q")
    case None
    let ?a = "q_malloc q"
    let ?h = "(q_chunks q)(end_chunk q \<mapsto> ec\<lparr>chunk_next := Some ?a\<rparr>, ?a \<mapsto> fresh_chunk (Some (end_chunk q)))"
    let ?q = "q\<lparr>back_chunk := Some (end_chunk q), back_pos := end_pos q, end_pos := 0,
       q_chunks := ?h, q_malloc := Suc ?a, end_chunk := ?a, spare_chunk := None\<rparr>"
    have dom: "dom (q_chunks q) = set cs" "\<forall>x \<in> set cs. x < ?a"
      using rep None by (simp_all add: yq_rep_def)
    then have fresh: "?a \<notin> set cs" "?a \<noteq> end_chunk q"
      using e by auto
    have push: "yq_push N q = Some ?q"
      using None full ec by (simp add: yq_push_def Let_def ptr_xchg_def)
    have "yq_rep N ?q (cs @ [?a]) \<and> endx N ?q (cs @ [?a]) = Suc (endx N q cs) \<and>
        yq_back ?q = Some (elem_at N cs (endx N q cs))"
      using dom fresh e ec
      by (intro push_full [OF rep full fresh(1), where h = ?h and m = "Suc ?a"])
        (auto simp: next_of_def prev_of_def fresh_chunk_def less_Suc_eq)
    moreover have "elem_read ?q p = elem_read q p" if "fst p \<in> set cs" for p
      using that fresh ec by (auto simp: elem_read_def split: option.splits)
    ultimately show thesis
      using push by (intro that [of ?q "[?a]"]) (auto simp: yq_front_def)
  next
    case (Some s)
    have dom: "dom (q_chunks q) = insert s (set cs)" "\<forall>x \<in> insert s (set cs). x < q_malloc q"
      and s: "s \<notin> set cs"
      using rep Some by (auto simp: yq_rep_def)
    then obtain sc where sc: "q_chunks q s = Some sc" by blast
    let ?h = "(q_chunks q)(end_chunk q \<mapsto> ec\<lparr>chunk_next := Some s\<rparr>, s \<mapsto> sc\<lparr>chunk_prev := Some (end_chunk q)\<rparr>)"
    let ?q = "q\<lparr>back_chunk := Some (end_chunk q), back_pos := end_pos q, end_pos := 0,
       q_chunks := ?h, q_malloc := q_malloc q, end_chunk := s, spare_chunk := None\<rparr>"
    have push: "yq_push N q = Some ?q"
      using Some full ec sc by (simp add: yq_push_def Let_def ptr_xchg_def)
    have se: "s \<noteq> end_chunk q" using s e by auto
    have "yq_rep N ?q (cs @ [s]) \<and> endx N ?q (cs @ [s]) = Suc (endx N q cs) \<and>
        yq_back ?q = Some (elem_at N cs (endx N q cs))"
      using dom s se sc e ec
      by (intro push_full [OF rep full s, where h = ?h and m = "q_malloc q"])
        (auto simp: next_of_def prev_of_def)
    moreover have "elem_read ?q p = elem_read q p" if "fst p \<in> set cs" for p
      using that s ec by (auto simp: elem_read_def split: option.splits)
    ultimately show thesis
      using push by (intro that [of ?q "[s]"]) (auto simp: yq_front_def)
  qed
qed
lemma elem_at_pred:
  "0 < N \<Longrightarrow> 0 < x \<Longrightarrow> elem_at N cs (x - Suc 0) =
     (if x mod N \<noteq> 0 then (cs ! (x div N), x mod N - Suc 0) else (cs ! (x div N - Suc 0), N - Suc 0))"
  by (cases x) (auto simp: elem_at_def div_Suc mod_Suc split: if_splits)

lemma linkedD:
  "linked h cs \<Longrightarrow> Suc i < length cs \<Longrightarrow>
   next_of h (cs ! i) = Some (cs ! Suc i) \<and> prev_of h (cs ! Suc i) = Some (cs ! i)"
  by (simp add: linked_def)

lemma linked_prev:
  assumes "yq_rep N q cs" and "0 < i" and "i < length cs"
  shows "prev_of (q_chunks q) (cs ! i) = Some (cs ! (i - 1))"
  using assms by (cases i) (auto simp: yq_rep_def linked_def)

lemma rep_chunk:
  assumes "yq_rep N q cs" and "i < length cs"
  obtains c where "q_chunks q (cs ! i) = Some c"
proof -
  from assms have "cs ! i \<in> dom (q_chunks q)" by (simp add: yq_rep_def)
  then show thesis by (auto intro: that)
qed

lemma unpush_back_step:
  assumes rep: "yq_rep N q cs" and bk: "yq_back q = Some (elem_at N cs x)" and x: "x < N * length cs"
  obtains b p where "unpush_back N q = Some (q\<lparr>back_pos := p, back_chunk := b\<rparr>)"
    and "0 < x \<longrightarrow> map_option (\<lambda>c. (c, p)) b = Some (elem_at N cs (x - 1))"
proof -
  from rep have N: "0 < N" by (simp add: yq_rep_def)
  from bk have b: "back_chunk q = Some (cs ! (x div N))" and p: "back_pos q = x mod N"
    by (auto simp: yq_back_def elem_at_def)
  from x have xd: "x div N < length cs"
    by (simp add: less_mult_imp_div_less mult.commute)
  then obtain c where c: "q_chunks q (cs ! (x div N)) = Some c"
    using rep by (elim rep_chunk)
  show thesis
  proof (cases "x mod N = 0")
    case False
    have "unpush_back N q = Some (q\<lparr>back_pos := x mod N - 1, back_chunk := back_chunk q\<rparr>)"
      using False p by (simp add: unpush_back_def)
    then show thesis
      using False b N by (intro that) (auto simp: elem_at_pred)
  next
    case True
    have "unpush_back N q = Some (q\<lparr>back_pos := N - 1, back_chunk := chunk_prev c\<rparr>)"
      using True p b c by (simp add: unpush_back_def)
    moreover have "chunk_prev c = Some (cs ! (x div N - 1))" if "0 < x"
    proof -
      from that True have "0 < x div N" using N by (metis div_greater_zero_iff mod_less neq0_conv not_le)
      with linked_prev [OF rep _ xd] c show ?thesis by (simp add: prev_of_def)
    qed
    ultimately show thesis
      using True N by (intro that) (auto simp: elem_at_pred)
  qed
qed

lemma unpush_rep:
  assumes rep: "yq_rep N q cs" and ne: "begin_pos q < endx N q cs"
  obtains q' cs' ds where "yq_unpush N q = Some q'" and "cs = cs' @ ds" and "yq_rep N q' cs'"
    and "endx N q cs = Suc (endx N q' cs')" and "yq_front q' = yq_front q"
    and "\<And>p. fst p \<in> set cs' \<Longrightarrow> elem_read q' p = elem_read q p"
proof -
  from rep ne have bk: "yq_back q = Some (elem_at N cs (endx N q cs - 1))"
    by (simp add: yq_rep_def)
  define x where "x = endx N q cs - 1"
  from ne have x: "endx N q cs = Suc x" by (simp add: x_def)
  obtain b p where q1: "unpush_back N q = Some (q\<lparr>back_pos := p, back_chunk := b\<rparr>)"
    and b: "0 < x \<longrightarrow> map_option (\<lambda>c. (c, p)) b = Some (elem_at N cs (x - 1))"
    using unpush_back_step [OF rep bk] endx_bound [OF rep] unfolding x_def
    by (metis less_imp_diff_less)
  let ?q1 = "q\<lparr>back_pos := p, back_chunk := b\<rparr>"
  show thesis
  proof (cases "end_pos q = 0")
    case False
    let ?q = "?q1\<lparr>end_pos := end_pos q - 1\<rparr>"
    have "yq_unpush N q = Some ?q"
      using q1 False by (simp add: yq_unpush_def unpush_end_def)
    moreover have ex: "endx N ?q cs = x"
      using False x by (simp add: endx_def)
    moreover have "yq_rep N ?q cs"
      using rep ne b x unfolding yq_rep_def ex by (auto simp: yq_back_def)
    ultimately show thesis
      using x by (intro that [of ?q cs "[]"]) (auto simp: yq_front_def elem_read_def)
  next
    case True
    from rep have cs0: "cs \<noteq> []" "distinct cs" "end_chunk q = last cs" "begin_chunk q = hd cs" "0 < N"
      by (auto simp: yq_rep_def)
    have "length cs \<noteq> 1"
      using True ne by (auto simp: endx_def)
    with cs0(1) obtain zs e l where cs: "cs = zs @ [e, l]"
      by (cases cs rule: rev_cases; cases "butlast cs" rule: rev_cases) auto
    have e: "e \<noteq> l" "e \<notin> set zs" "l \<notin> set zs" and l: "end_chunk q = l"
      using cs0 by (auto simp: cs)
    have at: "cs ! length zs = e" "cs ! Suc (length zs) = l"
      by (simp_all add: cs nth_append)
    obtain ec where ec: "q_chunks q e = Some ec"
      using rep at by (elim rep_chunk [of N q cs "length zs"]) (auto simp: cs)
    obtain lc where lc: "q_chunks q l = Some lc"
      using rep at by (elim rep_chunk [of N q cs "Suc (length zs)"]) (auto simp: cs)
    from rep have "linked (q_chunks q) cs" by (simp add: yq_rep_def)
    then have "next_of (q_chunks q) e = Some l \<and> prev_of (q_chunks q) l = Some e"
      using linkedD [of "q_chunks q" cs "length zs"] at by (simp add: cs)
    then have lk: "chunk_next ec = Some l" "chunk_prev lc = Some e"
      using ec lc by (simp_all add: next_of_def prev_of_def)
    define h where "h = (q_chunks q)(l := None, e \<mapsto> ec\<lparr>chunk_next := None\<rparr>)"
    let ?q = "?q1\<lparr>q_chunks := h, end_pos := N - 1, end_chunk := e\<rparr>"
    have un: "yq_unpush N q = Some ?q"
      using q1 True lc ec lk l
      by (simp add: yq_unpush_def unpush_end_def free_chunk_def h_def)
    have ex: "endx N ?q (zs @ [e]) = x"
      using x True cs0(5) unfolding endx_def cs by (auto simp: algebra_simps)
    have "linked h (butlast cs)"
      using rep cs0 ec by (intro linked_butlast [of "q_chunks q"])
        (auto simp: yq_rep_def h_def next_of_def prev_of_def cs butlast_append)
    moreover have "elem_at N (zs @ [e]) (x - 1) = elem_at N cs (x - 1)"
      using elem_at_append [of "x - 1" N "zs @ [e]" "[l]"] x True
      by (auto simp: endx_def cs mult.commute)
    moreover have "dom h = set (zs @ [e]) \<union> set_option (spare_chunk q)"
      using rep e by (auto simp: yq_rep_def cs h_def)
    moreover have "set_option (spare_chunk q) \<inter> set (zs @ [e]) = {}" "begin_pos q < N"
      "\<forall>a \<in> set (zs @ [e]) \<union> set_option (spare_chunk q). a < q_malloc q"
      using rep by (simp_all add: yq_rep_def cs)
    moreover have "hd (zs @ [e]) = hd cs"
      by (cases zs) (simp_all add: cs)
    ultimately have "yq_rep N ?q (zs @ [e])"
      using cs0 ne b x e unfolding yq_rep_def ex by (simp add: cs butlast_append yq_back_def)
    then show thesis
      using un x ex cs e ec by (intro that [of ?q "zs @ [e]" "[l]"])
        (auto simp: yq_front_def elem_read_def h_def)
  qed
qed
lemma pop_rep:
  assumes rep: "yq_rep N q cs" and ne: "begin_pos q < endx N q cs"
  obtains q' cs' d where "yq_pop N q = Some q'" and "yq_rep N q' cs'"
    and "begin_pos q' + d = Suc (begin_pos q)" and "endx N q' cs' + d = endx N q cs"
    and "\<And>i. i < N * length cs' \<Longrightarrow> elem_at N cs (i + d) = elem_at N cs' i"
    and "yq_back q' = yq_back q" and "set cs' \<subseteq> set cs"
    and "\<And>p. fst p \<in> set cs' \<Longrightarrow> elem_read q' p = elem_read q p"
proof (cases "Suc (begin_pos q) = N")
  case False
  let ?q = "q\<lparr>begin_pos := Suc (begin_pos q)\<rparr>"
  have "yq_pop N q = Some ?q"
    using False by (simp add: yq_pop_def Let_def)
  moreover have "yq_rep N ?q cs"
    using rep ne False by (auto simp: yq_rep_def endx_def yq_back_def)
  ultimately show thesis
    by (intro that [of ?q cs 0]) (auto simp: endx_def yq_back_def elem_read_def)
next
  case True
  from rep have cs0: "cs \<noteq> []" "distinct cs" "last cs = end_chunk q" "begin_chunk q = hd cs" "0 < N"
    "end_pos q < N"
    by (auto simp: yq_rep_def)
  have "length cs \<noteq> 1"
    using True ne cs0 by (auto simp: endx_def)
  with cs0(1) obtain ob b zs where cs: "cs = ob # b # zs"
    by (cases cs; cases "tl cs") auto
  have ob: "ob \<noteq> b" "ob \<notin> set zs" "b \<notin> set zs" and o1: "begin_chunk q = ob"
    using cs0 by (auto simp: cs)
  obtain oc where oc: "q_chunks q ob = Some oc"
    using rep by (elim rep_chunk [of N q cs 0]) (auto simp: cs)
  obtain bc where bc: "q_chunks q b = Some bc"
    using rep by (elim rep_chunk [of N q cs 1]) (auto simp: cs)
  from rep have lkd: "linked (q_chunks q) cs" by (simp add: yq_rep_def)
  then have lk: "chunk_next oc = Some b"
    using linkedD [of "q_chunks q" cs 0] oc by (simp add: cs next_of_def)
  define h where "h = (q_chunks q)(b \<mapsto> bc\<lparr>chunk_prev := None\<rparr>)"
  define h' where "h' = (case spare_chunk q of None \<Rightarrow> h | Some s \<Rightarrow> h(s := None))"
  from rep have spare: "dom (q_chunks q) = set cs \<union> set_option (spare_chunk q)"
    "set_option (spare_chunk q) \<inter> set cs = {}" "\<forall>a \<in> dom (q_chunks q). a < q_malloc q"
    by (auto simp: yq_rep_def)
  let ?q = "q\<lparr>q_chunks := h', begin_chunk := b, begin_pos := 0, spare_chunk := Some ob\<rparr>"
  have pop: "yq_pop N q = Some ?q"
  proof (cases "spare_chunk q")
    case None
    then show ?thesis
      using True oc lk bc o1 by (simp add: yq_pop_def Let_def ptr_xchg_def h_def h'_def)
  next
    case (Some s)
    with spare obtain sc where "q_chunks q s = Some sc" "s \<noteq> b" by (auto simp: cs)
    with Some show ?thesis
      using True oc lk bc o1 by (simp add: yq_pop_def Let_def ptr_xchg_def h_def h'_def free_chunk_def)
  qed
  have ex: "endx N ?q (b # zs) + N = endx N q cs"
    by (simp add: endx_def cs)
  have kept: "h' x = q_chunks q x" if "x \<in> set zs" for x
    using that spare ob by (auto simp: h'_def h_def cs split: option.splits)
  have hb: "h' b = Some (bc\<lparr>chunk_prev := None\<rparr>)"
    using spare by (auto simp: h'_def h_def cs split: option.splits)
  have dom: "dom h' = set cs"
    using spare bc by (auto simp: h'_def h_def cs split: option.splits)
  have "linked h' (tl cs)"
    using lkd by (intro linked_tl [of "q_chunks q"])
      (auto simp: next_of_def prev_of_def kept hb bc cs)
  moreover have shift: "elem_at N cs (i + N) = elem_at N (b # zs) i" for i
    using elem_at_tl [of N "i + N" cs] cs0 by (simp add: cs)
  moreover have "elem_at N cs (endx N q cs - 1) = elem_at N (b # zs) (endx N ?q (b # zs) - 1)"
    if "0 < endx N ?q (b # zs)"
    using shift [of "endx N ?q (b # zs) - 1"] that unfolding ex [symmetric]
    by (metis (no_types) add.commute add_diff_assoc le_eq_less_or_eq less_one not_le)
  ultimately have "yq_rep N ?q (b # zs)"
    using rep ob dom spare ne
    unfolding yq_rep_def by (auto simp: cs yq_back_def)
  moreover have "elem_read ?q p = elem_read q p" if "fst p \<in> set (b # zs)" for p
    using that hb bc by (auto simp: elem_read_def kept)
  ultimately show thesis
    using pop ex shift True by (intro that [of ?q "b # zs" N]) (auto simp: yq_back_def cs)
qed

lemma free_chunks_rep:
  assumes "linked (q_chunks q) cs" and "cs \<noteq> []" and "distinct cs"
    and "hd cs = begin_chunk q" and "last cs = end_chunk q" and "set cs \<subseteq> dom (q_chunks q)"
  shows "\<exists>q'. yq_free_chunks q = Some q' \<and> q_chunks q' = (q_chunks q) |` (- set cs) \<and>
    spare_chunk q' = spare_chunk q"
  using assms
proof (induction cs arbitrary: q)
  case Nil
  then show ?case by simp
next
  case (Cons a cs)
  then obtain c where c: "q_chunks q a = Some c" by auto
  show ?case
  proof (cases cs)
    case Nil
    with Cons.prems c show ?thesis
      by (auto simp: yq_free_chunks.simps free_chunk_def restrict_map_def fun_eq_iff)
  next
    case (Cons b ds)
    let ?q = "q\<lparr>begin_chunk := b, q_chunks := (q_chunks q)(a := None)\<rparr>"
    have ne: "cs \<noteq> []" using Cons by simp
    with Cons.prems have "a \<notin> set cs" "end_chunk q = last cs" by simp_all
    moreover from ne have "last cs \<in> set cs" by simp
    ultimately
    have ab: "a \<noteq> last cs" "a \<notin> set cs" "a \<noteq> end_chunk q"
      by metis+
    have "chunk_next c = Some b"
      using linkedD [OF Cons.prems(1), of 0] c by (simp add: Cons next_of_def)
    then have "yq_free_chunks q = yq_free_chunks ?q"
      using ab c Cons.prems(4,5) by (subst yq_free_chunks.simps) (auto simp: free_chunk_def)
    moreover have lk: "linked ((q_chunks q)(a := None)) (tl (a # cs))"
      using Cons.prems(1) ab by (intro linked_tl [of "q_chunks q"])
        (auto simp: next_of_def prev_of_def Cons)
    moreover have "(q_chunks q)(a := None) |` (- set cs) = q_chunks q |` (- set (a # cs))"
      by (auto simp: restrict_map_def fun_eq_iff)
    moreover have "\<exists>q'. yq_free_chunks ?q = Some q' \<and> q_chunks q' = (q_chunks ?q) |` (- set cs) \<and>
        spare_chunk q' = spare_chunk ?q"
    proof (rule Cons.IH)
      show "linked (q_chunks ?q) cs" "set cs \<subseteq> dom (q_chunks ?q)"
        using lk Cons.prems(6) ab by auto
      show "cs \<noteq> []" "distinct cs" "hd cs = begin_chunk ?q" "last cs = end_chunk ?q"
        using Cons.prems Cons by simp_all
    qed
    ultimately show ?thesis by simp
  qed
qed

text \<open>The destructor returns and gives every chunk back.\<close>

lemma destroy_rep:
  assumes rep: "yq_rep N q cs"
  shows "\<exists>q'. yq_destroy q = Some q' \<and> q_chunks q' = Map.empty"
proof -
  from rep have dom: "dom (q_chunks q) = set cs \<union> set_option (spare_chunk q)"
    "set_option (spare_chunk q) \<inter> set cs = {}" by (simp_all add: yq_rep_def)
  obtain q1 where q1: "yq_free_chunks q = Some q1" "q_chunks q1 = (q_chunks q) |` (- set cs)"
    "spare_chunk q1 = spare_chunk q"
    using free_chunks_rep [of q cs] rep by (auto simp: yq_rep_def)
  show ?thesis
  proof (cases "spare_chunk q")
    case None
    with dom q1 show ?thesis
      by (auto simp: yq_destroy_def ptr_xchg_def restrict_map_def fun_eq_iff domIff)
  next
    case (Some s)
    with dom have "q_chunks q1 s \<noteq> None" "\<And>x. x \<noteq> s \<Longrightarrow> q_chunks q1 x = None"
      using q1 by (auto simp: restrict_map_def domIff)
    with Some q1 show ?thesis
      by (auto simp: yq_destroy_def ptr_xchg_def free_chunk_def fun_eq_iff)
  qed
qed

end
