(* ===== verification/Ypipe.thy ===== *)
theory Ypipe
  imports Yqueue
begin

text \<open>
  \<open>ypipe.hpp\<close>: the lock-free pipe between one writer and one reader thread.  The first part
  is the code over the chunked queue; each operation is one step, and the interaction of the
  two threads is through \<open>c\<close> only, which \<open>flush\<close> and \<open>check_read\<close> touch with one
  compare-and-swap.  The second part is the abstract pipe, a record of four fields, the
  interface \<open>message_pipe\<close> the upper layers rely on, and the proof that the code provides it.
\<close>

section \<open>The operations\<close>

record 'a ypipe =
  yp_queue :: "'a yqueue"
  yp_w :: "elem_ptr option"
  yp_r :: "elem_ptr option"
  yp_f :: "elem_ptr option"
  yp_c :: "elem_ptr option"

definition ypipe_init :: "nat \<Rightarrow> 'a ypipe option" where
  "ypipe_init N = do {
     q \<leftarrow> yq_push N yqueue_init;
     let b = yq_back q;
     Some \<lparr>yp_queue = q, yp_w = b, yp_r = b, yp_f = b, yp_c = ptr_set b None\<rparr>
   }"

definition ypipe_write :: "nat \<Rightarrow> 'a \<Rightarrow> bool \<Rightarrow> 'a ypipe \<Rightarrow> 'a ypipe option" where
  "ypipe_write N value incomplete y = do {
     b \<leftarrow> yq_back (yp_queue y);
     q \<leftarrow> elem_write (yp_queue y) b value;
     q \<leftarrow> yq_push N q;
     let y = y\<lparr>yp_queue := q\<rparr>;
     Some (if \<not> incomplete then y\<lparr>yp_f := yq_back q\<rparr> else y)
   }"

text \<open>The value unwritten, or \<^term>\<open>None\<close> where the code returns false.\<close>

definition ypipe_unwrite :: "nat \<Rightarrow> 'a ypipe \<Rightarrow> ('a option \<times> 'a ypipe) option" where
  "ypipe_unwrite N y =
     (if yp_f y = yq_back (yp_queue y) then Some (None, y)
      else do {
        q \<leftarrow> yq_unpush N (yp_queue y);
        b \<leftarrow> yq_back q;
        v \<leftarrow> elem_read q b;
        Some (Some v, y\<lparr>yp_queue := q\<rparr>)
      })"

definition ypipe_flush :: "'a ypipe \<Rightarrow> bool \<times> 'a ypipe" where
  "ypipe_flush y =
     (if yp_w y = yp_f y then (True, y)
      else
        let (old, c) = ptr_cas (yp_w y) (yp_f y) (yp_c y); y = y\<lparr>yp_c := c\<rparr>
        in if old \<noteq> yp_w y then (False, y\<lparr>yp_c := ptr_set (yp_f y) (yp_c y), yp_w := yp_f y\<rparr>)
           else (True, y\<lparr>yp_w := yp_f y\<rparr>))"

definition ypipe_check_read :: "'a ypipe \<Rightarrow> bool \<times> 'a ypipe" where
  "ypipe_check_read y =
     (if Some (yq_front (yp_queue y)) \<noteq> yp_r y \<and> yp_r y \<noteq> None then (True, y)
      else
        let (old, c) = ptr_cas (Some (yq_front (yp_queue y))) None (yp_c y);
            y = y\<lparr>yp_c := c, yp_r := old\<rparr>
        in if Some (yq_front (yp_queue y)) = yp_r y \<or> yp_r y = None then (False, y)
           else (True, y))"

definition ypipe_read :: "nat \<Rightarrow> 'a ypipe \<Rightarrow> ('a option \<times> 'a ypipe) option" where
  "ypipe_read N y = (
     let (ok, y) = ypipe_check_read y
     in if \<not> ok then Some (None, y)
        else do {
          v \<leftarrow> elem_read (yp_queue y) (yq_front (yp_queue y));
          q \<leftarrow> yq_pop N (yp_queue y);
          Some (Some v, y\<lparr>yp_queue := q\<rparr>)
        })"

definition ypipe_probe :: "('a \<Rightarrow> bool) \<Rightarrow> 'a ypipe \<Rightarrow> (bool \<times> 'a ypipe) option" where
  "ypipe_probe fn y = (
     let (rc, y) = ypipe_check_read y
     in do {
          zmq_assert rc;
          v \<leftarrow> elem_read (yp_queue y) (yq_front (yp_queue y));
          Some (fn v, y)
        })"

section \<open>The abstract pipe\<close>

text \<open>
  What the two threads see: the items the reader may read, the complete items written but not
  flushed, the incomplete ones, and whether the reader is asleep.
\<close>

record 'a apipe =
  ap_avail :: "'a list"
  ap_pend :: "'a list"
  ap_inc :: "'a list"
  ap_asleep :: bool

definition ap_init :: "'a apipe" where
  "ap_init = \<lparr>ap_avail = [], ap_pend = [], ap_inc = [], ap_asleep = False\<rparr>"

definition ap_write :: "'a \<Rightarrow> bool \<Rightarrow> 'a apipe \<Rightarrow> 'a apipe" where
  "ap_write v incomplete p =
     (if incomplete then p\<lparr>ap_inc := ap_inc p @ [v]\<rparr>
      else p\<lparr>ap_pend := ap_pend p @ ap_inc p @ [v], ap_inc := []\<rparr>)"

definition ap_unwrite :: "'a apipe \<Rightarrow> 'a option \<times> 'a apipe" where
  "ap_unwrite p =
     (if ap_inc p = [] then (None, p)
      else (Some (last (ap_inc p)), p\<lparr>ap_inc := butlast (ap_inc p)\<rparr>))"

definition ap_flush :: "'a apipe \<Rightarrow> bool \<times> 'a apipe" where
  "ap_flush p =
     (if ap_pend p = [] then (True, p)
      else (\<not> ap_asleep p,
            p\<lparr>ap_avail := ap_avail p @ ap_pend p, ap_pend := [], ap_asleep := False\<rparr>))"

definition ap_check_read :: "'a apipe \<Rightarrow> bool \<times> 'a apipe" where
  "ap_check_read p = (if ap_avail p = [] then (False, p\<lparr>ap_asleep := True\<rparr>) else (True, p))"

definition ap_read :: "'a apipe \<Rightarrow> 'a option \<times> 'a apipe" where
  "ap_read p =
     (case ap_avail p of
        [] \<Rightarrow> (None, p\<lparr>ap_asleep := True\<rparr>)
      | v # vs \<Rightarrow> (Some v, p\<lparr>ap_avail := vs\<rparr>))"

section \<open>The code implements the abstract pipe\<close>

text \<open>The elements with the indices from \<open>i\<close> to \<open>j\<close>, as the chunks hold them.\<close>

definition slice :: "nat \<Rightarrow> 'a yqueue \<Rightarrow> addr list \<Rightarrow> nat \<Rightarrow> nat \<Rightarrow> 'a option list" where
  "slice N q cs i j = map (\<lambda>k. elem_read q (elem_at N cs k)) [i..<j]"

text \<open>
  \<open>yp_at N y cs wi fi p\<close>: \<open>y\<close> stands for \<open>p\<close>, with the chunks \<open>cs\<close>, \<open>w\<close> at the index
  \<open>wi\<close> and \<open>f\<close> at \<open>fi\<close>.  The element before the end of the queue is the terminator.
\<close>

definition yp_at :: "nat \<Rightarrow> 'a ypipe \<Rightarrow> addr list \<Rightarrow> nat \<Rightarrow> nat \<Rightarrow> 'a apipe \<Rightarrow> bool" where
  "yp_at N y cs wi fi p \<longleftrightarrow>
     yq_rep N (yp_queue y) cs \<and>
     begin_pos (yp_queue y) \<le> wi \<and> wi \<le> fi \<and> fi < endx N (yp_queue y) cs \<and>
     yp_w y = Some (elem_at N cs wi) \<and> yp_f y = Some (elem_at N cs fi) \<and>
     (yp_r y \<noteq> None \<longrightarrow>
        (\<exists>ri. begin_pos (yp_queue y) \<le> ri \<and> ri \<le> wi \<and> yp_r y = Some (elem_at N cs ri))) \<and>
     (if ap_asleep p then yp_c y = None \<and> wi = begin_pos (yp_queue y) else yp_c y = yp_w y) \<and>
     slice N (yp_queue y) cs (begin_pos (yp_queue y)) wi = map Some (ap_avail p) \<and>
     slice N (yp_queue y) cs wi fi = map Some (ap_pend p) \<and>
     slice N (yp_queue y) cs fi (endx N (yp_queue y) cs - 1) = map Some (ap_inc p)"

definition yp_rep :: "nat \<Rightarrow> 'a ypipe \<Rightarrow> 'a apipe \<Rightarrow> bool" where
  "yp_rep N y p \<longleftrightarrow> (\<exists>cs wi fi. yp_at N y cs wi fi p)"

lemma rep_chunks_update:
  "yq_rep N q cs \<Longrightarrow> dom h = dom (q_chunks q) \<Longrightarrow> linked h cs \<Longrightarrow> yq_rep N (q\<lparr>q_chunks := h\<rparr>) cs"
  by (simp add: yq_rep_def endx_def yq_back_def)

lemma elem_write_rep:
  assumes rep: "yq_rep N q cs" and p: "fst p \<in> set cs"
  obtains q' where "elem_write q p v = Some q'" and "yq_rep N q' cs" and "endx N q' cs = endx N q cs"
    and "yq_back q' = yq_back q" and "yq_front q' = yq_front q"
    and "\<And>p'. elem_read q' p' = (if p' = p then Some v else elem_read q p')"
proof -
  from rep p have "fst p \<in> dom (q_chunks q)" by (simp add: yq_rep_def)
  then obtain c where c: "q_chunks q (fst p) = Some c" by auto
  let ?h = "(q_chunks q)(fst p \<mapsto> c\<lparr>chunk_values := (chunk_values c)(snd p \<mapsto> v)\<rparr>)"
  let ?q = "q\<lparr>q_chunks := ?h\<rparr>"
  have "next_of ?h = next_of (q_chunks q)" and "prev_of ?h = prev_of (q_chunks q)"
    using c by (simp_all add: fun_eq_iff next_of_def prev_of_def)
  then have "linked ?h cs" using rep by (simp add: linked_def yq_rep_def)
  moreover have "dom ?h = dom (q_chunks q)" using c by auto
  ultimately have "yq_rep N ?q cs" using rep by (intro rep_chunks_update)
  moreover have "elem_read ?q p' = (if p' = p then Some v else elem_read q p')" for p'
    using c by (cases p'; cases p) (auto simp: elem_read_def)
  ultimately show thesis
    using c by (intro that [of ?q]) (simp_all add: elem_write_def endx_def yq_back_def yq_front_def)
qed

lemma slice_cong:
  "(\<And>k. i \<le> k \<Longrightarrow> k < j \<Longrightarrow> elem_read q' (elem_at N cs' k) = elem_read q (elem_at N cs k)) \<Longrightarrow>
   slice N q' cs' i j = slice N q cs i j"
  by (simp add: slice_def)

lemma slice_shift:
  "(\<And>k. i \<le> k \<Longrightarrow> k < j \<Longrightarrow> elem_read q' (elem_at N cs' k) = elem_read q (elem_at N cs (k + d))) \<Longrightarrow>
   slice N q' cs' i j = slice N q cs (i + d) (j + d)"
  unfolding slice_def by (rule nth_equalityI) (simp_all add: ac_simps)

lemma slice_append:
  "i \<le> j \<Longrightarrow> j \<le> k \<Longrightarrow> slice N q cs i k = slice N q cs i j @ slice N q cs j k"
  unfolding slice_def by (metis map_append upt_add_eq_append le_Suc_ex)

lemma slice_snoc:
  "i \<le> j \<Longrightarrow> slice N q cs i (Suc j) = slice N q cs i j @ [elem_read q (elem_at N cs j)]"
  by (simp add: slice_def)

lemma slice_Cons:
  "i < j \<Longrightarrow> slice N q cs i j = elem_read q (elem_at N cs i) # slice N q cs (Suc i) j"
  by (simp add: slice_def upt_conv_Cons)

lemma slice_empty [simp]: "slice N q cs i i = []"
  by (simp add: slice_def)

lemma length_slice [simp]: "length (slice N q cs i j) = j - i"
  by (simp add: slice_def)

lemma init_ypipe_rep:
  assumes "0 < N"
  shows "\<exists>y :: 'a ypipe. ypipe_init N = Some y \<and> yp_rep N y ap_init"
proof -
  let ?i = "yqueue_init :: 'a yqueue"
  have rep: "yq_rep N ?i [0]" using assms by (rule init_rep)
  obtain q ds where q: "yq_push N yqueue_init = Some (q :: 'a yqueue)" "yq_rep N q ([0] @ ds)"
    "endx N q ([0] @ ds) = Suc (endx N ?i [0])" "yq_back q = Some (elem_at N [0] (endx N ?i [0]))"
    "yq_front q = yq_front ?i"
    by (rule push_rep [OF rep]) blast
  have e: "endx N ?i [0] = 0" by (simp add: endx_def yqueue_init_def)
  from q(5) have b: "begin_pos q = 0" by (simp add: yq_front_def yqueue_init_def)
  let ?y = "\<lparr>yp_queue = q, yp_w = yq_back q, yp_r = yq_back q, yp_f = yq_back q, yp_c = yq_back q\<rparr>"
  have bk: "yq_back q = Some (elem_at N ([0] @ ds) 0)"
    using q(4) e assms by (simp add: elem_at_def)
  have "yp_at N ?y ([0] @ ds) 0 0 ap_init"
    unfolding yp_at_def using q(2,3) e b bk by (auto simp: ap_init_def)
  with q(1) show ?thesis
    by (auto simp: ypipe_init_def ptr_set_def Let_def yp_rep_def)
qed

lemma write_ypipe_rep:
  assumes "yp_rep N y p"
  shows "\<exists>y'. ypipe_write N v incomplete y = Some y' \<and> yp_rep N y' (ap_write v incomplete p)"
proof -
  obtain cs wi fi where at: "yp_at N y cs wi fi p" using assms by (auto simp: yp_rep_def)
  define q e where "q = yp_queue y" and "e = endx N q cs"
  from at have rep: "yq_rep N q cs" and ix: "begin_pos q \<le> wi" "wi \<le> fi" "fi < e"
    by (simp_all add: yp_at_def q_def e_def)
  have N: "0 < N" and e: "e < N * length cs" using rep endx_bound [OF rep] by (simp_all add: yq_rep_def e_def)
  have bk: "yq_back q = Some (elem_at N cs (e - 1))"
    using rep ix by (simp add: yq_rep_def e_def)
  have "fst (elem_at N cs (e - 1)) \<in> set cs" using N e by (intro elem_at_fst) auto
  then obtain q1 where q1: "elem_write q (elem_at N cs (e - 1)) v = Some q1" "yq_rep N q1 cs"
    "endx N q1 cs = e" "yq_front q1 = yq_front q"
    "\<And>p'. elem_read q1 p' = (if p' = elem_at N cs (e - 1) then Some v else elem_read q p')"
    using elem_write_rep [OF rep, of "elem_at N cs (e - 1)" v] unfolding e_def by blast
  obtain q2 ds where q2: "yq_push N q1 = Some q2" "yq_rep N q2 (cs @ ds)"
    "endx N q2 (cs @ ds) = Suc e" "yq_back q2 = Some (elem_at N cs e)" "yq_front q2 = yq_front q1"
    "\<And>p. fst p \<in> set cs \<Longrightarrow> elem_read q2 p = elem_read q1 p"
    by (rule push_rep [OF q1(2)]) (use q1(3) in auto)
  have rd: "elem_read q2 (elem_at N (cs @ ds) k) = (if k = e - 1 then Some v else elem_read q (elem_at N cs k))"
    if "k < e" for k
    using that N e q1(2) q2(6) [of "elem_at N cs k"] elem_at_fst [of N k cs]
      elem_at_eq_iff [of N cs k "e - 1"] q1(5) [of "elem_at N cs k"] rep
    by (auto simp: yq_rep_def)
  have sl: "slice N q2 (cs @ ds) i j = slice N q cs i j" if "j \<le> e - 1" for i j
    using that ix by (intro slice_cong) (simp add: rd)
  have last: "slice N q2 (cs @ ds) fi e = slice N q cs fi (e - 1) @ [Some v]"
    using slice_snoc [of fi "e - 1" N q2 "cs @ ds"] sl [of "e - 1" fi] rd [of "e - 1"] ix by simp
  have b2: "begin_pos q2 = begin_pos q" using q2(5) q1(4) by (simp add: yq_front_def)
  have ea: "elem_at N (cs @ ds) k = elem_at N cs k" if "k \<le> e" for k
    using that e by simp
  let ?y = "y\<lparr>yp_queue := q2\<rparr>"
  show ?thesis
  proof (cases incomplete)
    case True
    have "yp_at N ?y (cs @ ds) wi fi (ap_write v True p)"
      using at ix q2(2,3) b2 sl last ea unfolding yp_at_def q_def [symmetric] e_def [symmetric]
      by (auto simp: ap_write_def)
    moreover have "ypipe_write N v incomplete y = Some ?y"
      using True bk q1(1) q2(1) by (simp add: ypipe_write_def q_def)
    ultimately show ?thesis using True by (auto simp: yp_rep_def)
  next
    case False
    let ?y = "y\<lparr>yp_queue := q2, yp_f := yq_back q2\<rparr>"
    have "slice N q2 (cs @ ds) wi e = slice N q cs wi fi @ slice N q cs fi (e - 1) @ [Some v]"
      using slice_append [of wi fi e N q2 "cs @ ds"] sl [of fi wi] last ix by simp
    then have "yp_at N ?y (cs @ ds) wi e (ap_write v False p)"
      using at ix q2(2,3,4) b2 sl ea unfolding yp_at_def q_def [symmetric] e_def [symmetric]
      by (auto simp: ap_write_def)
    moreover have "ypipe_write N v incomplete y = Some ?y"
      using False bk q1(1) q2(1) by (simp add: ypipe_write_def q_def)
    ultimately show ?thesis using False by (auto simp: yp_rep_def)
  qed
qed

lemma unwrite_ypipe_rep:
  assumes "yp_rep N y p"
  shows "\<exists>y'. ypipe_unwrite N y = Some (fst (ap_unwrite p), y') \<and> yp_rep N y' (snd (ap_unwrite p))"
proof -
  obtain cs wi fi where at: "yp_at N y cs wi fi p" using assms by (auto simp: yp_rep_def)
  define q e where "q = yp_queue y" and "e = endx N q cs"
  from at have rep: "yq_rep N q cs" and ix: "begin_pos q \<le> wi" "wi \<le> fi" "fi < e"
    and f: "yp_f y = Some (elem_at N cs fi)" and inc: "slice N q cs fi (e - 1) = map Some (ap_inc p)"
    by (simp_all add: yp_at_def q_def e_def)
  have N: "0 < N" and e: "e < N * length cs" and dc: "distinct cs"
    using rep endx_bound [OF rep] by (simp_all add: yq_rep_def e_def)
  have bk: "yq_back q = Some (elem_at N cs (e - 1))"
    using rep ix by (simp add: yq_rep_def e_def)
  have same: "yp_f y = yq_back q \<longleftrightarrow> fi = e - 1"
    using f bk elem_at_eq_iff [OF N dc, of fi "e - 1"] ix e by auto
  show ?thesis
  proof (cases "fi = e - 1")
    case True
    with inc have "ap_inc p = []" by simp
    with True same assms show ?thesis by (simp add: ypipe_unwrite_def ap_unwrite_def q_def)
  next
    case False
    with inc have ne: "ap_inc p \<noteq> []" using ix by (auto dest: arg_cong [of _ _ length])
    obtain q2 cs' ds where q2: "yq_unpush N q = Some q2" "cs = cs' @ ds" "yq_rep N q2 cs'"
      "endx N q cs = Suc (endx N q2 cs')" "yq_front q2 = yq_front q"
      "\<And>p. fst p \<in> set cs' \<Longrightarrow> elem_read q2 p = elem_read q p"
      by (rule unpush_rep [OF rep]) (use ix in \<open>auto simp: e_def\<close>)
    define e' where "e' = endx N q2 cs'"
    have e2: "e = Suc e'" using q2(4) by (simp add: e_def e'_def)
    have e'b: "e' < N * length cs'" using endx_bound [OF q2(3)] by (simp add: e'_def)
    have b2: "begin_pos q2 = begin_pos q" using q2(5) by (simp add: yq_front_def)
    have fe: "fi < e'" using False ix e2 by simp
    have bk2: "yq_back q2 = Some (elem_at N cs' (e' - 1))"
      using q2(3) fe ix b2 by (simp add: yq_rep_def e'_def)
    have ea: "elem_at N cs k = elem_at N cs' k" if "k < e'" for k
      using that e'b q2(2) by simp
    have rd: "elem_read q2 (elem_at N cs' k) = elem_read q (elem_at N cs k)" if "k < e'" for k
      using that ea [OF that] e'b N by (simp add: q2(6) elem_at_fst)
    have sl: "slice N q2 cs' i j = slice N q cs i j" if "j \<le> e'" for i j
      using that by (intro slice_cong) (simp add: rd)
    have "slice N q cs fi e' = slice N q cs fi (e' - 1) @ [elem_read q (elem_at N cs (e' - 1))]"
      using slice_snoc [of fi "e' - 1" N q cs] fe by simp
    moreover obtain ys l where yl: "ap_inc p = ys @ [l]" using ne by (cases "ap_inc p" rule: rev_cases) auto
    ultimately have sp: "slice N q cs fi (e' - 1) = map Some (butlast (ap_inc p))"
      and lst: "elem_read q (elem_at N cs (e' - 1)) = Some (last (ap_inc p))"
      using inc e2 by simp_all
    let ?p = "p\<lparr>ap_inc := butlast (ap_inc p)\<rparr>"
    have "yp_at N (y\<lparr>yp_queue := q2\<rparr>) cs' wi fi ?p"
      using at fe ix q2(3) b2 sl sp ea e2 unfolding yp_at_def q_def [symmetric] e_def [symmetric]
      by (auto simp: e'_def [symmetric])
    moreover have "ypipe_unwrite N y = Some (Some (last (ap_inc p)), y\<lparr>yp_queue := q2\<rparr>)"
      using False same q2(1) bk2 rd [of "e' - 1"] lst fe by (simp add: ypipe_unwrite_def q_def [symmetric])
    ultimately show ?thesis using ne by (auto simp: yp_rep_def ap_unwrite_def)
  qed
qed

lemma flush_ypipe_rep:
  assumes "yp_rep N y p"
  shows "fst (ypipe_flush y) = fst (ap_flush p) \<and> yp_rep N (snd (ypipe_flush y)) (snd (ap_flush p))"
proof -
  obtain cs wi fi where at: "yp_at N y cs wi fi p" using assms by (auto simp: yp_rep_def)
  let ?q = "yp_queue y"
  from at have rep: "yq_rep N ?q cs" and ix: "begin_pos ?q \<le> wi" "wi \<le> fi" "fi < endx N ?q cs"
    by (simp_all add: yp_at_def)
  have "0 < N" and "distinct cs" and "endx N ?q cs < N * length cs"
    using rep endx_bound [OF rep] by (simp_all add: yq_rep_def)
  then have same: "yp_w y = yp_f y \<longleftrightarrow> wi = fi"
    using at elem_at_eq_iff [of N cs wi fi] ix by (auto simp: yp_at_def)
  show ?thesis
  proof (cases "wi = fi")
    case True
    with at have "ap_pend p = []" by (simp add: yp_at_def)
    with True same assms show ?thesis by (simp add: ypipe_flush_def ap_flush_def)
  next
    case False
    with at have ne: "ap_pend p \<noteq> []" using ix by (auto simp: yp_at_def dest: arg_cong [of _ _ length])
    let ?y = "y\<lparr>yp_c := yp_f y, yp_w := yp_f y\<rparr>"
    have fl: "ypipe_flush y = (\<not> ap_asleep p, ?y)"
      using at False same by (auto simp: ypipe_flush_def ptr_cas_def ptr_set_def yp_at_def Let_def split: if_splits)
    have "slice N ?q cs (begin_pos ?q) fi = map Some (ap_avail p @ ap_pend p)"
      using at slice_append [OF ix(1,2), of N ?q cs] by (simp add: yp_at_def)
    then have "yp_at N ?y cs fi fi (p\<lparr>ap_avail := ap_avail p @ ap_pend p, ap_pend := [], ap_asleep := False\<rparr>)"
      using at by (auto simp: yp_at_def)
    then show ?thesis using ne fl by (auto simp: ap_flush_def yp_rep_def)
  qed
qed

lemma check_read_ypipe_at:
  assumes at: "yp_at N y cs wi fi p"
  shows "fst (ypipe_check_read y) = fst (ap_check_read p) \<and>
    yp_at N (snd (ypipe_check_read y)) cs wi fi (snd (ap_check_read p)) \<and>
    yp_queue (snd (ypipe_check_read y)) = yp_queue y"
proof -
  let ?q = "yp_queue y"
  from at have rep: "yq_rep N ?q cs" and ix: "begin_pos ?q \<le> wi" "wi \<le> fi" "fi < endx N ?q cs"
    by (simp_all add: yp_at_def)
  have NN: "0 < N" "distinct cs" "endx N ?q cs < N * length cs"
    using rep endx_bound [OF rep] by (simp_all add: yq_rep_def)
  have fr: "yq_front ?q = elem_at N cs (begin_pos ?q)" using front_elem [OF rep] by simp
  have eq: "elem_at N cs i = elem_at N cs (begin_pos ?q) \<longleftrightarrow> i = begin_pos ?q" if "i \<le> wi" for i
    using elem_at_eq_iff [OF NN(1,2), of i "begin_pos ?q"] that ix NN(3) by simp
  have av: "ap_avail p = [] \<longleftrightarrow> wi = begin_pos ?q"
    using at ix by (auto simp: yp_at_def dest: arg_cong [of _ _ length])
  show ?thesis
  proof (cases "Some (yq_front ?q) \<noteq> yp_r y \<and> yp_r y \<noteq> None")
    case True
    then obtain ri where "begin_pos ?q \<le> ri" "ri \<le> wi" "yp_r y = Some (elem_at N cs ri)"
      using at by (auto simp: yp_at_def)
    with True fr have "wi \<noteq> begin_pos ?q" by auto
    with True av at show ?thesis by (simp add: ypipe_check_read_def ap_check_read_def)
  next
    case False
    show ?thesis
    proof (cases "ap_avail p = []")
      case True
      with av have wi: "wi = begin_pos ?q" by simp
      have "yp_at N (y\<lparr>yp_c := None, yp_r := yp_c y\<rparr>) cs wi fi (p\<lparr>ap_asleep := True\<rparr>)"
        using at wi by (cases "ap_asleep p") (simp_all add: yp_at_def, blast)
      moreover have "ypipe_check_read y = (False, y\<lparr>yp_c := None, yp_r := yp_c y\<rparr>)"
        using at False wi fr by (auto simp: ypipe_check_read_def ptr_cas_def Let_def yp_at_def split: if_splits)
      ultimately show ?thesis using True by (simp add: ap_check_read_def)
    next
      case ne: False
      with av have wi: "wi \<noteq> begin_pos ?q" by simp
      with at have c: "yp_c y = Some (elem_at N cs wi)" and nas: "\<not> ap_asleep p"
        by (auto simp: yp_at_def split: if_splits)
      have neq: "elem_at N cs wi \<noteq> yq_front ?q" using eq [of wi] wi fr by simp
      have "\<exists>ri. begin_pos ?q \<le> ri \<and> ri \<le> wi \<and> yp_c y = Some (elem_at N cs ri)"
        using c ix(1) by (intro exI [of _ wi]) simp
      with at have "yp_at N (y\<lparr>yp_r := yp_c y\<rparr>) cs wi fi p"
        unfolding yp_at_def by (elim conjE, intro conjI) simp_all
      moreover have "ypipe_check_read y = (True, y\<lparr>yp_r := yp_c y\<rparr>)"
        using False c neq by (simp add: ypipe_check_read_def ptr_cas_def) blast
      ultimately show ?thesis using ne by (simp add: ap_check_read_def)
    qed
  qed
qed

lemma check_read_ypipe_rep:
  "yp_rep N y p \<Longrightarrow>
   fst (ypipe_check_read y) = fst (ap_check_read p) \<and> yp_rep N (snd (ypipe_check_read y)) (snd (ap_check_read p))"
  unfolding yp_rep_def using check_read_ypipe_at by blast

lemma front_value:
  assumes at: "yp_at N y cs wi fi p" and ne: "ap_avail p = v # vs"
  shows "elem_read (yp_queue y) (yq_front (yp_queue y)) = Some v"
    and "slice N (yp_queue y) cs (Suc (begin_pos (yp_queue y))) wi = map Some vs"
    and "begin_pos (yp_queue y) < wi"
proof -
  let ?q = "yp_queue y"
  from at have "slice N ?q cs (begin_pos ?q) wi = Some v # map Some vs" using ne by (simp add: yp_at_def)
  moreover from this show "begin_pos ?q < wi" by (auto dest: arg_cong [of _ _ length])
  ultimately show "elem_read ?q (yq_front ?q) = Some v" "slice N ?q cs (Suc (begin_pos ?q)) wi = map Some vs"
    using at front_elem [of N ?q cs] by (simp_all add: slice_Cons yp_at_def)
qed

lemma check_read_True:
  "ypipe_check_read y = (True, y') \<Longrightarrow> Some (yq_front (yp_queue y')) \<noteq> yp_r y'"
  by (simp add: ypipe_check_read_def Let_def ptr_cas_def split: if_splits) auto

lemma read_ypipe_rep:
  assumes "yp_rep N y p"
  shows "\<exists>y'. ypipe_read N y = Some (fst (ap_read p), y') \<and> yp_rep N y' (snd (ap_read p))"
proof -
  obtain cs wi fi where at: "yp_at N y cs wi fi p" using assms by (auto simp: yp_rep_def)
  define y1 where "y1 = snd (ypipe_check_read y)"
  note cr = check_read_ypipe_at [OF at, folded y1_def]
  show ?thesis
  proof (cases "ap_avail p")
    case Nil
    with cr have "ypipe_check_read y = (False, y1)" "yp_at N y1 cs wi fi (p\<lparr>ap_asleep := True\<rparr>)"
      by (simp_all add: ap_check_read_def y1_def prod_eq_iff)
    with Nil show ?thesis by (auto simp: ypipe_read_def ap_read_def yp_rep_def)
  next
    case (Cons v vs)
    with cr have c: "ypipe_check_read y = (True, y1)" and at1: "yp_at N y1 cs wi fi p"
      by (simp_all add: ap_check_read_def y1_def prod_eq_iff)
    define q where "q = yp_queue y1"
    note fv = front_value [OF at1 Cons, folded q_def]
    from at1 have rep: "yq_rep N q cs" and ix: "begin_pos q \<le> wi" "wi \<le> fi" "fi < endx N q cs"
      and nas: "\<not> ap_asleep p"
      using fv(3) by (auto simp: yp_at_def q_def split: if_splits)
    have NN: "0 < N" "distinct cs" "endx N q cs < N * length cs"
      using rep endx_bound [OF rep] by (simp_all add: yq_rep_def)
    obtain q' cs' d where q': "yq_pop N q = Some q'" "yq_rep N q' cs'" "begin_pos q' + d = Suc (begin_pos q)"
      "endx N q' cs' + d = endx N q cs" "\<And>i. i < N * length cs' \<Longrightarrow> elem_at N cs (i + d) = elem_at N cs' i"
      "\<And>p. fst p \<in> set cs' \<Longrightarrow> elem_read q' p = elem_read q p"
      by (rule pop_rep [OF rep]) (use ix fv(3) in auto)
    have eb: "endx N q' cs' < N * length cs'" using endx_bound [OF q'(2)] .
    define wi' fi' where "wi' = wi - d" and "fi' = fi - d"
    have ws: "wi = wi' + d" "fi = fi' + d" "begin_pos q' \<le> wi'" "wi' \<le> fi'" "fi' < endx N q' cs'"
      using q'(3,4) fv(3) ix by (auto simp: wi'_def fi'_def)
    have ea: "elem_at N cs (i + d) = elem_at N cs' i" if "i \<le> endx N q' cs'" for i
      using that eb q'(5) by simp
    have rd: "elem_read q' (elem_at N cs' i) = elem_read q (elem_at N cs (i + d))" if "i \<le> endx N q' cs'" for i
      using that ea eb q'(6) NN(1) by (simp add: elem_at_fst)
    have sl: "slice N q' cs' i j = slice N q cs (i + d) (j + d)" if "j \<le> endx N q' cs'" for i j
      using that by (intro slice_shift) (simp add: rd)
    define p' where "p' = p\<lparr>ap_avail := vs\<rparr>"
    define r where "r = yp_r y1"
    have r: "r \<noteq> None \<longrightarrow> (\<exists>ri. begin_pos q' \<le> ri \<and> ri \<le> wi' \<and> r = Some (elem_at N cs' ri))"
    proof (cases r)
      case (Some x)
      then obtain ri where ri: "begin_pos q \<le> ri" "ri \<le> wi" "r = Some (elem_at N cs ri)"
        using at1 by (auto simp: yp_at_def r_def q_def)
      have "Some (yq_front q) \<noteq> r" using check_read_True [OF c] by (simp add: q_def r_def)
      with ri front_elem [OF rep] have "begin_pos q < ri" by (cases "begin_pos q = ri") auto
      with ri ws q'(3) ea [of "ri - d"] show ?thesis
        by (intro impI exI [of _ "ri - d"]) auto
    qed simp
    have "yp_at N (y1\<lparr>yp_queue := q'\<rparr>) cs' wi' fi' p'"
      using at1 ws q'(2) r nas ea [of wi'] ea [of fi'] sl [of wi' "begin_pos q'"] sl [of fi' wi']
        sl [of "endx N q' cs' - 1" fi'] q'(3,4) fv(2)
      by (simp add: yp_at_def p'_def r_def [symmetric] q_def [symmetric])
    moreover have "ypipe_read N y = Some (Some v, y1\<lparr>yp_queue := q'\<rparr>)"
      using c fv(1) q'(1) by (simp add: ypipe_read_def q_def)
    ultimately show ?thesis using Cons by (auto simp: ap_read_def yp_rep_def p'_def)
  qed
qed

lemma probe_ypipe_rep:
  assumes "yp_rep N y p" and "ap_avail p = v # vs"
  shows "\<exists>y'. ypipe_probe fn y = Some (fn v, y') \<and> yp_rep N y' p"
proof -
  obtain cs wi fi where at: "yp_at N y cs wi fi p" using assms by (auto simp: yp_rep_def)
  define y1 where "y1 = snd (ypipe_check_read y)"
  have c: "ypipe_check_read y = (True, y1)" and at1: "yp_at N y1 cs wi fi p"
    using check_read_ypipe_at [OF at] assms(2) by (simp_all add: ap_check_read_def y1_def prod_eq_iff)
  show ?thesis
    using c front_value(1) [OF at1 assms(2)] at1 by (auto simp: ypipe_probe_def yp_rep_def)
qed

section \<open>The interface of the pipe\<close>

text \<open>
  What \<open>pipe.cpp\<close> and \<open>mailbox.cpp\<close> rely on: an operation succeeds, returns what the
  abstract pipe returns, and leaves a pipe that stands for what the abstract pipe becomes.
\<close>

locale message_pipe =
  fixes rep :: "'y \<Rightarrow> 'a apipe \<Rightarrow> bool"
    and init :: "'y option"
    and wr :: "'a \<Rightarrow> bool \<Rightarrow> 'y \<Rightarrow> 'y option"
    and unwr :: "'y \<Rightarrow> ('a option \<times> 'y) option"
    and fl :: "'y \<Rightarrow> bool \<times> 'y"
    and chk :: "'y \<Rightarrow> bool \<times> 'y"
    and rd :: "'y \<Rightarrow> ('a option \<times> 'y) option"
  assumes init_law: "\<exists>y. init = Some y \<and> rep y ap_init"
    and write_law: "rep y p \<Longrightarrow> \<exists>y'. wr v i y = Some y' \<and> rep y' (ap_write v i p)"
    and unwrite_law: "rep y p \<Longrightarrow> \<exists>y'. unwr y = Some (fst (ap_unwrite p), y') \<and> rep y' (snd (ap_unwrite p))"
    and flush_law: "rep y p \<Longrightarrow> fst (fl y) = fst (ap_flush p) \<and> rep (snd (fl y)) (snd (ap_flush p))"
    and check_law: "rep y p \<Longrightarrow> fst (chk y) = fst (ap_check_read p) \<and> rep (snd (chk y)) (snd (ap_check_read p))"
    and read_law: "rep y p \<Longrightarrow> \<exists>y'. rd y = Some (fst (ap_read p), y') \<and> rep y' (snd (ap_read p))"

text \<open>An interleaving of the two threads is a sequence of their operations.\<close>

datatype 'a pipe_op = Write 'a bool | Unwrite | Flush | Check_read | Read

datatype 'a pipe_res = Done | Flag bool | Val "'a option"

fun ypipe_step :: "nat \<Rightarrow> 'a pipe_op \<Rightarrow> 'a ypipe \<Rightarrow> ('a pipe_res \<times> 'a ypipe) option" where
  "ypipe_step N (Write v i) y = do { y \<leftarrow> ypipe_write N v i y; Some (Done, y) }"
| "ypipe_step N Unwrite y = do { (v, y) \<leftarrow> ypipe_unwrite N y; Some (Val v, y) }"
| "ypipe_step N Flush y = (let (b, y) = ypipe_flush y in Some (Flag b, y))"
| "ypipe_step N Check_read y = (let (b, y) = ypipe_check_read y in Some (Flag b, y))"
| "ypipe_step N Read y = do { (v, y) \<leftarrow> ypipe_read N y; Some (Val v, y) }"

fun ap_step :: "'a pipe_op \<Rightarrow> 'a apipe \<Rightarrow> 'a pipe_res \<times> 'a apipe" where
  "ap_step (Write v i) p = (Done, ap_write v i p)"
| "ap_step Unwrite p = map_prod Val id (ap_unwrite p)"
| "ap_step Flush p = map_prod Flag id (ap_flush p)"
| "ap_step Check_read p = map_prod Flag id (ap_check_read p)"
| "ap_step Read p = map_prod Val id (ap_read p)"

text \<open>The results of a sequence of operations, and the state after it.\<close>

fun run_ops :: "('op \<Rightarrow> 's \<Rightarrow> ('r \<times> 's) option) \<Rightarrow> 'op list \<Rightarrow> 's \<Rightarrow> ('r list \<times> 's) option" where
  "run_ops step [] s = Some ([], s)"
| "run_ops step (x # xs) s = do {
     (r, s) \<leftarrow> step x s;
     (rs, s) \<leftarrow> run_ops step xs s;
     Some (r # rs, s)
   }"

fun ap_run :: "'a pipe_op list \<Rightarrow> 'a apipe \<Rightarrow> 'a pipe_res list \<times> 'a apipe" where
  "ap_run [] p = ([], p)"
| "ap_run (x # xs) p = (
     let (r, p) = ap_step x p; (rs, p) = ap_run xs p in (r # rs, p))"

context message_pipe begin

definition step :: "'a pipe_op \<Rightarrow> 'y \<Rightarrow> ('a pipe_res \<times> 'y) option" where
  "step x y = (case x of
     Write v i \<Rightarrow> map_option (Pair Done) (wr v i y)
   | Unwrite \<Rightarrow> map_option (map_prod Val id) (unwr y)
   | Flush \<Rightarrow> Some (map_prod Flag id (fl y))
   | Check_read \<Rightarrow> Some (map_prod Flag id (chk y))
   | Read \<Rightarrow> map_option (map_prod Val id) (rd y))"

lemma step_law: "rep y p \<Longrightarrow> \<exists>y'. step x y = Some (fst (ap_step x p), y') \<and> rep y' (snd (ap_step x p))"
  using write_law [of y p] unwrite_law [of y p] flush_law [of y p] check_law [of y p] read_law [of y p]
  by (cases x) (fastforce simp: step_def prod_eq_iff)+

lemma run_law:
  "rep y p \<Longrightarrow> \<exists>y'. run_ops step xs y = Some (fst (ap_run xs p), y') \<and> rep y' (snd (ap_run xs p))"
proof (induction xs arbitrary: y p)
  case (Cons x xs)
  obtain y1 where y1: "step x y = Some (fst (ap_step x p), y1)" "rep y1 (snd (ap_step x p))"
    using step_law [OF Cons.prems] by blast
  show ?case
    using Cons.IH [OF y1(2)] y1(1) by (auto simp: Let_def split: prod.splits)
qed simp

lemma run_init_law:
  "\<exists>y y'. init = Some y \<and> run_ops step xs y = Some (fst (ap_run xs ap_init), y') \<and>
     rep y' (snd (ap_run xs ap_init))"
  using init_law run_law by blast

end

text \<open>
  The provider.  The granularity of the pipe is a positive constant of \<open>config.hpp\<close>
  (\<open>message_pipe_granularity\<close>, \<open>command_pipe_granularity\<close>); \<open>Suc n\<close> is any such one.
\<close>

interpretation yp: message_pipe "yp_rep (Suc n)" "ypipe_init (Suc n)" "ypipe_write (Suc n)"
  "ypipe_unwrite (Suc n)" ypipe_flush ypipe_check_read "ypipe_read (Suc n)" for n
  by unfold_locales
    (simp_all add: init_ypipe_rep write_ypipe_rep unwrite_ypipe_rep flush_ypipe_rep
      check_read_ypipe_rep read_ypipe_rep)

lemma yp_step [simp]: "yp.step n = ypipe_step (Suc n)"
proof (intro ext)
  fix x :: "'a pipe_op" and y
  show "yp.step n x y = ypipe_step (Suc n) x y"
    by (cases x)
      (auto simp: yp.step_def Option.bind_eq_Some_conv map_option_case split: option.splits prod.splits)
qed

text \<open>
  \<open>written xs rs h\<close>: the items \<open>h\<close> extended with those written and not unwritten again in
  the run \<open>xs\<close> with the results \<open>rs\<close>; \<open>delivered\<close>: those the reader got; \<open>sleeping\<close>:
  whether the reader has found nothing to read and no flush has told the writer so since.
\<close>

fun written :: "'a pipe_op list \<Rightarrow> 'a pipe_res list \<Rightarrow> 'a list \<Rightarrow> 'a list" where
  "written (Write v i # xs) (r # rs) h = written xs rs (h @ [v])"
| "written (Unwrite # xs) (Val (Some v) # rs) h = written xs rs (butlast h)"
| "written (x # xs) (r # rs) h = written xs rs h"
| "written _ _ h = h"

fun delivered :: "'a pipe_op list \<Rightarrow> 'a pipe_res list \<Rightarrow> 'a list" where
  "delivered (Read # xs) (Val (Some v) # rs) = v # delivered xs rs"
| "delivered (x # xs) (r # rs) = delivered xs rs"
| "delivered _ _ = []"

fun sleeping :: "'a pipe_op list \<Rightarrow> 'a pipe_res list \<Rightarrow> bool \<Rightarrow> bool" where
  "sleeping (Check_read # xs) (Flag False # rs) s = sleeping xs rs True"
| "sleeping (Read # xs) (Val None # rs) s = sleeping xs rs True"
| "sleeping (Flush # xs) (Flag False # rs) s = sleeping xs rs False"
| "sleeping (x # xs) (r # rs) s = sleeping xs rs s"
| "sleeping _ _ s = s"

definition ap_items :: "'a apipe \<Rightarrow> 'a list" where
  "ap_items p = ap_avail p @ ap_pend p @ ap_inc p"

lemmas ap_defs = ap_write_def ap_unwrite_def ap_flush_def ap_check_read_def ap_read_def

lemma ap_items_simps [simp]:
  "ap_items (ap_write v i p) = ap_items p @ [v]"
  "ap_items (snd (ap_flush p)) = ap_items p"
  "ap_items (snd (ap_check_read p)) = ap_items p"
  by (simp_all add: ap_items_def ap_defs)

lemma written_delivered:
  "written xs (fst (ap_run xs p)) (h @ ap_items p) =
     h @ delivered xs (fst (ap_run xs p)) @ ap_items (snd (ap_run xs p))"
proof (induction xs arbitrary: p h)
  case (Cons x xs)
  show ?case
  proof (cases x)
    case (Write v i)
    then show ?thesis using Cons [of "ap_write v i p" h]
      by (simp add: Let_def split_beta)
  next
    case Unwrite
    show ?thesis
    proof (cases "ap_inc p" rule: rev_cases)
      case Nil
      then show ?thesis using Cons [of p h] Unwrite by (simp add: ap_unwrite_def Let_def split_beta)
    next
      case (snoc ys v)
      then show ?thesis using Cons [of "p\<lparr>ap_inc := ys\<rparr>" h] Unwrite
        by (simp add: ap_unwrite_def ap_items_def Let_def split_beta butlast_append)
    qed
  next
    case Flush
    then show ?thesis using Cons [of "snd (ap_flush p)" h]
      by (simp add: Let_def split_beta)
  next
    case Check_read
    then show ?thesis using Cons [of "snd (ap_check_read p)" h]
      by (simp add: Let_def split_beta)
  next
    case Read
    show ?thesis
    proof (cases "ap_avail p")
      case Nil
      then show ?thesis using Cons.IH [of "snd (ap_read p)" h] Read
        by (simp add: ap_items_def ap_read_def Let_def split_beta)
    next
      case (Cons v vs)
      then show ?thesis using Cons.IH [of "p\<lparr>ap_avail := vs\<rparr>" "h @ [v]"] Read
        by (simp add: ap_items_def ap_read_def Let_def split_beta)
    qed
  qed
qed (simp add: ap_items_def)

lemma sleeping_asleep:
  "sleeping xs (fst (ap_run xs p)) (ap_asleep p) = ap_asleep (snd (ap_run xs p))"
proof (induction xs arbitrary: p)
  case (Cons x xs)
  show ?case
    using Cons [of "snd (ap_step x p)"]
    by (cases x; cases "ap_asleep p") (auto simp: ap_defs Let_def split_beta split: list.split if_splits)
qed simp

lemma asleep_empty:
  "(ap_asleep p \<longrightarrow> ap_avail p = []) \<Longrightarrow> ap_asleep (snd (ap_run xs p)) \<longrightarrow> ap_avail (snd (ap_run xs p)) = []"
proof (induction xs arbitrary: p)
  case (Cons x xs)
  have "ap_asleep (snd (ap_step x p)) \<longrightarrow> ap_avail (snd (ap_step x p)) = []"
    using Cons.prems by (cases x) (auto simp: ap_defs split: list.split)
  then show ?case using Cons.IH by (simp add: Let_def split_beta)
qed simp

lemma ypipe_run:
  assumes "0 < N"
  obtains y y' where "ypipe_init N = Some y"
    and "run_ops (ypipe_step N) xs y = Some (fst (ap_run xs ap_init), y')"
    and "yp_rep N y' (snd (ap_run xs ap_init))"
proof -
  obtain n where "N = Suc n" using assms by (cases N) auto
  then show thesis using yp.run_init_law [of n xs] that unfolding yp_step by blast
qed

lemma ypipe_run_at:
  assumes "ypipe_init (Suc n) = Some y" and "run_ops (ypipe_step (Suc n)) xs y = Some (rs, y')"
  shows "rs = fst (ap_run xs ap_init)" and "yp_rep (Suc n) y' (snd (ap_run xs ap_init))"
  using assms by - (rule ypipe_run [of "Suc n" xs], simp, simp)+

section \<open>Properties\<close>

text \<open>C3 (refinement).  Whatever the interleaving of the writer's and the reader's operations,
  the pointer code of the pipe, over the chunked queue with its recycled chunks, never runs into
  a bad pointer and returns what the abstract pipe returns.\<close>

theorem ypipe_refines_pipe:
  "\<exists>y y'. ypipe_init (Suc n) = Some y \<and>
     run_ops (ypipe_step (Suc n)) xs y = Some (fst (ap_run xs ap_init), y')"
  using ypipe_run [of "Suc n" xs] by blast

text \<open>The pipe is a FIFO queue: the items the reader has got are, in
  order, the first of those written (and not unwritten again), none lost or repeated.\<close>

theorem ypipe_fifo:
  assumes "ypipe_init (Suc n) = Some y" and "run_ops (ypipe_step (Suc n)) xs y = Some (rs, y')"
  shows "\<exists>p. yp_rep (Suc n) y' (p :: 'a apipe) \<and> written xs rs [] = delivered xs rs @ ap_items p"
proof -
  note run = ypipe_run_at [OF assms]
  have "ap_items ap_init = ([] :: 'a list)" by (simp add: ap_items_def ap_init_def)
  then have "written xs rs [] = delivered xs rs @ ap_items (snd (ap_run xs ap_init))"
    using written_delivered [of xs ap_init "[]"] by (simp add: run(1))
  with run(2) show ?thesis by blast
qed

text \<open>C5 (safety).  No lost wake-up: while the reader sleeps (it found nothing, and no flush
  has returned false since), there is nothing for it to read.\<close>

theorem ypipe_no_lost_wakeup:
  assumes "ypipe_init (Suc n) = Some y" and "run_ops (ypipe_step (Suc n)) xs y = Some (rs, y')"
    and "sleeping xs rs False"
  shows "\<exists>y''. ypipe_read (Suc n) y' = Some (None, y'')"
proof -
  let ?p = "snd (ap_run xs ap_init)"
  note rs = ypipe_run_at(1) [OF assms(1,2)] and r = ypipe_run_at(2) [OF assms(1,2)]
  have "ap_asleep ?p" using assms(3) sleeping_asleep [of xs ap_init] rs by (simp add: ap_init_def)
  then have "ap_avail ?p = []" using asleep_empty [of ap_init xs] by (simp add: ap_init_def)
  then show ?thesis using read_ypipe_rep [OF r] by (auto simp: ap_read_def)
qed

theorem ypipe_fifo_witness:
  "\<exists>y y' p. ypipe_init (Suc 1) = Some y \<and>
     run_ops (ypipe_step (Suc 1)) [Write 5 True, Write 6 True, Unwrite, Write 7 False, Flush, Read] y =
       Some ([Done, Done, Val (Some 6), Done, Flag True, Val (Some 5)], y') \<and>
     yp_rep (Suc 1) y' p \<and> [5, 7] = [5] @ ap_items (p :: nat apipe)"
proof -
  let ?xs = "[Write 5 True, Write 6 True, Unwrite, Write 7 False, Flush, Read] :: nat pipe_op list"
  obtain y y' where y: "ypipe_init (Suc 1) = Some y"
    "run_ops (ypipe_step (Suc 1)) ?xs y = Some (fst (ap_run ?xs ap_init), y')"
    by (rule ypipe_run [of "Suc 1" ?xs]) auto
  have "fst (ap_run ?xs ap_init) = [Done, Done, Val (Some 6), Done, Flag True, Val (Some 5)]"
    by (simp add: ap_init_def ap_defs Let_def)
  with y ypipe_fifo [OF y] show ?thesis by auto
qed

theorem ypipe_no_lost_wakeup_witness:
  "\<exists>y y' y''. ypipe_init (Suc 1) = Some y \<and>
     run_ops (ypipe_step (Suc 1)) [Write (5 :: nat) False, Read] y = Some ([Done, Val None], y') \<and>
     ypipe_read (Suc 1) y' = Some (None, y'')"
proof -
  let ?xs = "[Write 5 False, Read] :: nat pipe_op list"
  obtain y y' where y: "ypipe_init (Suc 1) = Some y"
    "run_ops (ypipe_step (Suc 1)) ?xs y = Some (fst (ap_run ?xs ap_init), y')"
    by (rule ypipe_run [of "Suc 1" ?xs]) auto
  have "fst (ap_run ?xs ap_init) = [Done, Val None]" by (simp add: ap_init_def ap_defs Let_def)
  with y ypipe_no_lost_wakeup [OF y] show ?thesis by auto
qed

end
