(* ===== verification/Swap.thy ===== *)
theory Swap
  imports Msg Wire
begin

text \<open>
  \<open>swap.hpp\<close>, \<open>swap.cpp\<close>: the ring of messages in a file that takes what a full pipe cannot
  hold.  The state is the one of the class: the file, the three positions in it, and the two
  block buffers with the pointers \<open>read_buf\<close> and \<open>write_buf\<close> to one of them.

  File positions are natural numbers (the code keeps them in \<open>int64_t\<close>, all of them below
  \<open>filesize\<close>).  A \<open>read\<close> or \<open>write\<close> call transfers what the loop around it asks for, and a
  read beyond the end of the file fails the \<open>errno_assert\<close>: it is \<^term>\<open>None\<close>.  The constructor
  leaves \<open>commit_pos\<close> uninitialised, so its first value is a parameter.
\<close>

section \<open>The operations\<close>

datatype bufsel = Buf1 | Buf2

record swap =
  sw_file :: "byte list"
  filesize :: nat
  file_pos :: nat
  write_pos :: nat
  read_pos :: nat
  commit_pos :: nat
  block_size :: nat
  sw_buf1 :: "byte list"
  sw_buf2 :: "byte list"
  read_buf :: bufsel
  write_buf :: bufsel
  write_buf_start_addr :: nat

definition swap_new :: "nat \<Rightarrow> nat \<Rightarrow> nat \<Rightarrow> byte list \<Rightarrow> byte list \<Rightarrow> swap option" where
  "swap_new block garbage fsize b1 b2 = do {
     zmq_assert (fsize > 0);
     zmq_assert (block > 0);
     Some \<lparr>sw_file = [], filesize = fsize, file_pos = 0, write_pos = 0, read_pos = 0,
           commit_pos = garbage, block_size = block, sw_buf1 = b1, sw_buf2 = b2,
           read_buf = Buf1, write_buf = Buf1, write_buf_start_addr = 0\<rparr>
   }"

definition sw_buf :: "bufsel \<Rightarrow> swap \<Rightarrow> byte list" where
  "sw_buf b s = (case b of Buf1 \<Rightarrow> sw_buf1 s | Buf2 \<Rightarrow> sw_buf2 s)"

definition set_sw_buf :: "bufsel \<Rightarrow> byte list \<Rightarrow> swap \<Rightarrow> swap" where
  "set_sw_buf b xs s = (case b of Buf1 \<Rightarrow> s\<lparr>sw_buf1 := xs\<rparr> | Buf2 \<Rightarrow> s\<lparr>sw_buf2 := xs\<rparr>)"

text \<open>\<open>memcpy\<close> to the position \<open>i\<close> of a buffer, and \<open>write\<close> at the position \<open>i\<close> of a file
  (which grows, with zeros in the hole, when \<open>i\<close> is beyond its end).\<close>

definition overwrite :: "nat \<Rightarrow> byte list \<Rightarrow> byte list \<Rightarrow> byte list" where
  "overwrite i xs buf = take i buf @ xs @ drop (i + length xs) buf"

definition file_write :: "nat \<Rightarrow> byte list \<Rightarrow> byte list \<Rightarrow> byte list" where
  "file_write i xs f = overwrite i xs (f @ replicate (i - length f) 0)"

definition file_read :: "nat \<Rightarrow> nat \<Rightarrow> byte list \<Rightarrow> byte list option" where
  "file_read i n f = (if i + n \<le> length f then Some (take n (drop i f)) else None)"

definition fill_buf :: "bufsel \<Rightarrow> nat \<Rightarrow> swap \<Rightarrow> swap option" where
  "fill_buf b pos s = (
     let s = s\<lparr>file_pos := pos\<rparr>;
         octets_total = min (block_size s) (filesize s - file_pos s)
     in do {
          xs \<leftarrow> file_read (file_pos s) octets_total (sw_file s);
          Some ((set_sw_buf b (overwrite 0 xs (sw_buf b s)) s)\<lparr>file_pos := file_pos s + octets_total\<rparr>)
        })"

definition save_write_buf :: "swap \<Rightarrow> swap" where
  "save_write_buf s = (
     let s = s\<lparr>file_pos := write_buf_start_addr s\<rparr>;
         octets_total = min (block_size s) (filesize s - file_pos s)
     in s\<lparr>sw_file := file_write (file_pos s) (take octets_total (sw_buf (write_buf s) s)) (sw_file s),
          file_pos := file_pos s + octets_total\<rparr>)"

text \<open>
  The two copying loops.  A pass that would copy no byte would never end (that needs a position
  outside the file): it is \<^term>\<open>None\<close>.
\<close>

definition chunk_size :: "nat \<Rightarrow> nat \<Rightarrow> swap \<Rightarrow> nat" where
  "chunk_size remainder pos s =
     min remainder (min (filesize s - pos) (block_size s - pos mod block_size s))"

function copy_from_file :: "nat \<Rightarrow> swap \<Rightarrow> (byte list \<times> swap) option" where
  "copy_from_file remainder s =
     (if remainder = 0 then Some ([], s)
      else let n = chunk_size remainder (read_pos s) s in
        if n = 0 then None
        else do {
          let xs = take n (drop (read_pos s mod block_size s) (sw_buf (read_buf s) s));
          let s = s\<lparr>read_pos := (read_pos s + n) mod filesize s\<rparr>;
          s \<leftarrow> (if read_pos s mod block_size s = 0 then
                  if read_pos s div block_size s = write_pos s div block_size s
                  then Some (s\<lparr>read_buf := write_buf s\<rparr>)
                  else fill_buf (read_buf s) (read_pos s) s
                else Some s);
          (ys, s) \<leftarrow> copy_from_file (remainder - n) s;
          Some (xs @ ys, s)
        })"
  by pat_completeness auto
termination by (relation "measure fst") auto

function copy_to_file :: "byte list \<Rightarrow> swap \<Rightarrow> swap option" where
  "copy_to_file source s =
     (if source = [] then Some s
      else let n = chunk_size (length source) (write_pos s) s in
        if n = 0 then None
        else
          let s = set_sw_buf (write_buf s)
                    (overwrite (write_pos s mod block_size s) (take n source) (sw_buf (write_buf s) s)) s;
              s = s\<lparr>write_pos := (write_pos s + n) mod filesize s\<rparr>;
              s = (if write_pos s mod block_size s = 0 then
                     let s = save_write_buf s;
                         s = s\<lparr>write_buf_start_addr := write_pos s\<rparr>
                     in if write_buf s = read_buf s
                        then s\<lparr>write_buf := (if read_buf s = Buf2 then Buf1 else Buf2)\<rparr>
                        else s
                   else s)
          in copy_to_file (drop n source) s)"
  by pat_completeness auto
termination by (relation "measure (\<lambda>(xs, s). length xs)") auto

declare copy_from_file.simps [simp del] copy_to_file.simps [simp del]

definition buffer_space :: "swap \<Rightarrow> nat" where
  "buffer_space s =
     (if write_pos s < read_pos s then read_pos s - write_pos s
      else filesize s - (write_pos s - read_pos s))"

text \<open>The eight bytes of a \<open>size_t\<close> in memory (little endian).\<close>

definition size_bytes :: "u64 \<Rightarrow> byte list" where
  "size_bytes n = rev (put_uint64 (replicate 8 0) n)"

definition bytes_size :: "byte list \<Rightarrow> u64" where
  "bytes_size bs = get_uint64 (rev bs)"

text \<open>A message in the swap has data; a delimiter has the size 0 in \<open>zmq_msg_size\<close>.\<close>

fun body_bytes :: "body \<Rightarrow> byte list" where
  "body_bytes (Data bs) = bs"
| "body_bytes Delimiter = []"

definition swap_store :: "msg \<Rightarrow> swap \<Rightarrow> (bool \<times> swap) option" where
  "swap_store m s = (
     let data = body_bytes (m_body m) in
     if buffer_space s \<le> 8 + 1 + length data then Some (False, s)
     else do {
       let msg_flags = m_flags m AND NOT ZMQ_MSG_SHARED;
       s \<leftarrow> copy_to_file (size_bytes (of_nat (length data))) s;
       s \<leftarrow> copy_to_file [msg_flags] s;
       s \<leftarrow> copy_to_file data s;
       Some (True, s)
     })"

definition swap_fetch :: "swap \<Rightarrow> (msg \<times> swap) option" where
  "swap_fetch s = do {
     zmq_assert (read_pos s \<noteq> write_pos s);
     (sz, s) \<leftarrow> copy_from_file 8 s;
     (fl, s) \<leftarrow> copy_from_file 1 s;
     (data, s) \<leftarrow> copy_from_file (unat (bytes_size sz)) s;
     Some (\<lparr>m_body = Data data, m_flags = hd fl\<rparr>, s)
   }"

definition swap_commit :: "swap \<Rightarrow> swap" where
  "swap_commit s = s\<lparr>commit_pos := write_pos s\<rparr>"

definition swap_rollback :: "swap \<Rightarrow> swap option" where
  "swap_rollback s =
     (if commit_pos s = write_pos s \<or> read_pos s = write_pos s then Some s
      else do {
        (if write_pos s > read_pos s
         then zmq_assert (read_pos s \<le> commit_pos s \<and> commit_pos s \<le> write_pos s)
         else zmq_assert (read_pos s \<le> commit_pos s \<or> commit_pos s \<le> write_pos s));
        s \<leftarrow> (if commit_pos s div block_size s = read_pos s div block_size s
              then Some (s\<lparr>write_buf_start_addr := commit_pos s mod block_size s, write_buf := read_buf s\<rparr>)
              else if commit_pos s div block_size s \<noteq> write_pos s div block_size s
              then
                let s = s\<lparr>write_buf_start_addr := commit_pos s mod block_size s\<rparr>
                in fill_buf (write_buf s) (write_buf_start_addr s) s
              else Some s);
        Some (s\<lparr>write_pos := commit_pos s\<rparr>)
      })"

definition swap_empty :: "swap \<Rightarrow> bool" where
  "swap_empty s \<longleftrightarrow> read_pos s = write_pos s"

definition swap_fits :: "msg \<Rightarrow> swap \<Rightarrow> bool" where
  "swap_fits m s \<longleftrightarrow> \<not> buffer_space s \<le> 8 + 1 + length (body_bytes (m_body m))"

end
