(* ===== verification/Pipe.thy ===== *)
theory Pipe
  imports Ypipe Swap
begin

text \<open>
  \<open>pipe.hpp\<close>, \<open>pipe.cpp\<close>: the message pipe between two objects, made of a reader, a writer
  and the lock-free pipe between them, with its high and low water marks, its swap and its
  termination handshake.

  The state of a pipe is one record: the two objects (\<^term>\<open>None\<close> once deleted), the underlying
  pipe, the two command queues (the commands one side has sent and the other not processed
  yet, in the order sent), the events given to the sinks, and the messages the pipe itself has
  closed.  A member function called on a deleted object or with a deleted pipe is
  \<^term>\<open>None\<close>, like a failed assertion.  The sinks are sockets and sessions: a call of a sink is
  the event it is told of, in the order of the calls and commands.
\<close>

section \<open>The operations\<close>

definition message_pipe_granularity :: nat where "message_pipe_granularity = 256"

definition max_wm_delta :: u64 where "max_wm_delta = 1024"

datatype pipe_cmd = Activate_reader | Pipe_term_ack | Activate_writer u64 | Pipe_term

datatype pipe_event =
  Reader_delimited | Reader_activated | Reader_terminated | Writer_activated | Writer_terminated

record reader =
  r_active :: bool
  r_writer :: bool
  r_lwm :: u64
  r_msgs_read :: u64
  r_sink :: bool
  r_terminating :: bool

record writer =
  w_active :: bool
  w_hwm :: u64
  w_msgs_read :: u64
  w_msgs_written :: u64
  w_swap :: "swap option"
  w_sink :: bool
  w_swapping :: bool
  w_pending_delimiter :: bool
  w_terminating :: bool

record pipe_sys =
  pp_reader :: "reader option"
  pp_writer :: "writer option"
  pp_pipe :: "msg ypipe option"
  pp_to_reader :: "pipe_cmd list"
  pp_to_writer :: "pipe_cmd list"
  pp_events :: "pipe_event list"
  pp_closed :: "msg list"

text \<open>\<open>object_t\<close>'s \<open>send_\<close> functions, as far as a pipe uses them, and the calls of a sink.\<close>

definition send_to_reader :: "pipe_cmd \<Rightarrow> pipe_sys \<Rightarrow> pipe_sys" where
  "send_to_reader c s = s\<lparr>pp_to_reader := pp_to_reader s @ [c]\<rparr>"

definition send_to_writer :: "pipe_cmd \<Rightarrow> pipe_sys \<Rightarrow> pipe_sys" where
  "send_to_writer c s = s\<lparr>pp_to_writer := pp_to_writer s @ [c]\<rparr>"

definition pipe_event :: "pipe_event \<Rightarrow> pipe_sys \<Rightarrow> pipe_sys" where
  "pipe_event e s = s\<lparr>pp_events := pp_events s @ [e]\<rparr>"

definition upd_reader :: "(reader \<Rightarrow> reader) \<Rightarrow> pipe_sys \<Rightarrow> pipe_sys" where
  "upd_reader f s = s\<lparr>pp_reader := map_option f (pp_reader s)\<rparr>"

definition upd_writer :: "(writer \<Rightarrow> writer) \<Rightarrow> pipe_sys \<Rightarrow> pipe_sys" where
  "upd_writer f s = s\<lparr>pp_writer := map_option f (pp_writer s)\<rparr>"

definition delimiter_msg :: msg where
  "delimiter_msg = \<lparr>m_body = Delimiter, m_flags = 0\<rparr>"

subsection \<open>reader\_t\<close>

definition reader_new :: "u64 \<Rightarrow> reader" where
  "reader_new lwm =
     \<lparr>r_active = True, r_writer = False, r_lwm = lwm, r_msgs_read = 0, r_sink = False,
      r_terminating = False\<rparr>"

definition reader_set_writer :: "reader \<Rightarrow> reader option" where
  "reader_set_writer r = do { zmq_assert (\<not> r_writer r); Some (r\<lparr>r_writer := True\<rparr>) }"

definition reader_set_event_sink :: "pipe_sys \<Rightarrow> pipe_sys option" where
  "reader_set_event_sink s = do {
     r \<leftarrow> pp_reader s;
     zmq_assert (\<not> r_sink r);
     Some (upd_reader (r_sink_update (\<lambda>_. True)) s)
   }"

definition reader_terminate :: "pipe_sys \<Rightarrow> pipe_sys option" where
  "reader_terminate s = do {
     r \<leftarrow> pp_reader s;
     if r_terminating r then Some s
     else
       let s = upd_reader (\<lambda>r. r\<lparr>r_active := False, r_terminating := True\<rparr>) s
       in Some (send_to_writer Pipe_term s)
   }"

definition reader_delimited :: "pipe_sys \<Rightarrow> pipe_sys option" where
  "reader_delimited s = do {
     r \<leftarrow> pp_reader s;
     let s = (if r_sink r then pipe_event Reader_delimited s else s);
     reader_terminate s
   }"

definition reader_check_read :: "pipe_sys \<Rightarrow> (bool \<times> pipe_sys) option" where
  "reader_check_read s = do {
     r \<leftarrow> pp_reader s;
     if \<not> r_active r then Some (False, s)
     else do {
       y \<leftarrow> pp_pipe s;
       let (ok, y) = ypipe_check_read y;
       let s = s\<lparr>pp_pipe := Some y\<rparr>;
       if \<not> ok then Some (False, upd_reader (r_active_update (\<lambda>_. False)) s)
       else do {
         (d, y) \<leftarrow> ypipe_probe is_delimiter y;
         let s = s\<lparr>pp_pipe := Some y\<rparr>;
         if d then do {
           (v, y) \<leftarrow> ypipe_read message_pipe_granularity y;
           let s = s\<lparr>pp_pipe := Some y\<rparr>;
           zmq_assert (v \<noteq> None);
           s \<leftarrow> reader_delimited s;
           Some (False, s)
         }
         else Some (True, s)
       }
     }
   }"

text \<open>The message read, or \<^term>\<open>None\<close> where the code returns false.\<close>

definition reader_read :: "pipe_sys \<Rightarrow> (msg option \<times> pipe_sys) option" where
  "reader_read s = do {
     r \<leftarrow> pp_reader s;
     if \<not> r_active r then Some (None, s)
     else do {
       y \<leftarrow> pp_pipe s;
       (v, y) \<leftarrow> ypipe_read message_pipe_granularity y;
       let s = s\<lparr>pp_pipe := Some y\<rparr>;
       case v of
         None \<Rightarrow> Some (None, upd_reader (r_active_update (\<lambda>_. False)) s)
       | Some msg \<Rightarrow>
           if m_body msg = Delimiter then do { s \<leftarrow> reader_delimited s; Some (None, s) }
           else
             let n = (if \<not> has_more msg then r_msgs_read r + 1 else r_msgs_read r);
                 s = upd_reader (r_msgs_read_update (\<lambda>_. n)) s;
                 s = (if r_lwm r > 0 \<and> n mod r_lwm r = 0 then send_to_writer (Activate_writer n) s else s)
             in Some (Some msg, s)
     }
   }"

definition process_activate_reader :: "pipe_sys \<Rightarrow> pipe_sys option" where
  "process_activate_reader s = do {
     r \<leftarrow> pp_reader s;
     let s = upd_reader (r_active_update (\<lambda>_. True)) s;
     zmq_assert (r_sink r);
     Some (pipe_event Reader_activated s)
   }"

text \<open>The destructor's loop: read what is left in the pipe and close it.\<close>

partial_function (option) close_unread :: "msg ypipe \<Rightarrow> msg list \<Rightarrow> (msg list \<times> msg ypipe) option" where
  "close_unread y closed = do {
     (v, y) \<leftarrow> ypipe_read message_pipe_granularity y;
     case v of None \<Rightarrow> Some (closed, y) | Some m \<Rightarrow> close_unread y (closed @ [m])
   }"

declare close_unread.simps [code]

definition reader_delete :: "pipe_sys \<Rightarrow> pipe_sys option" where
  "reader_delete s = do {
     y \<leftarrow> pp_pipe s;
     (closed, y) \<leftarrow> close_unread y [];
     q \<leftarrow> yq_destroy (yp_queue y);
     Some (s\<lparr>pp_closed := pp_closed s @ closed, pp_pipe := None, pp_reader := None\<rparr>)
   }"

definition process_pipe_term_ack :: "pipe_sys \<Rightarrow> pipe_sys option" where
  "process_pipe_term_ack s = do {
     r \<leftarrow> pp_reader s;
     let s = upd_reader (r_writer_update (\<lambda>_. False)) s;
     zmq_assert (r_sink r);
     reader_delete (pipe_event Reader_terminated s)
   }"

subsection \<open>writer\_t\<close>

text \<open>\<open>open_swap\<close> is the constructor of the swap followed by its \<open>init\<close>.\<close>

definition writer_new :: "(nat \<Rightarrow> swap option) \<Rightarrow> u64 \<Rightarrow> int \<Rightarrow> writer option" where
  "writer_new open_swap hwm swap_size = do {
     sw \<leftarrow> (if swap_size > 0 then map_option Some (open_swap (nat swap_size)) else Some None);
     Some \<lparr>w_active = True, w_hwm = hwm, w_msgs_read = 0, w_msgs_written = 0, w_swap = sw,
           w_sink = False, w_swapping = False, w_pending_delimiter = False, w_terminating = False\<rparr>
   }"

definition writer_set_event_sink :: "pipe_sys \<Rightarrow> pipe_sys option" where
  "writer_set_event_sink s = do {
     w \<leftarrow> pp_writer s;
     zmq_assert (\<not> w_sink w);
     Some (upd_writer (w_sink_update (\<lambda>_. True)) s)
   }"

definition pipe_full :: "writer \<Rightarrow> bool" where
  "pipe_full w \<longleftrightarrow> w_hwm w > 0 \<and> w_msgs_written w - w_msgs_read w = w_hwm w"

definition writer_check_write :: "msg \<Rightarrow> pipe_sys \<Rightarrow> (bool \<times> pipe_sys) option" where
  "writer_check_write m s = do {
     w \<leftarrow> pp_writer s;
     if \<not> w_active w then Some (False, s)
     else if w_swapping w then do {
       sw \<leftarrow> w_swap w;
       if \<not> swap_fits m sw then Some (False, upd_writer (w_active_update (\<lambda>_. False)) s)
       else Some (True, s)
     }
     else if pipe_full w then
       (if w_swap w \<noteq> None then Some (True, upd_writer (w_swapping_update (\<lambda>_. True)) s)
        else Some (False, upd_writer (w_active_update (\<lambda>_. False)) s))
     else Some (True, s)
   }"

definition pipe_write :: "msg \<Rightarrow> pipe_sys \<Rightarrow> pipe_sys option" where
  "pipe_write m s = do {
     y \<leftarrow> pp_pipe s;
     y \<leftarrow> ypipe_write message_pipe_granularity m (has_more m) y;
     Some (s\<lparr>pp_pipe := Some y\<rparr>)
   }"

definition writer_write :: "msg \<Rightarrow> pipe_sys \<Rightarrow> (bool \<times> pipe_sys) option" where
  "writer_write m s = do {
     (ok, s) \<leftarrow> writer_check_write m s;
     if \<not> ok then Some (False, s)
     else do {
       w \<leftarrow> pp_writer s;
       if w_swapping w then do {
         sw \<leftarrow> w_swap w;
         (stored, sw) \<leftarrow> swap_store m sw;
         zmq_assert stored;
         let sw = (if \<not> has_more m then swap_commit sw else sw);
         Some (True, upd_writer (w_swap_update (\<lambda>_. Some sw)) s)
       }
       else do {
         s \<leftarrow> pipe_write m s;
         Some (True, if \<not> has_more m then upd_writer (\<lambda>w. w\<lparr>w_msgs_written := w_msgs_written w + 1\<rparr>) s else s)
       }
     }
   }"

text \<open>The loop of \<open>rollback\<close>, with the messages it closes.\<close>

partial_function (option) unwrite_all :: "msg ypipe \<Rightarrow> msg list \<Rightarrow> (msg list \<times> msg ypipe) option" where
  "unwrite_all y closed = do {
     (v, y) \<leftarrow> ypipe_unwrite message_pipe_granularity y;
     case v of
       None \<Rightarrow> Some (closed, y)
     | Some m \<Rightarrow> do { zmq_assert (has_more m); unwrite_all y (closed @ [m]) }
   }"

declare unwrite_all.simps [code]

definition writer_rollback :: "pipe_sys \<Rightarrow> pipe_sys option" where
  "writer_rollback s = do {
     w \<leftarrow> pp_writer s;
     if w_swapping w then do {
       sw \<leftarrow> w_swap w;
       sw \<leftarrow> swap_rollback sw;
       Some (upd_writer (w_swap_update (\<lambda>_. Some sw)) s)
     }
     else do {
       y \<leftarrow> pp_pipe s;
       (closed, y) \<leftarrow> unwrite_all y [];
       Some (s\<lparr>pp_pipe := Some y, pp_closed := pp_closed s @ closed\<rparr>)
     }
   }"

definition pipe_flush :: "pipe_sys \<Rightarrow> pipe_sys option" where
  "pipe_flush s = do {
     y \<leftarrow> pp_pipe s;
     let (ok, y) = ypipe_flush y;
     let s = s\<lparr>pp_pipe := Some y\<rparr>;
     Some (if \<not> ok then send_to_reader Activate_reader s else s)
   }"

definition writer_flush :: "pipe_sys \<Rightarrow> pipe_sys option" where
  "writer_flush s = do {
     w \<leftarrow> pp_writer s;
     if \<not> w_swapping w then pipe_flush s else Some s
   }"

definition push_delimiter :: "pipe_sys \<Rightarrow> pipe_sys option" where
  "push_delimiter s = do {
     y \<leftarrow> pp_pipe s;
     y \<leftarrow> ypipe_write message_pipe_granularity delimiter_msg False y;
     writer_flush (s\<lparr>pp_pipe := Some y\<rparr>)
   }"

definition writer_terminate :: "pipe_sys \<Rightarrow> pipe_sys option" where
  "writer_terminate s = do {
     w \<leftarrow> pp_writer s;
     if w_terminating w then Some s
     else do {
       let s = upd_writer (\<lambda>w. w\<lparr>w_terminating := True, w_active := False\<rparr>) s;
       s \<leftarrow> writer_rollback s;
       w \<leftarrow> pp_writer s;
       if w_swapping w then Some (upd_writer (w_pending_delimiter_update (\<lambda>_. True)) s)
       else push_delimiter s
     }
   }"

text \<open>The loop that moves messages from the swap into the pipe.\<close>

partial_function (option) unswap :: "writer \<Rightarrow> swap \<Rightarrow> msg ypipe \<Rightarrow> (writer \<times> swap \<times> msg ypipe) option" where
  "unswap w sw y =
     (if \<not> pipe_full w \<and> \<not> swap_empty sw then do {
        (m, sw) \<leftarrow> swap_fetch sw;
        y \<leftarrow> ypipe_write message_pipe_granularity m (has_more m) y;
        unswap (if \<not> has_more m then w\<lparr>w_msgs_written := w_msgs_written w + 1\<rparr> else w) sw y
      }
      else Some (w, sw, y))"

declare unswap.simps [code]

definition writer_activate :: "pipe_sys \<Rightarrow> pipe_sys option" where
  "writer_activate s = do {
     w \<leftarrow> pp_writer s;
     if \<not> w_active w \<and> \<not> w_terminating w then do {
       let s = upd_writer (w_active_update (\<lambda>_. True)) s;
       zmq_assert (w_sink w);
       Some (pipe_event Writer_activated s)
     }
     else Some s
   }"

definition process_activate_writer :: "u64 \<Rightarrow> pipe_sys \<Rightarrow> pipe_sys option" where
  "process_activate_writer msgs_read s = do {
     w \<leftarrow> pp_writer s;
     let w = w\<lparr>w_msgs_read := msgs_read\<rparr>;
     let s = s\<lparr>pp_writer := Some w\<rparr>;
     if \<not> w_swapping w then writer_activate s
     else do {
       sw \<leftarrow> w_swap w;
       y \<leftarrow> pp_pipe s;
       (w, sw, y) \<leftarrow> unswap w sw y;
       s \<leftarrow> pipe_flush (s\<lparr>pp_writer := Some (w\<lparr>w_swap := Some sw\<rparr>), pp_pipe := Some y\<rparr>);
       if \<not> swap_empty sw then writer_activate s
       else
         let s = upd_writer (w_swapping_update (\<lambda>_. False)) s
         in if w_pending_delimiter w then push_delimiter s else writer_activate s
     }
   }"

definition process_pipe_term :: "pipe_sys \<Rightarrow> pipe_sys option" where
  "process_pipe_term s = do {
     w \<leftarrow> pp_writer s;
     let s = send_to_reader Pipe_term_ack s;
     zmq_assert (w_sink w);
     Some ((pipe_event Writer_terminated s)\<lparr>pp_writer := None\<rparr>)
   }"

subsection \<open>create\_pipe\<close>

definition low_water_mark :: "u64 \<Rightarrow> u64" where
  "low_water_mark hwm =
     (if hwm > max_wm_delta * 2 then hwm - max_wm_delta else (hwm + 1) div 2)"

definition create_pipe :: "(nat \<Rightarrow> swap option) \<Rightarrow> u64 \<Rightarrow> int \<Rightarrow> pipe_sys option" where
  "create_pipe open_swap hwm swap_size = do {
     let lwm = low_water_mark hwm;
     y \<leftarrow> ypipe_init message_pipe_granularity;
     let r = reader_new lwm;
     w \<leftarrow> writer_new open_swap hwm swap_size;
     r \<leftarrow> reader_set_writer r;
     Some \<lparr>pp_reader = Some r, pp_writer = Some w, pp_pipe = Some y, pp_to_reader = [],
           pp_to_writer = [], pp_events = [], pp_closed = []\<rparr>
   }"

section \<open>The two loops over the pipe\<close>

abbreviation pipe_rep :: "msg ypipe \<Rightarrow> msg apipe \<Rightarrow> bool" where
  "pipe_rep \<equiv> yp_rep message_pipe_granularity"

lemma close_unread_rep:
  "pipe_rep y p \<Longrightarrow> \<exists>y'. close_unread y cl = Some (cl @ ap_avail p, y') \<and>
     pipe_rep y' (p\<lparr>ap_avail := [], ap_asleep := True\<rparr>)"
proof (induction "ap_avail p" arbitrary: y p cl)
  case Nil
  from read_ypipe_rep [OF Nil.prems] obtain y' where
    "ypipe_read message_pipe_granularity y = Some (None, y')" "pipe_rep y' (p\<lparr>ap_asleep := True\<rparr>)"
    using Nil.hyps by (auto simp: ap_read_def split: list.splits)
  moreover have "p\<lparr>ap_asleep := True\<rparr> = p\<lparr>ap_avail := [], ap_asleep := True\<rparr>"
    using Nil.hyps by (cases p) simp
  ultimately show ?case using Nil.hyps by (subst close_unread.simps) simp
next
  case (Cons v vs)
  from read_ypipe_rep [OF Cons.prems] obtain y1 where y1:
    "ypipe_read message_pipe_granularity y = Some (Some v, y1)" "pipe_rep y1 (p\<lparr>ap_avail := vs\<rparr>)"
    using Cons.hyps(2) by (auto simp: ap_read_def split: list.splits)
  have "vs = ap_avail (p\<lparr>ap_avail := vs\<rparr>)" by simp
  from Cons.hyps(1) [OF this y1(2), of "cl @ [v]"] y1(1) Cons.hyps(2) [symmetric] show ?case
    by (subst close_unread.simps) simp
qed

lemma unwrite_all_rep:
  "pipe_rep y p \<Longrightarrow> (\<forall>m \<in> set (ap_inc p). has_more m) \<Longrightarrow>
   \<exists>y'. unwrite_all y cl = Some (cl @ rev (ap_inc p), y') \<and> pipe_rep y' (p\<lparr>ap_inc := []\<rparr>)"
proof (induction "ap_inc p" arbitrary: y p cl rule: rev_induct)
  case Nil
  from unwrite_ypipe_rep [OF Nil.prems(1)] obtain y' where
    "ypipe_unwrite message_pipe_granularity y = Some (None, y')" "pipe_rep y' p"
    using Nil.hyps by (auto simp: ap_unwrite_def)
  moreover from this(2) have "pipe_rep y' (p\<lparr>ap_inc := []\<rparr>)" using Nil.hyps by (cases p) simp
  ultimately show ?case using Nil.hyps [symmetric] by (subst unwrite_all.simps) simp
next
  case (snoc v vs)
  from unwrite_ypipe_rep [OF snoc.prems(1)] obtain y1 where y1:
    "ypipe_unwrite message_pipe_granularity y = Some (Some v, y1)" "pipe_rep y1 (p\<lparr>ap_inc := vs\<rparr>)"
    using snoc.hyps(2) [symmetric] by (auto simp: ap_unwrite_def)
  have "vs = ap_inc (p\<lparr>ap_inc := vs\<rparr>)" "\<forall>m \<in> set (ap_inc (p\<lparr>ap_inc := vs\<rparr>)). has_more m" "has_more v"
    using snoc.prems(2) snoc.hyps(2) [symmetric] by simp_all
  from snoc.hyps(1) [OF this(1) y1(2) this(2), of "cl @ [v]"] this(3) y1(1) snoc.hyps(2) [symmetric]
  show ?case by (subst unwrite_all.simps) simp
qed

text \<open>The operations of the pipe as they are used below, with the result made explicit.\<close>

lemma granularity_pos: "0 < message_pipe_granularity"
  by (simp add: message_pipe_granularity_def)

lemma check_read_cases:
  assumes "pipe_rep y p"
  obtains (empty) y' where "ap_avail p = []" "ypipe_check_read y = (False, y')"
      "pipe_rep y' (p\<lparr>ap_asleep := True\<rparr>)"
    | (ready) y' v vs where "ap_avail p = v # vs" "ypipe_check_read y = (True, y')" "pipe_rep y' p"
  using check_read_ypipe_rep [OF assms]
  by (cases "ap_avail p"; cases "ypipe_check_read y") (auto simp: ap_check_read_def)

lemma read_cases:
  assumes "pipe_rep y p"
  obtains (empty) y' where "ap_avail p = []" "ypipe_read message_pipe_granularity y = Some (None, y')"
      "pipe_rep y' (p\<lparr>ap_asleep := True\<rparr>)"
    | (ready) y' v vs where "ap_avail p = v # vs"
      "ypipe_read message_pipe_granularity y = Some (Some v, y')" "pipe_rep y' (p\<lparr>ap_avail := vs\<rparr>)"
  using read_ypipe_rep [OF assms] by (cases "ap_avail p") (auto simp: ap_read_def)

lemma flush_cases:
  assumes "pipe_rep y p"
  obtains y' where "ypipe_flush y = (fst (ap_flush p), y')" "pipe_rep y' (snd (ap_flush p))"
  using flush_ypipe_rep [OF assms] by (cases "ypipe_flush y") auto

section \<open>The water marks\<close>

lemma low_water_mark_bounds:
  "0 < unat hwm \<Longrightarrow> 0 < unat (low_water_mark hwm) \<and> unat (low_water_mark hwm) \<le> unat hwm"
proof -
  assume h: "0 < unat hwm"
  show ?thesis
  proof (cases "hwm > max_wm_delta * 2")
    case True
    then have g: "2048 < unat hwm" by (simp add: max_wm_delta_def word_less_nat_alt)
    then have "unat (hwm - 1024) = unat hwm - 1024"
      by (subst unat_sub) (simp_all add: word_le_nat_alt)
    with True g show ?thesis by (simp add: low_water_mark_def max_wm_delta_def)
  next
    case False
    then have "unat hwm \<le> 2048" by (simp add: max_wm_delta_def word_less_nat_alt)
    then have "unat ((hwm + 1) div 2) = (unat hwm + 1) div 2"
      by (simp add: unat_div unat_plus_simple [THEN iffD1] word_le_nat_alt unat_word_ariths)
    with False h show ?thesis by (auto simp: low_water_mark_def)
  qed
qed

section \<open>Runs of a pipe\<close>

text \<open>The commands of the two sides, as \<open>object_t::process_command\<close> dispatches them.\<close>

definition reader_process :: "pipe_sys \<Rightarrow> pipe_sys option" where
  "reader_process s =
     (case pp_to_reader s of
        [] \<Rightarrow> Some s
      | c # cs \<Rightarrow>
          let s = s\<lparr>pp_to_reader := cs\<rparr>
          in case c of
               Activate_reader \<Rightarrow> process_activate_reader s
             | Pipe_term_ack \<Rightarrow> process_pipe_term_ack s
             | _ \<Rightarrow> None)"

definition writer_process :: "pipe_sys \<Rightarrow> pipe_sys option" where
  "writer_process s =
     (case pp_to_writer s of
        [] \<Rightarrow> Some s
      | c # cs \<Rightarrow>
          let s = s\<lparr>pp_to_writer := cs\<rparr>
          in case c of
               Activate_writer n \<Rightarrow> process_activate_writer n s
             | Pipe_term \<Rightarrow> process_pipe_term s
             | _ \<Rightarrow> None)"

datatype pipe_act =
    R_check | R_read | R_terminate | R_process
  | W_check msg | W_write msg | W_flush | W_rollback | W_terminate | W_process

fun pipe_do :: "pipe_act \<Rightarrow> pipe_sys \<Rightarrow> pipe_sys option" where
  "pipe_do R_check s = map_option snd (reader_check_read s)"
| "pipe_do R_read s = map_option snd (reader_read s)"
| "pipe_do R_terminate s = reader_terminate s"
| "pipe_do R_process s = reader_process s"
| "pipe_do (W_check m) s = map_option snd (writer_check_write m s)"
| "pipe_do (W_write m) s = map_option snd (writer_write m s)"
| "pipe_do W_flush s = writer_flush s"
| "pipe_do W_rollback s = writer_rollback s"
| "pipe_do W_terminate s = writer_terminate s"
| "pipe_do W_process s = writer_process s"

text \<open>
  What the owners of the two objects do: they drop a reader or writer when told that it has
  terminated, do not read from a pipe they have asked to terminate, and write messages only.
\<close>

fun allowed :: "pipe_act \<Rightarrow> pipe_sys \<Rightarrow> bool" where
  "allowed R_process s = True"
| "allowed W_process s = True"
| "allowed R_terminate s = (pp_reader s \<noteq> None)"
| "allowed R_check s = (case pp_reader s of None \<Rightarrow> False | Some r \<Rightarrow> \<not> r_terminating r)"
| "allowed R_read s = (case pp_reader s of None \<Rightarrow> False | Some r \<Rightarrow> \<not> r_terminating r)"
| "allowed (W_write m) s = (pp_writer s \<noteq> None \<and> \<not> is_delimiter m)"
| "allowed _ s = (pp_writer s \<noteq> None)"

text \<open>A pipe with no swap: created, both sinks set, then run by its two owners.\<close>

definition pipe_start :: "u64 \<Rightarrow> pipe_sys option" where
  "pipe_start hwm = do {
     s \<leftarrow> create_pipe (\<lambda>_. None) hwm 0;
     s \<leftarrow> reader_set_event_sink s;
     writer_set_event_sink s
   }"

inductive pipe_reach :: "u64 \<Rightarrow> pipe_sys \<Rightarrow> bool" for hwm :: u64 where
  start: "pipe_start hwm = Some s \<Longrightarrow> pipe_reach hwm s"
| act: "pipe_reach hwm s \<Longrightarrow> allowed a s \<Longrightarrow> pipe_do a s = Some s' \<Longrightarrow> pipe_reach hwm s'"

fun pipe_runs :: "pipe_act list \<Rightarrow> pipe_sys \<Rightarrow> pipe_sys option" where
  "pipe_runs [] s = Some s"
| "pipe_runs (a # as) s = do { zmq_assert (allowed a s); s \<leftarrow> pipe_do a s; pipe_runs as s }"

definition run_from :: "u64 \<Rightarrow> pipe_act list \<Rightarrow> pipe_sys option" where
  "run_from hwm as = do { s \<leftarrow> pipe_start hwm; pipe_runs as s }"

lemma reach_runs: "pipe_reach hwm s \<Longrightarrow> pipe_runs as s = Some s' \<Longrightarrow> pipe_reach hwm s'"
  by (induction as arbitrary: s)
    (auto simp: Option.bind_eq_Some_conv zmq_assert_bind_Some intro: pipe_reach.act)

lemma reach_run_from: "run_from hwm as = Some s \<Longrightarrow> pipe_reach hwm s"
  by (auto simp: run_from_def Option.bind_eq_Some_conv intro: reach_runs pipe_reach.start)

section \<open>The invariant\<close>

definition completes :: "msg list \<Rightarrow> nat" where
  "completes xs = length (filter (\<lambda>m. \<not> has_more m \<and> \<not> is_delimiter m) xs)"

lemma completes_simps [simp]:
  "completes [] = 0" "completes (xs @ ys) = completes xs + completes ys"
  "completes (m # xs) = (if \<not> has_more m \<and> \<not> is_delimiter m then Suc (completes xs) else completes xs)"
  by (simp_all add: completes_def)

text \<open>The multiple of \<open>lwm\<close> the reader has announced last when it has read \<open>R\<close> messages.\<close>

definition announced :: "u64 \<Rightarrow> nat \<Rightarrow> nat" where
  "announced lwm R = R - (R mod 2 ^ 64) mod unat lwm"

text \<open>
  \<open>W\<close>, \<open>R\<close> and \<open>M\<close> count, without wrap-around, the messages written, those read and those the
  writer knows to be read; \<open>ns\<close> are the counts on their way to the writer.
\<close>

definition counters_ok :: "u64 \<Rightarrow> reader \<Rightarrow> writer \<Rightarrow> msg apipe \<Rightarrow> nat list \<Rightarrow> nat \<Rightarrow> nat \<Rightarrow> nat \<Rightarrow> bool" where
  "counters_ok hwm r w p ns W R M \<longleftrightarrow>
     w_msgs_written w = of_nat W \<and> r_msgs_read r = of_nat R \<and> w_msgs_read w = of_nat M \<and>
     W = R + completes (ap_avail p @ ap_pend p) \<and>
     sorted (M # ns @ [R]) \<and>
     (0 < unat hwm \<longrightarrow> W \<le> M + unat hwm \<and> last (M # ns) = announced (r_lwm r) R) \<and>
     (\<not> w_active w \<and> \<not> w_terminating w \<longrightarrow> 0 < unat hwm \<and> W = M + unat hwm)"

definition live_ok :: "u64 \<Rightarrow> pipe_sys \<Rightarrow> reader \<Rightarrow> writer \<Rightarrow> msg apipe \<Rightarrow> nat list \<Rightarrow> nat \<Rightarrow> nat \<Rightarrow> nat \<Rightarrow> nat \<Rightarrow> bool" where
  "live_ok hwm s r w p ns k W R M \<longleftrightarrow>
     pp_reader s = Some r \<and> pp_writer s = Some w \<and> (\<exists>y. pp_pipe s = Some y \<and> pipe_rep y p) \<and>
     w_swap w = None \<and> \<not> w_swapping w \<and> w_hwm w = hwm \<and> r_lwm r = low_water_mark hwm \<and>
     r_sink r \<and> w_sink w \<and>
     (w_terminating w \<longrightarrow> \<not> w_active w) \<and>
     (\<forall>m \<in> set (ap_inc p). has_more m) \<and>
     pp_to_reader s = replicate k Activate_reader \<and>
     pp_to_writer s = map (Activate_writer \<circ> of_nat) ns @ (if r_terminating r then [Pipe_term] else []) \<and>
     (\<not> r_active r \<and> \<not> r_terminating r \<longrightarrow> ap_asleep p \<or> 0 < k) \<and>
     (ap_asleep p \<longrightarrow> ap_avail p = []) \<and>
     counters_ok hwm r w p ns W R M"

definition closing_ok :: "pipe_sys \<Rightarrow> bool" where
  "closing_ok s \<longleftrightarrow> (\<exists>r y p k. pp_reader s = Some r \<and> r_sink r \<and> r_terminating r \<and> pp_writer s = None \<and>
     pp_pipe s = Some y \<and> pipe_rep y p \<and>
     pp_to_reader s = replicate k Activate_reader @ [Pipe_term_ack] \<and> pp_to_writer s = [])"

definition closed_ok :: "pipe_sys \<Rightarrow> bool" where
  "closed_ok s \<longleftrightarrow> pp_reader s = None \<and> pp_writer s = None \<and> pp_pipe s = None \<and>
     pp_to_reader s = [] \<and> pp_to_writer s = []"

text \<open>The delimiter a terminating writer has sent is in the pipe until the reader starts to terminate.\<close>

definition delim_kept :: "reader \<Rightarrow> writer \<Rightarrow> msg apipe \<Rightarrow> bool" where
  "delim_kept r w p \<longleftrightarrow> (w_terminating w \<and> \<not> r_terminating r \<longrightarrow> (\<exists>m \<in> set (ap_avail p). is_delimiter m))"

definition pipe_inv :: "u64 \<Rightarrow> pipe_sys \<Rightarrow> bool" where
  "pipe_inv hwm s \<longleftrightarrow> (\<exists>r w p ns k W R M. live_ok hwm s r w p ns k W R M \<and> delim_kept r w p) \<or>
     closing_ok s \<or> closed_ok s"

lemma delim_kept_simps [simp]:
  "delim_kept (r\<lparr>r_active := b\<rparr>) w p = delim_kept r w p"
  "delim_kept (r\<lparr>r_msgs_read := n\<rparr>) w p = delim_kept r w p"
  "delim_kept r (w\<lparr>w_active := b\<rparr>) p = delim_kept r w p"
  "delim_kept r (w\<lparr>w_msgs_written := n\<rparr>) p = delim_kept r w p"
  "delim_kept r (w\<lparr>w_msgs_read := n\<rparr>) p = delim_kept r w p"
  "delim_kept r w (p\<lparr>ap_asleep := b\<rparr>) = delim_kept r w p"
  "delim_kept r w (p\<lparr>ap_inc := xs\<rparr>) = delim_kept r w p"
  "delim_kept r w (ap_write m b p) = delim_kept r w p"
  "r_terminating r \<Longrightarrow> delim_kept r w p"
  by (simp_all add: delim_kept_def ap_write_def)

lemma announced_Suc:
  assumes "0 < unat lwm" and "l = announced lwm R"
  shows "(if (of_nat R + 1 :: u64) mod lwm = 0 then Suc R else l) = announced lwm (Suc R)"
proof -
  have u: "unat ((of_nat R + 1 :: u64) mod lwm) = (Suc R mod 2 ^ 64) mod unat lwm"
  proof -
    have "(of_nat R + 1 :: u64) = of_nat (Suc R)" by simp
    then show ?thesis by (simp only: unat_mod unat_of_nat) simp
  qed
  have z: "(of_nat R + 1 :: u64) mod lwm = 0 \<longleftrightarrow> (Suc R mod 2 ^ 64) mod unat lwm = 0"
    by (simp only: u [symmetric] unat_eq_0)
  show ?thesis
  proof (cases "(Suc R mod 2 ^ 64) mod unat lwm = 0")
    case True
    then show ?thesis using z by (simp add: announced_def)
  next
    case False
    then have ne: "Suc R mod 2 ^ 64 \<noteq> 0" by (cases "Suc R mod 2 ^ 64 = 0") simp_all
    then have s: "Suc R mod 2 ^ 64 = Suc (R mod 2 ^ 64)" by (simp add: mod_Suc split: if_splits)
    with False have "Suc (R mod 2 ^ 64) mod unat lwm = Suc ((R mod 2 ^ 64) mod unat lwm)"
      by (simp add: mod_Suc split: if_splits)
    with s False z assms(2) show ?thesis by (simp add: announced_def)
  qed
qed

lemma announced_le [simp]: "announced lwm R \<le> R"
  by (simp add: announced_def)

lemma announced_close: "0 < unat lwm \<Longrightarrow> R < announced lwm R + unat lwm"
proof -
  assume "0 < unat lwm"
  then have "(R mod 2 ^ 64) mod unat lwm < unat lwm" by simp
  moreover have "(R mod 2 ^ 64) mod unat lwm \<le> R"
    by (meson mod_less_eq_dividend order_trans)
  ultimately show ?thesis by (simp add: announced_def)
qed

lemma announced_same:
  assumes "(of_nat R :: u64) mod lwm = 0"
  shows "announced lwm R = R"
proof -
  have "unat ((of_nat R :: u64) mod lwm) = (R mod 2 ^ 64) mod unat lwm"
    by (simp only: unat_mod unat_of_nat) simp
  with assms show ?thesis by (simp add: announced_def)
qed

lemma pipe_full_count:
  assumes "counters_ok hwm r w p ns W R M" and "w_hwm w = hwm"
  shows "pipe_full w \<longleftrightarrow> 0 < unat hwm \<and> W = M + unat hwm"
proof (cases "0 < unat hwm")
  case True
  with assms have W: "W \<le> M + unat hwm" and M: "M \<le> W"
    by (auto simp: counters_ok_def)
  then have "of_nat W - of_nat M = (of_nat (W - M) :: u64)" by (simp add: of_nat_diff)
  moreover have "(of_nat (W - M) :: u64) = hwm \<longleftrightarrow> W - M = unat hwm"
  proof -
    have "unat hwm < 2 ^ LENGTH(64)" by (rule unsigned_less)
    then have "W - M < 2 ^ LENGTH(64)" using W by simp
    then have "unat (of_nat (W - M) :: u64) = W - M" by (simp add: unat_of_nat)
    then show ?thesis by (auto simp del: unat_of_nat)
  qed
  ultimately show ?thesis using assms True M
    by (auto simp: pipe_full_def counters_ok_def word_less_nat_alt)
next
  case False
  then show ?thesis using assms by (simp add: pipe_full_def word_less_nat_alt)
qed

lemma live_pipe:
  assumes "live_ok hwm s r w p ns k W R M"
  obtains y where "pp_pipe s = Some y" and "pipe_rep y p"
  using assms by (auto simp: live_ok_def)

lemma pipe_invI: "live_ok hwm s r w p ns k W R M \<Longrightarrow> delim_kept r w p \<Longrightarrow> pipe_inv hwm s"
  unfolding pipe_inv_def by blast

lemma inv_cases:
  assumes "pipe_inv hwm s"
  obtains (live) r w p ns k W R M where "live_ok hwm s r w p ns k W R M" and "delim_kept r w p"
    | (closing) "closing_ok s" | (closed) "closed_ok s"
  using assms unfolding pipe_inv_def by blast

lemma inv_reader:
  assumes inv: "pipe_inv hwm s" and r: "pp_reader s = Some r" and nt: "\<not> r_terminating r"
  obtains w p ns k W R M where "live_ok hwm s r w p ns k W R M" and "delim_kept r w p"
  using inv
proof (cases rule: inv_cases)
  case (live r' w p ns k W R M)
  then have "r' = r" using r by (simp add: live_ok_def)
  with live that show ?thesis by blast
qed (use r nt in \<open>auto simp: closing_ok_def closed_ok_def\<close>)

lemma inv_writer:
  assumes inv: "pipe_inv hwm s" and w: "pp_writer s = Some w"
  obtains r p ns k W R M where "live_ok hwm s r w p ns k W R M" and "delim_kept r w p"
  using inv
proof (cases rule: inv_cases)
  case (live r w' p ns k W R M)
  then have "w' = w" using w by (simp add: live_ok_def)
  with live that show ?thesis by blast
qed (use w in \<open>auto simp: closing_ok_def closed_ok_def\<close>)

lemma start_inv: "\<exists>s. pipe_start hwm = Some s \<and> pipe_inv hwm s"
proof -
  obtain y where y: "ypipe_init message_pipe_granularity = Some y" "pipe_rep y ap_init"
    using init_ypipe_rep [OF granularity_pos] by blast
  let ?r = "(reader_new (low_water_mark hwm))\<lparr>r_writer := True, r_sink := True\<rparr>"
  let ?w = "\<lparr>w_active = True, w_hwm = hwm, w_msgs_read = 0, w_msgs_written = 0, w_swap = None,
           w_sink = True, w_swapping = False, w_pending_delimiter = False, w_terminating = False\<rparr>"
  let ?s = "\<lparr>pp_reader = Some ?r, pp_writer = Some ?w, pp_pipe = Some y, pp_to_reader = [],
           pp_to_writer = [], pp_events = [], pp_closed = []\<rparr>"
  have "pipe_start hwm = Some ?s"
    using y(1) by (simp add: pipe_start_def create_pipe_def writer_new_def reader_set_writer_def
      reader_new_def reader_set_event_sink_def writer_set_event_sink_def upd_reader_def upd_writer_def Let_def)
  moreover have "live_ok hwm ?s ?r ?w ap_init [] 0 0 0 0"
    using y(2) by (simp add: live_ok_def counters_ok_def reader_new_def ap_init_def announced_def)
  moreover have "delim_kept ?r ?w ap_init" by (simp add: delim_kept_def)
  ultimately show ?thesis by (blast intro: pipe_invI)
qed

lemma reader_terminate_inv:
  assumes "pipe_inv hwm s" and "pp_reader s \<noteq> None"
  shows "\<exists>s'. reader_terminate s = Some s' \<and> pipe_inv hwm s'"
proof -
  obtain r where r: "pp_reader s = Some r" using assms(2) by blast
  show ?thesis
  proof (cases "r_terminating r")
    case True
    with r assms(1) show ?thesis by (simp add: reader_terminate_def)
  next
    case False
    with assms(1) r obtain w p ns k W R M where live: "live_ok hwm s r w p ns k W R M" and "delim_kept r w p"
      by (rule inv_reader)
    let ?r = "r\<lparr>r_active := False, r_terminating := True\<rparr>"
    let ?s = "s\<lparr>pp_reader := Some ?r, pp_to_writer := pp_to_writer s @ [Pipe_term]\<rparr>"
    have "live_ok hwm ?s ?r w p ns k W R M"
      using live False by (auto simp: live_ok_def counters_ok_def)
    moreover have "reader_terminate s = Some ?s"
      using r False by (simp add: reader_terminate_def upd_reader_def send_to_writer_def)
    moreover have "delim_kept ?r w p" by simp
    ultimately show ?thesis by (blast intro: pipe_invI)
  qed
qed

lemma pipe_event_inv [simp]: "pipe_inv hwm (pipe_event e s) = pipe_inv hwm s"
  by (simp add: pipe_inv_def live_ok_def closing_ok_def closed_ok_def pipe_event_def)

lemma reader_delimited_inv:
  assumes "pipe_inv hwm s" and "pp_reader s \<noteq> None"
  shows "\<exists>s'. reader_delimited s = Some s' \<and> pipe_inv hwm s'"
proof -
  obtain r where r: "pp_reader s = Some r" using assms(2) by blast
  let ?s = "if r_sink r then pipe_event Reader_delimited s else s"
  have "pipe_inv hwm ?s" using assms(1) by simp
  moreover have "pp_reader ?s \<noteq> None" using r by (simp add: pipe_event_def)
  ultimately obtain s' where "reader_terminate ?s = Some s'" "pipe_inv hwm s'"
    using reader_terminate_inv by blast
  with r show ?thesis by (simp add: reader_delimited_def)
qed

text \<open>Taking a delimiter off the pipe, which starts the termination of the reader; marking the reader
  passive.\<close>

lemma live_delimiter:
  assumes live: "live_ok hwm s r w p ns k W R M" and p: "ap_avail p = v # vs" "is_delimiter v"
    and y: "pipe_rep y (p\<lparr>ap_avail := vs\<rparr>)" and nt: "\<not> r_terminating r"
  shows "\<exists>s'. reader_delimited (s\<lparr>pp_pipe := Some y\<rparr>) = Some s' \<and> pipe_inv hwm s'"
proof -
  let ?r = "r\<lparr>r_active := False, r_terminating := True\<rparr>"
  let ?s = "s\<lparr>pp_pipe := Some y, pp_reader := Some ?r, pp_to_writer := pp_to_writer s @ [Pipe_term]\<rparr>"
  have "live_ok hwm ?s ?r w (p\<lparr>ap_avail := vs\<rparr>) ns k W R M"
    using live p y nt by (auto simp: live_ok_def counters_ok_def)
  then have "pipe_inv hwm ?s" by (rule pipe_invI) simp
  then have "pipe_inv hwm (pipe_event Reader_delimited ?s)" by simp
  moreover have "reader_delimited (s\<lparr>pp_pipe := Some y\<rparr>) = Some (pipe_event Reader_delimited ?s)"
    using live nt by (simp add: live_ok_def reader_delimited_def reader_terminate_def upd_reader_def
      send_to_writer_def pipe_event_def)
  ultimately show ?thesis by blast
qed

lemma live_empty:
  assumes "live_ok hwm s r w p ns k W R M" and "ap_avail p = []" and "pipe_rep y (p\<lparr>ap_asleep := True\<rparr>)"
  shows "live_ok hwm (s\<lparr>pp_pipe := Some y, pp_reader := Some (r\<lparr>r_active := False\<rparr>)\<rparr>)
    (r\<lparr>r_active := False\<rparr>) w (p\<lparr>ap_asleep := True\<rparr>) ns k W R M"
  using assms by (auto simp: live_ok_def counters_ok_def)

lemma live_pipe_same:
  assumes "live_ok hwm s r w p ns k W R M" and "pipe_rep y p"
  shows "live_ok hwm (s\<lparr>pp_pipe := Some y\<rparr>) r w p ns k W R M"
  using assms by (auto simp: live_ok_def)

lemma reader_check_read_inv:
  assumes inv: "pipe_inv hwm s" and "pp_reader s = Some r" and "\<not> r_terminating r"
  shows "\<exists>b s'. reader_check_read s = Some (b, s') \<and> pipe_inv hwm s'"
proof (cases "r_active r")
  case False
  with assms show ?thesis by (auto simp: reader_check_read_def)
next
  case True
  from assms obtain w p ns k W R M where live: "live_ok hwm s r w p ns k W R M" and dk: "delim_kept r w p"
    by (rule inv_reader)
  from live obtain y where y: "pp_pipe s = Some y" "pipe_rep y p" by (rule live_pipe)
  from y(2) show ?thesis
  proof (cases rule: check_read_cases)
    case (empty y')
    with live_empty [OF live empty(1,3)] dk True y(1) assms(2) show ?thesis
      by (auto simp: reader_check_read_def upd_reader_def intro: pipe_invI)
  next
    case (ready y' v vs)
    obtain y2 where y2: "ypipe_probe is_delimiter y' = Some (is_delimiter v, y2)" "pipe_rep y2 p"
      using probe_ypipe_rep [OF ready(3,1)] by blast
    show ?thesis
    proof (cases "is_delimiter v")
      case False
      with live_pipe_same [OF live y2(2)] dk True y(1) y2 ready(2) assms(2) show ?thesis
        by (auto simp: reader_check_read_def intro: pipe_invI)
    next
      case d: True
      from y2(2) obtain y3 where y3: "ypipe_read message_pipe_granularity y2 = Some (Some v, y3)"
        "pipe_rep y3 (p\<lparr>ap_avail := vs\<rparr>)"
        by (cases rule: read_cases) (use ready(1) in auto)
      obtain s' where "reader_delimited (s\<lparr>pp_pipe := Some y3\<rparr>) = Some s'" "pipe_inv hwm s'"
        using live_delimiter [OF live ready(1) d y3(2) assms(3)] by blast
      with True y(1) y2 y3 d ready(2) assms(2) show ?thesis by (auto simp: reader_check_read_def)
    qed
  qed
qed

lemma counters_read:
  assumes c: "counters_ok hwm r w p ns W R M" and r: "r_lwm r = low_water_mark hwm"
    and av: "ap_avail p = v # vs" and nd: "\<not> is_delimiter v"
  defines "n \<equiv> (if \<not> has_more v then r_msgs_read r + 1 else r_msgs_read r)"
    and "R' \<equiv> (if \<not> has_more v then Suc R else R)"
  shows "counters_ok hwm (r\<lparr>r_msgs_read := n\<rparr>) w (p\<lparr>ap_avail := vs\<rparr>)
    (if r_lwm r > 0 \<and> n mod r_lwm r = 0 then ns @ [R'] else ns) W R' M"
proof -
  have n: "n = of_nat R'" using c by (simp add: n_def R'_def counters_ok_def add.commute)
  have srt: "sorted (M # ns @ [R'])" "sorted (M # (ns @ [R']) @ [R'])"
    using c by (auto simp: counters_ok_def R'_def sorted_append)
  have lst: "last (M # (if r_lwm r > 0 \<and> n mod r_lwm r = 0 then ns @ [R'] else ns)) = announced (r_lwm r) R'"
    if h: "0 < unat hwm"
  proof -
    have l: "0 < unat (r_lwm r)" using low_water_mark_bounds [OF h] r by simp
    have an: "last (M # ns) = announced (r_lwm r) R" using c h by (simp add: counters_ok_def)
    show ?thesis
    proof (cases "has_more v")
      case True
      then show ?thesis using an n announced_same [of R "r_lwm r"] by (auto simp: R'_def)
    next
      case False
      then have e: "(of_nat R + 1 :: u64) = n" "R' = Suc R" using n by (simp_all add: R'_def)
      have pos: "0 < r_lwm r" using l by (simp add: word_less_nat_alt)
      show ?thesis using announced_Suc [OF l an] pos unfolding e by (simp split: if_splits)
    qed
  qed
  show ?thesis
    using c lst srt n av nd by (auto simp: counters_ok_def R'_def)
qed

lemma reader_read_inv:
  assumes inv: "pipe_inv hwm s" and r: "pp_reader s = Some r" and nt: "\<not> r_terminating r"
  shows "\<exists>b s'. reader_read s = Some (b, s') \<and> pipe_inv hwm s'"
proof (cases "r_active r")
  case False
  with assms show ?thesis by (auto simp: reader_read_def)
next
  case act: True
  from assms obtain w p ns k W R M where live: "live_ok hwm s r w p ns k W R M" and dk: "delim_kept r w p"
    by (rule inv_reader)
  from live obtain y where y: "pp_pipe s = Some y" "pipe_rep y p" by (rule live_pipe)
  from y(2) show ?thesis
  proof (cases rule: read_cases)
    case (empty y')
    with live_empty [OF live empty(1,3)] dk act y(1) r show ?thesis
      by (auto simp: reader_read_def upd_reader_def intro: pipe_invI)
  next
    case (ready y' v vs)
    show ?thesis
    proof (cases "is_delimiter v")
      case d: True
      obtain s' where "reader_delimited (s\<lparr>pp_pipe := Some y'\<rparr>) = Some s'" "pipe_inv hwm s'"
        using live_delimiter [OF live ready(1) d ready(3) nt] by blast
      with act y(1) ready(2) d r show ?thesis by (auto simp: reader_read_def is_delimiter_def)
    next
      case nd: False
      define n where "n = (if \<not> has_more v then r_msgs_read r + 1 else r_msgs_read r)"
      define R' where "R' = (if \<not> has_more v then Suc R else R)"
      let ?c = "r_lwm r > 0 \<and> n mod r_lwm r = 0"
      have lw: "r_lwm r = low_water_mark hwm" and cnt: "counters_ok hwm r w p ns W R M"
        using live by (simp_all add: live_ok_def)
      have n: "n = of_nat R'" using cnt by (simp add: n_def R'_def counters_ok_def add.commute)
      let ?s = "s\<lparr>pp_pipe := Some y', pp_reader := Some (r\<lparr>r_msgs_read := n\<rparr>)\<rparr>"
      let ?s' = "if ?c then ?s\<lparr>pp_to_writer := pp_to_writer s @ [Activate_writer n]\<rparr> else ?s"
      have "live_ok hwm ?s' (r\<lparr>r_msgs_read := n\<rparr>) w (p\<lparr>ap_avail := vs\<rparr>) (if ?c then ns @ [R'] else ns) k W R' M"
        using live nt ready(1,3) act n counters_read [OF cnt lw ready(1) nd, folded n_def R'_def]
        by (auto simp: live_ok_def)
      moreover have "reader_read s = Some (Some v, ?s')"
        using act y(1) ready(2) nd r
        by (simp add: reader_read_def is_delimiter_def upd_reader_def send_to_writer_def n_def Let_def)
      moreover have "delim_kept (r\<lparr>r_msgs_read := n\<rparr>) w (p\<lparr>ap_avail := vs\<rparr>)"
        using dk ready(1) nd by (auto simp: delim_kept_def)
      ultimately show ?thesis by (blast intro: pipe_invI)
    qed
  qed
qed

lemma reader_process_inv:
  assumes inv: "pipe_inv hwm s"
  shows "\<exists>s'. reader_process s = Some s' \<and> pipe_inv hwm s'"
  using inv
proof (cases rule: inv_cases)
  case (live r w p ns k W R M)
  show ?thesis
  proof (cases k)
    case 0
    with live inv show ?thesis by (simp add: reader_process_def live_ok_def)
  next
    case (Suc j)
    let ?s = "s\<lparr>pp_to_reader := replicate j Activate_reader, pp_reader := Some (r\<lparr>r_active := True\<rparr>)\<rparr>"
    have "live_ok hwm ?s (r\<lparr>r_active := True\<rparr>) w p ns j W R M"
      using live(1) Suc by (auto simp: live_ok_def counters_ok_def)
    then have "pipe_inv hwm ?s" by (rule pipe_invI) (simp add: live(2))
    then have "pipe_inv hwm (pipe_event Reader_activated ?s)" by simp
    moreover have "reader_process s = Some (pipe_event Reader_activated ?s)"
      using live Suc by (simp add: reader_process_def live_ok_def process_activate_reader_def upd_reader_def)
    ultimately show ?thesis by blast
  qed
next
  case closing
  then obtain r y p k where c: "pp_reader s = Some r" "r_sink r" "r_terminating r" "pp_writer s = None"
    "pp_pipe s = Some y" "pipe_rep y p" "pp_to_reader s = replicate k Activate_reader @ [Pipe_term_ack]"
    "pp_to_writer s = []"
    by (auto simp: closing_ok_def)
  show ?thesis
  proof (cases k)
    case 0
    obtain y' where y': "close_unread y [] = Some (ap_avail p, y')"
      "pipe_rep y' (p\<lparr>ap_avail := [], ap_asleep := True\<rparr>)"
      using close_unread_rep [OF c(6), of "[]"] by auto
    then obtain cs where "yq_rep message_pipe_granularity (yp_queue y') cs"
      by (auto simp: yp_rep_def yp_at_def)
    then obtain q where q: "yq_destroy (yp_queue y') = Some q" using destroy_rep by blast
    let ?s = "s\<lparr>pp_to_reader := [], pp_events := pp_events s @ [Reader_terminated],
      pp_closed := pp_closed s @ ap_avail p, pp_pipe := None, pp_reader := None\<rparr>"
    have "reader_process s = Some ?s"
      using c 0 y'(1) q by (simp add: reader_process_def process_pipe_term_ack_def reader_delete_def
        upd_reader_def pipe_event_def)
    moreover have "closed_ok ?s" using c by (simp add: closed_ok_def)
    ultimately show ?thesis by (simp add: pipe_inv_def)
  next
    case (Suc j)
    let ?s = "s\<lparr>pp_to_reader := replicate j Activate_reader @ [Pipe_term_ack],
      pp_reader := Some (r\<lparr>r_active := True\<rparr>)\<rparr>"
    have "closing_ok ?s" using c by (auto simp: closing_ok_def)
    then have "pipe_inv hwm ?s" unfolding pipe_inv_def by blast
    then have "pipe_inv hwm (pipe_event Reader_activated ?s)" by simp
    moreover have "reader_process s = Some (pipe_event Reader_activated ?s)"
      using c Suc by (simp add: reader_process_def process_activate_reader_def upd_reader_def)
    ultimately show ?thesis by blast
  qed
next
  case closed
  with inv show ?thesis by (simp add: reader_process_def closed_ok_def)
qed

lemma check_write_live:
  assumes live: "live_ok hwm s r w p ns k W R M"
  obtains (inactive) "\<not> w_active w" and "writer_check_write m s = Some (False, s)"
    | (full) "writer_check_write m s = Some (False, s\<lparr>pp_writer := Some (w\<lparr>w_active := False\<rparr>)\<rparr>)"
        and "live_ok hwm (s\<lparr>pp_writer := Some (w\<lparr>w_active := False\<rparr>)\<rparr>) r (w\<lparr>w_active := False\<rparr>) p ns k W R M"
    | (room) "w_active w" and "writer_check_write m s = Some (True, s)" and "0 < unat hwm \<longrightarrow> W < M + unat hwm"
proof (cases "w_active w")
  case False
  then show ?thesis using live by (intro inactive) (simp_all add: writer_check_write_def live_ok_def)
next
  case True
  have cnt: "counters_ok hwm r w p ns W R M" "w_hwm w = hwm" using live by (simp_all add: live_ok_def)
  show ?thesis
  proof (cases "pipe_full w")
    case f: True
    then have "0 < unat hwm \<and> W = M + unat hwm" using pipe_full_count [OF cnt] by simp
    then have "counters_ok hwm r (w\<lparr>w_active := False\<rparr>) p ns W R M"
      using cnt(1) unfolding counters_ok_def by (elim conjE, intro conjI) simp_all
    then show ?thesis using live True f
      by (intro full) (simp_all add: writer_check_write_def live_ok_def upd_writer_def)
  next
    case nf: False
    then have "0 < unat hwm \<longrightarrow> W < M + unat hwm" using pipe_full_count [OF cnt] cnt
      by (auto simp: counters_ok_def)
    then show ?thesis using live True nf
      by (intro room) (simp_all add: writer_check_write_def live_ok_def)
  qed
qed

lemma writer_check_write_inv:
  assumes inv: "pipe_inv hwm s" and w: "pp_writer s = Some w"
  shows "\<exists>b s'. writer_check_write m s = Some (b, s') \<and> pipe_inv hwm s'"
proof -
  from assms obtain r p ns k W R M where live: "live_ok hwm s r w p ns k W R M" and dk: "delim_kept r w p"
    by (rule inv_writer)
  show ?thesis
    using live by (cases rule: check_write_live [where m = m]) (use inv dk in \<open>auto intro: pipe_invI\<close>)
qed

lemma live_write:
  assumes live: "live_ok hwm s r w p ns k W R M" and y: "pipe_rep y (ap_write m (has_more m) p)"
    and act: "w_active w" and free: "0 < unat hwm \<longrightarrow> W < M + unat hwm" and nd: "\<not> is_delimiter m"
  defines "w' \<equiv> (if \<not> has_more m then w\<lparr>w_msgs_written := w_msgs_written w + 1\<rparr> else w)"
  shows "live_ok hwm (s\<lparr>pp_pipe := Some y, pp_writer := Some w'\<rparr>) r w' (ap_write m (has_more m) p) ns k
    (if \<not> has_more m then Suc W else W) R M"
proof -
  have inc: "completes (ap_inc p) = 0"
    using live by (auto simp: live_ok_def completes_def filter_empty_conv)
  have "counters_ok hwm r w' (ap_write m (has_more m) p) ns (if \<not> has_more m then Suc W else W) R M"
    using live act free nd inc
    by (auto simp: live_ok_def counters_ok_def w'_def ap_write_def add.commute)
  moreover have "\<forall>m' \<in> set (ap_inc (ap_write m (has_more m) p)). has_more m'"
    using live by (auto simp: live_ok_def ap_write_def)
  moreover have "ap_asleep (ap_write m (has_more m) p) = ap_asleep p"
    "ap_avail (ap_write m (has_more m) p) = ap_avail p" by (simp_all add: ap_write_def)
  ultimately show ?thesis using live act y by (auto simp: live_ok_def w'_def)
qed

lemma writer_write_inv:
  assumes inv: "pipe_inv hwm s" and w: "pp_writer s = Some w" and nd: "\<not> is_delimiter m"
  shows "\<exists>b s'. writer_write m s = Some (b, s') \<and> pipe_inv hwm s'"
proof -
  from inv w obtain r p ns k W R M where live: "live_ok hwm s r w p ns k W R M" and dk: "delim_kept r w p"
    by (rule inv_writer)
  from live show ?thesis
  proof (cases rule: check_write_live [where m = m])
    case inactive
    with inv show ?thesis by (auto simp: writer_write_def)
  next
    case full
    then show ?thesis using dk by (auto simp: writer_write_def intro: pipe_invI)
  next
    case room
    from live obtain y where y: "pp_pipe s = Some y" "pipe_rep y p" by (rule live_pipe)
    obtain y' where y': "ypipe_write message_pipe_granularity m (has_more m) y = Some y'"
      "pipe_rep y' (ap_write m (has_more m) p)"
      using write_ypipe_rep [OF y(2)] by blast
    have "\<not> w_swapping w" using live by (simp add: live_ok_def)
    then have "writer_write m s = Some (True, s\<lparr>pp_pipe := Some y', pp_writer :=
        Some (if \<not> has_more m then w\<lparr>w_msgs_written := w_msgs_written w + 1\<rparr> else w)\<rparr>)"
      using room(2) y(1) y'(1) w by (simp add: writer_write_def pipe_write_def upd_writer_def)
    with live_write [OF live y'(2) room(1,3) nd] dk show ?thesis by (auto intro: pipe_invI)
  qed
qed

lemma flush_live:
  assumes live: "live_ok hwm s r w p ns k W R M"
    and dk: "delim_kept r w p \<or> ap_inc p = [] \<and> (\<exists>m \<in> set (ap_pend p). is_delimiter m)"
  shows "\<exists>s'. writer_flush s = Some s' \<and> pipe_inv hwm s'"
proof -
  from live obtain y where y: "pp_pipe s = Some y" "pipe_rep y p" by (rule live_pipe)
  from y(2) obtain y' where y': "ypipe_flush y = (fst (ap_flush p), y')" "pipe_rep y' (snd (ap_flush p))"
    by (rule flush_cases)
  have w: "pp_writer s = Some w" "\<not> w_swapping w" using live by (simp_all add: live_ok_def)
  have dk: "delim_kept r w (snd (ap_flush p))"
    using dk by (auto simp: delim_kept_def ap_flush_def split: if_splits)
  show ?thesis
  proof (cases "fst (ap_flush p)")
    case True
    have "live_ok hwm (s\<lparr>pp_pipe := Some y'\<rparr>) r w (snd (ap_flush p)) ns k W R M"
      using live y'(2) True
      by (auto simp: live_ok_def counters_ok_def ap_flush_def split: if_splits)
    with w y(1) y'(1) True dk show ?thesis
      by (auto simp: writer_flush_def pipe_flush_def intro: pipe_invI)
  next
    case False
    let ?s = "s\<lparr>pp_pipe := Some y', pp_to_reader := pp_to_reader s @ [Activate_reader]\<rparr>"
    have "live_ok hwm ?s r w (snd (ap_flush p)) ns (Suc k) W R M"
      using live y'(2) False
      by (auto simp: live_ok_def counters_ok_def ap_flush_def replicate_append_same [symmetric] split: if_splits)
    with w y(1) y'(1) False dk show ?thesis
      by (auto simp: writer_flush_def pipe_flush_def send_to_reader_def intro: pipe_invI)
  qed
qed

lemma writer_flush_inv:
  assumes inv: "pipe_inv hwm s" and w: "pp_writer s = Some w"
  shows "\<exists>s'. writer_flush s = Some s' \<and> pipe_inv hwm s'"
proof -
  from assms obtain r p ns k W R M where "live_ok hwm s r w p ns k W R M" and "delim_kept r w p"
    by (rule inv_writer)
  then show ?thesis using flush_live by blast
qed

lemma rollback_live:
  assumes live: "live_ok hwm s r w p ns k W R M"
  obtains s' where "writer_rollback s = Some s'" and "live_ok hwm s' r w (p\<lparr>ap_inc := []\<rparr>) ns k W R M"
proof -
  from live obtain y where y: "pp_pipe s = Some y" "pipe_rep y p" by (rule live_pipe)
  have "\<forall>m \<in> set (ap_inc p). has_more m" using live by (simp add: live_ok_def)
  then obtain y' where y': "unwrite_all y [] = Some (rev (ap_inc p), y')" "pipe_rep y' (p\<lparr>ap_inc := []\<rparr>)"
    using unwrite_all_rep [OF y(2), of "[]"] by auto
  let ?s = "s\<lparr>pp_pipe := Some y', pp_closed := pp_closed s @ rev (ap_inc p)\<rparr>"
  have "writer_rollback s = Some ?s"
    using live y(1) y'(1) by (simp add: writer_rollback_def live_ok_def)
  moreover have "live_ok hwm ?s r w (p\<lparr>ap_inc := []\<rparr>) ns k W R M"
    using live y'(2) by (auto simp: live_ok_def counters_ok_def)
  ultimately show thesis by (rule that)
qed

lemma writer_rollback_inv:
  assumes inv: "pipe_inv hwm s" and w: "pp_writer s = Some w"
  shows "\<exists>s'. writer_rollback s = Some s' \<and> pipe_inv hwm s'"
proof -
  from assms obtain r p ns k W R M where live: "live_ok hwm s r w p ns k W R M" and dk: "delim_kept r w p"
    by (rule inv_writer)
  from live show ?thesis by (rule rollback_live) (use dk in \<open>auto intro: pipe_invI\<close>)
qed

lemma writer_terminate_inv:
  assumes inv: "pipe_inv hwm s" and w: "pp_writer s = Some w"
  shows "\<exists>s'. writer_terminate s = Some s' \<and> pipe_inv hwm s'"
proof (cases "w_terminating w")
  case True
  with assms show ?thesis by (simp add: writer_terminate_def)
next
  case False
  from assms obtain r p ns k W R M where live: "live_ok hwm s r w p ns k W R M" and "delim_kept r w p"
    by (rule inv_writer)
  let ?w = "w\<lparr>w_terminating := True, w_active := False\<rparr>"
  let ?s = "upd_writer (\<lambda>w. w\<lparr>w_terminating := True, w_active := False\<rparr>) s"
  have "live_ok hwm ?s r ?w p ns k W R M"
    using live by (auto simp: live_ok_def counters_ok_def upd_writer_def)
  then obtain s1 where s1: "writer_rollback ?s = Some s1" "live_ok hwm s1 r ?w (p\<lparr>ap_inc := []\<rparr>) ns k W R M"
    by (rule rollback_live)
  obtain y1 where y1: "pp_pipe s1 = Some y1" "pipe_rep y1 (p\<lparr>ap_inc := []\<rparr>)"
    using s1(2) by (rule live_pipe)
  let ?p = "ap_write delimiter_msg False (p\<lparr>ap_inc := []\<rparr>)"
  obtain y2 where y2: "ypipe_write message_pipe_granularity delimiter_msg False y1 = Some y2" "pipe_rep y2 ?p"
    using write_ypipe_rep [OF y1(2)] by blast
  have d: "is_delimiter delimiter_msg" by (simp add: is_delimiter_def delimiter_msg_def)
  have "live_ok hwm (s1\<lparr>pp_pipe := Some y2\<rparr>) r ?w ?p ns k W R M"
    using s1(2) y2(2) d by (auto simp: live_ok_def counters_ok_def ap_write_def)
  moreover have "ap_inc ?p = [] \<and> (\<exists>m \<in> set (ap_pend ?p). is_delimiter m)" using d by (simp add: ap_write_def)
  ultimately obtain s2 where "writer_flush (s1\<lparr>pp_pipe := Some y2\<rparr>) = Some s2" "pipe_inv hwm s2"
    using flush_live by blast
  moreover have "pp_writer s1 = Some ?w" "\<not> w_swapping ?w" using s1(2) by (simp_all add: live_ok_def)
  ultimately show ?thesis
    using w False s1(1) y1(1) y2(1) by (simp add: writer_terminate_def push_delimiter_def)
qed

lemma writer_process_inv:
  assumes inv: "pipe_inv hwm s"
  shows "\<exists>s'. writer_process s = Some s' \<and> pipe_inv hwm s'"
  using inv
proof (cases rule: inv_cases)
  case (live r w p ns k W R M)
  then have w: "pp_writer s = Some w" "\<not> w_swapping w" "w_sink w" by (simp_all add: live_ok_def)
  show ?thesis
  proof (cases ns)
    case (Cons n ns')
    let ?w = "w\<lparr>w_msgs_read := of_nat n, w_active := w_active w \<or> \<not> w_terminating w\<rparr>"
    let ?s = "s\<lparr>pp_to_writer := map (Activate_writer \<circ> of_nat) ns' @ (if r_terminating r then [Pipe_term] else []),
      pp_writer := Some ?w\<rparr>"
    have dk: "delim_kept r ?w p" using live(2) by (simp add: delim_kept_def)
    have "counters_ok hwm r ?w p ns' W R n"
      using live(1) Cons by (auto simp: live_ok_def counters_ok_def)
    then have l: "live_ok hwm ?s r ?w p ns' k W R n"
      using live Cons by (auto simp: live_ok_def)
    have "writer_process s = Some (if \<not> w_active w \<and> \<not> w_terminating w then pipe_event Writer_activated ?s else ?s)"
      using live Cons w
      by (cases "w_active w"; cases "w_terminating w")
        (simp_all add: writer_process_def live_ok_def process_activate_writer_def writer_activate_def
          upd_writer_def Let_def)
    with pipe_invI [OF l dk] show ?thesis by auto
  next
    case Nil
    show ?thesis
    proof (cases "r_terminating r")
      case False
      with live Nil inv show ?thesis by (simp add: writer_process_def live_ok_def)
    next
      case True
      let ?s = "s\<lparr>pp_to_writer := [], pp_to_reader := pp_to_reader s @ [Pipe_term_ack],
        pp_events := pp_events s @ [Writer_terminated], pp_writer := None\<rparr>"
      have "writer_process s = Some ?s"
        using live Nil True w
        by (simp add: writer_process_def live_ok_def process_pipe_term_def send_to_reader_def pipe_event_def)
      moreover have "closing_ok ?s" using live True by (auto simp: closing_ok_def live_ok_def)
      ultimately show ?thesis by (simp add: pipe_inv_def)
    qed
  qed
qed (use inv in \<open>auto simp: writer_process_def closing_ok_def closed_ok_def\<close>)

lemmas pipe_op_invs = reader_terminate_inv reader_process_inv writer_process_inv
  writer_flush_inv writer_rollback_inv writer_terminate_inv

lemma pipe_do_inv:
  assumes "pipe_inv hwm s" and "allowed a s"
  shows "\<exists>s'. pipe_do a s = Some s' \<and> pipe_inv hwm s'"
  using assms reader_check_read_inv [of hwm s] reader_read_inv [of hwm s] pipe_op_invs [of hwm s]
    writer_check_write_inv [of hwm s] writer_write_inv [of hwm s]
  by (cases a) (fastforce split: option.splits)+

lemma reach_inv: "pipe_reach hwm s \<Longrightarrow> pipe_inv hwm s"
proof (induction rule: pipe_reach.induct)
  case (start s)
  then show ?case using start_inv [of hwm] by auto
next
  case (act s a s')
  then show ?case using pipe_do_inv [of hwm s a] by auto
qed

lemma reader_process_frame:
  "reader_process s = Some s' \<Longrightarrow> pp_to_reader s' = tl (pp_to_reader s) \<and> pp_writer s' = pp_writer s"
  by (auto simp: reader_process_def process_activate_reader_def process_pipe_term_ack_def
      reader_delete_def upd_reader_def pipe_event_def Let_def Option.bind_eq_Some_conv
      split: list.splits pipe_cmd.splits)

lemma writer_process_frame:
  "writer_process s = Some s' \<Longrightarrow> pp_writer s = Some w \<Longrightarrow> \<not> w_swapping w \<Longrightarrow>
   pp_to_writer s' = tl (pp_to_writer s) \<and> pp_reader s' = pp_reader s"
  by (auto simp: writer_process_def process_activate_writer_def writer_activate_def process_pipe_term_def
      send_to_reader_def upd_writer_def pipe_event_def Let_def Option.bind_eq_Some_conv
      split: list.splits pipe_cmd.splits if_splits)

section \<open>Termination\<close>

text \<open>One of the two sides has started to terminate, or is gone.\<close>

definition reader_ends :: "pipe_sys \<Rightarrow> bool" where
  "reader_ends s \<longleftrightarrow> (case pp_reader s of None \<Rightarrow> True | Some r \<Rightarrow> r_terminating r)"

definition writer_ends :: "pipe_sys \<Rightarrow> bool" where
  "writer_ends s \<longleftrightarrow> (case pp_writer s of None \<Rightarrow> True | Some w \<Rightarrow> w_terminating w)"

definition pipe_closing :: "pipe_sys \<Rightarrow> bool" where
  "pipe_closing s \<longleftrightarrow> reader_ends s \<or> writer_ends s"

text \<open>The acts that get the termination on: processing a command, and reading.\<close>

fun gets_on :: "pipe_act \<Rightarrow> pipe_sys \<Rightarrow> bool" where
  "gets_on R_process s = (pp_to_reader s \<noteq> [])"
| "gets_on W_process s = (pp_to_writer s \<noteq> [])"
| "gets_on R_read s = (case pp_reader s of None \<Rightarrow> False | Some r \<Rightarrow> r_active r \<and> \<not> r_terminating r)"
| "gets_on _ s = False"

fun runs_on :: "pipe_act list \<Rightarrow> pipe_sys \<Rightarrow> pipe_sys option" where
  "runs_on [] s = Some s"
| "runs_on (a # as) s = do { zmq_assert (gets_on a s); s \<leftarrow> pipe_do a s; runs_on as s }"

lemma gets_on_allowed: "gets_on a s \<Longrightarrow> allowed a s"
  by (cases a) (auto split: option.splits)

text \<open>The work that is left: messages to read, commands to process.\<close>

fun cmd_work :: "pipe_cmd \<Rightarrow> nat" where
  "cmd_work Pipe_term = 3"
| "cmd_work _ = 1"

definition work_at :: "pipe_sys \<Rightarrow> reader \<Rightarrow> msg apipe \<Rightarrow> nat" where
  "work_at s r p = 5 * length (ap_avail p) + (if r_active r \<and> \<not> r_terminating r then 1 else 0) +
     2 * length (pp_to_reader s) + sum_list (map cmd_work (pp_to_writer s))"

definition work :: "pipe_sys \<Rightarrow> nat \<Rightarrow> bool" where
  "work s n \<longleftrightarrow> (case pp_reader s of None \<Rightarrow> n = 0
     | Some r \<Rightarrow> \<exists>y p. pp_pipe s = Some y \<and> pipe_rep y p \<and> n = work_at s r p)"

lemma workI: "pp_reader s = Some r \<Longrightarrow> pp_pipe s = Some y \<Longrightarrow> pipe_rep y p \<Longrightarrow> work s (work_at s r p)"
  by (auto simp: work_def)

lemma work_exists: "pipe_inv hwm s \<Longrightarrow> \<exists>n. work s n"
  by (auto simp: pipe_inv_def live_ok_def closing_ok_def closed_ok_def work_def)

lemma workE:
  assumes "work s n" and "pp_reader s = Some r"
  obtains y p where "pp_pipe s = Some y" and "pipe_rep y p" and "n = work_at s r p"
  using assms by (auto simp: work_def)

lemma commands_objects:
  assumes "pipe_inv hwm s"
  shows "pp_to_reader s \<noteq> [] \<Longrightarrow> \<exists>r. pp_reader s = Some r"
    and "pp_to_writer s \<noteq> [] \<Longrightarrow> \<exists>r w. pp_reader s = Some r \<and> pp_writer s = Some w \<and> \<not> w_swapping w"
  using assms by (auto simp: pipe_inv_def live_ok_def closing_ok_def closed_ok_def)

lemma read_gets_on:
  assumes inv: "pipe_inv hwm s" and g: "gets_on R_read s" and n: "work s n"
  shows "\<exists>b s' n'. reader_read s = Some (b, s') \<and> work s' n' \<and> n' < n \<and> pp_writer s' = pp_writer s \<and>
    (reader_ends s \<longrightarrow> reader_ends s')"
proof -
  obtain r where r: "pp_reader s = Some r" "r_active r" "\<not> r_terminating r" using g by (auto split: option.splits)
  obtain y p where y: "pp_pipe s = Some y" "pipe_rep y p" "n = work_at s r p" using n r(1) by (rule workE)
  from y(2) show ?thesis
  proof (cases rule: read_cases)
    case (empty y')
    let ?s = "s\<lparr>pp_pipe := Some y', pp_reader := Some (r\<lparr>r_active := False\<rparr>)\<rparr>"
    have "work ?s (work_at ?s (r\<lparr>r_active := False\<rparr>) (p\<lparr>ap_asleep := True\<rparr>))"
      by (rule workI) (use empty in auto)
    then show ?thesis using empty r y by (auto simp: reader_read_def upd_reader_def work_at_def reader_ends_def)
  next
    case (ready y' v vs)
    show ?thesis
    proof (cases "is_delimiter v")
      case True
      let ?r = "r\<lparr>r_active := False, r_terminating := True\<rparr>"
      let ?s = "s\<lparr>pp_pipe := Some y', pp_reader := Some ?r, pp_to_writer := pp_to_writer s @ [Pipe_term],
        pp_events := pp_events s @ (if r_sink r then [Reader_delimited] else [])\<rparr>"
      have "work ?s (work_at ?s ?r (p\<lparr>ap_avail := vs\<rparr>))" by (rule workI) (use ready in auto)
      moreover have "reader_read s = Some (None, ?s)"
        using r y ready True by (simp add: reader_read_def is_delimiter_def reader_delimited_def reader_terminate_def
          upd_reader_def send_to_writer_def pipe_event_def)
      moreover have "work_at ?s ?r (p\<lparr>ap_avail := vs\<rparr>) < n" using y(3) ready(1) r by (simp add: work_at_def)
      moreover have "reader_ends ?s" by (simp add: reader_ends_def)
      ultimately show ?thesis by (intro exI conjI) (assumption | simp)+
    next
      case False
      define k where "k = (if \<not> has_more v then r_msgs_read r + 1 else r_msgs_read r)"
      let ?r = "r\<lparr>r_msgs_read := k\<rparr>"
      let ?s = "s\<lparr>pp_pipe := Some y', pp_reader := Some ?r,
        pp_to_writer := pp_to_writer s @ (if r_lwm r > 0 \<and> k mod r_lwm r = 0 then [Activate_writer k] else [])\<rparr>"
      have "work ?s (work_at ?s ?r (p\<lparr>ap_avail := vs\<rparr>))" by (rule workI) (use ready in auto)
      moreover have "reader_read s = Some (Some v, ?s)"
        using r y ready False
        by (simp add: reader_read_def is_delimiter_def upd_reader_def send_to_writer_def k_def Let_def)
      moreover have "work_at ?s ?r (p\<lparr>ap_avail := vs\<rparr>) < n" using y(3) ready(1) r by (simp add: work_at_def)
      moreover have "reader_ends s \<longrightarrow> reader_ends ?s" using r by (simp add: reader_ends_def)
      ultimately show ?thesis by (intro exI conjI) (assumption | simp)+
    qed
  qed
qed

lemma reader_process_gets_on:
  assumes inv: "pipe_inv hwm s" and g: "pp_to_reader s \<noteq> []" and n: "work s n"
  shows "\<exists>s' n'. reader_process s = Some s' \<and> work s' n' \<and> n' < n \<and> pp_writer s' = pp_writer s \<and>
    (reader_ends s \<longrightarrow> reader_ends s')"
proof -
  obtain s' where s': "reader_process s = Some s'" using reader_process_inv [OF inv] by blast
  obtain r where r0: "pp_reader s = Some r" using commands_objects(1) [OF inv g] by blast
  obtain y p where "pp_pipe s = Some y" "pipe_rep y p" "n = work_at s r p" using n r0 by (rule workE)
  note r = r0 this
  obtain c cs where c: "pp_to_reader s = c # cs" using g by (cases "pp_to_reader s") auto
  have w: "pp_writer s' = pp_writer s" using reader_process_frame [OF s'] by simp
  have "c = Activate_reader \<or> c = Pipe_term_ack" using s' c by (cases c) (auto simp: reader_process_def)
  then show ?thesis
  proof
    assume a: "c = Activate_reader"
    let ?r = "r\<lparr>r_active := True\<rparr>"
    have e: "s' = s\<lparr>pp_to_reader := cs, pp_reader := Some ?r, pp_events := pp_events s @ [Reader_activated]\<rparr>"
      using s' c a r by (auto simp: reader_process_def process_activate_reader_def upd_reader_def pipe_event_def Option.bind_eq_Some_conv)
    have "work s' (work_at s' ?r p)" by (rule workI) (use e r in auto)
    moreover have "work_at s' ?r p < n" using r(4) c e by (simp add: work_at_def)
    moreover have "reader_ends s \<longrightarrow> reader_ends s'" using r(1) e by (simp add: reader_ends_def)
    ultimately show ?thesis using s' w by blast
  next
    assume a: "c = Pipe_term_ack"
    have e: "pp_reader s' = None"
      using s' c a by (auto simp: reader_process_def process_pipe_term_ack_def reader_delete_def Let_def Option.bind_eq_Some_conv)
    then have "work s' 0" "reader_ends s'" by (simp_all add: work_def reader_ends_def)
    moreover have "0 < n" using r(4) c by (simp add: work_at_def)
    ultimately show ?thesis using s' w by blast
  qed
qed

lemma writer_process_gets_on:
  assumes inv: "pipe_inv hwm s" and g: "pp_to_writer s \<noteq> []" and n: "work s n"
  shows "\<exists>s' n'. writer_process s = Some s' \<and> work s' n' \<and> n' < n \<and> pp_reader s' = pp_reader s \<and>
    (writer_ends s \<longrightarrow> writer_ends s')"
proof -
  obtain s' where s': "writer_process s = Some s'" using writer_process_inv [OF inv] by blast
  obtain r w where r0: "pp_reader s = Some r" "pp_writer s = Some w" "\<not> w_swapping w"
    using commands_objects(2) [OF inv g] by blast
  obtain y p where "pp_pipe s = Some y" "pipe_rep y p" "n = work_at s r p" using n r0(1) by (rule workE)
  note r = r0 this
  obtain c cs where c: "pp_to_writer s = c # cs" using g by (cases "pp_to_writer s") auto
  have f: "pp_reader s' = Some r" "pp_to_writer s' = cs" using writer_process_frame [OF s' r(2,3)] r(1) c by simp_all
  have "(\<exists>k. c = Activate_writer k) \<or> c = Pipe_term" using s' c by (cases c) (auto simp: writer_process_def)
  then show ?thesis
  proof
    assume "\<exists>k. c = Activate_writer k"
    then have "pp_pipe s' = Some y" "pp_to_reader s' = pp_to_reader s" "writer_ends s \<longrightarrow> writer_ends s'"
      using s' c r by (auto simp: writer_process_def process_activate_writer_def writer_activate_def upd_writer_def
        pipe_event_def writer_ends_def Let_def Option.bind_eq_Some_conv split: if_splits)
    moreover from this f have "work s' (work_at s' r p)" by (intro workI) (use r in auto)
    moreover have "work_at s' r p < n" using r(6) c f calculation(2) by (simp add: work_at_def) (cases c; simp)
    ultimately show ?thesis using s' f r by auto
  next
    assume "c = Pipe_term"
    then have e: "pp_pipe s' = Some y" "pp_to_reader s' = pp_to_reader s @ [Pipe_term_ack]" "pp_writer s' = None"
      using s' c r by (auto simp: writer_process_def process_pipe_term_def send_to_reader_def pipe_event_def Option.bind_eq_Some_conv)
    have "work s' (work_at s' r p)" by (rule workI) (use r f e in auto)
    moreover have "work_at s' r p < n" using r(6) c f e \<open>c = Pipe_term\<close> by (simp add: work_at_def)
    ultimately show ?thesis using s' f r e by (auto simp: writer_ends_def)
  qed
qed

lemma gets_on_step:
  assumes inv: "pipe_inv hwm s" and cl: "pipe_closing s" and g: "gets_on a s" and n: "work s n"
  shows "\<exists>s' n'. pipe_do a s = Some s' \<and> pipe_inv hwm s' \<and> pipe_closing s' \<and> work s' n' \<and> n' < n"
proof -
  obtain s' where s': "pipe_do a s = Some s'" "pipe_inv hwm s'" using pipe_do_inv [OF inv gets_on_allowed [OF g]] by blast
  have "\<exists>n'. work s' n' \<and> n' < n \<and> pipe_closing s'"
  proof (cases a)
    case R_read
    then show ?thesis using read_gets_on [OF inv _ n] g cl s'(1) by (auto simp: pipe_closing_def writer_ends_def)
  next
    case R_process
    then show ?thesis using reader_process_gets_on [OF inv _ n] g cl s'(1) by (auto simp: pipe_closing_def writer_ends_def)
  next
    case W_process
    then show ?thesis using writer_process_gets_on [OF inv _ n] g cl s'(1) by (auto simp: pipe_closing_def reader_ends_def)
  qed (use g in auto)
  with s' show ?thesis by blast
qed

lemma closing_quiet:
  assumes inv: "pipe_inv hwm s" and cl: "pipe_closing s" and q: "\<forall>a. \<not> gets_on a s"
  shows "closed_ok s"
  using inv
proof (cases rule: inv_cases)
  case (live r w p ns k W R M)
  have z: "pp_to_reader s = []" "pp_to_writer s = []" using q gets_on.simps(1,2) by blast+
  then have kt: "k = 0" "\<not> r_terminating r" using live(1) by (auto simp: live_ok_def split: if_splits)
  have "\<not> (r_active r \<and> \<not> r_terminating r)" using q [rule_format, of R_read] live(1) by (simp add: live_ok_def)
  then have "ap_avail p = []" using live(1) kt by (auto simp: live_ok_def)
  moreover have "w_terminating w" using cl kt live(1) by (simp add: pipe_closing_def reader_ends_def writer_ends_def live_ok_def)
  ultimately show ?thesis using live(2) kt by (simp add: delim_kept_def)
next
  case closing
  then show ?thesis using q [rule_format, of R_process] by (auto simp: closing_ok_def)
qed

lemma runs_on_bound:
  "pipe_inv hwm s \<Longrightarrow> pipe_closing s \<Longrightarrow> work s n \<Longrightarrow> runs_on as s = Some s' \<Longrightarrow>
   length as \<le> n \<and> pipe_inv hwm s' \<and> pipe_closing s'"
proof (induction as arbitrary: s n)
  case (Cons a as)
  have g: "gets_on a s" using Cons.prems(4) by (simp add: zmq_assert_bind_Some)
  obtain s1 n1 where s1: "pipe_do a s = Some s1" "pipe_inv hwm s1" "pipe_closing s1" "work s1 n1" "n1 < n"
    using gets_on_step [OF Cons.prems(1,2) g Cons.prems(3)] by blast
  have "runs_on as s1 = Some s'" using Cons.prems(4) s1(1) g by simp
  from Cons.IH [OF s1(2-4) this] s1(5) show ?case by simp
qed simp

text \<open>A termination that has started is not undone.\<close>

lemma ends_simps [simp]:
  "reader_ends (s\<lparr>pp_pipe := y\<rparr>) = reader_ends s" "writer_ends (s\<lparr>pp_pipe := y\<rparr>) = writer_ends s"
  "reader_ends (s\<lparr>pp_closed := cl\<rparr>) = reader_ends s" "writer_ends (s\<lparr>pp_closed := cl\<rparr>) = writer_ends s"
  "reader_ends (s\<lparr>pp_to_reader := xs\<rparr>) = reader_ends s" "writer_ends (s\<lparr>pp_to_reader := xs\<rparr>) = writer_ends s"
  "reader_ends (s\<lparr>pp_to_writer := xs\<rparr>) = reader_ends s" "writer_ends (s\<lparr>pp_to_writer := xs\<rparr>) = writer_ends s"
  "reader_ends (s\<lparr>pp_writer := w\<rparr>) = reader_ends s" "writer_ends (s\<lparr>pp_reader := r\<rparr>) = writer_ends s"
  "reader_ends (pipe_event e s) = reader_ends s" "writer_ends (pipe_event e s) = writer_ends s"
  "reader_ends (send_to_writer c s) = reader_ends s" "writer_ends (send_to_writer c s) = writer_ends s"
  "reader_ends (send_to_reader c s) = reader_ends s" "writer_ends (send_to_reader c s) = writer_ends s"
  "reader_ends (upd_reader (r_active_update f) s) = reader_ends s" "writer_ends (upd_reader g s) = writer_ends s"
  "reader_ends (upd_reader (r_msgs_read_update h) s) = reader_ends s" "reader_ends (upd_writer k s) = reader_ends s"
  "writer_ends (upd_writer (w_active_update f) s) = writer_ends s"
  "writer_ends (upd_writer (w_swapping_update f) s) = writer_ends s"
  "writer_ends (upd_writer (\<lambda>w. w\<lparr>w_msgs_written := w_msgs_written w + 1\<rparr>) s) = writer_ends s"
  by (simp_all add: reader_ends_def writer_ends_def pipe_event_def send_to_writer_def send_to_reader_def
    upd_reader_def upd_writer_def split: option.splits)

lemma terminate_ends:
  assumes "reader_terminate s = Some s'"
  shows "reader_ends s' \<and> writer_ends s' = writer_ends s"
proof -
  obtain r where r: "pp_reader s = Some r" using assms by (auto simp: reader_terminate_def Option.bind_eq_Some_conv)
  show ?thesis
  proof (cases "r_terminating r")
    case True
    then show ?thesis using assms r by (simp add: reader_terminate_def reader_ends_def)
  next
    case False
    then have "s' = send_to_writer Pipe_term (upd_reader (\<lambda>r. r\<lparr>r_active := False, r_terminating := True\<rparr>) s)"
      using assms r by (simp add: reader_terminate_def)
    then show ?thesis using r by (simp add: reader_ends_def upd_reader_def send_to_writer_def writer_ends_def)
  qed
qed

lemma delimited_ends: "reader_delimited s = Some s' \<Longrightarrow> reader_ends s' \<and> writer_ends s' = writer_ends s"
  by (auto simp: reader_delimited_def Option.bind_eq_Some_conv Let_def dest: terminate_ends split: if_split_asm)

lemma flush_ends:
  assumes "pipe_flush s = Some s'"
  shows "reader_ends s' = reader_ends s \<and> writer_ends s' = writer_ends s"
proof -
  obtain y where y: "pp_pipe s = Some y" using assms by (auto simp: pipe_flush_def Option.bind_eq_Some_conv)
  obtain ok y1 where "ypipe_flush y = (ok, y1)" by fastforce
  then show ?thesis using assms y by (cases ok) (auto simp: pipe_flush_def)
qed

lemma writer_flush_ends: "writer_flush s = Some s' \<Longrightarrow> reader_ends s' = reader_ends s \<and> writer_ends s' = writer_ends s"
  by (auto simp: writer_flush_def Option.bind_eq_Some_conv dest: flush_ends split: if_split_asm)

lemma pipe_write_ends:
  "pipe_write m s = Some s' \<Longrightarrow> reader_ends s' = reader_ends s \<and> writer_ends s' = writer_ends s \<and> pp_writer s' = pp_writer s"
  by (auto simp: pipe_write_def Option.bind_eq_Some_conv)

lemma check_ends:
  assumes "reader_check_read s = Some (b, s')"
  shows "(reader_ends s \<longrightarrow> reader_ends s') \<and> writer_ends s' = writer_ends s"
proof (cases "\<exists>r y. pp_reader s = Some r \<and> r_active r \<and> pp_pipe s = Some y")
  case True
  then obtain r y where r: "pp_reader s = Some r" "r_active r" "pp_pipe s = Some y" by blast
  obtain ok y1 where c: "ypipe_check_read y = (ok, y1)" by fastforce
  show ?thesis
    using assms r c
    by (cases ok) (auto simp: reader_check_read_def Option.bind_eq_Some_conv Let_def dest: delimited_ends split: if_split_asm)
next
  case False
  then show ?thesis using assms by (auto simp: reader_check_read_def Option.bind_eq_Some_conv split: if_split_asm)
qed

lemma read_ends:
  assumes "reader_read s = Some (v, s')"
  shows "(reader_ends s \<longrightarrow> reader_ends s') \<and> writer_ends s' = writer_ends s"
proof (cases "\<exists>r y. pp_reader s = Some r \<and> r_active r \<and> pp_pipe s = Some y")
  case True
  then obtain r y where r: "pp_reader s = Some r" "r_active r" "pp_pipe s = Some y" by blast
  then obtain m y1 where c: "ypipe_read message_pipe_granularity y = Some (m, y1)"
    using assms by (auto simp: reader_read_def Option.bind_eq_Some_conv)
  show ?thesis
    using assms r c
    by (cases m) (auto simp: reader_read_def Option.bind_eq_Some_conv Let_def dest: delimited_ends split: if_split_asm)
next
  case False
  then show ?thesis using assms by (auto simp: reader_read_def Option.bind_eq_Some_conv split: if_split_asm)
qed

lemma closing_stays:
  assumes inv: "pipe_inv hwm s" and "pipe_do a s = Some s'" and "pipe_closing s"
  shows "pipe_closing s'"
proof -
  have sw: "\<not> w_swapping w" "w_swap w = None" if "pp_writer s = Some w" for w
    using inv that by (auto simp: pipe_inv_def live_ok_def closing_ok_def closed_ok_def)
  have "(reader_ends s \<longrightarrow> reader_ends s') \<and> (writer_ends s \<longrightarrow> writer_ends s')"
  proof (cases a)
    case R_check
    then show ?thesis using assms(2) check_ends by auto
  next
    case R_read
    then show ?thesis using assms(2) read_ends by auto
  next
    case R_terminate
    then show ?thesis using assms(2) terminate_ends by auto
  next
    case R_process
    then have p: "reader_process s = Some s'" using assms(2) by simp
    then have w: "writer_ends s' = writer_ends s" using reader_process_frame by (simp add: writer_ends_def)
    have "reader_ends s \<longrightarrow> reader_ends s'"
    proof (cases "pp_to_reader s = []")
      case False
      then show ?thesis using reader_process_gets_on [OF inv] work_exists [OF inv] p by fastforce
    qed (use p in \<open>simp add: reader_process_def\<close>)
    with w show ?thesis by simp
  next
    case (W_check m)
    then show ?thesis using assms(2) sw
      by (auto simp: writer_check_write_def Option.bind_eq_Some_conv split: if_split_asm)
  next
    case (W_write m)
    then obtain ok where wr: "writer_write m s = Some (ok, s')" using assms(2) by auto
    then obtain ok1 s1 where ck: "writer_check_write m s = Some (ok1, s1)" by (auto simp: writer_write_def Option.bind_eq_Some_conv)
    have c: "reader_ends s1 = reader_ends s" "writer_ends s1 = writer_ends s" "\<And>w. pp_writer s1 = Some w \<Longrightarrow> \<not> w_swapping w \<or> \<not> ok1"
      using ck sw by (auto simp: writer_check_write_def upd_writer_def writer_ends_def Option.bind_eq_Some_conv split: if_split_asm)
    have "reader_ends s' = reader_ends s1 \<and> writer_ends s' = writer_ends s1"
    proof (cases ok1)
      case True
      then obtain w where w: "pp_writer s1 = Some w" "\<not> w_swapping w"
        using wr ck c(3) by (auto simp: writer_write_def Option.bind_eq_Some_conv)
      obtain s2 where s2: "pipe_write m s1 = Some s2" using wr ck w True by (auto simp: writer_write_def Option.bind_eq_Some_conv)
      then have "s' = (if \<not> has_more m then upd_writer (\<lambda>w. w\<lparr>w_msgs_written := w_msgs_written w + 1\<rparr>) s2 else s2)"
        using wr ck w True by (simp add: writer_write_def)
      then show ?thesis using pipe_write_ends [OF s2] by simp
    qed (use wr ck in \<open>simp add: writer_write_def\<close>)
    with c show ?thesis by simp
  next
    case W_flush
    then show ?thesis using assms(2) writer_flush_ends by auto
  next
    case W_rollback
    then show ?thesis using assms(2) sw by (auto simp: writer_rollback_def Option.bind_eq_Some_conv split: if_split_asm)
  next
    case W_terminate
    then have t: "writer_terminate s = Some s'" using assms(2) by simp
    then obtain w where w: "pp_writer s = Some w" by (auto simp: writer_terminate_def Option.bind_eq_Some_conv)
    show ?thesis
    proof (cases "w_terminating w")
      case True
      then show ?thesis using t w by (simp add: writer_terminate_def)
    next
      case False
      let ?s = "upd_writer (\<lambda>w. w\<lparr>w_terminating := True, w_active := False\<rparr>) s"
      have u: "reader_ends ?s = reader_ends s" "writer_ends ?s" using w by (simp_all add: writer_ends_def upd_writer_def)
      obtain s1 where s1: "writer_rollback ?s = Some s1" using t w False by (auto simp: writer_terminate_def Option.bind_eq_Some_conv)
      have r: "reader_ends s1 = reader_ends ?s" "writer_ends s1 = writer_ends ?s" "pp_writer s1 = pp_writer ?s"
        using s1 sw(1) [OF w] w by (auto simp: writer_rollback_def upd_writer_def Option.bind_eq_Some_conv reader_ends_def writer_ends_def)
      have "push_delimiter s1 = Some s'"
        using t w False s1 r(3) sw(1) [OF w] by (simp add: writer_terminate_def upd_writer_def)
      then have "reader_ends s' = reader_ends s1 \<and> writer_ends s' = writer_ends s1"
        by (auto simp: push_delimiter_def Option.bind_eq_Some_conv dest: writer_flush_ends)
      with r u show ?thesis by simp
    qed
  next
    case W_process
    then have p: "writer_process s = Some s'" using assms(2) by simp
    have "reader_ends s' = reader_ends s \<and> (writer_ends s \<longrightarrow> writer_ends s')"
    proof (cases "pp_to_writer s = []")
      case False
      then show ?thesis using writer_process_gets_on [OF inv] work_exists [OF inv] p by (fastforce simp: reader_ends_def)
    qed (use p in \<open>simp add: writer_process_def\<close>)
    then show ?thesis by simp
  qed
  with assms(3) show ?thesis by (auto simp: pipe_closing_def)
qed

section \<open>Properties\<close>

text \<open>C1 (safety).  A pipe without a swap is safe, its shutdown handshake included: as long as the owners
  keep to what they may call (\<open>allowed\<close>: no call on an object they have been told is terminated, no read
  after the own termination, no delimiter as a message), no operation runs into a failed assertion,
  a deleted reader, writer or pipe, or a bad pointer of the queue, in whatever order the two sides act
  and their commands are processed.  (With a swap it is not so: the assertion of \<open>swap_t::rollback\<close>
  can fail, see \<open>Swap\<close>.)\<close>

theorem pipe_never_aborts:
  assumes "pipe_reach hwm s" and "allowed a s"
  shows "\<exists>s'. pipe_do a s = Some s'"
  using pipe_do_inv [OF reach_inv [OF assms(1)] assms(2)] by blast

text \<open>C6 (bounds).  The high water mark: a pipe without a swap never holds more than \<open>hwm\<close> complete
  messages.\<close>

theorem pipe_hwm_bound:
  assumes "pipe_reach hwm s" and "pp_writer s = Some w" and "pp_pipe s = Some y" and "0 < hwm"
  shows "\<exists>p. pipe_rep y p \<and> completes (ap_avail p @ ap_pend p) \<le> unat hwm"
proof -
  from reach_inv [OF assms(1)] assms(2) obtain r p ns k W R M where
    live: "live_ok hwm s r w p ns k W R M" by (rule inv_writer)
  then have "W \<le> M + unat hwm" "M \<le> R" "W = R + completes (ap_avail p @ ap_pend p)"
    using assms(4) by (auto simp: live_ok_def counters_ok_def word_less_nat_alt)
  with live assms(3) show ?thesis by (auto simp: live_ok_def intro: exI [of _ p])
qed

text \<open>C7 (liveness).  No lost wake-up of the reader (of a pipe without a swap): when a reader that is not
  terminating has gone passive although there is something to read, a command to activate it is on its way.\<close>

theorem pipe_reader_wakeup:
  assumes "pipe_reach hwm s" and "pp_reader s = Some r" and "pp_pipe s = Some y"
    and "\<not> r_active r" and "\<not> r_terminating r" and "fst (ypipe_check_read y)"
  shows "Activate_reader \<in> set (pp_to_reader s)"
proof -
  from reach_inv [OF assms(1)] assms(2,5) obtain w p ns k W R M where
    live: "live_ok hwm s r w p ns k W R M" by (rule inv_reader)
  then have rep: "pipe_rep y p" using assms(3) by (auto simp: live_ok_def)
  have "ap_avail p \<noteq> []" using check_read_ypipe_rep [OF rep] assms(6) by (auto simp: ap_check_read_def)
  with live assms(4,5) show ?thesis by (auto simp: live_ok_def)
qed

text \<open>C8 (liveness).  No lost credit (a pipe without a swap): when a writer that is not terminating is passive because
  the pipe was full, either a count of messages read is on its way to it, or the pipe still
  holds messages whose reading will send one; a pipe read to its end never stays blocked.\<close>

theorem pipe_writer_credit:
  assumes "pipe_reach hwm s" and "pp_writer s = Some w" and "pp_pipe s = Some y"
    and "\<not> w_active w" and "\<not> w_terminating w"
  shows "(\<exists>n. Activate_writer n \<in> set (pp_to_writer s)) \<or>
    (\<exists>p. pipe_rep y p \<and> 0 < completes (ap_avail p @ ap_pend p))"
proof -
  from reach_inv [OF assms(1)] assms(2) obtain r p ns k W R M where
    live: "live_ok hwm s r w p ns k W R M" by (rule inv_writer)
  then have cnt: "counters_ok hwm r w p ns W R M" and lw: "r_lwm r = low_water_mark hwm"
    by (simp_all add: live_ok_def)
  from cnt assms(4,5) have h: "0 < unat hwm" and W: "W = M + unat hwm" by (auto simp: counters_ok_def)
  show ?thesis
  proof (cases ns)
    case (Cons n ns')
    with live show ?thesis by (auto simp: live_ok_def)
  next
    case Nil
    with cnt h have "M = announced (r_lwm r) R" by (simp add: counters_ok_def)
    moreover have "R < announced (r_lwm r) R + unat (r_lwm r)" "unat (r_lwm r) \<le> unat hwm"
      using announced_close low_water_mark_bounds [OF h] lw by simp_all
    ultimately have "R < W" using W by simp
    with live assms(3) show ?thesis by (auto simp: live_ok_def counters_ok_def)
  qed
qed

text \<open>C9 (liveness).  Termination completes, whichever side has started it (a pipe without a swap): from
  every state that can be reached in which the reader or the writer is terminating, only a bounded
  number of commands and messages can be processed, none of these steps fails, in any order; and when
  nothing is left to process (the mailboxes are empty, and the reader, unless it is terminating, has
  read until it found nothing more), the reader, the writer and the pipe are deleted.  No operation
  takes the termination back.\<close>

theorem pipe_termination_completes:
  assumes "pipe_reach hwm s" and "pipe_closing s"
  shows "(\<exists>N. \<forall>as s'. runs_on as s = Some s' \<longrightarrow> length as \<le> N \<and>
      (\<forall>a. gets_on a s' \<longrightarrow> pipe_do a s' \<noteq> None) \<and>
      ((\<forall>a. \<not> gets_on a s') \<longrightarrow> pp_reader s' = None \<and> pp_writer s' = None \<and> pp_pipe s' = None)) \<and>
    (\<forall>a s'. pipe_do a s = Some s' \<longrightarrow> pipe_closing s')"
proof -
  note inv = reach_inv [OF assms(1)]
  obtain n where n: "work s n" using work_exists [OF inv] by blast
  have "length as \<le> n \<and> (\<forall>a. gets_on a s' \<longrightarrow> pipe_do a s' \<noteq> None) \<and>
      ((\<forall>a. \<not> gets_on a s') \<longrightarrow> pp_reader s' = None \<and> pp_writer s' = None \<and> pp_pipe s' = None)"
    if "runs_on as s = Some s'" for as s'
  proof -
    note b = runs_on_bound [OF inv assms(2) n that]
    have "pipe_do a s' \<noteq> None" if "gets_on a s'" for a
      using pipe_do_inv [OF _ gets_on_allowed [OF that]] b by blast
    moreover have "closed_ok s'" if "\<forall>a. \<not> gets_on a s'" using closing_quiet [OF _ _ that] b by blast
    ultimately show ?thesis using b by (simp add: closed_ok_def del: not_None_eq)
  qed
  then show ?thesis using closing_stays [OF inv _ assms(2)] by blast
qed

text \<open>The low water mark lies between 1 and the high water mark (it reaches the
  high water mark only when that is 1), and the two are at most \<open>max_wm_delta\<close> apart.\<close>

theorem low_water_mark_between:
  assumes "0 < hwm"
  shows "0 < low_water_mark hwm \<and> (low_water_mark hwm < hwm \<or> hwm = 1) \<and>
    hwm - low_water_mark hwm \<le> max_wm_delta"
proof (cases "hwm > max_wm_delta * 2")
  case True
  then have g: "2048 < unat hwm" by (simp add: max_wm_delta_def word_less_nat_alt)
  have "unat (hwm - 1024) = unat hwm - 1024"
    using g by (subst unat_sub) (simp_all add: word_le_nat_alt)
  with True g show ?thesis
    by (simp add: low_water_mark_def max_wm_delta_def word_less_nat_alt word_le_nat_alt)
next
  case False
  then have l: "unat hwm \<le> 2048" by (simp add: max_wm_delta_def word_less_nat_alt)
  then have d: "unat (low_water_mark hwm) = (unat hwm + 1) div 2"
    using False by (simp add: low_water_mark_def unat_div unat_word_ariths)
  from assms have h: "0 < unat hwm" by (simp add: word_less_nat_alt)
  then have le: "low_water_mark hwm \<le> hwm" by (simp add: word_le_nat_alt d)
  have "unat (hwm - low_water_mark hwm) = unat hwm - (unat hwm + 1) div 2"
    using le by (simp add: unat_sub d)
  moreover have "hwm = 1 \<longleftrightarrow> unat hwm = 1" by (metis unat_1 word_unat_eq_iff)
  ultimately show ?thesis using l h d
    by (simp add: word_less_nat_alt word_le_nat_alt max_wm_delta_def) linarith
qed

definition msg1 :: msg where "msg1 = \<lparr>m_body = Data [1], m_flags = 0\<rparr>"

theorem pipe_never_aborts_witness:
  "\<exists>s s'. run_from 1 [W_write msg1, W_terminate, R_read, R_read, W_process, W_process] = Some s \<and>
     pipe_do R_process s = Some s'"
proof -
  have "map_option (allowed R_process)
      (run_from 1 [W_write msg1, W_terminate, R_read, R_read, W_process, W_process]) = Some True"
    by code_simp
  then obtain s where s: "run_from 1 [W_write msg1, W_terminate, R_read, R_read, W_process, W_process] = Some s"
    "allowed R_process s" by auto
  with pipe_never_aborts [OF reach_run_from [OF s(1)] s(2)] show ?thesis by blast
qed

theorem pipe_hwm_bound_witness:
  "\<exists>s w y p. run_from 1 [W_write msg1, W_write msg1, W_flush] = Some s \<and> pp_writer s = Some w \<and>
     pp_pipe s = Some y \<and> pipe_rep y p \<and> completes (ap_avail p @ ap_pend p) \<le> 1"
proof -
  have "map_option (\<lambda>s. (pp_writer s \<noteq> None, case pp_pipe s of None \<Rightarrow> False | Some _ \<Rightarrow> True))
      (run_from 1 [W_write msg1, W_write msg1, W_flush]) = Some (True, True)"
    by code_simp
  then obtain s w y where s: "run_from 1 [W_write msg1, W_write msg1, W_flush] = Some s"
    "pp_writer s = Some w" "pp_pipe s = Some y" by (auto split: option.splits)
  have "unat (1 :: u64) = 1" and "(0 :: u64) < 1" by simp_all
  with s pipe_hwm_bound [OF reach_run_from [OF s(1)] s(2,3)] show ?thesis by auto
qed

theorem pipe_reader_wakeup_witness:
  "\<exists>s r. run_from 1 [R_read, W_write msg1, W_flush] = Some s \<and> pp_reader s = Some r \<and>
     \<not> r_active r \<and> Activate_reader \<in> set (pp_to_reader s)"
proof -
  have "map_option (\<lambda>s. (map_option (\<lambda>r. (r_active r, r_terminating r)) (pp_reader s),
        map_option (\<lambda>y. fst (ypipe_check_read y)) (pp_pipe s)))
      (run_from 1 [R_read, W_write msg1, W_flush]) = Some (Some (False, False), Some True)"
    by code_simp
  then obtain s r y where s: "run_from 1 [R_read, W_write msg1, W_flush] = Some s"
    "pp_reader s = Some r" "pp_pipe s = Some y" "\<not> r_active r" "\<not> r_terminating r"
    "fst (ypipe_check_read y)" by auto
  with pipe_reader_wakeup [OF reach_run_from [OF s(1)] s(2-6)] show ?thesis by blast
qed

theorem pipe_writer_credit_witness:
  "\<exists>s w y p. run_from 1 [W_write msg1, W_write msg1, W_flush] = Some s \<and> pp_writer s = Some w \<and>
     pp_pipe s = Some y \<and> \<not> w_active w \<and> pipe_rep y p \<and> 0 < completes (ap_avail p @ ap_pend p)"
proof -
  have "map_option (\<lambda>s. (map_option (\<lambda>w. (w_active w, w_terminating w)) (pp_writer s),
        case pp_pipe s of None \<Rightarrow> False | Some _ \<Rightarrow> True, pp_to_writer s))
      (run_from 1 [W_write msg1, W_write msg1, W_flush]) = Some (Some (False, False), True, [])"
    by code_simp
  then obtain s w y where s: "run_from 1 [W_write msg1, W_write msg1, W_flush] = Some s"
    "pp_writer s = Some w" "pp_pipe s = Some y" "\<not> w_active w" "\<not> w_terminating w" "pp_to_writer s = []"
    by (auto split: option.splits)
  with pipe_writer_credit [OF reach_run_from [OF s(1)] s(2-5)] show ?thesis by auto
qed

text \<open>The writer terminates, leaving a message and the delimiter to a reader that is asleep.\<close>

theorem pipe_termination_completes_witness:
  "\<exists>s s'. run_from 2 [R_read, W_write msg1, W_flush, W_terminate] = Some s \<and>
     runs_on [R_process, R_read, R_read, W_process, W_process, R_process] s = Some s' \<and>
     pp_reader s' = None \<and> pp_writer s' = None \<and> pp_pipe s' = None"
proof -
  let ?r = "run_from 2 [R_read, W_write msg1, W_flush, W_terminate]"
  let ?as = "[R_process, R_read, R_read, W_process, W_process, R_process]"
  have "map_option (\<lambda>s. (pipe_closing s, map_option (\<lambda>s'.
      (pp_to_reader s', pp_to_writer s', gets_on R_read s')) (runs_on ?as s))) ?r = Some (True, Some ([], [], False))"
    by code_simp
  then obtain s s' where s: "?r = Some s" "pipe_closing s" "runs_on ?as s = Some s'"
    "pp_to_reader s' = []" "pp_to_writer s' = []" "\<not> gets_on R_read s'" by auto
  have "\<not> gets_on a s'" for a using s(4-6) by (cases a) simp_all
  then show ?thesis
    using pipe_termination_completes [OF reach_run_from [OF s(1)] s(2)] s(1,3) by blast
qed

theorem low_water_mark_between_witness:
  "0 < low_water_mark 3000 \<and> low_water_mark 3000 < 3000 \<and> 3000 - low_water_mark 3000 \<le> max_wm_delta"
proof -
  have "(0 :: u64) < 3000" and "(3000 :: u64) \<noteq> 1" by simp_all
  with low_water_mark_between [of 3000] show ?thesis by blast
qed

end
