(* ===== verification/Array.thy ===== *)
theory Array
  imports Prelude
begin

text \<open>
  \<open>array.hpp\<close>: the array of pointers with constant-time removal.  Each item keeps its own
  position; \<open>arr_index\<close> is the \<open>array_index\<close> field of the items (-1 outside an array).  No
  client stores a null pointer, so the items are the addresses themselves.  An access outside
  the vector is \<^term>\<open>None\<close>.
\<close>

section \<open>The operations\<close>

record 'a array =
  arr_items :: "'a list"
  arr_index :: "'a \<Rightarrow> int"

definition array_new :: "'a array" where
  "array_new = \<lparr>arr_items = [], arr_index = (\<lambda>_. -1)\<rparr>"

definition array_size :: "'a array \<Rightarrow> nat" where
  "array_size a = length (arr_items a)"

definition array_empty :: "'a array \<Rightarrow> bool" where
  "array_empty a \<longleftrightarrow> arr_items a = []"

definition array_at :: "'a array \<Rightarrow> nat \<Rightarrow> 'a option" where
  "array_at a i = (if i < length (arr_items a) then Some (arr_items a ! i) else None)"

text \<open>The position of an item of the array (an item outside has -1 in the code, and nobody asks for it).\<close>

definition array_index :: "'a array \<Rightarrow> 'a \<Rightarrow> nat" where
  "array_index a x = nat (arr_index a x)"

definition array_push_back :: "'a \<Rightarrow> 'a array \<Rightarrow> 'a array" where
  "array_push_back x a =
     \<lparr>arr_items = arr_items a @ [x], arr_index = (arr_index a)(x := int (length (arr_items a)))\<rparr>"

definition array_erase_at :: "nat \<Rightarrow> 'a array \<Rightarrow> 'a array option" where
  "array_erase_at i a =
     (if i < length (arr_items a) then
        let bk = last (arr_items a); ix = (arr_index a)(bk := int i)
        in Some \<lparr>arr_items = butlast ((arr_items a)[i := bk]), arr_index = ix\<rparr>
      else None)"

definition array_erase :: "'a \<Rightarrow> 'a array \<Rightarrow> 'a array option" where
  "array_erase x a = array_erase_at (array_index a x) a"

definition array_swap :: "nat \<Rightarrow> nat \<Rightarrow> 'a array \<Rightarrow> 'a array option" where
  "array_swap i j a =
     (if i < length (arr_items a) \<and> j < length (arr_items a) then
        let x = arr_items a ! i; y = arr_items a ! j
        in Some \<lparr>arr_items = list_swap i j (arr_items a),
                 arr_index = (arr_index a)(x := int j, y := int i)\<rparr>
      else None)"

definition array_clear :: "'a array \<Rightarrow> 'a array" where
  "array_clear a = a\<lparr>arr_items := []\<rparr>"

section \<open>Every item knows its position\<close>

definition array_ok :: "'a array \<Rightarrow> bool" where
  "array_ok a \<longleftrightarrow> distinct (arr_items a) \<and> (\<forall>i < length (arr_items a). arr_index a (arr_items a ! i) = int i)"

lemma array_new_ok [simp]: "array_ok array_new" "arr_items array_new = []"
  by (simp_all add: array_ok_def array_new_def)

lemma array_indexD:
  "array_ok a \<Longrightarrow> i < length (arr_items a) \<Longrightarrow> array_index a (arr_items a ! i) = i"
  by (simp add: array_ok_def array_index_def)

lemma array_index_less:
  "array_ok a \<Longrightarrow> x \<in> set (arr_items a) \<Longrightarrow>
   array_index a x < length (arr_items a) \<and> arr_items a ! array_index a x = x"
  by (auto simp: in_set_conv_nth array_indexD)

lemma array_push_back_ok:
  "array_ok a \<Longrightarrow> x \<notin> set (arr_items a) \<Longrightarrow>
   array_ok (array_push_back x a) \<and> arr_items (array_push_back x a) = arr_items a @ [x]"
  by (auto simp: array_ok_def array_push_back_def nth_append less_Suc_eq)

lemma array_swap_ok:
  assumes "array_ok a" and "i < length (arr_items a)" and "j < length (arr_items a)"
  obtains a' where "array_swap i j a = Some a'" and "array_ok a'"
    and "arr_items a' = list_swap i j (arr_items a)"
proof -
  let ?a = "\<lparr>arr_items = list_swap i j (arr_items a),
    arr_index = (arr_index a)(arr_items a ! i := int j, arr_items a ! j := int i)\<rparr>"
  have "array_ok ?a"
    using assms by (auto simp: array_ok_def nth_list_swap nth_eq_iff_index_eq)
  then show thesis using assms that [of ?a] by (simp add: array_swap_def Let_def)
qed

lemma array_erase_ok:
  assumes ok: "array_ok a" and x: "x \<in> set (arr_items a)"
  obtains a' where "array_erase x a = Some a'" and "array_ok a'"
    and "arr_items a' = butlast ((arr_items a)[array_index a x := last (arr_items a)])"
    and "set (arr_items a') = set (arr_items a) - {x}"
proof -
  define i where "i = array_index a x"
  obtain ys z where ys: "arr_items a = ys @ [z]" using x by (cases "arr_items a" rule: rev_cases) auto
  have i: "i < Suc (length ys)" "(ys @ [z]) ! i = x"
    using array_index_less [OF ok x] ys by (simp_all add: i_def)
  let ?a = "\<lparr>arr_items = butlast ((ys @ [z])[i := z]), arr_index = (arr_index a)(z := int i)\<rparr>"
  have d: "distinct ys" "z \<notin> set ys" and ix: "\<And>k. k < length ys \<Longrightarrow> arr_index a (ys ! k) = int k"
    using ok ys by (auto simp: array_ok_def nth_append less_Suc_eq)
  have items: "butlast ((ys @ [z])[i := z]) = (if i < length ys then ys[i := z] else ys)"
    using i by (auto simp: list_update_append butlast_append split: nat.split)
  have "array_ok ?a"
    unfolding items using d ix i(1)
    by (auto simp: array_ok_def nth_list_update distinct_list_update in_set_conv_nth)
  moreover have "set (arr_items ?a) = set (arr_items a) - {x}"
  proof (cases "i < length ys")
    case True
    then have "ys ! i = x" using i by (simp add: nth_append)
    with True d show ?thesis unfolding ys by (simp add: items set_update_distinct) auto
  next
    case False
    then have "i = length ys" using i by simp
    with i d show ?thesis unfolding ys by (auto simp: items)
  qed
  ultimately show thesis
    using that [of ?a] i(1) by (simp add: array_erase_def array_erase_at_def i_def [symmetric] ys Let_def)
qed

end
