(* ===== verification/Endpoint.thy ===== *)
theory Endpoint
  imports Msg
begin

text \<open>
  What a socket uses of the two ends of a pipe: the calls of \<open>reader_t\<close> and \<open>writer_t\<close> as
  records of functions on the state \<open>'p\<close> of all the pipes of the socket, the calls a socket
  component makes of its owner (\<open>own_t\<close>, the \<open>sink\<close> of \<open>fq.cpp\<close>, \<open>lb.cpp\<close> and
  \<open>dist.cpp\<close>), and, as two locales, what the components rely on.  \<open>Pipe.thy\<close> and
  \<open>Pipe_Ends.thy\<close> provide the calls and prove the laws.
\<close>

section \<open>The calls\<close>

record 'p reader_ops =
  ro_read :: "addr \<Rightarrow> 'p \<Rightarrow> (msg option \<times> 'p) option"
  ro_check_read :: "addr \<Rightarrow> 'p \<Rightarrow> (bool \<times> 'p) option"
  ro_terminate :: "addr \<Rightarrow> 'p \<Rightarrow> 'p option"
  ro_set_event_sink :: "addr \<Rightarrow> 'p \<Rightarrow> 'p option"

record ('p, 'm) writer_ops =
  wo_write :: "addr \<Rightarrow> 'm \<Rightarrow> 'p \<Rightarrow> (bool \<times> 'p) option"
  wo_check_write :: "addr \<Rightarrow> 'm \<Rightarrow> 'p \<Rightarrow> (bool \<times> 'p) option"
  wo_rollback :: "addr \<Rightarrow> 'p \<Rightarrow> 'p option"
  wo_flush :: "addr \<Rightarrow> 'p \<Rightarrow> 'p option"
  wo_terminate :: "addr \<Rightarrow> 'p \<Rightarrow> 'p option"
  wo_set_event_sink :: "addr \<Rightarrow> 'p \<Rightarrow> 'p option"

datatype sink_call = Register_term_acks nat | Unregister_term_ack

text \<open>The empty message of \<open>zmq_msg_init\<close>.\<close>

definition empty_msg :: msg where
  "empty_msg = \<lparr>m_body = Data [], m_flags = NOT ZMQ_MSG_MASK\<rparr>"

text \<open>\<open>zmq_msg_data\<close> with \<open>zmq_msg_size\<close>: the bytes of a message.\<close>

fun body_data :: "body \<Rightarrow> byte list" where
  "body_data (Data bs) = bs"
| "body_data Delimiter = []"

section \<open>Whole messages\<close>

text \<open>The parts of one message: all but the last announce another.\<close>

definition whole :: "msg list \<Rightarrow> bool" where
  "whole ms \<longleftrightarrow> ms \<noteq> [] \<and> (\<forall>m \<in> set (butlast ms). has_more m) \<and> \<not> has_more (last ms)"

lemma whole_Cons: "whole (m # ms) \<longleftrightarrow> (if ms = [] then \<not> has_more m else has_more m \<and> whole ms)"
  by (auto simp: whole_def)

lemma whole_nonempty [simp]: "\<not> whole []"
  by (simp add: whole_def)

section \<open>The laws\<close>

text \<open>
  A reader: \<open>f a\<close> are the messages that can be read from the pipe \<open>a\<close> now.  A read takes the
  first of them and touches no other pipe.
\<close>

locale message_readers =
  fixes rep :: "'p \<Rightarrow> (addr \<rightharpoonup> msg list) \<Rightarrow> bool"
    and ops :: "'p reader_ops"
  assumes read_none: "rep p f \<Longrightarrow> f a = Some [] \<Longrightarrow>
      \<exists>p'. ro_read ops a p = Some (None, p') \<and> rep p' f"
    and read_some: "rep p f \<Longrightarrow> f a = Some (m # ms) \<Longrightarrow>
      \<exists>p'. ro_read ops a p = Some (Some m, p') \<and> rep p' (f(a \<mapsto> ms))"
    and check: "rep p f \<Longrightarrow> f a = Some ms \<Longrightarrow>
      \<exists>p'. ro_check_read ops a p = Some (ms \<noteq> [], p') \<and> rep p' f"
    and terminate: "rep p f \<Longrightarrow> f a = Some ms \<Longrightarrow>
      \<exists>p'. ro_terminate ops a p = Some p' \<and> rep p' (f(a \<mapsto> []))"

text \<open>
  A writer: \<open>g a\<close> are the complete messages in the pipe \<open>a\<close> and the parts of the message being
  written.  A write is refused or appends; once the first part of a message has been accepted
  the other parts are.
\<close>

fun add_part :: "msg \<Rightarrow> msg list \<times> msg list \<Rightarrow> msg list \<times> msg list" where
  "add_part m (cs, inc) = (if has_more m then (cs, inc @ [m]) else (cs @ inc @ [m], []))"

locale message_writers =
  fixes rep :: "'p \<Rightarrow> (addr \<rightharpoonup> msg list \<times> msg list) \<Rightarrow> bool"
    and ops :: "('p, msg) writer_ops"
  assumes write_msg: "rep p g \<Longrightarrow> g a = Some c \<Longrightarrow> \<not> is_delimiter m \<Longrightarrow>
      \<exists>ok p'. wo_write ops a m p = Some (ok, p') \<and> rep p' (if ok then g(a \<mapsto> add_part m c) else g) \<and>
        (snd c \<noteq> [] \<longrightarrow> ok)"
    and check_write: "rep p g \<Longrightarrow> g a = Some c \<Longrightarrow>
      \<exists>ok p'. wo_check_write ops a m p = Some (ok, p') \<and> rep p' g"
    and flush: "rep p g \<Longrightarrow> g a = Some c \<Longrightarrow> \<exists>p'. wo_flush ops a p = Some p' \<and> rep p' g"

end
