(* ===== verification/Fq.thy ===== *)
theory Fq
  imports Array Endpoint
begin

text \<open>
  \<open>fq.hpp\<close>, \<open>fq.cpp\<close>: fair queueing over the inbound pipes of a socket.  The pipes with
  something to read are the first \<open>active\<close> ones of the array; \<open>current\<close> is the next to be
  read.  The state of the pipes themselves is the argument \<open>p\<close>, and the calls of the sink are
  recorded in \<open>fq_calls\<close>.
\<close>

section \<open>The operations\<close>

record fq =
  fq_pipes :: "addr array"
  fq_active :: nat
  fq_current :: nat
  fq_more :: bool
  fq_terminating :: bool
  fq_calls :: "sink_call list"

definition fq_new :: fq where
  "fq_new = \<lparr>fq_pipes = array_new, fq_active = 0, fq_current = 0, fq_more = False,
     fq_terminating = False, fq_calls = []\<rparr>"

definition fq_delete :: "fq \<Rightarrow> unit option" where
  "fq_delete q = zmq_assert (array_empty (fq_pipes q))"

definition fq_call :: "sink_call \<Rightarrow> fq \<Rightarrow> fq" where
  "fq_call c q = q\<lparr>fq_calls := fq_calls q @ [c]\<rparr>"

definition fq_attach :: "'p reader_ops \<Rightarrow> addr \<Rightarrow> fq \<Rightarrow> 'p \<Rightarrow> (fq \<times> 'p) option" where
  "fq_attach ops pipe q p = do {
     p \<leftarrow> ro_set_event_sink ops pipe p;
     let ps = array_push_back pipe (fq_pipes q);
     ps \<leftarrow> array_swap (fq_active q) (array_size ps - 1) ps;
     let q = q\<lparr>fq_pipes := ps, fq_active := fq_active q + 1\<rparr>;
     if fq_terminating q then do {
       p \<leftarrow> ro_terminate ops pipe p;
       Some (fq_call (Register_term_acks 1) q, p)
     }
     else Some (q, p)
   }"

definition fq_terminated :: "addr \<Rightarrow> fq \<Rightarrow> fq option" where
  "fq_terminated pipe q = do {
     (if fq_terminating q \<or> \<not> fq_more q then Some ()
      else do {
        cur \<leftarrow> array_at (fq_pipes q) (fq_current q);
        zmq_assert (cur \<noteq> pipe)
      });
     let q = (if array_index (fq_pipes q) pipe < fq_active q then
                let q = q\<lparr>fq_active := fq_active q - 1\<rparr>
                in if fq_current q = fq_active q then q\<lparr>fq_current := 0\<rparr> else q
              else q);
     ps \<leftarrow> array_erase pipe (fq_pipes q);
     let q = q\<lparr>fq_pipes := ps\<rparr>;
     Some (if fq_terminating q then fq_call Unregister_term_ack q else q)
   }"

definition fq_delimited :: "addr \<Rightarrow> fq \<Rightarrow> fq" where
  "fq_delimited pipe q = q"

fun terminate_all :: "(addr \<Rightarrow> 'p \<Rightarrow> 'p option) \<Rightarrow> addr list \<Rightarrow> 'p \<Rightarrow> 'p option" where
  "terminate_all term [] p = Some p"
| "terminate_all term (x # xs) p = do { p \<leftarrow> term x p; terminate_all term xs p }"

definition fq_terminate :: "'p reader_ops \<Rightarrow> fq \<Rightarrow> 'p \<Rightarrow> (fq \<times> 'p) option" where
  "fq_terminate ops q p = do {
     zmq_assert (\<not> fq_terminating q);
     let q = q\<lparr>fq_terminating := True\<rparr>;
     let q = fq_call (Register_term_acks (array_size (fq_pipes q))) q;
     p \<leftarrow> terminate_all (ro_terminate ops) (arr_items (fq_pipes q)) p;
     Some (q, p)
   }"

definition fq_activated :: "addr \<Rightarrow> fq \<Rightarrow> fq option" where
  "fq_activated pipe q = do {
     ps \<leftarrow> array_swap (array_index (fq_pipes q) pipe) (fq_active q) (fq_pipes q);
     Some (q\<lparr>fq_pipes := ps, fq_active := fq_active q + 1\<rparr>)
   }"

text \<open>The current pipe turned out to be empty: swap it with the last active one.\<close>

definition fq_deactivate :: "fq \<Rightarrow> fq option" where
  "fq_deactivate q = do {
     let q = q\<lparr>fq_active := fq_active q - 1\<rparr>;
     ps \<leftarrow> array_swap (fq_current q) (fq_active q) (fq_pipes q);
     let q = q\<lparr>fq_pipes := ps\<rparr>;
     Some (if fq_current q = fq_active q then q\<lparr>fq_current := 0\<rparr> else q)
   }"

fun fq_recv_loop :: "'p reader_ops \<Rightarrow> nat \<Rightarrow> fq \<Rightarrow> 'p \<Rightarrow> (msg option \<times> fq \<times> 'p) option" where
  "fq_recv_loop ops 0 q p = Some (None, q, p)"
| "fq_recv_loop ops (Suc count) q p = do {
     cur \<leftarrow> array_at (fq_pipes q) (fq_current q);
     (fetched, p) \<leftarrow> ro_read ops cur p;
     zmq_assert (\<not> (fq_more q \<and> fetched = None));
     case fetched of
       Some m \<Rightarrow>
         let q = q\<lparr>fq_more := has_more m\<rparr>
         in if \<not> fq_more q then
              let q = q\<lparr>fq_current := fq_current q + 1\<rparr>;
                  q = (if fq_current q \<ge> fq_active q then q\<lparr>fq_current := 0\<rparr> else q)
              in Some (Some m, q, p)
            else Some (Some m, q, p)
     | None \<Rightarrow> do { q \<leftarrow> fq_deactivate q; fq_recv_loop ops count q p }
   }"

text \<open>The code first closes the old message of the caller, which has no effect on messages as values.\<close>

definition fq_recv :: "'p reader_ops \<Rightarrow> fq \<Rightarrow> 'p \<Rightarrow> (rc \<times> msg \<times> fq \<times> 'p) option" where
  "fq_recv ops q p = do {
     (m, q, p) \<leftarrow> fq_recv_loop ops (fq_active q) q p;
     case m of
       Some m \<Rightarrow> Some (OK, m, q, p)
     | None \<Rightarrow> Some (Err EAGAIN, empty_msg, q, p)
   }"

fun fq_in_loop :: "'p reader_ops \<Rightarrow> nat \<Rightarrow> fq \<Rightarrow> 'p \<Rightarrow> (bool \<times> fq \<times> 'p) option" where
  "fq_in_loop ops 0 q p = Some (False, q, p)"
| "fq_in_loop ops (Suc count) q p = do {
     cur \<leftarrow> array_at (fq_pipes q) (fq_current q);
     (ok, p) \<leftarrow> ro_check_read ops cur p;
     if ok then Some (True, q, p)
     else do { q \<leftarrow> fq_deactivate q; fq_in_loop ops count q p }
   }"

definition fq_has_in :: "'p reader_ops \<Rightarrow> fq \<Rightarrow> 'p \<Rightarrow> (bool \<times> fq \<times> 'p) option" where
  "fq_has_in ops q p =
     (if fq_more q then Some (True, q, p) else fq_in_loop ops (fq_active q) q p)"

section \<open>The invariant\<close>

definition fq_active_pipes :: "fq \<Rightarrow> addr list" where
  "fq_active_pipes q = take (fq_active q) (arr_items (fq_pipes q))"

definition fq_passive_pipes :: "fq \<Rightarrow> addr list" where
  "fq_passive_pipes q = drop (fq_active q) (arr_items (fq_pipes q))"

definition fq_ok :: "fq \<Rightarrow> bool" where
  "fq_ok q \<longleftrightarrow> array_ok (fq_pipes q) \<and> fq_active q \<le> length (arr_items (fq_pipes q)) \<and>
     (fq_current q < fq_active q \<or> fq_current q = 0 \<and> fq_active q = 0)"

definition fq_current_pipe :: "fq \<Rightarrow> addr" where
  "fq_current_pipe q = arr_items (fq_pipes q) ! fq_current q"

lemma fq_new_ok: "fq_ok fq_new"
  by (simp add: fq_ok_def fq_new_def)

lemma fq_current_active:
  "fq_ok q \<Longrightarrow> 0 < fq_active q \<Longrightarrow>
   array_at (fq_pipes q) (fq_current q) = Some (fq_current_pipe q) \<and> fq_current_pipe q \<in> set (fq_active_pipes q)"
  by (auto simp: fq_ok_def array_at_def fq_current_pipe_def fq_active_pipes_def in_set_conv_nth)

lemma fq_deactivate_ok:
  assumes ok: "fq_ok q" and act: "0 < fq_active q"
  obtains q' where "fq_deactivate q = Some q'" and "fq_ok q'" and "fq_active q' = fq_active q - 1"
    and "set (fq_active_pipes q) = insert (fq_current_pipe q) (set (fq_active_pipes q'))"
    and "fq_current_pipe q \<notin> set (fq_active_pipes q')"
    and "set (arr_items (fq_pipes q')) = set (arr_items (fq_pipes q))"
    and "fq_more q' = fq_more q" and "fq_terminating q' = fq_terminating q" and "fq_calls q' = fq_calls q"
proof -
  let ?xs = "arr_items (fq_pipes q)"
  define n where "n = fq_active q - 1"
  from ok act have n: "fq_current q \<le> n" "n < length ?xs" "fq_active q = Suc n"
    by (auto simp: fq_ok_def n_def)
  obtain ps where ps: "array_swap (fq_current q) n (fq_pipes q) = Some ps" "array_ok ps"
    "arr_items ps = list_swap (fq_current q) n ?xs"
    using ok n by (elim array_swap_ok [of "fq_pipes q" "fq_current q" n, rotated 3]) (auto simp: fq_ok_def)
  let ?q = "q\<lparr>fq_active := n, fq_pipes := ps, fq_current := if fq_current q = n then 0 else fq_current q\<rparr>"
  have d: "distinct ?xs" using ok by (simp add: fq_ok_def array_ok_def)
  have eq: "fq_deactivate q = Some ?q"
    using ps(1) by (simp add: fq_deactivate_def n_def Let_def)
  moreover have "fq_ok ?q" using ps n by (auto simp: fq_ok_def)
  moreover note set_take_swap_out [OF n(1,2) d]
  ultimately show thesis
    using ps n by (intro that [of ?q]) (auto simp: fq_active_pipes_def fq_current_pipe_def)
qed

section \<open>What the socket gets\<close>

text \<open>A sequence of receptions, with the messages they yield.\<close>

fun fq_recv_times :: "'p reader_ops \<Rightarrow> nat \<Rightarrow> fq \<Rightarrow> 'p \<Rightarrow> ((rc \<times> msg) list \<times> fq \<times> 'p) option" where
  "fq_recv_times ops 0 q p = Some ([], q, p)"
| "fq_recv_times ops (Suc n) q p = do {
     (rc, m, q, p) \<leftarrow> fq_recv ops q p;
     (rs, q, p) \<leftarrow> fq_recv_times ops n q p;
     Some ((rc, m) # rs, q, p)
   }"

text \<open>
  The pipes of \<open>q\<close> hold \<open>f\<close>, and when a message has been read in part, the rest of it is
  in the current pipe (a writer flushes whole messages only).
\<close>

definition fq_holds :: "fq \<Rightarrow> (addr \<rightharpoonup> msg list) \<Rightarrow> bool" where
  "fq_holds q f \<longleftrightarrow> fq_ok q \<and> set (arr_items (fq_pipes q)) \<subseteq> dom f \<and>
     (fq_more q \<longrightarrow> 0 < fq_active q \<and> f (fq_current_pipe q) \<noteq> Some [])"

context message_readers begin

lemma recv_loop_spec:
  assumes "fq_holds q f" and "rep p f" and "fq_active q = n"
  shows "\<exists>v q' p'. fq_recv_loop ops n q p = Some (v, q', p') \<and> fq_ok q' \<and>
    set (arr_items (fq_pipes q')) = set (arr_items (fq_pipes q)) \<and> fq_calls q' = fq_calls q \<and>
    fq_terminating q' = fq_terminating q \<and>
    set (fq_active_pipes q') \<subseteq> set (fq_active_pipes q) \<and>
    (\<forall>a \<in> set (fq_active_pipes q) - set (fq_active_pipes q'). f a = Some []) \<and>
    (case v of
       None \<Rightarrow> fq_active q' = 0 \<and> \<not> fq_more q' \<and> rep p' f
     | Some m \<Rightarrow> (\<exists>a ms. a \<in> set (fq_active_pipes q') \<and> f a = Some (m # ms) \<and> rep p' (f(a \<mapsto> ms)) \<and>
         fq_more q' = has_more m \<and> (fq_more q \<longrightarrow> a = fq_current_pipe q) \<and>
         (has_more m \<longrightarrow> fq_current_pipe q' = a)))"
  using assms
proof (induction n arbitrary: q p)
  case 0
  then show ?case by (auto simp: fq_holds_def)
next
  case (Suc n)
  let ?c = "fq_current_pipe q"
  have ok: "fq_ok q" and act: "0 < fq_active q" using Suc.prems by (simp_all add: fq_holds_def)
  note cur = fq_current_active [OF ok act]
  have "?c \<in> dom f"
    using cur Suc.prems(1) by (auto simp: fq_holds_def fq_active_pipes_def dest: in_set_takeD)
  then obtain xs where xs: "f ?c = Some xs" by auto
  show ?case
  proof (cases xs)
    case Nil
    obtain p1 where p1: "ro_read ops ?c p = Some (None, p1)" "rep p1 f"
      using read_none [OF Suc.prems(2)] xs Nil by blast
    have nm: "\<not> fq_more q" using Suc.prems(1) xs Nil by (simp add: fq_holds_def)
    obtain q1 where q1: "fq_deactivate q = Some q1" "fq_ok q1" "fq_active q1 = fq_active q - 1"
      "set (fq_active_pipes q) = insert ?c (set (fq_active_pipes q1))"
      "set (arr_items (fq_pipes q1)) = set (arr_items (fq_pipes q))"
      "fq_more q1 = fq_more q" "fq_terminating q1 = fq_terminating q" "fq_calls q1 = fq_calls q"
      using fq_deactivate_ok [OF ok act] by metis
    have "fq_holds q1 f" using Suc.prems(1) q1 nm by (simp add: fq_holds_def)
    note ih = Suc.IH [OF this p1(2)]
    have n1: "fq_active q1 = n" using q1(3) Suc.prems(3) by simp
    obtain v q' p' where st: "fq_recv_loop ops n q1 p1 = Some (v, q', p')"
      and rest: "fq_ok q'" "set (arr_items (fq_pipes q')) = set (arr_items (fq_pipes q1))"
        "fq_calls q' = fq_calls q1" "fq_terminating q' = fq_terminating q1"
        "set (fq_active_pipes q') \<subseteq> set (fq_active_pipes q1)"
        "\<forall>a \<in> set (fq_active_pipes q1) - set (fq_active_pipes q'). f a = Some []"
      and v: "case v of None \<Rightarrow> fq_active q' = 0 \<and> \<not> fq_more q' \<and> rep p' f
        | Some m \<Rightarrow> (\<exists>a ms. a \<in> set (fq_active_pipes q') \<and> f a = Some (m # ms) \<and> rep p' (f(a \<mapsto> ms)) \<and>
         fq_more q' = has_more m \<and> (fq_more q1 \<longrightarrow> a = fq_current_pipe q1) \<and>
         (has_more m \<longrightarrow> fq_current_pipe q' = a))"
      using ih [OF n1] by blast
    have "fq_recv_loop ops (Suc n) q p = Some (v, q', p')"
      using cur p1(1) nm q1(1) st by simp
    moreover have "\<forall>a \<in> set (fq_active_pipes q) - set (fq_active_pipes q'). f a = Some []"
      using rest(6) q1(4) xs Nil by auto
    moreover have "set (fq_active_pipes q') \<subseteq> set (fq_active_pipes q)" using rest(5) q1(4) by auto
    ultimately show ?thesis
      using rest(1-4) q1(5,7,8) v nm q1(6) by (intro exI [of _ v] exI [of _ q'] exI [of _ p']) (simp split: option.splits)
  next
    case (Cons m ms)
    obtain p1 where p1: "ro_read ops ?c p = Some (Some m, p1)" "rep p1 (f(?c \<mapsto> ms))"
      using read_some [OF Suc.prems(2)] xs Cons by blast
    let ?q = "if has_more m then q\<lparr>fq_more := True\<rparr>
      else q\<lparr>fq_more := False, fq_current := if Suc (fq_current q) \<ge> fq_active q then 0 else Suc (fq_current q)\<rparr>"
    have "fq_recv_loop ops (Suc n) q p = Some (Some m, ?q, p1)"
      using cur p1(1) by (simp add: Let_def)
    moreover have "fq_ok ?q" using ok act by (auto simp: fq_ok_def)
    moreover have "fq_active_pipes ?q = fq_active_pipes q" by (simp add: fq_active_pipes_def)
    ultimately show ?thesis
      using p1(2) xs Cons cur by (auto simp: fq_current_pipe_def)
  qed
qed

text \<open>A message at the head of the current pipe is the one received, and the next pipe is the
  next in the array, cyclically.\<close>

lemma recv_current:
  assumes h: "fq_holds q f" and rep: "rep p f" and c: "f (fq_current_pipe q) = Some (m # ms)"
    and act: "0 < fq_active q" and nm: "\<not> has_more m"
  shows "\<exists>p'. fq_recv ops q p = Some (OK, m,
      q\<lparr>fq_more := False, fq_current := Suc (fq_current q) mod fq_active q\<rparr>, p') \<and>
    rep p' (f(fq_current_pipe q \<mapsto> ms))"
proof -
  have ok: "fq_ok q" using h by (simp add: fq_holds_def)
  note cur = fq_current_active [OF ok act]
  obtain p1 where p1: "ro_read ops (fq_current_pipe q) p = Some (Some m, p1)" "rep p1 (f(fq_current_pipe q \<mapsto> ms))"
    using read_some [OF rep c] by blast
  obtain n where n: "fq_active q = Suc n" using act by (cases "fq_active q") auto
  have md: "(if Suc n \<le> Suc (fq_current q) then 0 else Suc (fq_current q)) = Suc (fq_current q) mod Suc n"
    using ok n by (cases "Suc (fq_current q) = Suc n") (auto simp: fq_ok_def mod_less)
  show ?thesis
    using cur p1 nm n md by (auto simp: fq_recv_def Let_def split: if_splits)
qed

lemma recv_round:
  "fq_holds q f \<Longrightarrow> rep p f \<Longrightarrow> \<not> fq_more q \<Longrightarrow> k \<le> fq_active q \<Longrightarrow>
   (\<forall>j < k. \<exists>m ms. f (arr_items (fq_pipes q) ! ((fq_current q + j) mod fq_active q)) = Some (m # ms) \<and> \<not> has_more m) \<Longrightarrow>
   \<exists>q' p'. fq_recv_times ops k q p = Some
     (map (\<lambda>j. (OK, hd (the (f (arr_items (fq_pipes q) ! ((fq_current q + j) mod fq_active q)))))) [0..<k], q', p')"
proof (induction k arbitrary: q p f)
  case (Suc k)
  let ?c = "fq_current_pipe q" and ?n = "fq_active q" and ?xs = "arr_items (fq_pipes q)"
  have act: "0 < ?n" and ok: "fq_ok q" using Suc.prems by (auto simp: fq_holds_def)
  then have lt: "fq_current q < ?n" and d: "distinct ?xs" and le: "?n \<le> length ?xs"
    by (auto simp: fq_ok_def array_ok_def)
  have c0: "?xs ! ((fq_current q + 0) mod ?n) = ?c" using lt by (simp add: fq_current_pipe_def)
  obtain m ms where m: "f ?c = Some (m # ms)" "\<not> has_more m"
    using Suc.prems(5) [rule_format, of 0] c0 by auto
  let ?q = "q\<lparr>fq_more := False, fq_current := Suc (fq_current q) mod ?n\<rparr>"
  let ?f = "f(?c \<mapsto> ms)"
  obtain p1 where p1: "fq_recv ops q p = Some (OK, m, ?q, p1)" "rep p1 ?f"
    using recv_current [OF Suc.prems(1,2) m(1) act m(2)] by blast
  have ix: "(Suc (fq_current q) mod ?n + j) mod ?n = (fq_current q + Suc j) mod ?n" for j
    by (simp add: mod_add_left_eq)
  have ne: "?xs ! ((fq_current q + Suc j) mod ?n) \<noteq> ?c" if "j < k" for j
  proof -
    have "(fq_current q + Suc j) mod ?n \<noteq> fq_current q"
    proof (cases "fq_current q + Suc j < ?n")
      case False
      then have "(fq_current q + Suc j) mod ?n = fq_current q + Suc j - ?n"
        using that Suc.prems(4) lt by (simp add: mod_if)
      then show ?thesis using False that Suc.prems(4) by auto
    qed simp
    moreover have "(fq_current q + Suc j) mod ?n < length ?xs"
      by (rule less_le_trans [OF mod_less_divisor [OF act] le])
    moreover have "fq_current q < length ?xs" using le lt by simp
    ultimately show ?thesis using d by (simp add: fq_current_pipe_def nth_eq_iff_index_eq)
  qed
  have h1: "fq_holds ?q ?f" using Suc.prems(1,3) act by (auto simp: fq_holds_def fq_ok_def)
  have "\<exists>q' p'. fq_recv_times ops k ?q p1 = Some
     (map (\<lambda>j. (OK, hd (the (?f (?xs ! ((fq_current q + Suc j) mod ?n)))))) [0..<k], q', p')"
  proof -
    have "\<forall>j < k. \<exists>m ms. ?f (?xs ! ((fq_current q + Suc j) mod ?n)) = Some (m # ms) \<and> \<not> has_more m"
      using Suc.prems(5) ne by (metis Suc_mono fun_upd_apply)
    then show ?thesis using Suc.IH [OF h1 p1(2)] Suc.prems(4) by (simp add: ix)
  qed
  moreover have "map (\<lambda>j. (OK, hd (the (?f (?xs ! ((fq_current q + Suc j) mod ?n)))))) [0..<k] =
      map (\<lambda>j. (OK, hd (the (f (?xs ! ((fq_current q + Suc j) mod ?n)))))) [0..<k]"
    using ne by (intro map_cong) auto
  ultimately obtain q' p' where "fq_recv_times ops k ?q p1 = Some
     (map (\<lambda>j. (OK, hd (the (f (?xs ! ((fq_current q + Suc j) mod ?n)))))) [0..<k], q', p')"
    by auto
  with p1(1) m(1) c0 show ?case
    by (simp add: upt_conv_Cons map_Suc_upt [symmetric] comp_def del: upt_Suc)
qed simp

end

context message_readers begin

lemma in_loop_spec:
  assumes "fq_ok q" and "set (arr_items (fq_pipes q)) \<subseteq> dom f" and "rep p f" and "fq_active q = n"
  shows "\<exists>b q' p'. fq_in_loop ops n q p = Some (b, q', p') \<and> fq_ok q' \<and> rep p' f \<and> fq_more q' = fq_more q \<and>
    set (arr_items (fq_pipes q')) = set (arr_items (fq_pipes q)) \<and>
    set (fq_active_pipes q') \<subseteq> set (fq_active_pipes q) \<and>
    (\<forall>a \<in> set (fq_active_pipes q) - set (fq_active_pipes q'). f a = Some []) \<and>
    (if b then 0 < fq_active q' \<and> f (fq_current_pipe q') \<noteq> Some [] else fq_active q' = 0)"
  using assms
proof (induction n arbitrary: q p)
  case 0
  then show ?case by auto
next
  case (Suc n)
  let ?c = "fq_current_pipe q"
  have act: "0 < fq_active q" using Suc.prems by simp
  note cur = fq_current_active [OF Suc.prems(1) act]
  have "?c \<in> dom f" using cur Suc.prems(2) by (auto simp: fq_active_pipes_def dest: in_set_takeD)
  then obtain xs where xs: "f ?c = Some xs" by auto
  obtain p1 where p1: "ro_check_read ops ?c p = Some (xs \<noteq> [], p1)" "rep p1 f"
    using check [OF Suc.prems(3) xs] by blast
  show ?case
  proof (cases "xs = []")
    case False
    then show ?thesis using cur p1 Suc.prems act xs by auto
  next
    case True
    obtain q1 where q1: "fq_deactivate q = Some q1" "fq_ok q1" "fq_active q1 = fq_active q - 1"
      "set (fq_active_pipes q) = insert ?c (set (fq_active_pipes q1))"
      "set (arr_items (fq_pipes q1)) = set (arr_items (fq_pipes q))" "fq_more q1 = fq_more q"
      using fq_deactivate_ok [OF Suc.prems(1) act] by metis
    obtain b q' p' where st: "fq_in_loop ops n q1 p1 = Some (b, q', p')" "fq_ok q'" "rep p' f" "fq_more q' = fq_more q1"
      and rest: "set (arr_items (fq_pipes q')) = set (arr_items (fq_pipes q1))"
        "set (fq_active_pipes q') \<subseteq> set (fq_active_pipes q1)"
        "\<forall>a \<in> set (fq_active_pipes q1) - set (fq_active_pipes q'). f a = Some []"
        "if b then 0 < fq_active q' \<and> f (fq_current_pipe q') \<noteq> Some [] else fq_active q' = 0"
      using Suc.IH [of q1 p1] Suc.prems(2,4) q1 p1(2) by auto
    have "fq_in_loop ops (Suc n) q p = Some (b, q', p')" using cur p1(1) True q1(1) st(1) by simp
    moreover have "\<forall>a \<in> set (fq_active_pipes q) - set (fq_active_pipes q'). f a = Some []"
      using rest(3) q1(4) xs True by auto
    moreover have "set (fq_active_pipes q') \<subseteq> set (fq_active_pipes q)" using rest(2) q1(4) by auto
    ultimately show ?thesis using st(2,3,4) rest(1,4) q1(5,6) by (intro exI [of _ b] exI [of _ q'] exI [of _ p']) simp
  qed
qed

lemma has_in_iff:
  assumes h: "fq_holds q f" and rep: "rep p f"
  shows "\<exists>q' p'. fq_has_in ops q p = Some (\<exists>a \<in> set (fq_active_pipes q). f a \<noteq> Some [], q', p') \<and>
    fq_holds q' f \<and> rep p' f"
proof (cases "fq_more q")
  case True
  then have "fq_current_pipe q \<in> set (fq_active_pipes q)" "f (fq_current_pipe q) \<noteq> Some []"
    using h fq_current_active [of q] by (auto simp: fq_holds_def)
  with True h rep show ?thesis by (auto simp: fq_has_in_def)
next
  case False
  obtain b q' p' where st: "fq_in_loop ops (fq_active q) q p = Some (b, q', p')" "fq_ok q'" "rep p' f"
      and mo: "fq_more q' = fq_more q" and fin:
      "set (arr_items (fq_pipes q')) = set (arr_items (fq_pipes q))"
      "set (fq_active_pipes q') \<subseteq> set (fq_active_pipes q)"
      "\<forall>a \<in> set (fq_active_pipes q) - set (fq_active_pipes q'). f a = Some []"
      "if b then 0 < fq_active q' \<and> f (fq_current_pipe q') \<noteq> Some [] else fq_active q' = 0"
    using in_loop_spec [of q f p] h rep by (auto simp: fq_holds_def)
  have "b \<longleftrightarrow> (\<exists>a \<in> set (fq_active_pipes q). f a \<noteq> Some [])"
  proof (cases b)
    case True
    with fin(4) have "fq_current_pipe q' \<in> set (fq_active_pipes q')" "f (fq_current_pipe q') \<noteq> Some []"
      using fq_current_active [OF st(2)] by auto
    with fin(2) True show ?thesis by auto
  next
    case False
    with fin(3,4) show ?thesis by (auto simp: fq_active_pipes_def)
  qed
  moreover have "fq_holds q' f"
    using st(2) mo fin(1) h False by (simp add: fq_holds_def)
  ultimately show ?thesis using False st(1,3) by (auto simp: fq_has_in_def)
qed

end

section \<open>Attaching, activating and removing pipes\<close>

lemma fq_join_active:
  assumes ok: "array_ok ps" and act: "n \<le> c" and c: "c < length (arr_items ps)"
  obtains ps' where "array_swap c n ps = Some ps'" and "array_ok ps'"
    and "set (arr_items ps') = set (arr_items ps)" and "length (arr_items ps') = length (arr_items ps)"
    and "set (take (Suc n) (arr_items ps')) = insert (arr_items ps ! c) (set (take n (arr_items ps)))"
proof -
  obtain ps' where "array_swap c n ps = Some ps'" "array_ok ps'" "arr_items ps' = list_swap c n (arr_items ps)"
    using array_swap_ok [OF ok c, of n] act c by auto
  then show thesis using that [of ps'] act c set_take_swap_in [OF act c] by simp
qed

lemma list_swap_commute: "list_swap i j xs = list_swap j i xs"
  by (cases "i = j") (simp_all add: list_swap_def list_update_swap)

lemma array_swap_commute:
  assumes "array_ok a" and "i < length (arr_items a)" and "j < length (arr_items a)"
  shows "array_swap i j a = array_swap j i a"
proof (cases "i = j")
  case False
  with assms have "arr_items a ! i \<noteq> arr_items a ! j" by (simp add: array_ok_def nth_eq_iff_index_eq)
  then show ?thesis by (auto simp: array_swap_def Let_def list_swap_commute fun_upd_twist)
qed simp

lemma fq_activated_ok:
  assumes ok: "fq_ok q" and x: "x \<in> set (fq_passive_pipes q)"
  obtains q' where "fq_activated x q = Some q'" and "fq_ok q'"
    and "set (fq_active_pipes q') = insert x (set (fq_active_pipes q))"
proof -
  let ?xs = "arr_items (fq_pipes q)"
  define i where "i = array_index (fq_pipes q) x"
  have a: "array_ok (fq_pipes q)" "fq_active q \<le> length ?xs" using ok by (simp_all add: fq_ok_def)
  have i: "i < length ?xs" "?xs ! i = x"
    using array_index_less [OF a(1)] x by (auto simp: i_def fq_passive_pipes_def dest: in_set_dropD)
  have ge: "fq_active q \<le> i"
  proof -
    obtain j where "j < length ?xs - fq_active q" "x = ?xs ! (fq_active q + j)"
      using x by (auto simp: fq_passive_pipes_def in_set_conv_nth)
    then show ?thesis using a array_indexD [OF a(1), of "fq_active q + j"] by (simp add: i_def)
  qed
  obtain ps' where ps': "array_swap i (fq_active q) (fq_pipes q) = Some ps'" "array_ok ps'"
    "length (arr_items ps') = length ?xs"
    "set (take (Suc (fq_active q)) (arr_items ps')) = insert x (set (take (fq_active q) ?xs))"
    using fq_join_active [OF a(1) ge i(1)] i(2) by metis
  let ?q = "q\<lparr>fq_pipes := ps', fq_active := Suc (fq_active q)\<rparr>"
  have "fq_activated x q = Some ?q" using ps'(1) by (simp add: fq_activated_def i_def)
  moreover have "fq_ok ?q" using ok ps'(2,3) i(1) ge by (auto simp: fq_ok_def)
  moreover have "set (fq_active_pipes ?q) = insert x (set (fq_active_pipes q))"
    using ps'(4) by (simp add: fq_active_pipes_def)
  ultimately show thesis by (rule that)
qed

lemma fq_attach_ok:
  assumes ok: "fq_ok q" and x: "x \<notin> set (arr_items (fq_pipes q))"
    and sink: "ro_set_event_sink ops x p = Some p1" and nt: "\<not> fq_terminating q"
  obtains q' where "fq_attach ops x q p = Some (q', p1)" and "fq_ok q'"
    and "set (arr_items (fq_pipes q')) = insert x (set (arr_items (fq_pipes q)))"
    and "set (fq_active_pipes q') = insert x (set (fq_active_pipes q))"
proof -
  let ?ps = "array_push_back x (fq_pipes q)" and ?xs = "arr_items (fq_pipes q)"
  have a: "array_ok ?ps" "arr_items ?ps = ?xs @ [x]" and le: "fq_active q \<le> length ?xs"
    using ok array_push_back_ok [of "fq_pipes q" x] x by (simp_all add: fq_ok_def)
  have "length ?xs < length (arr_items ?ps)" using a(2) by simp
  then obtain ps' where ps': "array_swap (length ?xs) (fq_active q) ?ps = Some ps'" "array_ok ps'"
    "set (arr_items ps') = set (arr_items ?ps)" "length (arr_items ps') = length (arr_items ?ps)"
    "set (take (Suc (fq_active q)) (arr_items ps')) =
       insert (arr_items ?ps ! length ?xs) (set (take (fq_active q) (arr_items ?ps)))"
    using fq_join_active [OF a(1) le] by metis
  let ?q = "q\<lparr>fq_pipes := ps', fq_active := Suc (fq_active q)\<rparr>"
  have "array_swap (fq_active q) (length ?xs) ?ps = Some ps'"
    using ps'(1) array_swap_commute [OF a(1), of "fq_active q" "length ?xs"] a(2) le by simp
  then have "fq_attach ops x q p = Some (?q, p1)"
    using sink nt a(2) by (simp add: fq_attach_def array_size_def Let_def)
  moreover have "fq_ok ?q" using ok ps'(2,4) a(2) by (auto simp: fq_ok_def)
  ultimately show thesis using ps'(3,5) a(2) le that [of ?q] by (simp add: fq_active_pipes_def)
qed

lemma fq_terminated_result:
  assumes ok: "fq_ok q" and i: "i < length (arr_items (fq_pipes q))" and x: "arr_items (fq_pipes q) ! i = x"
    and mid: "fq_more q \<longrightarrow> 0 < fq_active q \<and> fq_current_pipe q \<noteq> x"
  obtains q' where "fq_terminated x q = Some q'" and "fq_ok q'"
    and "arr_items (fq_pipes q') = butlast ((arr_items (fq_pipes q))[i := last (arr_items (fq_pipes q))])"
    and "fq_active q' = (if i < fq_active q then fq_active q - 1 else fq_active q)"
    and "set (arr_items (fq_pipes q')) = set (arr_items (fq_pipes q)) - {x}"
proof -
  let ?xs = "arr_items (fq_pipes q)"
  have a: "array_ok (fq_pipes q)" using ok by (simp add: fq_ok_def)
  have ix: "array_index (fq_pipes q) x = i" using array_indexD [OF a i] x by simp
  have "x \<in> set ?xs" using i x by auto
  then obtain ps where ps: "array_erase x (fq_pipes q) = Some ps" "array_ok ps"
    "arr_items ps = butlast (?xs[i := last ?xs])" "set (arr_items ps) = set ?xs - {x}"
    using array_erase_ok [OF a, of x] ix by metis
  let ?n = "if i < fq_active q then fq_active q - 1 else fq_active q"
  let ?q = "q\<lparr>fq_active := ?n, fq_current := if i < fq_active q \<and> fq_current q = ?n then 0 else fq_current q,
    fq_pipes := ps\<rparr>"
  let ?q' = "if fq_terminating q then fq_call Unregister_term_ack ?q else ?q"
  have pre: "(if fq_terminating q \<or> \<not> fq_more q then Some ()
      else do { cur \<leftarrow> array_at (fq_pipes q) (fq_current q); zmq_assert (cur \<noteq> x) }) = Some ()"
    using mid fq_current_active [OF ok] by auto
  have "fq_terminated x q = Some ?q'"
    unfolding fq_terminated_def pre using ps(1) ix by (auto simp: Let_def)
  moreover have "fq_ok ?q'"
    using ok ps(2,3) i by (auto simp: fq_ok_def fq_call_def)
  ultimately show thesis
    using ps by (intro that [of ?q']) (auto simp: fq_call_def)
qed

text \<open>What the removal does to the division into active and passive pipes.\<close>

lemma butlast_update: "Suc i < length xs \<Longrightarrow> butlast (xs[i := v]) = (butlast xs)[i := v]"
  by (cases xs rule: rev_cases) (auto simp: list_update_append butlast_append)

lemma erase_parks:
  assumes d: "distinct xs" and i: "Suc i < n" and n: "n < length xs"
  shows "xs ! (n - 1) \<in> set (drop (n - 1) (butlast (xs[i := last xs])))"
    and "last xs \<in> set (take (n - 1) (butlast (xs[i := last xs])))"
proof -
  obtain ys z where xs: "xs = ys @ [z]" using n by (cases xs rule: rev_cases) auto
  have e: "butlast (xs[i := last xs]) = ys[i := z]" using xs i n by (simp add: list_update_append)
  have l: "n - 1 < length ys" "i < length ys" using xs i n by auto
  have "xs ! (n - 1) = ys[i := z] ! (n - 1)" using xs l i by (simp add: nth_append)
  then show "xs ! (n - 1) \<in> set (drop (n - 1) (butlast (xs[i := last xs])))"
    unfolding e using l by (metis Cons_nth_drop_Suc length_list_update list.set_intros(1))
  have "take (n - 1) (ys[i := z]) ! i = z" using l i by simp
  then show "last xs \<in> set (take (n - 1) (butlast (xs[i := last xs])))"
    unfolding e using l i xs by (metis last_snoc length_take length_list_update min_less_iff_conj nth_mem less_diff_conv Suc_eq_plus1)
qed

section \<open>Properties\<close>

text \<open>C17 (safety).  When a pipe in the middle of the active ones terminates while some pipe is
  passive, \<open>terminated\<close> mixes the two groups: \<open>array_t::erase\<close> fills the gap with the last
  pipe of the array, which is passive, and the last active pipe, which may hold messages, ends
  up among the passive ones, where \<open>recv\<close> does not look at it.\<close>

theorem fq_terminated_parks_active:
  assumes "fq_ok q" and "\<not> fq_more q" and "Suc i < fq_active q"
    and "fq_active q < length (arr_items (fq_pipes q))" and "x = arr_items (fq_pipes q) ! i"
  shows "\<exists>q'. fq_terminated x q = Some q' \<and>
    arr_items (fq_pipes q) ! (fq_active q - 1) \<in> set (fq_passive_pipes q') \<and>
    last (arr_items (fq_pipes q)) \<in> set (fq_active_pipes q')"
proof -
  have i: "i < length (arr_items (fq_pipes q))" and d: "distinct (arr_items (fq_pipes q))"
    using assms by (simp_all add: fq_ok_def array_ok_def)
  obtain q' where q': "fq_terminated x q = Some q'"
    "arr_items (fq_pipes q') = butlast ((arr_items (fq_pipes q))[i := last (arr_items (fq_pipes q))])"
    "fq_active q' = (if i < fq_active q then fq_active q - 1 else fq_active q)"
    using fq_terminated_result [OF assms(1) i] assms(2,5) by metis
  then show ?thesis
    using erase_parks [OF d assms(3,4)] assms(3) by (simp add: fq_passive_pipes_def fq_active_pipes_def)
qed

definition fq_example :: fq where
  "fq_example = \<lparr>fq_pipes = \<lparr>arr_items = [10, 11, 12], arr_index = (\<lambda>a. int a - 10)\<rparr>, fq_active = 2,
     fq_current = 0, fq_more = False, fq_terminating = False, fq_calls = []\<rparr>"

lemma fq_example_ok: "fq_ok fq_example"
  by (auto simp: fq_ok_def fq_example_def array_ok_def less_Suc_eq)

theorem fq_terminated_parks_active_witness:
  "\<exists>q'. fq_terminated 10 fq_example = Some q' \<and> 11 \<in> set (fq_passive_pipes q') \<and> 12 \<in> set (fq_active_pipes q')"
proof -
  have "\<not> fq_more fq_example" "Suc 0 < fq_active fq_example"
    "fq_active fq_example < length (arr_items (fq_pipes fq_example))"
    "10 = arr_items (fq_pipes fq_example) ! 0"
    by (simp_all add: fq_example_def)
  from fq_terminated_parks_active [OF fq_example_ok this] show ?thesis
    by (simp add: fq_example_def)
qed

section \<open>A queue over a single pipe\<close>

definition fq_one :: "addr \<Rightarrow> bool \<Rightarrow> fq" where
  "fq_one a mid = \<lparr>fq_pipes = \<lparr>arr_items = [a], arr_index = (\<lambda>b. if b = a then 0 else -1)\<rparr>, fq_active = 1,
     fq_current = 0, fq_more = mid, fq_terminating = False, fq_calls = []\<rparr>"

lemma fq_recv_times_Suc:
  "fq_recv_times ops (Suc n) q p = Some ((rc, m) # rs, q', p') \<longleftrightarrow>
   (\<exists>q1 p1. fq_recv ops q p = Some (rc, m, q1, p1) \<and> fq_recv_times ops n q1 p1 = Some (rs, q', p'))"
  by (auto split: bind_splits)

context message_readers begin

lemma one_recv:
  assumes "rep p f" and "f a = Some (m # ms)"
  shows "\<exists>p'. fq_recv ops (fq_one a b) p = Some (OK, m, fq_one a (has_more m), p') \<and> rep p' (f(a \<mapsto> ms))"
  using read_some [OF assms] by (auto simp: fq_recv_def fq_one_def array_at_def Let_def)

lemma one_recv_times:
  "rep p f \<Longrightarrow> f a = Some (xs @ ys) \<Longrightarrow>
   \<exists>p'. fq_recv_times ops (length xs) (fq_one a b) p =
      Some (map (Pair OK) xs, fq_one a (if xs = [] then b else has_more (last xs)), p') \<and> rep p' (f(a \<mapsto> ys))"
proof (induction xs arbitrary: p f b)
  case (Cons x xs)
  obtain p1 where p1: "fq_recv ops (fq_one a b) p = Some (OK, x, fq_one a (has_more x), p1)"
    "rep p1 (f(a \<mapsto> xs @ ys))"
    using one_recv [OF Cons.prems(1), of a x "xs @ ys" b] Cons.prems(2) by auto
  obtain p2 where "fq_recv_times ops (length xs) (fq_one a (has_more x)) p1 =
      Some (map (Pair OK) xs, fq_one a (if xs = [] then has_more x else has_more (last xs)), p2)" "rep p2 (f(a \<mapsto> ys))"
    using Cons.IH [OF p1(2) fun_upd_same, of "has_more x"] by (auto simp del: fun_upd_apply)
  with p1(1) show ?case by (simp del: fun_upd_apply)
qed (auto simp: fun_upd_idem)

end

end
