(* ===== verification/Lb.thy ===== *)
theory Lb
  imports Fq
begin

text \<open>
  \<open>lb.hpp\<close>, \<open>lb.cpp\<close>: load balancing over the outbound pipes of a socket.  As in \<open>Fq\<close>
  the active pipes are the first ones of the array, the state of the pipes is the argument
  \<open>p\<close>, and the calls of the sink are recorded.
\<close>

section \<open>The operations\<close>

record lb =
  lb_pipes :: "addr array"
  lb_active :: nat
  lb_current :: nat
  lb_more :: bool
  lb_dropping :: bool
  lb_terminating :: bool
  lb_calls :: "sink_call list"

definition lb_new :: lb where
  "lb_new = \<lparr>lb_pipes = array_new, lb_active = 0, lb_current = 0, lb_more = False,
     lb_dropping = False, lb_terminating = False, lb_calls = []\<rparr>"

definition lb_delete :: "lb \<Rightarrow> unit option" where
  "lb_delete q = zmq_assert (array_empty (lb_pipes q))"

definition lb_call :: "sink_call \<Rightarrow> lb \<Rightarrow> lb" where
  "lb_call c q = q\<lparr>lb_calls := lb_calls q @ [c]\<rparr>"

definition lb_attach :: "('p, msg) writer_ops \<Rightarrow> addr \<Rightarrow> lb \<Rightarrow> 'p \<Rightarrow> (lb \<times> 'p) option" where
  "lb_attach ops pipe q p = do {
     p \<leftarrow> wo_set_event_sink ops pipe p;
     let ps = array_push_back pipe (lb_pipes q);
     ps \<leftarrow> array_swap (lb_active q) (array_size ps - 1) ps;
     let q = q\<lparr>lb_pipes := ps, lb_active := lb_active q + 1\<rparr>;
     if lb_terminating q then do {
       p \<leftarrow> wo_terminate ops pipe p;
       Some (lb_call (Register_term_acks 1) q, p)
     }
     else Some (q, p)
   }"

definition lb_terminate :: "('p, msg) writer_ops \<Rightarrow> lb \<Rightarrow> 'p \<Rightarrow> (lb \<times> 'p) option" where
  "lb_terminate ops q p = do {
     zmq_assert (\<not> lb_terminating q);
     let q = q\<lparr>lb_terminating := True\<rparr>;
     let q = lb_call (Register_term_acks (array_size (lb_pipes q))) q;
     p \<leftarrow> terminate_all (wo_terminate ops) (arr_items (lb_pipes q)) p;
     Some (q, p)
   }"

definition lb_terminated :: "addr \<Rightarrow> lb \<Rightarrow> lb option" where
  "lb_terminated pipe q = do {
     let index = array_index (lb_pipes q) pipe;
     let q = (if index = lb_current q \<and> lb_more q then q\<lparr>lb_dropping := True\<rparr> else q);
     let q = (if index < lb_active q then
                let q = q\<lparr>lb_active := lb_active q - 1\<rparr>
                in if lb_current q = lb_active q then q\<lparr>lb_current := 0\<rparr> else q
              else q);
     ps \<leftarrow> array_erase pipe (lb_pipes q);
     let q = q\<lparr>lb_pipes := ps\<rparr>;
     Some (if lb_terminating q then lb_call Unregister_term_ack q else q)
   }"

definition lb_activated :: "addr \<Rightarrow> lb \<Rightarrow> lb option" where
  "lb_activated pipe q = do {
     ps \<leftarrow> array_swap (array_index (lb_pipes q) pipe) (lb_active q) (lb_pipes q);
     Some (q\<lparr>lb_pipes := ps, lb_active := lb_active q + 1\<rparr>)
   }"

text \<open>The current pipe refused a message.\<close>

definition lb_pass_over :: "lb \<Rightarrow> lb option" where
  "lb_pass_over q = (
     let q = q\<lparr>lb_active := lb_active q - 1\<rparr>
     in if lb_current q < lb_active q then do {
          ps \<leftarrow> array_swap (lb_current q) (lb_active q) (lb_pipes q);
          Some (q\<lparr>lb_pipes := ps\<rparr>)
        }
        else Some (q\<lparr>lb_current := 0\<rparr>))"

text \<open>
  The loop of \<open>send\<close>: each pass that does not break makes one pipe passive, so \<open>active\<close>
  passes are enough (the first argument).
\<close>

fun lb_send_loop :: "('p, msg) writer_ops \<Rightarrow> nat \<Rightarrow> msg \<Rightarrow> lb \<Rightarrow> 'p \<Rightarrow> (lb \<times> 'p) option" where
  "lb_send_loop ops 0 m q p = Some (q, p)"
| "lb_send_loop ops (Suc n) m q p = do {
     cur \<leftarrow> array_at (lb_pipes q) (lb_current q);
     (ok, p) \<leftarrow> wo_write ops cur m p;
     if ok then Some (q\<lparr>lb_more := has_more m\<rparr>, p)
     else do {
       zmq_assert (\<not> lb_more q);
       q \<leftarrow> lb_pass_over q;
       lb_send_loop ops n m q p
     }
   }"

definition lb_send :: "('p, msg) writer_ops \<Rightarrow> msg \<Rightarrow> lb \<Rightarrow> 'p \<Rightarrow> (rc \<times> msg \<times> lb \<times> 'p) option" where
  "lb_send ops m q p =
     (if lb_dropping q then
        let q = q\<lparr>lb_more := has_more m\<rparr>;
            q = (if \<not> lb_more q then q\<lparr>lb_dropping := False\<rparr> else q)
        in Some (OK, empty_msg, q, p)
      else do {
        (q, p) \<leftarrow> lb_send_loop ops (lb_active q) m q p;
        if lb_active q = 0 then Some (Err EAGAIN, m, q, p)
        else if \<not> lb_more q then do {
          cur \<leftarrow> array_at (lb_pipes q) (lb_current q);
          p \<leftarrow> wo_flush ops cur p;
          Some (OK, empty_msg, q\<lparr>lb_current := (lb_current q + 1) mod lb_active q\<rparr>, p)
        }
        else Some (OK, empty_msg, q, p)
      })"

definition lb_deactivate :: "lb \<Rightarrow> lb option" where
  "lb_deactivate q = do {
     let q = q\<lparr>lb_active := lb_active q - 1\<rparr>;
     ps \<leftarrow> array_swap (lb_current q) (lb_active q) (lb_pipes q);
     let q = q\<lparr>lb_pipes := ps\<rparr>;
     Some (if lb_current q = lb_active q then q\<lparr>lb_current := 0\<rparr> else q)
   }"

fun lb_out_loop :: "('p, msg) writer_ops \<Rightarrow> nat \<Rightarrow> lb \<Rightarrow> 'p \<Rightarrow> (bool \<times> lb \<times> 'p) option" where
  "lb_out_loop ops 0 q p = Some (False, q, p)"
| "lb_out_loop ops (Suc n) q p = do {
     cur \<leftarrow> array_at (lb_pipes q) (lb_current q);
     (ok, p) \<leftarrow> wo_check_write ops cur empty_msg p;
     if ok then Some (True, q, p)
     else do { q \<leftarrow> lb_deactivate q; lb_out_loop ops n q p }
   }"

definition lb_has_out :: "('p, msg) writer_ops \<Rightarrow> lb \<Rightarrow> 'p \<Rightarrow> (bool \<times> lb \<times> 'p) option" where
  "lb_has_out ops q p =
     (if lb_more q then Some (True, q, p) else lb_out_loop ops (lb_active q) q p)"

section \<open>The invariant\<close>

definition lb_active_pipes :: "lb \<Rightarrow> addr list" where
  "lb_active_pipes q = take (lb_active q) (arr_items (lb_pipes q))"

definition lb_current_pipe :: "lb \<Rightarrow> addr" where
  "lb_current_pipe q = arr_items (lb_pipes q) ! lb_current q"

definition lb_ok :: "lb \<Rightarrow> bool" where
  "lb_ok q \<longleftrightarrow> array_ok (lb_pipes q) \<and> lb_active q \<le> length (arr_items (lb_pipes q)) \<and>
     (lb_current q < lb_active q \<or> lb_current q = 0 \<and> lb_active q = 0)"

text \<open>
  The pipes of \<open>q\<close> hold \<open>g\<close>: parts of an unfinished message are in the current pipe only, and
  only while a message is being sent.
\<close>

definition lb_holds :: "lb \<Rightarrow> (addr \<rightharpoonup> msg list \<times> msg list) \<Rightarrow> bool" where
  "lb_holds q g \<longleftrightarrow> lb_ok q \<and> set (arr_items (lb_pipes q)) \<subseteq> dom g \<and> \<not> lb_dropping q \<and>
     (lb_more q \<longrightarrow> 0 < lb_active q) \<and>
     (\<forall>a \<in> set (arr_items (lb_pipes q)). snd (the (g a)) \<noteq> [] \<longleftrightarrow> lb_more q \<and> a = lb_current_pipe q)"

lemma lb_current_active:
  "lb_ok q \<Longrightarrow> 0 < lb_active q \<Longrightarrow>
   array_at (lb_pipes q) (lb_current q) = Some (lb_current_pipe q) \<and>
   lb_current_pipe q \<in> set (lb_active_pipes q) \<and> lb_current_pipe q \<in> set (arr_items (lb_pipes q))"
  by (auto simp: lb_ok_def array_at_def lb_current_pipe_def lb_active_pipes_def in_set_conv_nth)
    (metis less_le_trans)

lemma lb_more_update [simp]:
  "lb_ok (q\<lparr>lb_more := b\<rparr>) = lb_ok q" "lb_current_pipe (q\<lparr>lb_more := b\<rparr>) = lb_current_pipe q"
  "lb_active_pipes (q\<lparr>lb_more := b\<rparr>) = lb_active_pipes q"
  by (simp_all add: lb_ok_def lb_current_pipe_def lb_active_pipes_def)

text \<open>A pass of the loop that finds the current pipe full.\<close>

lemma lb_pass_over_ok:
  assumes ok: "lb_ok q" and act: "lb_active q = Suc n"
  obtains q' where "lb_pass_over q = Some q'" and "lb_ok q'" and "lb_active q' = n"
    and "set (arr_items (lb_pipes q')) = set (arr_items (lb_pipes q))"
    and "set (lb_active_pipes q') \<subseteq> set (lb_active_pipes q)"
    and "lb_more q' = lb_more q" and "lb_dropping q' = lb_dropping q" and "lb_calls q' = lb_calls q"
proof -
  let ?xs = "arr_items (lb_pipes q)"
  have a: "array_ok (lb_pipes q)" "n < length ?xs" "lb_current q \<le> n" and d: "distinct ?xs"
    using ok act by (auto simp: lb_ok_def array_ok_def)
  show thesis
  proof (cases "lb_current q < n")
    case True
    obtain ps where ps: "array_swap (lb_current q) n (lb_pipes q) = Some ps" "array_ok ps"
      "arr_items ps = list_swap (lb_current q) n ?xs"
      using array_swap_ok [OF a(1), of "lb_current q" n] a(2,3) by auto
    let ?q = "q\<lparr>lb_active := n, lb_pipes := ps\<rparr>"
    have "lb_ok ?q" using ps a True by (auto simp: lb_ok_def)
    then show thesis
      using ps a act True set_take_swap_out(1) [OF a(3,2) d]
      by (intro that [of ?q]) (auto simp: lb_pass_over_def lb_active_pipes_def Let_def)
  next
    case False
    let ?q = "q\<lparr>lb_active := n, lb_current := 0\<rparr>"
    have "lb_ok ?q" using ok act by (auto simp: lb_ok_def)
    then show thesis
      using False act set_take_subset_set_take [of n "Suc n" ?xs]
      by (intro that [of ?q]) (auto simp: lb_pass_over_def lb_active_pipes_def Let_def)
  qed
qed

context message_writers begin

lemma send_loop_spec:
  assumes "lb_holds q g" and "rep p g" and "lb_active q = n" and nd: "\<not> is_delimiter m"
  shows "\<exists>q' p'. lb_send_loop ops n m q p = Some (q', p') \<and> lb_ok q' \<and> \<not> lb_dropping q' \<and>
    set (arr_items (lb_pipes q')) = set (arr_items (lb_pipes q)) \<and>
    (lb_active q' = 0 \<and> rep p' g \<and> \<not> lb_more q' \<and> \<not> lb_more q \<or>
     0 < lb_active q' \<and> lb_current_pipe q' \<in> set (lb_active_pipes q) \<and> lb_more q' = has_more m \<and>
       (lb_more q \<longrightarrow> lb_current_pipe q' = lb_current_pipe q) \<and>
       rep p' (g(lb_current_pipe q' \<mapsto> add_part m (the (g (lb_current_pipe q'))))))"
  using assms(1-3)
proof (induction n arbitrary: q p)
  case 0
  then show ?case by (auto simp: lb_holds_def)
next
  case (Suc n)
  let ?c = "lb_current_pipe q"
  have ok: "lb_ok q" and act: "0 < lb_active q" using Suc.prems by (auto simp: lb_holds_def)
  note cur = lb_current_active [OF ok act]
  then obtain c where c: "g ?c = Some c" using Suc.prems(1) by (auto simp: lb_holds_def)
  have mid: "snd c \<noteq> [] \<longleftrightarrow> lb_more q" using cur c Suc.prems(1) by (auto simp: lb_holds_def)
  obtain b p1 where p1: "wo_write ops ?c m p = Some (b, p1)" "rep p1 (if b then g(?c \<mapsto> add_part m c) else g)"
    "snd c \<noteq> [] \<longrightarrow> b"
    using write_msg [OF Suc.prems(2) c nd] by blast
  show ?case
  proof (cases b)
    case True
    let ?q = "q\<lparr>lb_more := has_more m\<rparr>"
    have "lb_send_loop ops (Suc n) m q p = Some (?q, p1)" using cur p1(1) True by simp
    moreover have "lb_current_pipe ?q = ?c" by simp
    moreover from this have "rep p1 (g(lb_current_pipe ?q \<mapsto> add_part m (the (g (lb_current_pipe ?q)))))"
      using p1(2) True c by simp
    moreover have "lb_ok ?q" "\<not> lb_dropping ?q" "0 < lb_active ?q" "lb_current_pipe ?q \<in> set (lb_active_pipes q)"
      "lb_more ?q = has_more m" "set (arr_items (lb_pipes ?q)) = set (arr_items (lb_pipes q))"
      using cur act ok Suc.prems(1) by (simp_all add: lb_holds_def)
    ultimately show ?thesis by blast
  next
    case False
    with p1(3) mid have nm: "\<not> lb_more q" by blast
    obtain q' where q': "lb_ok q'" "lb_active q' = n"
      "set (arr_items (lb_pipes q')) = set (arr_items (lb_pipes q))"
      "set (lb_active_pipes q') \<subseteq> set (lb_active_pipes q)"
      "lb_more q' = lb_more q" "lb_dropping q' = lb_dropping q" "lb_pass_over q = Some q'"
      using lb_pass_over_ok [OF ok Suc.prems(3)] by metis
    have "lb_holds q' g" using Suc.prems(1) q'(1-6) nm by (simp add: lb_holds_def)
    moreover have "rep p1 g" using p1(2) False by simp
    moreover have "lb_send_loop ops (Suc n) m q p = lb_send_loop ops n m q' p1"
      using cur p1(1) False nm q'(7) by (simp add: Let_def)
    ultimately obtain q2 p2 where s: "lb_send_loop ops (Suc n) m q p = Some (q2, p2)" "lb_ok q2" "\<not> lb_dropping q2"
      "set (arr_items (lb_pipes q2)) = set (arr_items (lb_pipes q'))"
      and d: "lb_active q2 = 0 \<and> rep p2 g \<and> \<not> lb_more q2 \<and> \<not> lb_more q' \<or>
        0 < lb_active q2 \<and> lb_current_pipe q2 \<in> set (lb_active_pipes q') \<and> lb_more q2 = has_more m \<and>
        (lb_more q' \<longrightarrow> lb_current_pipe q2 = lb_current_pipe q') \<and>
        rep p2 (g(lb_current_pipe q2 \<mapsto> add_part m (the (g (lb_current_pipe q2)))))"
      using Suc.IH [of q' p1] q'(2) by metis
    have "lb_active q2 = 0 \<and> rep p2 g \<and> \<not> lb_more q2 \<and> \<not> lb_more q \<or>
        0 < lb_active q2 \<and> lb_current_pipe q2 \<in> set (lb_active_pipes q) \<and> lb_more q2 = has_more m \<and>
        (lb_more q \<longrightarrow> lb_current_pipe q2 = lb_current_pipe q) \<and>
        rep p2 (g(lb_current_pipe q2 \<mapsto> add_part m (the (g (lb_current_pipe q2)))))"
      using d q'(4) nm by blast
    with s q'(3) show ?thesis by metis
  qed
qed

end

text \<open>Sending a message of several parts, stopping at the first one refused.\<close>

fun lb_send_parts :: "('p, msg) writer_ops \<Rightarrow> msg list \<Rightarrow> lb \<Rightarrow> 'p \<Rightarrow> (rc \<times> lb \<times> 'p) option" where
  "lb_send_parts ops [] q p = Some (OK, q, p)"
| "lb_send_parts ops (m # ms) q p = do {
     (rc, _, q, p) \<leftarrow> lb_send ops m q p;
     if rc \<noteq> OK then Some (rc, q, p) else lb_send_parts ops ms q p
   }"

lemma add_part_cases:
  "add_part m c = (if has_more m then (fst c, snd c @ [m]) else (fst c @ snd c @ [m], []))"
  by (cases c) simp

context message_writers begin

lemma send_cases:
  assumes h: "lb_holds q g" and rep: "rep p g" and nd: "\<not> is_delimiter m"
  obtains (again) q' p' where "lb_send ops m q p = Some (Err EAGAIN, m, q', p')" and "\<not> lb_more q"
      and "lb_active q' = 0" and "rep p' g"
    | (sent) a q' p' where "lb_send ops m q p = Some (OK, empty_msg, q', p')"
      and "a \<in> set (lb_active_pipes q)" and "lb_more q \<longrightarrow> a = lb_current_pipe q"
      and "rep p' (g(a \<mapsto> add_part m (the (g a))))" and "lb_holds q' (g(a \<mapsto> add_part m (the (g a))))"
      and "lb_more q' = has_more m" and "has_more m \<longrightarrow> lb_current_pipe q' = a"
proof -
  have nd': "\<not> lb_dropping q" using h by (simp add: lb_holds_def)
  obtain q1 p1 where l: "lb_send_loop ops (lb_active q) m q p = Some (q1, p1)" "lb_ok q1" "\<not> lb_dropping q1"
      "set (arr_items (lb_pipes q1)) = set (arr_items (lb_pipes q))"
    and d: "lb_active q1 = 0 \<and> rep p1 g \<and> \<not> lb_more q1 \<and> \<not> lb_more q \<or>
        0 < lb_active q1 \<and> lb_current_pipe q1 \<in> set (lb_active_pipes q) \<and> lb_more q1 = has_more m \<and>
        (lb_more q \<longrightarrow> lb_current_pipe q1 = lb_current_pipe q) \<and>
        rep p1 (g(lb_current_pipe q1 \<mapsto> add_part m (the (g (lb_current_pipe q1)))))"
    using send_loop_spec [OF h rep refl nd] by metis
  show thesis
  proof (cases "lb_active q1 = 0")
    case True
    then show thesis using l d nd' by (intro again [of q1 p1]) (auto simp: lb_send_def)
  next
    case False
    let ?a = "lb_current_pipe q1"
    let ?g = "g(?a \<mapsto> add_part m (the (g ?a)))"
    from d False have a: "?a \<in> set (lb_active_pipes q)" "lb_more q \<longrightarrow> ?a = lb_current_pipe q" "rep p1 ?g"
      "lb_more q1 = has_more m" by auto
    have act: "0 < lb_active q1" using False by simp
    note cur = lb_current_active [OF l(2) act]
    have hold: "lb_holds q2 ?g" if "lb_ok q2" "\<not> lb_dropping q2" "arr_items (lb_pipes q2) = arr_items (lb_pipes q1)"
      "lb_more q2 = has_more m" "lb_active q2 = lb_active q1" "has_more m \<longrightarrow> lb_current_pipe q2 = ?a" for q2
    proof -
      have "snd (the (g b)) = []" if "b \<in> set (arr_items (lb_pipes q))" "b \<noteq> ?a" for b
        using h that a(2) by (auto simp: lb_holds_def)
      then have "\<forall>b \<in> set (arr_items (lb_pipes q)). snd (the (?g b)) \<noteq> [] \<longleftrightarrow> has_more m \<and> b = ?a"
        by (auto simp: add_part_cases)
      moreover have "set (arr_items (lb_pipes q)) \<subseteq> dom ?g" using h by (auto simp: lb_holds_def)
      ultimately show ?thesis
        unfolding lb_holds_def that(3-5) l(4) using that(1,2,6) act by auto
    qed
    show thesis
    proof (cases "has_more m")
      case True
      have "lb_send ops m q p = Some (OK, empty_msg, q1, p1)"
        using l(1) nd' False a(4) True by (simp add: lb_send_def)
      then show thesis
        using sent [of q1 p1 ?a] a hold [of q1] l(2,3) True by blast
    next
      case nm: False
      obtain p2 where p2: "wo_flush ops ?a p1 = Some p2" "rep p2 ?g"
        using flush [OF a(3), of ?a] by auto
      let ?q = "q1\<lparr>lb_current := Suc (lb_current q1) mod lb_active q1\<rparr>"
      have "lb_send ops m q p = Some (OK, empty_msg, ?q, p2)"
        using l(1) nd' False a(4) nm cur p2(1) by (simp add: lb_send_def)
      moreover have "lb_ok ?q" using l(2) act by (simp add: lb_ok_def)
      ultimately show thesis
        using sent [of ?q p2 ?a] a hold [of ?q] l(3) nm p2(2) by simp
    qed
  qed
qed

lemma send_rest:
  assumes "lb_holds q g" and "rep p g" and "lb_more q" and "\<forall>m \<in> set ms. has_more m"
    and "\<not> has_more l" and "\<forall>m \<in> set (ms @ [l]). \<not> is_delimiter m"
  shows "\<exists>q' p'. lb_send_parts ops (ms @ [l]) q p = Some (OK, q', p') \<and>
    rep p' (g(lb_current_pipe q \<mapsto> (fst (the (g (lb_current_pipe q))) @ snd (the (g (lb_current_pipe q))) @ ms @ [l], [])))"
  using assms
proof (induction ms arbitrary: q p g)
  case Nil
  have "\<not> is_delimiter l" using Nil.prems by simp
  then show ?case
  proof (rule send_cases [OF Nil.prems(1,2)])
    fix a q' p'
    assume s: "lb_send ops l q p = Some (OK, empty_msg, q', p')" "lb_more q \<longrightarrow> a = lb_current_pipe q"
      "rep p' (g(a \<mapsto> add_part l (the (g a))))"
    then have "rep p' (g(lb_current_pipe q \<mapsto> (fst (the (g (lb_current_pipe q))) @ snd (the (g (lb_current_pipe q))) @ [] @ [l], [])))"
      using Nil.prems(3,5) by (simp add: add_part_cases)
    with s(1) show ?thesis by (intro exI [of _ q'] exI [of _ p']) (simp del: fun_upd_apply)
  qed (use Nil.prems in simp)
next
  case (Cons m ms)
  have "\<not> is_delimiter m" using Cons.prems by simp
  note nd_hd = this
  show ?case
  proof (cases rule: send_cases [OF Cons.prems(1,2) nd_hd, case_names again sent])
    case (sent a q' p')
    have a: "a = lb_current_pipe q" "lb_current_pipe q' = a" "has_more m" "lb_more q'"
      using sent Cons.prems(3,4) by auto
    let ?g = "g(a \<mapsto> add_part m (the (g a)))"
    obtain q2 p2 where sp: "lb_send_parts ops (ms @ [l]) q' p' = Some (OK, q2, p2)"
      and r: "rep p2 (?g(a \<mapsto> (fst (the (?g a)) @ snd (the (?g a)) @ ms @ [l], [])))"
      using Cons.IH [OF sent(5,4) a(4)] Cons.prems(4-6) a(2) by (auto simp del: fun_upd_apply)
    moreover have "?g(a \<mapsto> (fst (the (?g a)) @ snd (the (?g a)) @ ms @ [l], [])) =
        g(a \<mapsto> (fst (the (g a)) @ snd (the (g a)) @ (m # ms) @ [l], []))"
      using a(3) by (simp add: add_part_cases)
    ultimately have "rep p2 (g(lb_current_pipe q \<mapsto> (fst (the (g (lb_current_pipe q))) @
        snd (the (g (lb_current_pipe q))) @ (m # ms) @ [l], [])))" using a(1) r by metis
    moreover have "lb_send_parts ops ((m # ms) @ [l]) q p = Some (OK, q2, p2)"
      using sent(1) sp by simp
    ultimately show ?thesis by blast
  qed (use Cons.prems in simp)
qed

lemma multipart_atomic:
  assumes h: "lb_holds q g" and rep: "rep p g" and nm: "\<not> lb_more q" and ms: "\<forall>m \<in> set ms. has_more m"
    and l: "\<not> has_more l" and nd: "\<forall>m \<in> set (ms @ [l]). \<not> is_delimiter m"
  shows "\<exists>rc q' p'. lb_send_parts ops (ms @ [l]) q p = Some (rc, q', p') \<and>
    (rc = Err EAGAIN \<and> rep p' g \<or>
     rc = OK \<and> (\<exists>a \<in> set (lb_active_pipes q). rep p' (g(a \<mapsto> (fst (the (g a)) @ ms @ [l], [])))))"
proof -
  have inc: "snd (the (g a)) = []" if "a \<in> set (lb_active_pipes q)" for a
    using h nm that by (auto simp: lb_holds_def lb_active_pipes_def dest: in_set_takeD)
  show ?thesis
  proof (cases ms)
    case Nil
    have "\<not> is_delimiter l" using nd by simp
    then show ?thesis
      by (rule send_cases [OF h rep]) (use inc l Nil in \<open>auto simp: add_part_cases\<close>)
  next
    case (Cons m ms')
    have "\<not> is_delimiter m" and hm: "has_more m" using nd ms Cons by simp_all
    note nd_hd = this(1)
    show ?thesis
    proof (cases rule: send_cases [OF h rep nd_hd, case_names again sent])
      case (sent a q' p')
      let ?g = "g(a \<mapsto> add_part m (the (g a)))"
      have a: "lb_current_pipe q' = a" "lb_more q'" using sent(6,7) hm by auto
      obtain q2 p2 where "lb_send_parts ops (ms' @ [l]) q' p' = Some (OK, q2, p2)"
        and r: "rep p2 (?g(a \<mapsto> (fst (the (?g a)) @ snd (the (?g a)) @ ms' @ [l], [])))"
        using send_rest [OF sent(5,4) a(2), of ms' l] a(1) ms l nd Cons by (auto simp del: fun_upd_apply)
      moreover have "?g(a \<mapsto> (fst (the (?g a)) @ snd (the (?g a)) @ ms' @ [l], [])) =
          g(a \<mapsto> (fst (the (g a)) @ ms @ [l], []))"
        using hm inc [OF sent(2)] Cons by (simp add: add_part_cases)
      ultimately show ?thesis using sent(1,2) Cons by auto
    qed (use Cons in auto)
  qed
qed

end

section \<open>Properties\<close>

text \<open>C18 (safety).  When, in the middle of a multipart message, a pipe other than the current one
  terminates and the current one is the last of the active pipes, \<open>terminated\<close> sets
  \<open>current\<close> back to the first pipe: nothing is dropped, and the remaining parts of the
  message are sent to a pipe that has not got the first ones.\<close>

theorem lb_terminated_splits_message:
  assumes "lb_ok q" and "lb_more q" and "\<not> lb_dropping q" and "Suc (lb_current q) = lb_active q"
    and "0 < i" and "i < lb_current q" and "x = arr_items (lb_pipes q) ! i"
  shows "\<exists>q'. lb_terminated x q = Some q' \<and> lb_more q' \<and> \<not> lb_dropping q' \<and>
    lb_current_pipe q' = arr_items (lb_pipes q) ! 0 \<and> lb_current_pipe q' \<noteq> lb_current_pipe q"
proof -
  let ?xs = "arr_items (lb_pipes q)"
  have a: "array_ok (lb_pipes q)" and n: "lb_active q \<le> length ?xs" using assms(1) by (simp_all add: lb_ok_def)
  have i: "i < length ?xs" "lb_current q < length ?xs" using assms(4-6) n by simp_all
  have ix: "array_index (lb_pipes q) x = i" using array_indexD [OF a i(1)] assms(7) by simp
  have "x \<in> set ?xs" using assms(7) i by simp
  then obtain ps where ps: "array_erase x (lb_pipes q) = Some ps"
    "arr_items ps = butlast (?xs[i := last ?xs])"
    using array_erase_ok [OF a, of x] ix by metis
  have "arr_items ps ! 0 = ?xs ! 0"
    using ps(2) assms(5,6) i by (simp add: nth_butlast)
  moreover have "?xs ! 0 \<noteq> ?xs ! lb_current q"
  proof -
    have "distinct ?xs" "0 < length ?xs" "0 \<noteq> lb_current q" using a i assms(5,6) by (auto simp: array_ok_def)
    with i show ?thesis by (simp add: nth_eq_iff_index_eq)
  qed
  ultimately show ?thesis
    using ps(1) ix assms(2-6)
    by (auto simp: lb_terminated_def lb_call_def lb_current_pipe_def Let_def)
qed

definition lb_example :: lb where
  "lb_example = \<lparr>lb_pipes = \<lparr>arr_items = [10, 11, 12], arr_index = (\<lambda>a. int a - 10)\<rparr>, lb_active = 3,
     lb_current = 2, lb_more = True, lb_dropping = False, lb_terminating = False, lb_calls = []\<rparr>"

theorem lb_terminated_splits_message_witness:
  "\<exists>q'. lb_terminated 11 lb_example = Some q' \<and> lb_more q' \<and> \<not> lb_dropping q' \<and>
    lb_current_pipe q' = 10 \<and> lb_current_pipe lb_example = 12"
proof -
  have ok: "lb_ok lb_example" by (auto simp: lb_ok_def lb_example_def array_ok_def less_Suc_eq)
  have "lb_more lb_example" "\<not> lb_dropping lb_example" "Suc (lb_current lb_example) = lb_active lb_example"
    "0 < Suc 0" "Suc 0 < lb_current lb_example" "11 = arr_items (lb_pipes lb_example) ! Suc 0"
    by (simp_all add: lb_example_def)
  from lb_terminated_splits_message [OF ok this] show ?thesis
    by (auto simp: lb_example_def lb_current_pipe_def)
qed

end
