(* ===== verification/Dist.thy ===== *)
theory Dist
  imports Fq
begin

text \<open>
  \<open>dist.hpp\<close>, \<open>dist.cpp\<close>: distribution of each message to all the outbound pipes.  The array
  holds first the \<open>active\<close> pipes (they get the message being sent), then the other
  \<open>eligible\<close> ones (they will get the next), then the full ones.  Messages are the \<open>zmq_msg_t\<close>
  structures of \<open>Msg\<close>, since \<open>distribute\<close> works on the reference count of the content.
\<close>

section \<open>The operations\<close>

record dist =
  dist_pipes :: "addr array"
  dist_active :: nat
  dist_eligible :: nat
  dist_more :: bool
  dist_terminating :: bool
  dist_calls :: "sink_call list"

definition dist_new :: dist where
  "dist_new = \<lparr>dist_pipes = array_new, dist_active = 0, dist_eligible = 0, dist_more = False,
     dist_terminating = False, dist_calls = []\<rparr>"

definition dist_delete :: "dist \<Rightarrow> unit option" where
  "dist_delete q = zmq_assert (array_empty (dist_pipes q))"

definition dist_call :: "sink_call \<Rightarrow> dist \<Rightarrow> dist" where
  "dist_call c q = q\<lparr>dist_calls := dist_calls q @ [c]\<rparr>"

definition dist_attach :: "('p, zmq_msg) writer_ops \<Rightarrow> addr \<Rightarrow> dist \<Rightarrow> 'p \<Rightarrow> (dist \<times> 'p) option" where
  "dist_attach ops pipe q p = do {
     p \<leftarrow> wo_set_event_sink ops pipe p;
     let ps = array_push_back pipe (dist_pipes q);
     q \<leftarrow> (if dist_more q then do {
             ps \<leftarrow> array_swap (dist_eligible q) (array_size ps - 1) ps;
             Some (q\<lparr>dist_pipes := ps, dist_eligible := dist_eligible q + 1\<rparr>)
           }
           else do {
             ps \<leftarrow> array_swap (dist_active q) (array_size ps - 1) ps;
             Some (q\<lparr>dist_pipes := ps, dist_active := dist_active q + 1, dist_eligible := dist_eligible q + 1\<rparr>)
           });
     if dist_terminating q then do {
       p \<leftarrow> wo_terminate ops pipe p;
       Some (dist_call (Register_term_acks 1) q, p)
     }
     else Some (q, p)
   }"

definition dist_terminate :: "('p, zmq_msg) writer_ops \<Rightarrow> dist \<Rightarrow> 'p \<Rightarrow> (dist \<times> 'p) option" where
  "dist_terminate ops q p = do {
     zmq_assert (\<not> dist_terminating q);
     let q = q\<lparr>dist_terminating := True\<rparr>;
     let q = dist_call (Register_term_acks (array_size (dist_pipes q))) q;
     p \<leftarrow> terminate_all (wo_terminate ops) (arr_items (dist_pipes q)) p;
     Some (q, p)
   }"

definition dist_terminated :: "addr \<Rightarrow> dist \<Rightarrow> dist option" where
  "dist_terminated pipe q = do {
     let i = array_index (dist_pipes q) pipe;
     let q = (if i < dist_active q then q\<lparr>dist_active := dist_active q - 1\<rparr> else q);
     let q = (if i < dist_eligible q then q\<lparr>dist_eligible := dist_eligible q - 1\<rparr> else q);
     ps \<leftarrow> array_erase pipe (dist_pipes q);
     let q = q\<lparr>dist_pipes := ps\<rparr>;
     Some (if dist_terminating q then dist_call Unregister_term_ack q else q)
   }"

definition dist_activated :: "addr \<Rightarrow> dist \<Rightarrow> dist option" where
  "dist_activated pipe q = do {
     ps \<leftarrow> array_swap (array_index (dist_pipes q) pipe) (dist_eligible q) (dist_pipes q);
     let q = q\<lparr>dist_pipes := ps, dist_eligible := dist_eligible q + 1\<rparr>;
     if \<not> dist_more q then do {
       ps \<leftarrow> array_swap (dist_eligible q - 1) (dist_active q) (dist_pipes q);
       Some (q\<lparr>dist_pipes := ps, dist_active := dist_active q + 1\<rparr>)
     }
     else Some q
   }"

definition msg_more :: "zmq_msg \<Rightarrow> bool" where
  "msg_more m \<longleftrightarrow> flags m AND ZMQ_MSG_MORE \<noteq> 0"

definition dist_write :: "('p, zmq_msg) writer_ops \<Rightarrow> addr \<Rightarrow> zmq_msg \<Rightarrow> dist \<Rightarrow> 'p \<Rightarrow> (bool \<times> dist \<times> 'p) option" where
  "dist_write ops pipe m q p = do {
     (ok, p) \<leftarrow> wo_write ops pipe m p;
     if \<not> ok then do {
       ps \<leftarrow> array_swap (array_index (dist_pipes q) pipe) (dist_active q - 1) (dist_pipes q);
       let q = q\<lparr>dist_pipes := ps, dist_active := dist_active q - 1\<rparr>;
       ps \<leftarrow> array_swap (dist_active q) (dist_eligible q - 1) (dist_pipes q);
       let q = q\<lparr>dist_pipes := ps, dist_eligible := dist_eligible q - 1\<rparr>;
       Some (False, q, p)
     }
     else if \<not> msg_more m then do {
       p \<leftarrow> wo_flush ops pipe p;
       Some (True, q, p)
     }
     else Some (True, q, p)
   }"

text \<open>
  The two loops over the active pipes (with and without a reference count).  Each pass either
  moves on or makes a pipe passive: \<open>active - i\<close> passes, the first argument, are enough.
\<close>

fun dist_loop :: "('p, zmq_msg) writer_ops \<Rightarrow> nat \<Rightarrow> nat \<Rightarrow> zmq_msg \<Rightarrow> dist \<Rightarrow> 'p \<Rightarrow> (dist \<times> 'p) option" where
  "dist_loop ops 0 i m q p = Some (q, p)"
| "dist_loop ops (Suc n) i m q p = do {
     pipe \<leftarrow> array_at (dist_pipes q) i;
     (ok, q, p) \<leftarrow> dist_write ops pipe m q p;
     dist_loop ops n (if ok then i + 1 else i) m q p
   }"

fun dist_ref_loop ::
    "('p, zmq_msg) writer_ops \<Rightarrow> nat \<Rightarrow> nat \<Rightarrow> addr \<Rightarrow> zmq_msg \<Rightarrow> msg_heap \<Rightarrow> dist \<Rightarrow> 'p \<Rightarrow>
     (msg_heap \<times> dist \<times> 'p) option" where
  "dist_ref_loop ops 0 i a m h q p = Some (h, q, p)"
| "dist_ref_loop ops (Suc n) i a m h q p = do {
     pipe \<leftarrow> array_at (dist_pipes q) i;
     (ok, q, p) \<leftarrow> dist_write ops pipe m q p;
     if \<not> ok then do {
       c \<leftarrow> contents h a;
       let (_, cnt) = counter_sub 1 (mc_refcnt c);
       dist_ref_loop ops n i a m (h\<lparr>contents := (contents h)(a \<mapsto> c\<lparr>mc_refcnt := cnt\<rparr>)\<rparr>) q p
     }
     else dist_ref_loop ops n (i + 1) a m h q p
   }"

definition dist_distribute ::
    "('p, zmq_msg) writer_ops \<Rightarrow> msg_heap \<Rightarrow> zmq_msg \<Rightarrow> dist \<Rightarrow> 'p \<Rightarrow> (msg_heap \<times> zmq_msg \<times> dist \<times> 'p) option" where
  "dist_distribute ops h m q p =
     (if dist_active q = 0 then do {
        (rc, h, m) \<leftarrow> zmq_msg_close h m;
        zmq_assert (rc = OK);
        Some (h, zmq_msg_init m, q, p)
      }
      else if content m = ZMQ_VSM then do {
        (q, p) \<leftarrow> dist_loop ops (dist_active q) 0 m q p;
        Some (h, zmq_msg_init m, q, p)
      }
      else if dist_active q = 1 then do {
        pipe \<leftarrow> array_at (dist_pipes q) 0;
        (ok, q, p) \<leftarrow> dist_write ops pipe m q p;
        (h, m) \<leftarrow> (if \<not> ok then do {
                     (rc, h, m) \<leftarrow> zmq_msg_close h m;
                     zmq_assert (rc = OK);
                     Some (h, m)
                   }
                   else Some (h, m));
        Some (h, zmq_msg_init m, q, p)
      }
      else case content m of
        Content a \<Rightarrow> do {
          c \<leftarrow> contents h a;
          let n = dist_active q;
          let (cnt, m) =
            (if shared m then (snd (counter_add (of_nat (n - 1)) (mc_refcnt c)), m)
             else (counter_set (of_nat n) (mc_refcnt c), m\<lparr>flags := flags m OR ZMQ_MSG_SHARED\<rparr>));
          let h = h\<lparr>contents := (contents h)(a \<mapsto> c\<lparr>mc_refcnt := cnt\<rparr>)\<rparr>;
          (h, q, p) \<leftarrow> dist_ref_loop ops n 0 a m h q p;
          Some (h, zmq_msg_init m, q, p)
        }
      | _ \<Rightarrow> None)"

definition dist_send ::
    "('p, zmq_msg) writer_ops \<Rightarrow> msg_heap \<Rightarrow> zmq_msg \<Rightarrow> dist \<Rightarrow> 'p \<Rightarrow> (rc \<times> msg_heap \<times> zmq_msg \<times> dist \<times> 'p) option" where
  "dist_send ops h m q p = do {
     let mm = msg_more m;
     (h, m, q, p) \<leftarrow> dist_distribute ops h m q p;
     let q = (if \<not> mm then q\<lparr>dist_active := dist_eligible q\<rparr> else q);
     let q = q\<lparr>dist_more := mm\<rparr>;
     Some (OK, h, m, q, p)
   }"

definition dist_has_out :: "dist \<Rightarrow> bool" where
  "dist_has_out q = True"

section \<open>The invariant\<close>

definition dist_ok :: "dist \<Rightarrow> bool" where
  "dist_ok q \<longleftrightarrow> array_ok (dist_pipes q) \<and> dist_active q \<le> dist_eligible q \<and>
     dist_eligible q \<le> length (arr_items (dist_pipes q))"

definition dist_active_pipes :: "dist \<Rightarrow> addr list" where
  "dist_active_pipes q = take (dist_active q) (arr_items (dist_pipes q))"

definition dist_eligible_pipes :: "dist \<Rightarrow> addr list" where
  "dist_eligible_pipes q = take (dist_eligible q) (arr_items (dist_pipes q))"

definition dist_all_pipes :: "dist \<Rightarrow> addr set" where
  "dist_all_pipes q = set (arr_items (dist_pipes q))"

text \<open>The calls of the writers of the pipes \<open>A\<close> return, in the states \<open>J\<close> of the pipes; whether a
  message is taken is up to them.\<close>

definition writers_return :: "addr set \<Rightarrow> ('p \<Rightarrow> bool) \<Rightarrow> ('p, 'm) writer_ops \<Rightarrow> bool" where
  "writers_return A J ops \<longleftrightarrow> (\<forall>a \<in> A. \<forall>p. J p \<longrightarrow>
     (\<forall>m. \<exists>ok p'. wo_write ops a m p = Some (ok, p') \<and> J p') \<and> (\<exists>p'. wo_flush ops a p = Some p' \<and> J p') \<and>
     (\<exists>p'. wo_set_event_sink ops a p = Some p' \<and> J p') \<and> (\<exists>p'. wo_terminate ops a p = Some p' \<and> J p'))"

lemma writers_returnD:
  assumes "writers_return A J ops" and "a \<in> A" and "J p"
  shows "\<exists>ok p'. wo_write ops a m p = Some (ok, p') \<and> J p'" and "\<exists>p'. wo_flush ops a p = Some p' \<and> J p'"
    and "\<exists>p'. wo_set_event_sink ops a p = Some p' \<and> J p'" and "\<exists>p'. wo_terminate ops a p = Some p' \<and> J p'"
  using assms unfolding writers_return_def by blast+

section \<open>What the pipes are given\<close>

text \<open>The writes and flushes of the pipes are recorded beside their state, each write with the answer.\<close>

datatype 'm writer_io = Wrote addr 'm bool | Flushed addr

definition logged :: "('p, 'm) writer_ops \<Rightarrow> ('p \<times> 'm writer_io list, 'm) writer_ops" where
  "logged ops =
     \<lparr>wo_write = (\<lambda>a m (p, l). do { (ok, p) \<leftarrow> wo_write ops a m p; Some (ok, p, l @ [Wrote a m ok]) }),
      wo_check_write = (\<lambda>a m (p, l). do { (ok, p) \<leftarrow> wo_check_write ops a m p; Some (ok, p, l) }),
      wo_rollback = (\<lambda>a (p, l). do { p \<leftarrow> wo_rollback ops a p; Some (p, l) }),
      wo_flush = (\<lambda>a (p, l). do { p \<leftarrow> wo_flush ops a p; Some (p, l @ [Flushed a]) }),
      wo_terminate = (\<lambda>a (p, l). do { p \<leftarrow> wo_terminate ops a p; Some (p, l) }),
      wo_set_event_sink = (\<lambda>a (p, l). do { p \<leftarrow> wo_set_event_sink ops a p; Some (p, l) })\<rparr>"

text \<open>A part offered to a pipe, which takes it or not; the last part of a message is flushed.\<close>

fun offer_io :: "zmq_msg \<Rightarrow> addr \<times> bool \<Rightarrow> zmq_msg writer_io list" where
  "offer_io m (a, ok) = Wrote a m ok # (if ok \<and> \<not> msg_more m then [Flushed a] else [])"

definition offers_io :: "zmq_msg \<Rightarrow> (addr \<times> bool) list \<Rightarrow> zmq_msg writer_io list" where
  "offers_io m bs = concat (map (offer_io m) bs)"

lemma offers_io_simps [simp]:
  "offers_io m [] = []" "offers_io m (b # bs) = offer_io m b @ offers_io m bs"
  by (simp_all add: offers_io_def)

definition refusals :: "(addr \<times> bool) list \<Rightarrow> nat" where
  "refusals bs = length (filter (\<lambda>b. \<not> snd b) bs)"

definition takers :: "(addr \<times> bool) list \<Rightarrow> addr set" where
  "takers bs = {a. (a, True) \<in> set bs}"

lemma refusals_simps [simp]:
  "refusals [] = 0" "refusals ((a, ok) # bs) = (if ok then refusals bs else Suc (refusals bs))"
  by (simp_all add: refusals_def)

lemma takers_simps [simp]:
  "takers [] = {}" "takers ((a, ok) # bs) = (if ok then insert a (takers bs) else takers bs)"
  by (auto simp: takers_def)

lemma taken_count: "distinct (map fst bs) \<Longrightarrow> card (takers bs) + refusals bs = length bs"
proof (induction bs)
  case (Cons b bs)
  obtain a ok where b: "b = (a, ok)" by fastforce
  have "finite (takers bs)" "a \<notin> takers bs"
    using Cons.prems b finite_subset [of "takers bs" "fst ` set bs"] by (force simp: takers_def)+
  then show ?case using Cons b by simp
qed simp

text \<open>One write: the pipe at position \<open>i\<close> of the active ones is offered the part; when it refuses it
  is neither active nor eligible any more.\<close>

lemma dist_write_spec:
  assumes ok: "dist_ok q" and i: "i < dist_active q" and x: "x = arr_items (dist_pipes q) ! i"
    and ret: "writers_return A J ops" and A: "dist_all_pipes q \<subseteq> A" and J: "J p"
  obtains b q' p' where "dist_write (logged ops) x m q (p, l) = Some (b, q', p', l @ offer_io m (x, b))"
    and "J p'" and "dist_ok q'" and "dist_active q' = dist_active q - (if b then 0 else 1)"
    and "take i (dist_active_pipes q') = take i (dist_active_pipes q)"
    and "b \<Longrightarrow> q' = q"
    and "\<not> b \<Longrightarrow> set (drop i (dist_active_pipes q')) = set (drop (Suc i) (dist_active_pipes q))"
    and "set (dist_eligible_pipes q') = set (dist_eligible_pipes q) - (if b then {} else {x})"
    and "dist_all_pipes q' = dist_all_pipes q" and "dist_more q' = dist_more q"
proof -
  let ?xs = "arr_items (dist_pipes q)"
  have a: "array_ok (dist_pipes q)" and le: "dist_active q \<le> dist_eligible q" "dist_eligible q \<le> length ?xs"
    and d: "distinct ?xs"
    using ok by (simp_all add: dist_ok_def array_ok_def)
  have "x \<in> A" using A x i le by (auto simp: dist_all_pipes_def)
  note ret = writers_returnD [OF ret this]
  obtain b p1 where w: "wo_write ops x m p = Some (b, p1)" "J p1" using ret(1) [OF J] by blast
  obtain p2 where f: "wo_flush ops x p1 = Some p2" "J p2" using ret(2) [OF w(2)] by blast
  show thesis
  proof (cases b)
    case True
    then show thesis using w f ok
      by (intro that [of True q "if msg_more m then p1 else p2"]) (simp_all add: dist_write_def logged_def)
  next
    case False
    define n where "n = dist_active q - 1"
    define e where "e = dist_eligible q - 1"
    have n: "i \<le> n" "n < length ?xs" "n \<le> e" "e < length ?xs" "dist_active q = Suc n" "dist_eligible q = Suc e"
      using i le by (simp_all add: n_def e_def)
    have ix: "array_index (dist_pipes q) x = i" using array_indexD [OF a, of i] n x by simp
    obtain ps where ps: "array_swap i n (dist_pipes q) = Some ps" "array_ok ps" "arr_items ps = list_swap i n ?xs"
      using array_swap_ok [OF a, of i n] n by auto
    obtain ps2 where ps2: "array_swap n e ps = Some ps2" "array_ok ps2"
      "arr_items ps2 = list_swap n e (list_swap i n ?xs)"
      using array_swap_ok [OF ps(2), of n e] n ps(3) by auto
    have tk: "take n (arr_items ps2) = take n (list_swap i n ?xs)"
      unfolding ps2(3) using n by (simp add: list_swap_def [of n e])
    let ?q = "q\<lparr>dist_pipes := ps2, dist_active := n, dist_eligible := e\<rparr>"
    have act: "dist_active_pipes ?q = take n (list_swap i n ?xs)" using tk by (simp add: dist_active_pipes_def)
    have t: "take i (take n (list_swap i n ?xs)) = take i ?xs"
      using n by (simp add: list_swap_def min_def)
    have dr: "set (drop i (take n (list_swap i n ?xs))) = set (drop (Suc i) (take (Suc n) ?xs))"
    proof -
      have dl: "distinct (take n (list_swap i n ?xs))" "distinct (take (Suc n) ?xs)" using d n by simp_all
      have sd: "set (drop k ys) = set ys - set (take k ys)" if "distinct ys" for k and ys :: "addr list"
        using that set_take_disj_set_drop_if_distinct [OF that order_refl, of k]
        by (metis Diff_cancel Diff_triv Int_commute Un_Diff append_take_drop_id set_append sup_bot.left_neutral)
      have "take (Suc i) (take (Suc n) ?xs) = take i ?xs @ [x]" 
      proof -
        have "take (Suc i) (take (Suc n) ?xs) = take (Suc i) ?xs" using n(1) by simp
        also have "\<dots> = take i ?xs @ [x]" using n(1,2) x by (simp add: take_Suc_conv_app_nth)
        finally show ?thesis .
      qed
      then show ?thesis
        unfolding sd [OF dl(1)] sd [OF dl(2)] t set_take_swap_out(1) [OF n(1,2) d] using x by auto
    qed
    have el: "set (take e (arr_items ps2)) = set (take (Suc e) ?xs) - {x}"
    proof -
      let ?ys = "list_swap i n ?xs"
      have ys: "?ys ! n = x" "distinct ?ys" "e < length ?ys" using n x d by (simp_all add: nth_list_swap)
      have "set (take (Suc e) ?ys) = set (take (Suc e) ?xs)" using n by (simp add: take_list_swap)
      then show ?thesis using set_take_swap_out(1) [OF n(3) ys(3,2)] ys(1) ps2(3) by simp
    qed
    have "dist_write (logged ops) x m q (p, l) = Some (False, ?q, p1, l @ offer_io m (x, False))"
      using w False ix ps(1) ps2(1) by (simp add: dist_write_def logged_def n_def e_def)
    moreover have "dist_ok ?q" using ps2 n by (simp add: dist_ok_def)
    moreover have "dist_all_pipes ?q = dist_all_pipes q" using n ps2(3) by (simp add: dist_all_pipes_def)
    moreover have "dist_active ?q = dist_active q - 1" by (simp add: n_def)
    moreover have "take i (dist_active_pipes ?q) = take i (dist_active_pipes q)"
      using t n unfolding act by (simp add: dist_active_pipes_def min_def)
    moreover have "set (drop i (dist_active_pipes ?q)) = set (drop (Suc i) (dist_active_pipes q))"
      using dr unfolding act by (simp add: dist_active_pipes_def n(5))
    moreover have "set (dist_eligible_pipes ?q) = set (dist_eligible_pipes q) - {x}"
      using el by (simp add: dist_eligible_pipes_def n(6))
    ultimately show thesis
      using that [of False ?q p1] w(2) False by (simp del: dist.update_convs dist.simps)
  qed
qed

lemma dist_active_at:
  "dist_ok q \<Longrightarrow> i < dist_active q \<Longrightarrow> array_at (dist_pipes q) i = Some (arr_items (dist_pipes q) ! i)"
  by (simp add: dist_ok_def array_at_def)

text \<open>The loops: each active pipe is offered the part once, those that take it stay active, and the
  reference count goes down with each refusal.\<close>

lemma dist_loops_spec:
  assumes "dist_ok q" and "i \<le> dist_active q" and "n = dist_active q - i"
    and ret: "writers_return A J ops" and "dist_all_pipes q \<subseteq> A" and "J p"
  shows "\<exists>bs q' p'. dist_loop (logged ops) n i m q (p, l) = Some (q', p', l @ offers_io m bs) \<and>
    (\<forall>h a c. contents h a = Some c \<longrightarrow> dist_ref_loop (logged ops) n i a m h q (p, l) =
       Some (h\<lparr>contents := (contents h)(a \<mapsto> c\<lparr>mc_refcnt := mc_refcnt c - of_nat (refusals bs)\<rparr>)\<rparr>,
         q', p', l @ offers_io m bs)) \<and>
    J p' \<and> dist_ok q' \<and> distinct (map fst bs) \<and> set (map fst bs) = set (drop i (dist_active_pipes q)) \<and>
    set (dist_active_pipes q') = set (take i (dist_active_pipes q)) \<union> takers bs \<and>
    set (dist_eligible_pipes q') = set (dist_eligible_pipes q) - (set (map fst bs) - takers bs) \<and>
    dist_all_pipes q' = dist_all_pipes q \<and> dist_more q' = dist_more q"
  using assms(1-3,5,6)
proof (induction n arbitrary: i q p l)
  case 0
  then have "h\<lparr>contents := (contents h)(a \<mapsto> c\<lparr>mc_refcnt := mc_refcnt c\<rparr>)\<rparr> = h"
    if "contents h a = Some c" for h :: msg_heap and a c
    using that by (simp add: fun_upd_idem)
  with 0 show ?case
    by (intro exI [of _ "[]"] exI [of _ q] exI [of _ p]) (simp add: dist_active_pipes_def del: fun_upd_apply)
next
  case (Suc n)
  let ?x = "arr_items (dist_pipes q) ! i"
  have i: "i < dist_active q" using Suc.prems(3) by simp
  have len: "length (dist_active_pipes q) = dist_active q" and nth: "dist_active_pipes q ! i = ?x"
    and d: "distinct (dist_active_pipes q)"
    using Suc.prems(1) i by (auto simp: dist_ok_def dist_active_pipes_def array_ok_def)
  have dr: "drop i (dist_active_pipes q) = ?x # drop (Suc i) (dist_active_pipes q)"
    using Cons_nth_drop_Suc [of i "dist_active_pipes q"] i len nth by simp
  have nx: "?x \<notin> set (drop (Suc i) (dist_active_pipes q))" "?x \<notin> set (take i (dist_active_pipes q))"
    using d dr append_take_drop_id [of i "dist_active_pipes q"] distinct_append [of "take i (dist_active_pipes q)"]
    by (metis distinct.simps(2) disjoint_iff list.set_intros(1))+
  obtain b q1 p1 where w: "dist_write (logged ops) ?x m q (p, l) = Some (b, q1, p1, l @ offer_io m (?x, b))"
    "J p1" "dist_ok q1" "dist_active q1 = dist_active q - (if b then 0 else 1)"
    "take i (dist_active_pipes q1) = take i (dist_active_pipes q)" "b \<Longrightarrow> q1 = q"
    "\<not> b \<Longrightarrow> set (drop i (dist_active_pipes q1)) = set (drop (Suc i) (dist_active_pipes q))"
    "set (dist_eligible_pipes q1) = set (dist_eligible_pipes q) - (if b then {} else {?x})"
    "dist_all_pipes q1 = dist_all_pipes q" "dist_more q1 = dist_more q"
    using dist_write_spec [OF Suc.prems(1) i refl ret Suc.prems(4,5)] by metis
  let ?i = "if b then Suc i else i" and ?l = "l @ offer_io m (?x, b)"
  have "?i \<le> dist_active q1" "n = dist_active q1 - ?i" using w(4) i Suc.prems(3) by auto
  then obtain bs q' p' where IH: "dist_loop (logged ops) n ?i m q1 (p1, ?l) = Some (q', p', ?l @ offers_io m bs)"
    and ref: "\<And>h a c. contents h a = Some c \<Longrightarrow> dist_ref_loop (logged ops) n ?i a m h q1 (p1, ?l) =
       Some (h\<lparr>contents := (contents h)(a \<mapsto> c\<lparr>mc_refcnt := mc_refcnt c - of_nat (refusals bs)\<rparr>)\<rparr>,
         q', p', ?l @ offers_io m bs)"
    and s: "J p'" "dist_ok q'" "distinct (map fst bs)" "set (map fst bs) = set (drop ?i (dist_active_pipes q1))"
      "set (dist_active_pipes q') = set (take ?i (dist_active_pipes q1)) \<union> takers bs"
      "set (dist_eligible_pipes q') = set (dist_eligible_pipes q1) - (set (map fst bs) - takers bs)"
      "dist_all_pipes q' = dist_all_pipes q1" "dist_more q' = dist_more q1"
    using Suc.IH [OF w(3) _ _ _ w(2), of ?i ?l] Suc.prems(4) w(9) by metis
  have rest: "set (drop ?i (dist_active_pipes q1)) = set (drop (Suc i) (dist_active_pipes q))"
    using w(6,7) by (cases b) auto
  note at = dist_active_at [OF Suc.prems(1) i]
  let ?bs = "(?x, b) # bs"
  have "dist_loop (logged ops) (Suc n) i m q (p, l) = Some (q', p', l @ offers_io m ?bs)"
    using at w(1) IH by (simp split: if_splits)
  moreover have "dist_ref_loop (logged ops) (Suc n) i a m h q (p, l) =
      Some (h\<lparr>contents := (contents h)(a \<mapsto> c\<lparr>mc_refcnt := mc_refcnt c - of_nat (refusals ?bs)\<rparr>)\<rparr>,
        q', p', l @ offers_io m ?bs)" if c: "contents h a = Some c" for h a c
  proof (cases b)
    case True
    then show ?thesis using at w(1) ref [OF c] by simp
  next
    case False
    let ?c = "c\<lparr>mc_refcnt := mc_refcnt c - 1\<rparr>"
    let ?h = "h\<lparr>contents := (contents h)(a \<mapsto> ?c)\<rparr>"
    have "contents ?h a = Some ?c" by simp
    from ref [OF this] show ?thesis
      using at w(1) False c by (simp add: counter_sub_def algebra_simps)
  qed
  moreover have "distinct (map fst ?bs)" using s(3,4) nx(1) rest by auto
  moreover have "set (map fst ?bs) = set (drop i (dist_active_pipes q))" using s(4) rest dr by auto
  moreover have "set (dist_active_pipes q') = set (take i (dist_active_pipes q)) \<union> takers ?bs"
  proof (cases b)
    case True
    then have "take (Suc i) (dist_active_pipes q1) = take i (dist_active_pipes q) @ [?x]"
      using w(6) i len nth by (simp add: take_Suc_conv_app_nth)
    with True s(5) show ?thesis by auto
  next
    case False
    with s(5) w(5) show ?thesis by simp
  qed
  moreover have "set (dist_eligible_pipes q') = set (dist_eligible_pipes q) - (set (map fst ?bs) - takers ?bs)"
  proof -
    have "?x \<notin> takers bs" using s(4) rest nx(1) by (force simp: takers_def)
    with s(6) w(8) s(4) rest nx(1) show ?thesis by (cases b) auto
  qed
  moreover have "dist_all_pipes q' = dist_all_pipes q" "dist_more q' = dist_more q" using s(7,8) w(9,10) by simp_all
  ultimately show ?case using s(1,2) by blast
qed

text \<open>What is written to the pipes: a content that several pipes get is marked as shared.\<close>

definition as_shared :: "zmq_msg \<Rightarrow> zmq_msg" where
  "as_shared m = m\<lparr>flags := flags m OR ZMQ_MSG_SHARED\<rparr>"

definition handed :: "nat \<Rightarrow> zmq_msg \<Rightarrow> zmq_msg" where
  "handed n m = (if content m \<noteq> ZMQ_VSM \<and> 2 \<le> n then as_shared m else m)"

lemma as_shared_more [simp]: "msg_more (as_shared m) = msg_more m"
  by (simp add: msg_more_def as_shared_def zmq_flags word_ao_dist)

lemma as_shared_idem [simp]: "as_shared (as_shared m) = as_shared m"
  by (simp add: as_shared_def or.assoc)

lemma as_shared_shared: "shared m \<Longrightarrow> as_shared m = m"
proof -
  assume "shared m"
  then have "bit (flags m) 7"
    using and_exp_eq_0_iff_not_bit [of "flags m" 7] by (simp add: shared_def zmq_flags)
  moreover have "(128 :: byte) = 2 ^ 7" by simp
  ultimately have "flags m OR 128 = flags m" by (intro bit_word_eqI) (auto simp only: bit_or_iff bit_exp_iff)
  then show ?thesis by (simp add: as_shared_def zmq_flags)
qed

lemma handed_simps [simp]: "msg_more (handed n m) = msg_more m" "as_shared (handed n m) = as_shared m"
  by (simp_all add: handed_def)

text \<open>The references to the content of a message.\<close>

definition references :: "zmq_msg \<Rightarrow> msg_content \<Rightarrow> u32" where
  "references m c = (if shared m then mc_refcnt c else 1)"

text \<open>The heap after \<open>taken\<close> of \<open>n\<close> pipes have taken a message with the content at \<open>a\<close>: the caller's
  reference is gone, and those that took it hold one each.\<close>

definition heap_sent :: "nat \<Rightarrow> nat \<Rightarrow> zmq_msg \<Rightarrow> addr \<Rightarrow> msg_content \<Rightarrow> msg_heap \<Rightarrow> msg_heap \<Rightarrow> bool" where
  "heap_sent n taken m a c h h' \<longleftrightarrow>
     (if 2 \<le> n then h' = h\<lparr>contents := (contents h)(a \<mapsto> c\<lparr>mc_refcnt := references m c - 1 + of_nat taken\<rparr>)\<rparr>
      else if taken = 1 then h' = h
      else \<exists>m'. zmq_msg_close h m = Some (OK, h', m'))"

definition sendable :: "msg_heap \<Rightarrow> zmq_msg \<Rightarrow> bool" where
  "sendable h m \<longleftrightarrow> valid_tag m \<and>
     (case content m of ZMQ_VSM \<Rightarrow> True | ZMQ_DELIMITER \<Rightarrow> False | Content a \<Rightarrow> contents h a \<noteq> None)"

lemma close_sendable: "sendable h m \<Longrightarrow> \<exists>h' m'. zmq_msg_close h m = Some (OK, h', m')"
  by (auto simp: sendable_def zmq_msg_close_def Let_def split: content.splits prod.splits)

lemma distribute_spec:
  assumes ok: "dist_ok q" and ret: "writers_return A J ops" and A: "dist_all_pipes q \<subseteq> A" and J: "J p"
    and m: "sendable h m"
  shows "\<exists>bs h' m' q' p'. dist_distribute (logged ops) h m q (p, l) =
      Some (h', m', q', p', l @ offers_io (handed (dist_active q) m) bs) \<and>
    content m' = ZMQ_VSM \<and> J p' \<and> dist_ok q' \<and> distinct (map fst bs) \<and>
    set (map fst bs) = set (dist_active_pipes q) \<and> set (dist_active_pipes q') = takers bs \<and>
    set (dist_eligible_pipes q') = set (dist_eligible_pipes q) - (set (map fst bs) - takers bs) \<and>
    dist_all_pipes q' = dist_all_pipes q \<and> dist_more q' = dist_more q \<and>
    (\<forall>a c. content m = Content a \<longrightarrow> contents h a = Some c \<longrightarrow>
       heap_sent (dist_active q) (card (takers bs)) m a c h h')"
proof -
  let ?n = "dist_active q"
  have len: "length (dist_active_pipes q) = ?n" using ok by (simp add: dist_ok_def dist_active_pipes_def)
  note loops = dist_loops_spec [OF ok le0 _ ret A J]
  show ?thesis
  proof (cases "?n = 0")
    case True
    then obtain h' m' where "zmq_msg_close h m = Some (OK, h', m')" using close_sendable [OF m] by blast
    moreover have "dist_active_pipes q = []" using True by (simp add: dist_active_pipes_def)
    ultimately show ?thesis using True ok J
      by (intro exI [of _ "[]"]) (auto simp: dist_distribute_def zmq_msg_init_def heap_sent_def)
  next
    case pos: False
    show ?thesis
    proof (cases "content m")
      case ZMQ_VSM
      then have hd: "handed ?n m = m" by (simp add: handed_def)
      obtain bs q' p' where "dist_loop (logged ops) ?n 0 m q (p, l) = Some (q', p', l @ offers_io m bs)"
        and s: "J p'" "dist_ok q'" "distinct (map fst bs)" "set (map fst bs) = set (dist_active_pipes q)"
          "set (dist_active_pipes q') = takers bs"
          "set (dist_eligible_pipes q') = set (dist_eligible_pipes q) - (set (map fst bs) - takers bs)"
          "dist_all_pipes q' = dist_all_pipes q" "dist_more q' = dist_more q"
        using loops [of ?n m l] by auto
      then have "dist_distribute (logged ops) h m q (p, l) =
          Some (h, zmq_msg_init m, q', p', l @ offers_io (handed ?n m) bs)"
        using pos ZMQ_VSM unfolding hd by (simp add: dist_distribute_def)
      then show ?thesis using s ZMQ_VSM
        by (intro exI [of _ bs] exI conjI) (assumption | auto simp: zmq_msg_init_def)+
    next
      case ZMQ_DELIMITER
      with m show ?thesis by (simp add: sendable_def)
    next
      case (Content a)
      then obtain c where c: "contents h a = Some c" using m by (auto simp: sendable_def)
      show ?thesis
      proof (cases "?n = 1")
        case True
        then have i: "0 < ?n" by simp
        let ?x = "arr_items (dist_pipes q) ! 0"
        have act: "dist_active_pipes q = [?x]"
          using True len by (cases "arr_items (dist_pipes q)") (auto simp: dist_active_pipes_def)
        obtain b q' p' where w: "dist_write (logged ops) ?x m q (p, l) = Some (b, q', p', l @ offer_io m (?x, b))"
          "J p'" "dist_ok q'" "dist_active q' = ?n - (if b then 0 else 1)" "b \<Longrightarrow> q' = q"
          "set (dist_eligible_pipes q') = set (dist_eligible_pipes q) - (if b then {} else {?x})"
          "dist_all_pipes q' = dist_all_pipes q" "dist_more q' = dist_more q"
          using dist_write_spec [OF ok i refl ret A J, of m l] by metis
        have hd: "handed ?n m = m" using True by (simp add: handed_def)
        obtain h2 m2 where cl: "zmq_msg_close h m = Some (OK, h2, m2)" using close_sendable [OF m] by blast
        have "dist_distribute (logged ops) h m q (p, l) =
            Some (if b then h else h2, zmq_msg_init (if b then m else m2), q', p', l @ offers_io (handed ?n m) [(?x, b)])"
          using True Content w(1) cl dist_active_at [OF ok i] unfolding hd
          by (simp add: dist_distribute_def)
        moreover have "set (dist_active_pipes q') = takers [(?x, b)]"
          using w(4,5) True act by (cases b) (auto simp: dist_active_pipes_def)
        moreover have "heap_sent ?n (card (takers [(?x, b)])) m a c h (if b then h else h2)"
          using True cl by (simp add: heap_sent_def)
        ultimately show ?thesis using w Content c act
          by (intro exI [of _ "[(?x, b)]"] exI conjI) (assumption | auto simp: zmq_msg_init_def)+
      next
        case False
        with pos have n: "2 \<le> ?n" by simp
        define c0 where "c0 = (if shared m then mc_refcnt c + of_nat (?n - 1) else of_nat ?n)"
        let ?h = "h\<lparr>contents := (contents h)(a \<mapsto> c\<lparr>mc_refcnt := c0\<rparr>)\<rparr>"
        have hd: "handed ?n m = as_shared m" using n Content by (simp add: handed_def)
        obtain bs q' p' where
          r: "\<And>h a c. contents h a = Some c \<Longrightarrow> dist_ref_loop (logged ops) ?n 0 a (as_shared m) h q (p, l) =
            Some (h\<lparr>contents := (contents h)(a \<mapsto> c\<lparr>mc_refcnt := mc_refcnt c - of_nat (refusals bs)\<rparr>)\<rparr>,
              q', p', l @ offers_io (as_shared m) bs)"
          and s: "J p'" "dist_ok q'" "distinct (map fst bs)" "set (map fst bs) = set (dist_active_pipes q)"
            "set (dist_active_pipes q') = takers bs"
            "set (dist_eligible_pipes q') = set (dist_eligible_pipes q) - (set (map fst bs) - takers bs)"
            "dist_all_pipes q' = dist_all_pipes q" "dist_more q' = dist_more q"
          using loops [of ?n "as_shared m" l] by auto
        have "length bs = ?n"
        proof -
          have "distinct (dist_active_pipes q)" using ok by (simp add: dist_ok_def array_ok_def dist_active_pipes_def)
          then show ?thesis using s(3,4) len by (metis distinct_card length_map)
        qed
        then have tk: "card (takers bs) + refusals bs = ?n" using taken_count [OF s(3)] by simp
        then have "of_nat ?n = (of_nat (card (takers bs)) + of_nat (refusals bs) :: u32)" by (metis of_nat_add)
        moreover have "of_nat (?n - 1) = (of_nat ?n - 1 :: u32)" using n by (simp add: of_nat_diff)
        ultimately have cnt: "c0 - of_nat (refusals bs) = references m c - 1 + of_nat (card (takers bs))"
          by (simp add: c0_def references_def)
        have "dist_distribute (logged ops) h m q (p, l) =
          Some (h\<lparr>contents := (contents h)(a \<mapsto> c\<lparr>mc_refcnt := c0 - of_nat (refusals bs)\<rparr>)\<rparr>,
            zmq_msg_init (as_shared m), q', p', l @ offers_io (handed ?n m) bs)"
          using r [of ?h a "c\<lparr>mc_refcnt := c0\<rparr>"] Content c n as_shared_shared [of m] unfolding hd c0_def
          by (cases "shared m") (simp_all add: dist_distribute_def counter_set_def counter_add_def as_shared_def Let_def)
        moreover have "heap_sent ?n (card (takers bs)) m a c h
            (h\<lparr>contents := (contents h)(a \<mapsto> c\<lparr>mc_refcnt := c0 - of_nat (refusals bs)\<rparr>)\<rparr>)"
          using n cnt by (simp add: heap_sent_def)
        ultimately show ?thesis using s Content c
          by (intro exI [of _ bs] exI conjI) (assumption | auto simp: zmq_msg_init_def)+
      qed
    qed
  qed
qed

lemma send_spec:
  assumes ok: "dist_ok q" and ret: "writers_return A J ops" and A: "dist_all_pipes q \<subseteq> A" and J: "J p"
    and m: "sendable h m"
  obtains bs h' m' q' p' where
    "dist_send (logged ops) h m q (p, l) = Some (OK, h', m', q', p', l @ offers_io (handed (dist_active q) m) bs)"
    and "content m' = ZMQ_VSM" and "J p'" and "dist_ok q'" and "distinct (map fst bs)"
    and "set (map fst bs) = set (dist_active_pipes q)" and "dist_more q' = msg_more m"
    and "dist_all_pipes q' = dist_all_pipes q"
    and "set (dist_active_pipes q') =
      (if msg_more m then takers bs else set (dist_eligible_pipes q) - (set (map fst bs) - takers bs))"
    and "\<And>a c. content m = Content a \<Longrightarrow> contents h a = Some c \<Longrightarrow>
      heap_sent (dist_active q) (card (takers bs)) m a c h h'"
proof -
  obtain bs h' m' q' p' where d: "dist_distribute (logged ops) h m q (p, l) =
      Some (h', m', q', p', l @ offers_io (handed (dist_active q) m) bs)"
    and s: "content m' = ZMQ_VSM" "J p'" "dist_ok q'" "distinct (map fst bs)"
      "set (map fst bs) = set (dist_active_pipes q)" "set (dist_active_pipes q') = takers bs"
      "set (dist_eligible_pipes q') = set (dist_eligible_pipes q) - (set (map fst bs) - takers bs)"
      "dist_all_pipes q' = dist_all_pipes q"
      "\<And>a c. content m = Content a \<Longrightarrow> contents h a = Some c \<Longrightarrow>
        heap_sent (dist_active q) (card (takers bs)) m a c h h'"
    using distribute_spec [OF assms, of l] by metis
  let ?q = "(if \<not> msg_more m then q'\<lparr>dist_active := dist_eligible q'\<rparr> else q')\<lparr>dist_more := msg_more m\<rparr>"
  have "dist_send (logged ops) h m q (p, l) =
      Some (OK, h', m', ?q, p', l @ offers_io (handed (dist_active q) m) bs)"
    using d by (simp add: dist_send_def)
  moreover have "dist_ok ?q" using s(3) by (auto simp: dist_ok_def)
  moreover have "set (dist_active_pipes ?q) =
      (if msg_more m then takers bs else set (dist_eligible_pipes q) - (set (map fst bs) - takers bs))"
    using s(6,7) by (simp add: dist_active_pipes_def dist_eligible_pipes_def)
  moreover have "dist_all_pipes ?q = dist_all_pipes q" using s(8) by (simp add: dist_all_pipes_def)
  moreover have "dist_more ?q = msg_more m" by simp
  ultimately show thesis using that [of h' m' ?q p' bs] s(1,2,4,5,9) by blast
qed

section \<open>Properties\<close>

text \<open>C13 (functional).  Distribution of one part whose content is on the heap, shared or not, to any
  number of pipes: the call returns, the caller's structure is empty, each active pipe is offered
  the part once, and the pipes that take the last part of a message are flushed.  The reference
  count of the content is then the number of the other references there were and of the pipes that
  have taken the part (with no pipe that gets it, or one that refuses it, the content is closed
  instead; several pipes that all refuse leave a content that nobody refers to with the count 0).  The
  pipes that refused are not active any more; those active next are the takers, or, after the last
  part of a message, all the eligible ones that have not refused.\<close>

theorem dist_refcount:
  assumes "dist_ok q" and "writers_return A J ops" and "dist_all_pipes q \<subseteq> A" and "J p"
    and "valid_tag m" and "content m = Content a" and "contents h a = Some c"
  shows "\<exists>bs h' m' q' p'. dist_send (logged ops) h m q (p, l) =
      Some (OK, h', m', q', p', l @ offers_io (handed (dist_active q) m) bs) \<and> content m' = ZMQ_VSM \<and>
    distinct (map fst bs) \<and> set (map fst bs) = set (dist_active_pipes q) \<and>
    heap_sent (dist_active q) (card (takers bs)) m a c h h' \<and>
    set (dist_active_pipes q') =
      (if msg_more m then takers bs else set (dist_eligible_pipes q) - (set (map fst bs) - takers bs))"
proof -
  have "sendable h m" using assms(5-7) by (simp add: sendable_def)
  then show ?thesis by (rule send_spec [OF assms(1-4)]) (use assms(6,7) in blast)
qed

section \<open>The parts of a message and the pipes that join\<close>

text \<open>What happens to the sockets' distribution while a message is being sent: its parts, new pipes, and
  pipes that have room again.\<close>

datatype dist_act = Da_send zmq_msg | Da_attach addr | Da_activated addr

text \<open>What its owner may do: send a message that refers to a content there is, attach a pipe that it
  does not have yet, activate one that has refused a message before.\<close>

fun dist_allowed :: "addr set \<Rightarrow> dist_act \<Rightarrow> msg_heap \<times> dist \<times> 'p \<Rightarrow> bool" where
  "dist_allowed A (Da_send m) (h, q, p) = sendable h m"
| "dist_allowed A (Da_attach a) (h, q, p) = (a \<in> A \<and> a \<notin> dist_all_pipes q)"
| "dist_allowed A (Da_activated a) (h, q, p) = (a \<in> dist_all_pipes q \<and> a \<notin> set (dist_eligible_pipes q))"

fun dist_do :: "('p, zmq_msg) writer_ops \<Rightarrow> dist_act \<Rightarrow> msg_heap \<times> dist \<times> 'p \<Rightarrow> (msg_heap \<times> dist \<times> 'p) option" where
  "dist_do ops (Da_send m) (h, q, p) = do { (rc, h, m, q, p) \<leftarrow> dist_send ops h m q p; Some (h, q, p) }"
| "dist_do ops (Da_attach a) (h, q, p) = do { (q, p) \<leftarrow> dist_attach ops a q p; Some (h, q, p) }"
| "dist_do ops (Da_activated a) (h, q, p) = do { q \<leftarrow> dist_activated a q; Some (h, q, p) }"

fun dist_runs :: "addr set \<Rightarrow> ('p, zmq_msg) writer_ops \<Rightarrow> dist_act list \<Rightarrow> msg_heap \<times> dist \<times> 'p \<Rightarrow> (msg_heap \<times> dist \<times> 'p) option" where
  "dist_runs A ops [] s = Some s"
| "dist_runs A ops (b # bs) s = do { zmq_assert (dist_allowed A b s); s \<leftarrow> dist_do ops b s; dist_runs A ops bs s }"

fun parts_sent :: "dist_act list \<Rightarrow> zmq_msg list" where
  "parts_sent [] = []"
| "parts_sent (Da_send m # bs) = m # parts_sent bs"
| "parts_sent (_ # bs) = parts_sent bs"

text \<open>The parts a pipe has been offered, with its answers.\<close>

fun offers :: "addr \<Rightarrow> zmq_msg writer_io list \<Rightarrow> (zmq_msg \<times> bool) list" where
  "offers a [] = []"
| "offers a (Wrote b m ok # l) = (if b = a then (as_shared m, ok) # offers a l else offers a l)"
| "offers a (Flushed b # l) = offers a l"

text \<open>All the parts, or those up to the first that it refuses.\<close>

definition got_all :: "zmq_msg list \<Rightarrow> (zmq_msg \<times> bool) list" where
  "got_all ms = map (\<lambda>m. (as_shared m, True)) ms"

definition up_to_refusal :: "zmq_msg list \<Rightarrow> (zmq_msg \<times> bool) list \<Rightarrow> bool" where
  "up_to_refusal ms os \<longleftrightarrow> os = got_all ms \<or>
     (\<exists>k < length ms. os = got_all (take k ms) @ [(as_shared (ms ! k), False)])"

lemma offers_append [simp]: "offers a (l @ l') = offers a l @ offers a l'"
  by (induction a l rule: offers.induct) auto

lemma parts_append [simp]: "parts_sent (bs @ bs') = parts_sent bs @ parts_sent bs'"
  by (induction bs rule: parts_sent.induct) auto

lemma runs_snoc: "dist_runs A ops (bs @ [b]) s =
   do { s \<leftarrow> dist_runs A ops bs s; zmq_assert (dist_allowed A b s); dist_do ops b s }"
proof (induction bs arbitrary: s)
  case (Cons c bs)
  then have "dist_runs A ops (bs @ [b]) =
      (\<lambda>s. do { s \<leftarrow> dist_runs A ops bs s; zmq_assert (dist_allowed A b s); dist_do ops b s })" by blast
  then show ?case by (simp add: zmq_assert_def)
next
  case Nil
  show ?case by (cases "dist_do ops b s") (simp_all add: zmq_assert_def)
qed

text \<open>One part, offered to the pipes \<open>bs\<close>.\<close>

lemma offers_none: "a \<notin> fst ` set bs \<Longrightarrow> offers a (offers_io m bs) = []"
  by (induction bs) auto

lemma offers_offers_io:
  "distinct (map fst bs) \<Longrightarrow> offers a (offers_io m bs) =
     (if a \<in> takers bs then [(as_shared m, True)] else if a \<in> fst ` set bs then [(as_shared m, False)] else [])"
proof (induction bs)
  case (Cons b bs)
  obtain x ok where b: "b = (x, ok)" by fastforce
  have t: "a \<in> fst ` set bs" if "a \<in> takers bs" using that by (force simp: takers_def)
  show ?case
  proof (cases "a = x")
    case True
    then have "a \<notin> fst ` set bs" using Cons.prems b by simp
    then show ?thesis using True b offers_none [of a bs m] t by auto
  next
    case False
    then show ?thesis using Cons b by auto
  qed
qed simp

lemma flushed_offers_io: "Flushed a \<in> set (offers_io m bs) \<longleftrightarrow> a \<in> takers bs \<and> \<not> msg_more m"
  by (induction bs) (auto split: if_splits)

lemma got_all_snoc [simp]: "got_all (ms @ [m]) = got_all ms @ [(as_shared m, True)]"
  by (simp add: got_all_def)

lemma up_to_refusal_snoc:
  "os = got_all ms \<Longrightarrow> up_to_refusal (ms @ [m]) (os @ [(as_shared m, ok)])"
  "up_to_refusal ms os \<Longrightarrow> os \<noteq> got_all ms \<Longrightarrow> up_to_refusal (ms @ [m]) os"
proof -
  show "up_to_refusal (ms @ [m]) (os @ [(as_shared m, ok)])" if "os = got_all ms"
    using that by (cases ok) (auto simp: up_to_refusal_def intro!: exI [of _ "length ms"])
  show "up_to_refusal (ms @ [m]) os" if "up_to_refusal ms os" "os \<noteq> got_all ms"
    using that by (auto simp: up_to_refusal_def nth_append intro!: exI)
qed

lemma not_got_all: "up_to_refusal ms os \<Longrightarrow> os \<noteq> got_all ms \<Longrightarrow> os \<noteq> got_all (ms @ [m])"
proof
  assume "up_to_refusal ms os" "os \<noteq> got_all ms" "os = got_all (ms @ [m])"
  then obtain k where "got_all (take k ms) @ [(as_shared (ms ! k), False)] = got_all ms @ [(as_shared m, True)]"
    by (auto simp: up_to_refusal_def)
  then show False by simp
qed

text \<open>The operations between the parts keep the tables, and the active pipes while a message is being sent.\<close>

lemma attach_keeps:
  assumes ok: "dist_ok q" and ret: "writers_return A J ops" and a: "a \<in> A" "a \<notin> dist_all_pipes q" and J: "J p"
  obtains q' p' where "dist_attach (logged ops) a q (p, l) = Some (q', p', l)" and "J p'" and "dist_ok q'"
    and "dist_all_pipes q' = insert a (dist_all_pipes q)" and "dist_more q' = dist_more q"
    and "dist_more q \<Longrightarrow> dist_active_pipes q' = dist_active_pipes q"
proof -
  let ?xs = "arr_items (dist_pipes q)"
  obtain p1 where p1: "wo_set_event_sink ops a p = Some p1" "J p1" using writers_returnD(3) [OF ret a(1) J] by blast
  obtain p2 where p2: "wo_terminate ops a p1 = Some p2" "J p2" using writers_returnD(4) [OF ret a(1) p1(2)] by blast
  have arr: "array_ok (dist_pipes q)" and le: "dist_active q \<le> dist_eligible q" "dist_eligible q \<le> length ?xs"
    using ok by (simp_all add: dist_ok_def)
  have push: "array_ok (array_push_back a (dist_pipes q))" "arr_items (array_push_back a (dist_pipes q)) = ?xs @ [a]"
    using array_push_back_ok [OF arr, of a] a(2) by (simp_all add: dist_all_pipes_def)
  define i where "i = (if dist_more q then dist_eligible q else dist_active q)"
  have i: "i \<le> length ?xs" using le by (simp add: i_def)
  obtain ps where ps: "array_swap i (length ?xs) (array_push_back a (dist_pipes q)) = Some ps" "array_ok ps"
    "arr_items ps = list_swap i (length ?xs) (?xs @ [a])"
    using array_swap_ok [OF push(1), of i "length ?xs"] push(2) i by auto
  define q1 where "q1 = q\<lparr>dist_pipes := ps, dist_active := (if dist_more q then dist_active q else dist_active q + 1),
    dist_eligible := dist_eligible q + 1\<rparr>"
  let ?q = "if dist_terminating q then dist_call (Register_term_acks 1) q1 else q1"
  have "dist_attach (logged ops) a q (p, l) = Some (?q, if dist_terminating q then p2 else p1, l)"
    using p1(1) p2(1) ps(1) push(2) unfolding q1_def i_def
    by (cases "dist_more q") (simp_all add: dist_attach_def logged_def array_size_def dist_call_def Let_def)
  moreover have "dist_ok q1" using ps le by (simp add: dist_ok_def q1_def)
  then have "dist_ok ?q" by (simp add: dist_ok_def dist_call_def)
  moreover have "dist_all_pipes ?q = insert a (dist_all_pipes q)"
    using ps(3) i by (simp add: dist_all_pipes_def q1_def dist_call_def)
  moreover have "dist_active_pipes ?q = dist_active_pipes q" if "dist_more q"
    using ps(3) le that i unfolding i_def
    by (simp add: dist_active_pipes_def q1_def dist_call_def list_swap_def)
  moreover have "dist_more ?q = dist_more q" by (simp add: q1_def dist_call_def)
  ultimately show thesis using that p1(2) p2(2) by (metis (full_types))
qed

lemma activated_keeps:
  assumes ok: "dist_ok q" and a: "a \<in> dist_all_pipes q" "a \<notin> set (dist_eligible_pipes q)"
  obtains q' where "dist_activated a q = Some q'" and "dist_ok q'"
    and "dist_all_pipes q' = dist_all_pipes q" and "dist_more q' = dist_more q"
    and "dist_more q \<Longrightarrow> dist_active_pipes q' = dist_active_pipes q"
proof -
  let ?xs = "arr_items (dist_pipes q)"
  have arr: "array_ok (dist_pipes q)" and le: "dist_active q \<le> dist_eligible q" "dist_eligible q \<le> length ?xs"
    using ok by (simp_all add: dist_ok_def)
  define i where "i = array_index (dist_pipes q) a"
  have i: "i < length ?xs" "?xs ! i = a"
    using array_index_less [OF arr, of a] a(1) by (simp_all add: i_def dist_all_pipes_def)
  have e: "dist_eligible q \<le> i"
  proof (rule ccontr)
    assume "\<not> dist_eligible q \<le> i"
    then have "a \<in> set (dist_eligible_pipes q)" using i by (auto simp: dist_eligible_pipes_def in_set_conv_nth intro!: exI [of _ i])
    with a(2) show False by simp
  qed
  obtain ps where ps: "array_swap i (dist_eligible q) (dist_pipes q) = Some ps" "array_ok ps"
    "arr_items ps = list_swap i (dist_eligible q) ?xs"
    using array_swap_ok [OF arr, of i "dist_eligible q"] i e by auto
  obtain ps2 where ps2: "array_swap (dist_eligible q) (dist_active q) ps = Some ps2" "array_ok ps2"
    "arr_items ps2 = list_swap (dist_eligible q) (dist_active q) (list_swap i (dist_eligible q) ?xs)"
    using array_swap_ok [OF ps(2), of "dist_eligible q" "dist_active q"] ps(3) i e le by auto
  show thesis
  proof (cases "dist_more q")
    case True
    have "set (arr_items ps) = set ?xs" unfolding ps(3) using i e by simp
    moreover have "take (dist_active q) (arr_items ps) = take (dist_active q) ?xs"
      unfolding ps(3) using le e by (simp add: list_swap_def)
    ultimately show thesis
      using True ps(1,2) ps(3) [THEN arg_cong [where f = length]] le e i
      by (intro that [of "q\<lparr>dist_pipes := ps, dist_eligible := dist_eligible q + 1\<rparr>"])
        (simp_all add: dist_activated_def i_def [symmetric] dist_ok_def dist_all_pipes_def dist_active_pipes_def)
  next
    case False
    then show thesis
      using ps ps2 le e i
      by (intro that [of "q\<lparr>dist_pipes := ps2, dist_eligible := dist_eligible q + 1, dist_active := dist_active q + 1\<rparr>"])
        (simp_all add: dist_activated_def i_def [symmetric] dist_ok_def dist_all_pipes_def)
  qed
qed

text \<open>What holds in the middle of a message.\<close>

definition sending_inv :: "addr set \<Rightarrow> ('p \<Rightarrow> bool) \<Rightarrow> addr set \<Rightarrow> zmq_msg list \<Rightarrow>
    msg_heap \<times> dist \<times> 'p \<times> zmq_msg writer_io list \<Rightarrow> bool" where
  "sending_inv A J act ms s \<longleftrightarrow> (case s of (h, q, p, l) \<Rightarrow>
     dist_ok q \<and> dist_all_pipes q \<subseteq> A \<and> J p \<and>
     (\<forall>a. if a \<in> act then up_to_refusal ms (offers a l) else offers a l = []) \<and>
     (\<forall>a. Flushed a \<in> set l \<longleftrightarrow> a \<in> act \<and> offers a l = got_all ms \<and> \<not> msg_more (last ms)) \<and>
     (msg_more (last ms) \<longrightarrow> dist_more q \<and> set (dist_active_pipes q) = {a \<in> act. offers a l = got_all ms}))"

lemma sending_other:
  assumes "sending_inv A J act ms (h, q, p, l)" and "dist_ok q'" and "dist_all_pipes q' \<subseteq> A" and "J p'"
    and "dist_more q' = dist_more q" and "dist_more q \<Longrightarrow> dist_active_pipes q' = dist_active_pipes q"
  shows "sending_inv A J act ms (h, q', p', l)"
  using assms by (auto simp: sending_inv_def)

lemma sending_first:
  assumes ok: "dist_ok q" and ret: "writers_return A J ops" and A: "dist_all_pipes q \<subseteq> A" and J: "J p"
    and m: "sendable h m"
  shows "\<exists>s. dist_do (logged ops) (Da_send m) (h, q, p, []) = Some s \<and>
    sending_inv A J (set (dist_active_pipes q)) [m] s"
proof (rule send_spec [OF assms, of "[]"])
  fix bs h' m' q' p'
  assume d: "dist_send (logged ops) h m q (p, []) = Some (OK, h', m', q', p', [] @ offers_io (handed (dist_active q) m) bs)"
    and s: "J p'" "dist_ok q'" "distinct (map fst bs)" "set (map fst bs) = set (dist_active_pipes q)"
    "dist_more q' = msg_more m" "dist_all_pipes q' = dist_all_pipes q"
    and act: "set (dist_active_pipes q') =
      (if msg_more m then takers bs else set (dist_eligible_pipes q) - (set (map fst bs) - takers bs))"
  let ?l = "offers_io (handed (dist_active q) m) bs"
  have tk: "takers bs \<subseteq> set (dist_active_pipes q)" using s(4) by (force simp: takers_def)
  have off: "offers a ?l = (if a \<in> takers bs then [(as_shared m, True)]
      else if a \<in> set (dist_active_pipes q) then [(as_shared m, False)] else [])" for a
    using offers_offers_io [OF s(3), of a "handed (dist_active q) m"] s(4) by simp
  have all: "offers a ?l = got_all [m] \<longleftrightarrow> a \<in> takers bs" for a by (simp add: off got_all_def)
  have "sending_inv A J (set (dist_active_pipes q)) [m] (h', q', p', ?l)"
    unfolding sending_inv_def all using s act A tk
    by (auto simp: off flushed_offers_io up_to_refusal_def got_all_def)
  with d show ?thesis by simp
qed

lemma sending_next:
  assumes inv: "sending_inv A J act ms (h, q, p, l)" and more: "msg_more (last ms)" and ret: "writers_return A J ops"
    and m: "sendable h m"
  shows "\<exists>s. dist_do (logged ops) (Da_send m) (h, q, p, l) = Some s \<and> sending_inv A J act (ms @ [m]) s"
proof -
  have ok: "dist_ok q" "dist_all_pipes q \<subseteq> A" "J p"
    and pre: "\<And>a. if a \<in> act then up_to_refusal ms (offers a l) else offers a l = []"
    and fl: "\<And>a. Flushed a \<notin> set l"
    and ac: "set (dist_active_pipes q) = {a \<in> act. offers a l = got_all ms}"
    using inv more by (auto simp: sending_inv_def)
  show ?thesis
  proof (rule send_spec [OF ok(1) ret ok(2,3) m, of l])
    fix bs h' m' q' p'
    let ?l = "offers_io (handed (dist_active q) m) bs"
    assume d: "dist_send (logged ops) h m q (p, l) = Some (OK, h', m', q', p', l @ ?l)"
      and s: "J p'" "dist_ok q'" "distinct (map fst bs)" "set (map fst bs) = set (dist_active_pipes q)"
      "dist_more q' = msg_more m" "dist_all_pipes q' = dist_all_pipes q"
      and act: "set (dist_active_pipes q') =
        (if msg_more m then takers bs else set (dist_eligible_pipes q) - (set (map fst bs) - takers bs))"
    have tk: "takers bs \<subseteq> set (dist_active_pipes q)" using s(4) by (force simp: takers_def)
    have off: "offers a (l @ ?l) = offers a l @ (if a \<in> takers bs then [(as_shared m, True)]
        else if a \<in> set (dist_active_pipes q) then [(as_shared m, False)] else [])" for a
      using offers_offers_io [OF s(3), of a "handed (dist_active q) m"] s(4) by simp
    have all: "a \<in> act \<and> offers a (l @ ?l) = got_all (ms @ [m]) \<longleftrightarrow> a \<in> takers bs" for a
      using off [of a] tk ac pre [of a] not_got_all [of ms "offers a l" m] by (auto split: if_splits)
    have "if a \<in> act then up_to_refusal (ms @ [m]) (offers a (l @ ?l)) else offers a (l @ ?l) = []" for a
    proof (cases "a \<in> set (dist_active_pipes q)")
      case True
      then show ?thesis using off [of a] ac up_to_refusal_snoc(1) [of "offers a l" ms m] by auto
    next
      case False
      then have "offers a (l @ ?l) = offers a l" using off [of a] tk by auto
      then show ?thesis using False ac pre [of a] up_to_refusal_snoc(2) [of ms "offers a l" m] by (auto split: if_splits)
    qed
    moreover have "Flushed a \<in> set (l @ ?l) \<longleftrightarrow> a \<in> act \<and> offers a (l @ ?l) = got_all (ms @ [m]) \<and> \<not> msg_more (last (ms @ [m]))" for a
      using all [of a] fl [of a] by (auto simp: flushed_offers_io)
    moreover have "set (dist_active_pipes q') = {a \<in> act. offers a (l @ ?l) = got_all (ms @ [m])}" if "msg_more m"
      using act that all by auto
    ultimately have "sending_inv A J act (ms @ [m]) (h', q', p', l @ ?l)"
      using s(1,2,5,6) ok(2) by (simp add: sending_inv_def del: got_all_snoc offers_append set_append)
    with d show ?thesis by simp
  qed
qed

lemma sending_act:
  assumes inv: "sending_inv A J act ms s" and ret: "writers_return A J ops" and al: "dist_allowed A b s"
    and nx: "parts_sent [b] \<noteq> [] \<Longrightarrow> msg_more (last ms)"
  shows "\<exists>s'. dist_do (logged ops) b s = Some s' \<and> sending_inv A J act (ms @ parts_sent [b]) s'"
proof -
  obtain h q p l where s: "s = (h, q, p, l)" by (cases s) auto
  have ok: "dist_ok q" "dist_all_pipes q \<subseteq> A" "J p" using inv s by (simp_all add: sending_inv_def)
  show ?thesis
  proof (cases b)
    case (Da_send m)
    then show ?thesis using sending_next [OF inv [unfolded s] _ ret, of m] nx al s by simp
  next
    case (Da_attach a)
    then have a: "a \<in> A" "a \<notin> dist_all_pipes q" using al s by simp_all
    obtain q' p' where k: "dist_attach (logged ops) a q (p, l) = Some (q', p', l)" "J p'" "dist_ok q'"
      "dist_all_pipes q' = insert a (dist_all_pipes q)" "dist_more q' = dist_more q"
      "dist_more q \<Longrightarrow> dist_active_pipes q' = dist_active_pipes q"
      using attach_keeps [OF ok(1) ret a ok(3)] by metis
    have "sending_inv A J act ms (h, q', p', l)"
      by (rule sending_other [OF inv [unfolded s]]) (use k a ok in auto)
    then show ?thesis using Da_attach s k(1) by simp
  next
    case (Da_activated a)
    then have a: "a \<in> dist_all_pipes q" "a \<notin> set (dist_eligible_pipes q)" using al s by simp_all
    obtain q' where k: "dist_activated a q = Some q'" "dist_ok q'"
      "dist_all_pipes q' = dist_all_pipes q" "dist_more q' = dist_more q"
      "dist_more q \<Longrightarrow> dist_active_pipes q' = dist_active_pipes q"
      using activated_keeps [OF ok(1) a] by metis
    have "sending_inv A J act ms (h, q', p, l)"
      by (rule sending_other [OF inv [unfolded s]]) (use k ok in auto)
    then show ?thesis using Da_activated s k(1) by simp
  qed
qed

lemma sending_runs:
  assumes ret: "writers_return A J ops"
    and "dist_ok q" and "dist_all_pipes q \<subseteq> A" and "J p"
    and "dist_runs A (logged ops) (Da_send m # bs) (h, q, p, []) = Some s"
    and "\<forall>x \<in> set (butlast (m # parts_sent bs)). msg_more x"
  shows "sending_inv A J (set (dist_active_pipes q)) (m # parts_sent bs) s"
  using assms(5,6)
proof (induction bs arbitrary: s rule: rev_induct)
  case Nil
  then show ?case
    using sending_first [OF assms(2) ret assms(3,4), of h m] by (auto simp: Option.bind_eq_Some_conv)
next
  case (snoc b bs)
  have run: "dist_runs A (logged ops) ((Da_send m # bs) @ [b]) (h, q, p, []) = Some s" using snoc.prems(1) by simp
  obtain s1 where s1: "dist_runs A (logged ops) (Da_send m # bs) (h, q, p, []) = Some s1"
    "dist_allowed A b s1" "dist_do (logged ops) b s1 = Some s"
    using run unfolding runs_snoc by (auto simp: Option.bind_eq_Some_conv simp del: dist_runs.simps)
  have bl: "\<forall>x \<in> set (butlast (m # parts_sent bs)). msg_more x"
    using snoc.prems(2) by (auto simp: butlast_append split: if_splits dest: in_set_butlastD)
  have "msg_more (last (m # parts_sent bs))" if ne: "parts_sent [b] \<noteq> []"
  proof -
    have "set (m # parts_sent bs) \<subseteq> set (butlast (m # parts_sent (bs @ [b])))"
      using ne by (auto simp: butlast_append)
    moreover have "last (m # parts_sent bs) \<in> set (m # parts_sent bs)" by (rule last_in_set) simp
    ultimately show ?thesis using snoc.prems(2) by blast
  qed
  from sending_act [OF snoc.IH [OF s1(1) bl] ret s1(2) this] s1(3) show ?case by auto
qed

text \<open>C14 (invariant).  All parts of a message go to the same pipes, and none joins in the middle: when a
  message is sent part by part and, in any order between the parts, pipes are attached and passive
  pipes are activated (no pipe terminates: see the finding on \<open>dist_t::terminated\<close>), every pipe that is
  active at the first part is offered the parts from the first on, up to the first one that it
  refuses; no other pipe is offered any part; and those flushed are those that have taken all
  parts, when the last one has been sent.  Nothing that may be called next fails an assertion.\<close>

theorem dist_parts_same_pipes:
  assumes "writers_return A J ops" and "dist_ok q" and "dist_all_pipes q \<subseteq> A" and "J p"
    and "dist_runs A (logged ops) (Da_send m # bs) (h, q, p, []) = Some (h', q', p', l)"
    and "ms = parts_sent (Da_send m # bs)" and "\<forall>x \<in> set (butlast ms). msg_more x"
  shows "(\<forall>a. if a \<in> set (dist_active_pipes q) then up_to_refusal ms (offers a l) else offers a l = []) \<and>
    (\<forall>a. Flushed a \<in> set l \<longleftrightarrow>
       a \<in> set (dist_active_pipes q) \<and> offers a l = got_all ms \<and> \<not> msg_more (last ms)) \<and>
    (\<forall>b. dist_allowed A b (h', q', p', l) \<and> (parts_sent [b] = [] \<or> msg_more (last ms)) \<longrightarrow>
       dist_do (logged ops) b (h', q', p', l) \<noteq> None)"
proof -
  have ms: "ms = m # parts_sent bs" using assms(6) by simp
  have inv: "sending_inv A J (set (dist_active_pipes q)) ms (h', q', p', l)"
    using sending_runs [OF assms(1-5)] assms(7) unfolding ms by simp
  have "dist_do (logged ops) b (h', q', p', l) \<noteq> None"
    if "dist_allowed A b (h', q', p', l)" "parts_sent [b] = [] \<or> msg_more (last ms)" for b
    using sending_act [OF inv assms(1) that(1)] that(2) by auto
  with inv show ?thesis by (simp add: sending_inv_def)
qed

text \<open>A termination between the parts can let a pipe join: the place of the pipe that terminates is
  taken by the last pipe of the array, although that one is not active.\<close>

theorem dist_terminated_joins:
  assumes "dist_ok q" and "dist_more q" and "Suc i < dist_active q" and "x = arr_items (dist_pipes q) ! i"
    and "dist_eligible q < length (arr_items (dist_pipes q))"
  shows "\<exists>q'. dist_terminated x q = Some q' \<and> dist_more q' \<and>
    last (arr_items (dist_pipes q)) \<in> set (dist_active_pipes q') - set (dist_eligible_pipes q)"
proof -
  let ?xs = "arr_items (dist_pipes q)"
  have a: "array_ok (dist_pipes q)" and le: "dist_active q \<le> dist_eligible q" "dist_eligible q \<le> length ?xs"
    and d: "distinct ?xs" using assms(1) by (simp_all add: dist_ok_def array_ok_def)
  have i: "i < length ?xs" using assms(3) le by simp
  have ix: "array_index (dist_pipes q) x = i" using array_indexD [OF a i] assms(4) by simp
  have "x \<in> set ?xs" using assms(4) i by simp
  then obtain ps where ps: "array_erase x (dist_pipes q) = Some ps"
    "arr_items ps = butlast (?xs[i := last ?xs])"
    using array_erase_ok [OF a, of x] ix by metis
  let ?q = "q\<lparr>dist_active := dist_active q - 1, dist_eligible := dist_eligible q - 1, dist_pipes := ps\<rparr>"
  have "dist_terminated x q = Some (if dist_terminating q then dist_call Unregister_term_ack ?q else ?q)"
    using ix assms(3) le ps(1) by (simp add: dist_terminated_def Let_def)
  moreover have "last ?xs \<in> set (take (dist_active q - 1) (arr_items ps))"
  proof -
    have "take (dist_active q - 1) (arr_items ps) ! i = last ?xs"
      using assms(3,5) le i unfolding ps(2) by (simp add: nth_butlast)
    moreover have "i < length (take (dist_active q - 1) (arr_items ps))"
      using assms(3,5) le unfolding ps(2) by simp
    ultimately show ?thesis by (metis nth_mem)
  qed
  moreover have "last ?xs \<notin> set (take (dist_eligible q) ?xs)"
  proof
    assume "last ?xs \<in> set (take (dist_eligible q) ?xs)"
    then obtain j where "j < dist_eligible q" "j < length ?xs" "?xs ! j = last ?xs" by (auto simp: in_set_conv_nth)
    moreover have "last ?xs = ?xs ! (length ?xs - 1)" using i by (intro last_conv_nth) auto
    ultimately show False using nth_eq_iff_index_eq [OF d, of j "length ?xs - 1"] assms(5) by simp
  qed
  ultimately show ?thesis using assms(2)
    by (auto simp: dist_active_pipes_def dist_eligible_pipes_def dist_call_def)
qed

section \<open>Examples\<close>

definition dist_example :: dist where
  "dist_example = \<lparr>dist_pipes = \<lparr>arr_items = [10, 11, 12], arr_index = (\<lambda>a. int a - 10)\<rparr>, dist_active = 2,
     dist_eligible = 2, dist_more = False, dist_terminating = False, dist_calls = []\<rparr>"

lemma dist_example_ok: "dist_ok dist_example" "dist_all_pipes dist_example \<subseteq> UNIV"
  by (auto simp: dist_ok_def dist_example_def array_ok_def less_Suc_eq)

text \<open>Pipes that take a message when \<open>f\<close> says so.\<close>

definition test_writers :: "(addr \<Rightarrow> bool) \<Rightarrow> (unit, zmq_msg) writer_ops" where
  "test_writers f = \<lparr>wo_write = \<lambda>a m p. Some (f a, p), wo_check_write = \<lambda>a m p. Some (f a, p),
     wo_rollback = \<lambda>a p. Some p, wo_flush = \<lambda>a p. Some p, wo_terminate = \<lambda>a p. Some p,
     wo_set_event_sink = \<lambda>a p. Some p\<rparr>"

lemma test_writers_return: "writers_return UNIV (\<lambda>_. True) (test_writers f)"
  by (simp add: writers_return_def test_writers_def)

definition test_heap :: msg_heap where
  "test_heap = \<lparr>contents = [7 \<mapsto> \<lparr>mc_data = replicate 40 1, mc_size = 40, mc_ffn = None, mc_hint = 0,
     mc_refcnt = 3\<rparr>], ffn_calls = []\<rparr>"

definition test_zmq_msg :: "byte \<Rightarrow> zmq_msg" where
  "test_zmq_msg fl = \<lparr>content = Content 7, flags = fl, vsm_size = 0, vsm_data = []\<rparr>"

text \<open>A content with three references is sent to two pipes, one of which refuses it.\<close>

theorem dist_refcount_witness:
  "\<exists>h' m' q' p' l. dist_send (logged (test_writers (\<lambda>a. a \<noteq> 10))) test_heap (test_zmq_msg 254) dist_example ((), []) =
     Some (OK, h', m', q', p', l) \<and> map_option mc_refcnt (contents h' 7) = Some 3"
proof -
  let ?w = "logged (test_writers (\<lambda>a. a \<noteq> 10))"
  have m: "valid_tag (test_zmq_msg 254)" "content (test_zmq_msg 254) = Content 7" "shared (test_zmq_msg 254)"
    "contents test_heap 7 = Some \<lparr>mc_data = replicate 40 1, mc_size = 40, mc_ffn = None, mc_hint = 0, mc_refcnt = 3\<rparr>"
    by (simp_all add: test_zmq_msg_def shared_def valid_tag_def zmq_flags test_heap_def)
  have l: "map_option (\<lambda>(_, _, _, _, _, l). offers 10 l @ offers 11 l)
      (dist_send ?w test_heap (test_zmq_msg 254) dist_example ((), [])) =
    Some [(as_shared (test_zmq_msg 254), False), (as_shared (test_zmq_msg 254), True)]"
    by code_simp
  obtain bs h' m' q' p' where r: "dist_send ?w test_heap (test_zmq_msg 254) dist_example ((), []) =
      Some (OK, h', m', q', p', [] @ offers_io (handed (dist_active dist_example) (test_zmq_msg 254)) bs)"
    and d: "distinct (map fst bs)" "set (map fst bs) = set (dist_active_pipes dist_example)"
    and h: "heap_sent (dist_active dist_example) (card (takers bs)) (test_zmq_msg 254) 7
      \<lparr>mc_data = replicate 40 1, mc_size = 40, mc_ffn = None, mc_hint = 0, mc_refcnt = 3\<rparr> test_heap h'"
    using dist_refcount [OF dist_example_ok(1) test_writers_return dist_example_ok(2) TrueI m(1,2,4),
      of "\<lambda>a. a \<noteq> 10" "()" "[]"] by blast
  have "offers 10 (offers_io (handed (dist_active dist_example) (test_zmq_msg 254)) bs) @
      offers 11 (offers_io (handed (dist_active dist_example) (test_zmq_msg 254)) bs) =
      [(as_shared (test_zmq_msg 254), False), (as_shared (test_zmq_msg 254), True)]" using l r by simp
  moreover have "fst ` set bs = {10, 11}" using d(2) by (auto simp: dist_active_pipes_def dist_example_def)
  ultimately have "takers bs = {11}"
    using offers_offers_io [OF d(1)] by (auto simp: takers_def split: if_splits) (force+)
  then show ?thesis using r h m(3) by (auto simp: heap_sent_def references_def dist_example_def)
qed

text \<open>Pipe 13 is attached and pipe 12 activated between the two parts: neither gets the second part.\<close>

theorem dist_parts_same_pipes_witness:
  "\<exists>h' q' p' l. dist_runs UNIV (logged (test_writers (\<lambda>a. a \<noteq> 10)))
     [Da_send (zmq_msg_init (test_zmq_msg 0)\<lparr>flags := 127\<rparr>), Da_attach 13, Da_activated 12, Da_send (zmq_msg_init (test_zmq_msg 0))]
     (test_heap, dist_example, (), []) = Some (h', q', p', l) \<and>
   offers 13 l = [] \<and> offers 12 l = [] \<and> Flushed 12 \<notin> set l \<and> Flushed 13 \<notin> set l"
proof -
  let ?w = "logged (test_writers (\<lambda>a. a \<noteq> 10))"
  let ?m = "zmq_msg_init (test_zmq_msg 0)\<lparr>flags := 127\<rparr>" and ?n = "zmq_msg_init (test_zmq_msg 0)"
  let ?run = "dist_runs UNIV ?w [Da_send ?m, Da_attach 13, Da_activated 12, Da_send ?n] (test_heap, dist_example, (), [])"
  have "map_option (\<lambda>_. ()) ?run = Some ()" by code_simp
  then obtain h' q' p' l where r: "?run = Some (h', q', p', l)" by (cases ?run) auto
  have "\<forall>x \<in> set (butlast [?m, ?n]). msg_more x" by (simp add: msg_more_def zmq_flags)
  moreover have "set (dist_active_pipes dist_example) = {10, 11}" by (auto simp: dist_active_pipes_def dist_example_def)
  ultimately show ?thesis
    using dist_parts_same_pipes [OF test_writers_return dist_example_ok TrueI r refl] r by simp
qed

text \<open>Pipe 10 terminates between two parts: pipe 12, which has not got the first one, takes its place.\<close>

lemma dist_terminated_joins_witness:
  "\<exists>q'. dist_terminated 10 (dist_example\<lparr>dist_more := True\<rparr>) = Some q' \<and> 12 \<in> set (dist_active_pipes q')"
proof -
  let ?q = "dist_example\<lparr>dist_more := True\<rparr>"
  have "dist_ok ?q" "dist_more ?q" "Suc 0 < dist_active ?q" "10 = arr_items (dist_pipes ?q) ! 0"
    "dist_eligible ?q < length (arr_items (dist_pipes ?q))"
    using dist_example_ok(1) by (simp_all add: dist_ok_def dist_example_def)
  from dist_terminated_joins [OF this] show ?thesis by (auto simp: dist_example_def)
qed

end
