(* ===== verification/Trie.thy ===== *)
theory Trie
  imports Prelude "HOL-Library.Sublist"
begin

text \<open>
  \<open>trie.hpp\<close>, \<open>trie.cpp\<close>: the set of subscriptions, a trie with one node per byte.  A node has
  the number of subscriptions ending in it, and its children: none, one in \<open>next.node\<close>, or a
  table for the bytes from \<open>min\<close> on.  The union \<open>next\<close> is a datatype: reading the member
  that is not there, dereferencing a null child, or an index outside the table is
  \<^term>\<open>None\<close>.  The counters \<open>count\<close> and \<open>live_nodes\<close> (at most 256 in an
  \<open>unsigned short\<close>) are natural numbers, \<open>refcnt\<close> is a 32-bit word.
\<close>

section \<open>The operations\<close>

datatype trie = Trie (t_refcnt: u32) (t_min: byte) (t_count: nat) (t_live: nat) (t_next: trie_next)
and trie_next = Node "trie option" | Table "trie option list"

definition trie_new :: trie where
  "trie_new = Trie 0 0 0 0 (Node None)"

definition in_range :: "byte \<Rightarrow> byte \<Rightarrow> nat \<Rightarrow> bool" where
  "in_range c mn count \<longleftrightarrow> \<not> (unat c < unat mn \<or> unat c \<ge> unat mn + count)"

text \<open>The first half of \<open>add\<close>: extend the node so that it has a slot for the byte \<open>c\<close>.\<close>

definition trie_extend :: "byte \<Rightarrow> trie \<Rightarrow> trie option" where
  "trie_extend c t = (case t of Trie r mn count live next \<Rightarrow>
     if in_range c mn count then Some t
     else if count = 0 then Some (Trie r c 1 live (Node None))
     else if count = 1 then
       (case next of
          Node oldp \<Rightarrow>
            let oldc = mn;
                count = (if mn < c then unat c - unat mn else unat mn - unat c) + 1;
                table = replicate count None;
                mn = min mn c
            in Some (Trie r mn count live (Table (table[unat oldc - unat mn := oldp])))
        | Table _ \<Rightarrow> None)
     else
       (case next of
          Table table \<Rightarrow>
            if mn < c then
              let old_count = count; count = unat c - unat mn + 1
              in Some (Trie r mn count live (Table (table @ replicate (count - old_count) None)))
            else
              let old_count = count; count = (unat mn + old_count) - unat c
              in Some (Trie r c count live (Table (replicate (unat mn - unat c) None @ table)))
        | Node _ \<Rightarrow> None))"

fun trie_add :: "byte list \<Rightarrow> trie \<Rightarrow> trie option" where
  "trie_add [] (Trie r mn count live next) = Some (Trie (r + 1) mn count live next)"
| "trie_add (c # cs) t = do {
     t \<leftarrow> trie_extend c t;
     case t of Trie r mn count live next \<Rightarrow>
       if count = 1 then
         (case next of
            Node None \<Rightarrow> do {
              n \<leftarrow> trie_add cs trie_new;
              Some (Trie r mn count (live + 1) (Node (Some n)))
            }
          | Node (Some n) \<Rightarrow> do {
              n \<leftarrow> trie_add cs n;
              Some (Trie r mn count live (Node (Some n)))
            }
          | Table _ \<Rightarrow> None)
       else
         (case next of
            Table table \<Rightarrow>
              let i = unat c - unat mn in
              if \<not> i < length table then None
              else (case table ! i of
                  None \<Rightarrow> do {
                    n \<leftarrow> trie_add cs trie_new;
                    Some (Trie r mn count (live + 1) (Table (table[i := Some n])))
                  }
                | Some n \<Rightarrow> do {
                    n \<leftarrow> trie_add cs n;
                    Some (Trie r mn count live (Table (table[i := Some n])))
                  })
          | Node _ \<Rightarrow> None)
   }"

definition trie_is_redundant :: "trie \<Rightarrow> bool" where
  "trie_is_redundant t \<longleftrightarrow> t_refcnt t = 0 \<and> t_live t = 0"

text \<open>The child a byte in range leads to.\<close>

definition trie_slot :: "byte \<Rightarrow> trie \<Rightarrow> trie option option" where
  "trie_slot c t =
     (if t_count t = 1 then (case t_next t of Node n \<Rightarrow> Some n | Table _ \<Rightarrow> None)
      else (case t_next t of
          Table table \<Rightarrow>
            let i = unat c - unat (t_min t) in if i < length table then Some (table ! i) else None
        | Node _ \<Rightarrow> None))"

fun trie_rm :: "byte list \<Rightarrow> trie \<Rightarrow> (bool \<times> trie) option" where
  "trie_rm [] (Trie r mn count live next) =
     (if r = 0 then Some (False, Trie r mn count live next)
      else Some (True, Trie (r - 1) mn count live next))"
| "trie_rm (c # cs) t =
     (if t_count t = 0 \<or> \<not> in_range c (t_min t) (t_count t) then Some (False, t)
      else do {
        next_node \<leftarrow> trie_slot c t;
        case next_node of
          None \<Rightarrow> Some (False, t)
        | Some n \<Rightarrow> do {
            (ret, n) \<leftarrow> trie_rm cs n;
            case t of Trie r mn count live next \<Rightarrow>
              if trie_is_redundant n then
                if count = 1 then Some (ret, Trie r mn 0 (live - 1) (Node None))
                else (case next of
                    Table table \<Rightarrow> Some (ret, Trie r mn count (live - 1) (Table (table[unat c - unat mn := None])))
                  | Node _ \<Rightarrow> None)
              else
                (case next of
                   Table table \<Rightarrow> Some (ret, Trie r mn count live (Table (table[unat c - unat mn := Some n])))
                 | Node _ \<Rightarrow> Some (ret, Trie r mn count live (Node (Some n))))
          }
      })"

fun trie_check :: "byte list \<Rightarrow> trie \<Rightarrow> bool option" where
  "trie_check data t =
     (if t_refcnt t \<noteq> 0 then Some True
      else case data of
        [] \<Rightarrow> Some False
      | c # data \<Rightarrow>
          if \<not> in_range c (t_min t) (t_count t) then Some False
          else do {
            slot \<leftarrow> trie_slot c t;
            case slot of
              None \<Rightarrow> if t_count t = 1 then None else Some False
            | Some n \<Rightarrow> trie_check data n
          })"

declare trie_check.simps [simp del]

section \<open>Well-formed tries and their contents\<close>

text \<open>The child for a byte, and the number of times a prefix has been added.\<close>

definition child :: "trie \<Rightarrow> byte \<Rightarrow> trie option" where
  "child t c =
     (if in_range c (t_min t) (t_count t) then
        (case t_next t of Node n \<Rightarrow> n | Table table \<Rightarrow> table ! (unat c - unat (t_min t)))
      else None)"

fun refs :: "trie \<Rightarrow> byte list \<Rightarrow> u32" where
  "refs t [] = t_refcnt t"
| "refs t (c # cs) = (case child t c of None \<Rightarrow> 0 | Some n \<Rightarrow> refs n cs)"

text \<open>The shape of the node itself.\<close>

definition shape_ok :: "trie \<Rightarrow> bool" where
  "shape_ok t \<longleftrightarrow> unat (t_min t) + t_count t \<le> 256 \<and>
     (if t_count t \<le> 1 then \<exists>n. t_next t = Node n else \<exists>table. t_next t = Table table \<and> length table = t_count t)"

text \<open>The number of children, as the node's slots hold them.\<close>

definition live_slots :: "trie \<Rightarrow> nat" where
  "live_slots t =
     (if t_count t = 0 then 0
      else case t_next t of Node n \<Rightarrow> (if n = None then 0 else 1)
      | Table table \<Rightarrow> length (filter (\<lambda>n. n \<noteq> None) table))"

inductive trie_ok :: "trie \<Rightarrow> bool" where
  trie_ok: "shape_ok t \<Longrightarrow> t_live t = live_slots t \<Longrightarrow> (t_count t = 1 \<Longrightarrow> t_next t \<noteq> Node None) \<Longrightarrow>
     (\<And>c n. child t c = Some n \<Longrightarrow> trie_ok n \<and> \<not> trie_is_redundant n) \<Longrightarrow> trie_ok t"

inductive_cases trie_okE: "trie_ok t"

lemma in_range_iff: "in_range c mn n \<longleftrightarrow> unat mn \<le> unat c \<and> unat c < unat mn + n"
  by (auto simp: in_range_def)

lemma child_simps [simp]:
  "child (Trie r m k l (Node n)) c = (if unat m \<le> unat c \<and> unat c < unat m + k then n else None)"
  "child (Trie r m k l (Table tb)) c =
     (if unat m \<le> unat c \<and> unat c < unat m + k then tb ! (unat c - unat m) else None)"
  by (simp_all add: child_def in_range_iff)

lemma trie_new_shape [simp]: "shape_ok trie_new"
  by (simp add: trie_new_def shape_ok_def)

lemma child_new [simp]: "child trie_new c = None"
  by (simp add: trie_new_def)

lemma refs_new [simp]: "refs trie_new p = 0"
  by (cases p) (simp_all add: trie_new_def)

lemma trie_new_ok [simp]: "trie_ok trie_new"
  by (rule trie_ok.intros) (simp_all add: live_slots_def, simp_all add: trie_new_def)

lemma shape_cases:
  assumes "shape_ok t"
  obtains (none) r m l n where "t = Trie r m 0 l (Node n)"
    | (one) r m l n where "t = Trie r m 1 l (Node n)"
    | (many) r m k l table where "t = Trie r m k l (Table table)" and "1 < k" and "length table = k"
        and "unat m + k \<le> 256"
proof (cases t)
  case (Trie r m k l nx)
  consider "k = 0" | "k = 1" | "1 < k" by linarith
  then show thesis
    using assms Trie none one many by cases (auto simp: shape_ok_def split: if_splits)
qed

lemma slot_child:
  assumes "shape_ok t" and "in_range c (t_min t) (t_count t)"
  shows "trie_slot c t = Some (child t c)"
  using assms(1)
  by (cases rule: shape_cases) (use assms(2) in \<open>auto simp: trie_slot_def in_range_iff Let_def\<close>)

lemma byte_less: "unat (c :: byte) < 256"
  using unsigned_less [of c] by simp

lemma live_table_replicate [simp]:
  "filter (\<lambda>n. n \<noteq> None) (replicate k None) = []"
  by simp

lemma length_filter_update:
  "i < length xs \<Longrightarrow> length (filter P (xs[i := x])) + (if P (xs ! i) then 1 else 0) =
     length (filter P xs) + (if P x then 1 else 0)"
proof -
  assume i: "i < length xs"
  have "length (filter P xs) = length (filter P (take i xs @ xs ! i # drop (Suc i) xs))"
    using i by (simp add: id_take_nth_drop [symmetric])
  moreover have "xs[i := x] = take i xs @ x # drop (Suc i) xs"
    using i by (simp add: upd_conv_take_nth_drop)
  ultimately show ?thesis by simp
qed

text \<open>Extending a node keeps its children and makes room for the byte.\<close>

definition extends :: "byte \<Rightarrow> trie \<Rightarrow> trie \<Rightarrow> bool" where
  "extends c t t' \<longleftrightarrow> shape_ok t' \<and> in_range c (t_min t') (t_count t') \<and> t_live t' = live_slots t' \<and>
     t_refcnt t' = t_refcnt t \<and> child t' = child t"

lemma extend_one:
  assumes ne: "c \<noteq> m"
  defines "k \<equiv> (if m < c then unat c - unat m else unat m - unat c) + 1"
  shows "extends c (Trie r m 1 1 (Node (Some n)))
    (Trie r (min m c) k 1 (Table ((replicate k None)[unat m - unat (min m c) := Some n])))"
proof -
  let ?m = "min m c" and ?tb = "(replicate k None)[unat m - unat (min m c) := Some n]"
  have w: "m < c \<longleftrightarrow> unat m < unat c" "unat ?m = min (unat m) (unat c)" "unat m \<noteq> unat c"
    using ne unsigned_word_eqI [of m c] by (auto simp: word_less_nat_alt min_def word_le_nat_alt)
  have k: "1 < k" "unat ?m + k \<le> 256" "unat m - unat ?m < k" "unat ?m \<le> unat c" "unat c < unat ?m + k"
    "unat ?m \<le> unat m"
    using byte_less [of c] byte_less [of m] w by (auto simp: k_def)
  have "length (filter (\<lambda>n. n \<noteq> None) ?tb) = 1"
    using length_filter_update [of "unat m - unat ?m" "replicate k None" "\<lambda>n. n \<noteq> None" "Some n"] k(3) by simp
  moreover have "child (Trie r ?m k 1 (Table ?tb)) d = child (Trie r m 1 1 (Node (Some n))) d" for d
    using k w by (auto simp: nth_list_update)
  ultimately show ?thesis
    using k by (simp add: extends_def shape_ok_def in_range_iff live_slots_def fun_eq_iff)
qed

lemma extend_above:
  assumes k: "1 < k" "length table = k" "unat m + k \<le> unat c"
  shows "extends c (Trie r m k (length (filter (\<lambda>n. n \<noteq> None) table)) (Table table))
    (Trie r m (unat c - unat m + 1) (length (filter (\<lambda>n. n \<noteq> None) table))
      (Table (table @ replicate (unat c - unat m + 1 - k) None)))"
  using assms byte_less [of c]
  by (auto simp: extends_def shape_ok_def in_range_iff live_slots_def fun_eq_iff nth_append)

lemma extend_below:
  assumes k: "1 < k" "length table = k" "unat m + k \<le> 256" "unat c < unat m"
  shows "extends c (Trie r m k (length (filter (\<lambda>n. n \<noteq> None) table)) (Table table))
    (Trie r c (unat m + k - unat c) (length (filter (\<lambda>n. n \<noteq> None) table))
      (Table (replicate (unat m - unat c) None @ table)))"
  using assms byte_less [of c]
  by (auto simp: extends_def shape_ok_def in_range_iff live_slots_def fun_eq_iff nth_append)

lemma extend_ok:
  assumes sh: "shape_ok t" and lv: "t_live t = live_slots t" and one: "t_count t = 1 \<Longrightarrow> t_next t \<noteq> Node None"
  obtains t' where "trie_extend c t = Some t'" and "extends c t t'"
proof (cases "in_range c (t_min t) (t_count t)")
  case True
  then show thesis using assms by (intro that [of t]) (cases t, simp add: trie_extend_def, simp add: extends_def)
next
  case out: False
  from sh show thesis
  proof (cases rule: shape_cases)
    case (none r m l n)
    then show thesis
      using byte_less [of c] lv
      by (intro that [of "Trie r c 1 0 (Node None)"])
        (auto simp: trie_extend_def in_range_iff extends_def shape_ok_def live_slots_def fun_eq_iff)
  next
    case t: (one r m l n)
    then obtain n' where "n = Some n'" "l = 1" "c \<noteq> m"
      using assms out by (auto simp: live_slots_def in_range_iff)
    with t out extend_one [of c m r n'] show thesis
      by (intro that) (auto simp: trie_extend_def Let_def)
  next
    case (many r m k l table)
    then have l: "l = length (filter (\<lambda>n. n \<noteq> None) table)" using lv by (simp add: live_slots_def)
    show thesis
    proof (cases "m < c")
      case True
      then have "unat m + k \<le> unat c" using out many by (auto simp: in_range_iff word_less_nat_alt)
      from extend_above [OF many(2,3) this, of r] many out True l show thesis
        by (intro that) (auto simp: trie_extend_def Let_def)
    next
      case False
      then have "unat c < unat m" using out many by (auto simp: in_range_iff word_less_nat_alt)
      from extend_below [OF many(2,3,4) this, of r] many out False l show thesis
        by (intro that) (auto simp: trie_extend_def Let_def)
    qed
  qed
qed

text \<open>Replacing the child for a byte in range.\<close>

definition put_child :: "byte \<Rightarrow> trie option \<Rightarrow> nat \<Rightarrow> trie \<Rightarrow> trie" where
  "put_child c v live t = (case t of Trie r mn count l next \<Rightarrow>
     Trie r mn count live (case next of Node _ \<Rightarrow> Node v | Table tb \<Rightarrow> Table (tb[unat c - unat mn := v])))"

lemma put_child_all:
  assumes sh: "shape_ok t" and rg: "in_range c (t_min t) (t_count t)"
  shows "shape_ok (put_child c v l t) \<and> t_refcnt (put_child c v l t) = t_refcnt t \<and>
    t_live (put_child c v l t) = l \<and>
    child (put_child c v l t) d = (if d = c then v else child t d) \<and>
    live_slots (put_child c v l t) + (if child t c = None then 0 else 1) =
      live_slots t + (if v = None then 0 else 1) \<and>
    t_count (put_child c v l t) = t_count t \<and>
    (t_count t = 1 \<longrightarrow> t_next (put_child c v l t) = Node v)"
  using sh
proof (cases rule: shape_cases)
  case (none r m l n)
  with rg show ?thesis by (auto simp: in_range_iff)
next
  case (one r m l n)
  then have "unat c = unat m" using rg by (auto simp: in_range_iff)
  then have m: "c = m" by (simp add: word_unat_eq_iff)
  have "unat m \<le> unat d \<and> unat d < unat m + 1 \<longleftrightarrow> d = m" by (auto simp: word_unat_eq_iff)
  then show ?thesis using one m byte_less [of m] by (auto simp: put_child_def shape_ok_def live_slots_def)
next
  case (many r m k l0 table)
  then have i: "unat c - unat m < length table" "unat m \<le> unat c" using rg by (auto simp: in_range_iff)
  let ?i = "unat c - unat m"
  have ch: "child (Trie r m k l' (Table (table[?i := v]))) d = (if d = c then v else child t d)" for l'
  proof (cases "d = c")
    case True
    then show ?thesis using i rg many by (auto simp: in_range_iff)
  next
    case False
    then have "table[?i := v] ! (unat d - unat m) = table ! (unat d - unat m)" if "unat m \<le> unat d"
      using i that by (intro nth_list_update_neq) (auto simp: word_unat_eq_iff)
    then show ?thesis using False many by auto
  qed
  have sl: "length (filter (\<lambda>n. n \<noteq> None) (table[?i := v])) + (if child t c = None then 0 else 1) =
      length (filter (\<lambda>n. n \<noteq> None) table) + (if v = None then 0 else 1)"
    using length_filter_update [OF i(1), of "\<lambda>n. n \<noteq> None" v] many(1) rg i
    by (auto simp: in_range_iff split: if_splits)
  have "put_child c v l t = Trie r m k l (Table (table[?i := v]))" by (simp add: many(1) put_child_def)
  then show ?thesis using ch sl many by (simp add: shape_ok_def live_slots_def del: child_simps)
qed

lemma put_child_facts:
  assumes "shape_ok t" and "in_range c (t_min t) (t_count t)"
  shows "shape_ok (put_child c v l t)" and "t_refcnt (put_child c v l t) = t_refcnt t"
    and "t_live (put_child c v l t) = l"
    and "child (put_child c v l t) d = (if d = c then v else child t d)"
    and "live_slots (put_child c v l t) + (if child t c = None then 0 else 1) =
      live_slots t + (if v = None then 0 else 1)"
    and "t_count (put_child c v l t) = t_count t"
    and "t_count t = 1 \<Longrightarrow> t_next (put_child c v l t) = Node v"
  using put_child_all [OF assms] by blast+

lemma add_step:
  assumes "trie_extend c t = Some t1" and sh: "shape_ok t1" and rg: "in_range c (t_min t1) (t_count t1)"
  shows "trie_add (c # cs) t = do {
     n \<leftarrow> trie_add cs (case child t1 c of None \<Rightarrow> trie_new | Some n \<Rightarrow> n);
     Some (put_child c (Some n) (t_live t1 + (if child t1 c = None then 1 else 0)) t1)
   }"
  using sh
proof (cases rule: shape_cases)
  case (none r m l n)
  with rg show ?thesis by (auto simp: in_range_iff)
next
  case (one r m l n)
  with rg show ?thesis
    by (cases n) (simp_all add: assms(1) in_range_iff put_child_def)
next
  case (many r m k l table)
  then have i: "unat c - unat m < length table" "unat m \<le> unat c" using rg by (auto simp: in_range_iff)
  with many rg show ?thesis
    by (cases "table ! (unat c - unat m)") (simp_all add: assms(1) in_range_iff put_child_def Let_def)
qed

lemma ok_facts:
  assumes "trie_ok t"
  shows "shape_ok t" and "t_live t = live_slots t" and "t_count t = 1 \<Longrightarrow> t_next t \<noteq> Node None"
    and "child t c = Some n \<Longrightarrow> trie_ok n" and "child t c = Some n \<Longrightarrow> \<not> trie_is_redundant n"
  using assms by (auto elim: trie_okE)

lemma refcnt_ok:
  assumes "trie_ok (Trie r m k l nx)"
  shows "trie_ok (Trie r' m k l nx)" and "child (Trie r' m k l nx) = child (Trie r m k l nx)"
proof -
  show ch: "child (Trie r' m k l nx) = child (Trie r m k l nx)" by (cases nx) (simp_all add: fun_eq_iff)
  have "shape_ok (Trie r' m k l nx)" "l = live_slots (Trie r' m k l nx)" "k = 1 \<Longrightarrow> nx \<noteq> Node None"
    using ok_facts(1-3) [OF assms] by (auto simp: shape_ok_def live_slots_def)
  then show "trie_ok (Trie r' m k l nx)"
    using ok_facts(4,5) [OF assms] by (intro trie_ok.intros) (simp_all add: ch)
qed

lemma redundant_refs: "trie_ok t \<Longrightarrow> trie_is_redundant t \<Longrightarrow> refs t p = 0"
proof (cases p)
  case (Cons c cs)
  assume ok: "trie_ok t" and red: "trie_is_redundant t"
  have "child t c = None"
  proof (rule ccontr)
    assume "child t c \<noteq> None"
    moreover from this have "in_range c (t_min t) (t_count t)" by (auto simp: child_def split: if_splits)
    ultimately have "live_slots t \<noteq> 0"
      using put_child_facts(5) [OF ok_facts(1) [OF ok], of c None 0] by auto
    with red ok_facts(2) [OF ok] show False by (simp add: trie_is_redundant_def)
  qed
  then show ?thesis using Cons by simp
qed (simp add: trie_is_redundant_def)

lemma add_ok:
  assumes "trie_ok t" and "refs t p + 1 \<noteq> 0"
  shows "\<exists>t'. trie_add p t = Some t' \<and> trie_ok t' \<and> (\<forall>q. refs t' q = refs t q + (if q = p then 1 else 0))"
  using assms
proof (induction p arbitrary: t)
  case Nil
  obtain r m k l nx where t: "t = Trie r m k l nx" by (cases t)
  let ?t = "Trie (r + 1) m k l nx"
  have ch: "child ?t = child t" and "trie_ok ?t"
    using refcnt_ok [of r m k l nx "r + 1"] Nil.prems(1) unfolding t by blast+
  moreover have "refs ?t q = refs t q + (if q = [] then 1 else 0)" for q
    by (cases q) (simp_all add: ch, simp add: t)
  ultimately show ?case by (simp add: t)
next
  case (Cons c cs)
  note ok = ok_facts [OF Cons.prems(1)]
  obtain t1 where t1: "trie_extend c t = Some t1" "extends c t t1"
    using extend_ok [OF ok(1-3)] by blast
  then have e: "shape_ok t1" "in_range c (t_min t1) (t_count t1)" "t_live t1 = live_slots t1"
    "t_refcnt t1 = t_refcnt t" "child t1 = child t" by (simp_all add: extends_def)
  let ?n = "case child t c of None \<Rightarrow> trie_new | Some n \<Rightarrow> n"
  have n: "trie_ok ?n" "refs ?n q = refs t (c # q)" for q
    using ok(4) by (simp_all split: option.split)
  obtain n' where n': "trie_add cs ?n = Some n'" "trie_ok n'"
    "\<And>q. refs n' q = refs ?n q + (if q = cs then 1 else 0)"
    using Cons.IH [OF n(1)] Cons.prems(2) n(2) [of cs] by auto
  have nr: "\<not> trie_is_redundant n'"
    using redundant_refs [OF n'(2), of cs] n'(3) [of cs] n(2) [of cs] Cons.prems(2) by auto
  let ?t = "put_child c (Some n') (t_live t1 + (if child t c = None then 1 else 0)) t1"
  note pc = put_child_facts [OF e(1,2), of "Some n'" "t_live t1 + (if child t c = None then 1 else 0)"]
  have "trie_add (c # cs) t = Some ?t"
    using add_step [OF t1(1) e(1,2)] n'(1) e(5) by simp
  moreover have "trie_ok ?t"
  proof (rule trie_ok.intros)
    show "shape_ok ?t" by (rule pc(1))
    show "t_live ?t = live_slots ?t" using pc(3,5) e(3,5) by (auto split: if_splits)
    show "t_next ?t \<noteq> Node None" if "t_count ?t = 1" using that pc(6,7) by simp
    fix d x assume "child ?t d = Some x"
    then show "trie_ok x \<and> \<not> trie_is_redundant x"
      using pc(4) n'(2) nr ok(4,5) e(5) by (auto split: if_splits)
  qed
  moreover have "refs ?t q = refs t q + (if q = c # cs then 1 else 0)" for q
  proof (cases q)
    case (Cons d ds)
    then show ?thesis using pc(4) n'(3) n(2) e(5) by auto
  qed (simp add: pc(2) e(4))
  ultimately show ?case by blast
qed

lemma rm_ok:
  assumes "trie_ok t"
  shows "\<exists>t'. trie_rm p t = Some (refs t p \<noteq> 0, t') \<and> trie_ok t' \<and>
    (\<forall>q. refs t' q = refs t q - (if q = p \<and> refs t p \<noteq> 0 then 1 else 0))"
  using assms
proof (induction p arbitrary: t)
  case Nil
  obtain r m k l nx where t: "t = Trie r m k l nx" by (cases t)
  let ?t = "Trie (r - 1) m k l nx"
  have ch: "child ?t = child t" and "trie_ok ?t"
    using refcnt_ok [of r m k l nx "r - 1"] Nil.prems(1) unfolding t by blast+
  moreover have "refs ?t q = refs t q - (if q = [] then 1 else 0)" for q
    by (cases q) (simp_all add: ch, simp add: t)
  ultimately show ?case using Nil.prems by (cases "r = 0") (auto simp: t)
next
  case (Cons c cs)
  note ok = ok_facts [OF Cons.prems(1)]
  obtain r m k l nx where t: "t = Trie r m k l nx" by (cases t)
  show ?case
  proof (cases "child t c")
    case None
    have "trie_rm (c # cs) t = Some (False, t)"
    proof (cases "t_count t = 0 \<or> \<not> in_range c (t_min t) (t_count t)")
      case True
      then show ?thesis by (simp add: t)
    next
      case False
      then have "trie_slot c t = Some None" using slot_child [OF ok(1)] None by simp
      with False show ?thesis by (simp add: t)
    qed
    with None Cons.prems show ?thesis by simp
  next
    case (Some n)
    then have rg: "in_range c (t_min t) (t_count t)" by (auto simp: child_def split: if_splits)
    then have pos: "t_count t \<noteq> 0" by (auto simp: in_range_iff)
    obtain n' where n': "trie_rm cs n = Some (refs n cs \<noteq> 0, n')" "trie_ok n'"
      "\<And>q. refs n' q = refs n q - (if q = cs \<and> refs n cs \<noteq> 0 then 1 else 0)"
      using Cons.IH [OF ok(4) [OF Some]] by blast
    let ?v = "if trie_is_redundant n' then None else Some n'"
    let ?l = "if trie_is_redundant n' then t_live t - 1 else t_live t"
    let ?t1 = "put_child c ?v ?l t"
    let ?t = "if trie_is_redundant n' \<and> k = 1 then Trie r m 0 (l - 1) (Node None) else ?t1"
    note pc = put_child_facts [OF ok(1) rg, of ?v ?l]
    have eq: "trie_rm (c # cs) t = Some (refs n cs \<noteq> 0, ?t)"
      using pos rg slot_child [OF ok(1) rg] Some n'(1) ok(1)
      by (simp add: t put_child_def shape_ok_def split: trie_next.split if_splits) auto
    have ch: "child ?t d = (if d = c then ?v else child t d)" for d
    proof (cases "trie_is_redundant n' \<and> k = 1")
      case True
      then have "d \<noteq> c \<Longrightarrow> child t d = None"
        using rg by (auto simp: t child_def in_range_iff word_unat_eq_iff)
      with True show ?thesis by simp
    next
      case False
      then have "?t = ?t1" by (rule if_not_P)
      then show ?thesis using pc(4) [of d] by (simp only:)
    qed
    have "trie_ok ?t"
    proof (rule trie_ok.intros)
      show "shape_ok ?t" using pc(1) ok(1) by (auto simp: t shape_ok_def split: if_splits)
      have "live_slots t = 1" if "k = 1"
      proof -
        have "nx \<noteq> Node None" using ok(3) that by (simp add: t)
        then show ?thesis using that ok(1) by (auto simp: t live_slots_def shape_ok_def split: if_splits)
      qed
      then show "t_live ?t = live_slots ?t"
        using pc(3,5) ok(2) Some by (auto simp: t live_slots_def split: if_splits)
      show "t_next ?t \<noteq> Node None" if "t_count ?t = 1"
        using that pc(6,7) by (auto simp: t split: if_splits)
      fix d x assume "child ?t d = Some x"
      then have "(if d = c then ?v else child t d) = Some x" by (simp only: ch)
      then show "trie_ok x \<and> \<not> trie_is_redundant x"
        using n'(2) ok(4,5) by (auto split: if_splits)
    qed
    moreover have "refs ?t q = refs t q - (if q = c # cs \<and> refs t (c # cs) \<noteq> 0 then 1 else 0)" for q
    proof (cases q)
      case Nil
      then show ?thesis using pc(2) by (simp add: t)
    next
      case (Cons d ds)
      show ?thesis
      proof (cases "d = c")
        case True
        have "refs ?t (c # ds) = refs n' ds"
          unfolding refs.simps ch using redundant_refs [OF n'(2)] by simp
        then show ?thesis using Cons True n'(3) Some by simp
      next
        case False
        have "refs ?t q = refs t q" unfolding Cons refs.simps ch using False by simp
        then show ?thesis using Cons False by simp
      qed
    qed
    ultimately show ?thesis using eq Some by (intro exI [of _ ?t]) simp
  qed
qed

lemma check_ok:
  assumes "trie_ok t"
  shows "trie_check d t = Some (\<exists>p. prefix p d \<and> refs t p \<noteq> 0)"
  using assms
proof (induction d arbitrary: t)
  case Nil
  then show ?case by (subst trie_check.simps) simp
next
  case (Cons c cs)
  note ok = ok_facts [OF Cons.prems]
  have split: "(\<exists>p. prefix p (c # cs) \<and> refs t p \<noteq> 0) \<longleftrightarrow>
      t_refcnt t \<noteq> 0 \<or> (\<exists>n p. child t c = Some n \<and> prefix p cs \<and> refs n p \<noteq> 0)"
    by (auto simp: prefix_Cons split: option.splits)
  show ?case
  proof (cases "in_range c (t_min t) (t_count t)")
    case False
    then have "child t c = None" by (simp add: child_def)
    with False show ?thesis by (subst trie_check.simps) (simp add: split)
  next
    case True
    note sl = slot_child [OF ok(1) True]
    show ?thesis
    proof (cases "child t c")
      case None
      have "t_count t \<noteq> 1"
      proof
        assume 1: "t_count t = 1"
        with ok(1) obtain n where "t_next t = Node n" by (auto simp: shape_ok_def)
        with 1 ok(3) True None show False by (simp add: child_def)
      qed
      with None True sl show ?thesis by (subst trie_check.simps) (simp add: split)
    next
      case (Some n)
      with True sl Cons.IH [OF ok(4) [OF Some]] show ?thesis by (subst trie_check.simps) (simp add: split)
    qed
  qed
qed

end
