(* ===== verification/Subscriptions.thy ===== *)
theory Subscriptions
  imports Trie "HOL-Library.Multiset"
begin

text \<open>
  What the trie of \<open>Trie.thy\<close> is for: it stands for the multiset of the subscriptions a
  \<open>SUB\<close> socket has made and not cancelled, over any sequence of \<open>add\<close> and \<open>rm\<close> calls.
\<close>

section \<open>Properties\<close>

text \<open>The specification: a multiset of prefixes.\<close>

datatype trie_op = Add "byte list" | Rm "byte list"

fun trie_do :: "trie_op \<Rightarrow> trie \<Rightarrow> (bool \<times> trie) option" where
  "trie_do (Add p) t = map_option (Pair True) (trie_add p t)"
| "trie_do (Rm p) t = trie_rm p t"

fun trie_run :: "trie_op list \<Rightarrow> trie \<Rightarrow> (bool list \<times> trie) option" where
  "trie_run [] t = Some ([], t)"
| "trie_run (x # xs) t = do {
     (b, t) \<leftarrow> trie_do x t;
     (bs, t) \<leftarrow> trie_run xs t;
     Some (b # bs, t)
   }"

fun spec_do :: "trie_op \<Rightarrow> byte list multiset \<Rightarrow> bool \<times> byte list multiset" where
  "spec_do (Add p) M = (True, add_mset p M)"
| "spec_do (Rm p) M = (p \<in># M, M - {#p#})"

fun spec_run :: "trie_op list \<Rightarrow> byte list multiset \<Rightarrow> bool list \<times> byte list multiset" where
  "spec_run [] M = ([], M)"
| "spec_run (x # xs) M = (let (b, M) = spec_do x M; (bs, M) = spec_run xs M in (b # bs, M))"

definition trie_holds :: "trie \<Rightarrow> byte list multiset \<Rightarrow> bool" where
  "trie_holds t M \<longleftrightarrow> trie_ok t \<and> (\<forall>q. refs t q = of_nat (count M q))"

lemma of_nat_zero_iff: "k < 2 ^ 32 \<Longrightarrow> (of_nat k :: u32) = 0 \<longleftrightarrow> k = 0"
proof -
  assume "k < 2 ^ 32"
  then have "unat (of_nat k :: u32) = k" by (simp add: unat_of_nat)
  moreover have "k = 0" if "(of_nat k :: u32) = 0" using that calculation by simp
  ultimately show ?thesis by auto
qed

lemma count_size: "count M q \<le> size M"
  by (simp add: count_le_size)

lemma trie_do_spec:
  assumes h: "trie_holds t M" and sz: "Suc (size M) < 2 ^ 32"
  shows "\<exists>t'. trie_do x t = Some (fst (spec_do x M), t') \<and> trie_holds t' (snd (spec_do x M))"
proof (cases x)
  case (Add p)
  have "Suc (count M p) < 2 ^ 32" using count_size [of M p] sz by linarith
  then have "refs t p + 1 \<noteq> 0"
    using h of_nat_zero_iff [of "Suc (count M p)"] by (simp add: trie_holds_def add.commute)
  then obtain t' where "trie_add p t = Some t'" "trie_ok t'"
    "\<forall>q. refs t' q = refs t q + (if q = p then 1 else 0)"
    using add_ok [of t p] h by (auto simp: trie_holds_def)
  then show ?thesis using h by (auto simp: Add trie_holds_def add.commute)
next
  case (Rm p)
  have "count M p < 2 ^ 32" using count_size [of M p] sz by linarith
  then have z: "refs t p \<noteq> 0 \<longleftrightarrow> p \<in># M"
    using h of_nat_zero_iff [of "count M p"] by (simp add: trie_holds_def count_eq_zero_iff)
  obtain t' where "trie_rm p t = Some (refs t p \<noteq> 0, t')" "trie_ok t'"
    "\<forall>q. refs t' q = refs t q - (if q = p \<and> refs t p \<noteq> 0 then 1 else 0)"
    using rm_ok [of t p] h by (auto simp: trie_holds_def)
  moreover from this have "refs t' q = of_nat (count (M - {#p#}) q)" for q
    using h z by (auto simp: trie_holds_def of_nat_diff not_in_iff Suc_leI)
  ultimately show ?thesis using z by (simp add: Rm trie_holds_def)
qed

lemma size_spec_do: "size (snd (spec_do x M)) \<le> Suc (size M)"
  by (cases x) (auto simp: size_Diff_singleton_if)

lemma trie_run_spec:
  "trie_holds t M \<Longrightarrow> size M + length xs < 2 ^ 32 \<Longrightarrow>
   \<exists>t'. trie_run xs t = Some (fst (spec_run xs M), t') \<and> trie_holds t' (snd (spec_run xs M))"
proof (induction xs arbitrary: t M)
  case (Cons x xs)
  have "Suc (size M) < 2 ^ 32" using Cons.prems(2) by simp
  then obtain t1 where t1: "trie_do x t = Some (fst (spec_do x M), t1)" "trie_holds t1 (snd (spec_do x M))"
    using trie_do_spec [OF Cons.prems(1)] by blast
  have "size (snd (spec_do x M)) + length xs < 2 ^ 32" using size_spec_do [of x M] Cons.prems(2) by simp
  from Cons.IH [OF t1(2) this] t1(1) show ?case by (auto simp: split_beta Let_def)
qed simp

lemma trie_new_holds: "trie_holds trie_new {#}"
  by (simp add: trie_holds_def)

lemma size_spec_run: "size (snd (spec_run xs M)) \<le> size M + length xs"
proof (induction xs arbitrary: M)
  case (Cons x xs)
  have "size (snd (spec_run xs (snd (spec_do x M)))) \<le> size (snd (spec_do x M)) + length xs" by (rule Cons)
  then show ?case using size_spec_do [of x M] by (simp add: split_beta Let_def)
qed simp

lemma trie_holds_check:
  assumes "trie_holds t M" and "size M < 2 ^ 32"
  shows "trie_check d t = Some (\<exists>p \<in># M. prefix p d)"
proof -
  have "count M p < 2 ^ 32" for p using count_size [of M p] assms(2) by simp
  then have "refs t p \<noteq> 0 \<longleftrightarrow> p \<in># M" for p
    using assms(1) of_nat_zero_iff [of "count M p"] by (simp add: trie_holds_def count_eq_zero_iff)
  then show ?thesis using check_ok [of t d] assms(1) by (auto simp: trie_holds_def)
qed

text \<open>C4 (refinement).  The trie is the multiset of the subscriptions: after any sequence of
  \<open>add\<close> and \<open>rm\<close> calls, none of which runs into a bad pointer or table index, each \<open>rm\<close> has
  returned whether the prefix was there, and \<open>check\<close> accepts exactly the data that start with
  a prefix added more often than removed.\<close>

theorem trie_refines_multiset:
  assumes "length xs < 2 ^ 32"
  shows "\<exists>t. trie_run xs trie_new = Some (fst (spec_run xs {#}), t) \<and>
    trie_check d t = Some (\<exists>p \<in># snd (spec_run xs {#}). prefix p d)"
proof -
  let ?M = "snd (spec_run xs {#})"
  obtain t where t: "trie_run xs trie_new = Some (fst (spec_run xs {#}), t)" "trie_holds t ?M"
    using trie_run_spec [OF trie_new_holds] assms by auto
  have "size ?M < 2 ^ 32" using size_spec_run [of xs "{#}"] assms by simp
  with t(2) have "trie_check d t = Some (\<exists>p \<in># ?M. prefix p d)" by (rule trie_holds_check)
  with t(1) show ?thesis by blast
qed

theorem trie_refines_multiset_witness:
  "\<exists>t. trie_run [Add [1, 2], Add [9], Rm [1, 2], Rm [1]] trie_new = Some ([True, True, True, False], t) \<and>
     trie_check [9, 7] t = Some True"
proof -
  let ?xs = "[Add [1, 2], Add [9], Rm [1, 2], Rm [1]]"
  have "fst (spec_run ?xs {#}) = [True, True, True, False]" "snd (spec_run ?xs {#}) = {#[9]#}" by simp_all
  with trie_refines_multiset [of ?xs "[9, 7]"] show ?thesis by simp
qed
end
