(* ===== verification/Codec.thy ===== *)
theory Codec
  imports Endpoint Wire "HOL-Library.Sublist"
begin

text \<open>
  \<open>encoder.hpp\<close>, \<open>encoder.cpp\<close>, \<open>decoder.hpp\<close>, \<open>decoder.cpp\<close>: the framing of messages
  on a stream connection.  Encoder and decoder are state machines driven by the engine: the one
  fills a buffer with the bytes of the messages it reads from its source, the other passes the
  messages it finds in a buffer to its destination.

  The source and the destination (\<open>i_inout\<close>, a session or a connection initialiser) are
  functions on a state \<open>'s\<close>, \<^term>\<open>None\<close> as long as \<open>set_inout\<close> has not been called.
  Messages are the values of \<open>Msg\<close>.  A pointer into the message in progress or into
  \<open>tmpbuf\<close> is a target and an offset, and \<open>alloc n\<close> says whether
  \<open>zmq_msg_init_size\<close> finds the memory for \<open>n\<close> bytes.
\<close>

section \<open>The encoder\<close>

datatype enc_step = E_size_ready | E_message_ready

text \<open>\<open>e_write\<close>: the \<open>to_write\<close> bytes \<open>write_pos\<close> points to.\<close>

record 's encoder =
  e_source :: "('s \<Rightarrow> msg option \<times> 's) option"
  e_in_progress :: msg
  e_tmpbuf :: "byte list"
  e_write :: "byte list"
  e_next :: enc_step
  e_beginning :: bool
  e_bufsize :: nat

definition enc_next_step :: "byte list \<Rightarrow> enc_step \<Rightarrow> bool \<Rightarrow> 's encoder \<Rightarrow> 's encoder" where
  "enc_next_step w nxt beg e = e\<lparr>e_write := w, e_next := nxt, e_beginning := beg\<rparr>"

definition encoder_new :: "nat \<Rightarrow> byte list \<Rightarrow> 's encoder" where
  "encoder_new bufsize garbage =
     enc_next_step [] E_message_ready True
       \<lparr>e_source = None, e_in_progress = empty_msg, e_tmpbuf = garbage, e_write = [],
        e_next = E_message_ready, e_beginning = False, e_bufsize = bufsize\<rparr>"

definition enc_set_inout :: "('s \<Rightarrow> msg option \<times> 's) option \<Rightarrow> 's encoder \<Rightarrow> 's encoder" where
  "enc_set_inout src e = e\<lparr>e_source := src\<rparr>"

definition enc_size_ready :: "'s encoder \<Rightarrow> bool \<times> 's encoder" where
  "enc_size_ready e =
     (True, enc_next_step (body_data (m_body (e_in_progress e))) E_message_ready False e)"

definition enc_message_ready :: "'s encoder \<Rightarrow> 's \<Rightarrow> bool \<times> 's encoder \<times> 's" where
  "enc_message_ready e s =
     (case (case e_source e of None \<Rightarrow> (None, s) | Some read \<Rightarrow> read s) of
        (None, s) \<Rightarrow> (False, e\<lparr>e_in_progress := empty_msg\<rparr>, s)
      | (Some m, s) \<Rightarrow>
          let e = e\<lparr>e_in_progress := m\<rparr>;
              size = (of_nat (length (body_data (m_body m))) :: u64) + 1;
              fl = m_flags m AND ZMQ_MSG_MORE
          in if size < 255 then
               let hdr = [ucast size, fl]; e = e\<lparr>e_tmpbuf := hdr @ drop 2 (e_tmpbuf e)\<rparr>
               in (True, enc_next_step hdr E_size_ready (fl = 0) e, s)
             else
               let hdr = [0xff] @ put_uint64 (replicate 8 0) size @ [fl]; e = e\<lparr>e_tmpbuf := hdr\<rparr>
               in (True, enc_next_step hdr E_size_ready (fl = 0) e, s))"

definition enc_run :: "'s encoder \<Rightarrow> 's \<Rightarrow> bool \<times> 's encoder \<times> 's" where
  "enc_run e s =
     (case e_next e of
        E_size_ready \<Rightarrow> (let (ok, e) = enc_size_ready e in (ok, e, s))
      | E_message_ready \<Rightarrow> enc_message_ready e s)"

lemma enc_run_next:
  assumes "enc_run e s = (True, e', s')"
  shows "e_next e = E_message_ready \<and> e_next e' = E_size_ready \<and> e_write e' \<noteq> [] \<or>
    e_next e = E_size_ready \<and> e_next e' = E_message_ready"
  using assms
  by (auto simp: enc_run_def enc_size_ready_def enc_message_ready_def enc_next_step_def Let_def
      split: enc_step.splits prod.splits option.splits if_splits)

text \<open>
  The first half of a pass of the loop of \<open>get_data\<close>: run the state machine when there is
  nothing to write; \<open>pos\<close> is the number of bytes in the buffer.
\<close>

definition enc_refill :: "nat \<Rightarrow> int \<Rightarrow> 's encoder \<Rightarrow> 's \<Rightarrow> bool \<times> int \<times> 's encoder \<times> 's" where
  "enc_refill pos offset e s =
     (if e_write e = [] then
        (case enc_run e s of (ok, e, s) \<Rightarrow>
           if ok \<and> e_beginning e
           then (True, if offset = -1 then int pos else offset, e\<lparr>e_beginning := False\<rparr>, s)
           else (ok, offset, e, s))
      else (True, offset, e, s))"

lemma enc_refill_next:
  assumes "enc_refill pos offset e s = (True, offset', e', s')"
  shows "e_write e' \<noteq> [] \<and> (e_next e' = e_next e \<or> e_next e = E_message_ready) \<or>
    e_next e = E_size_ready \<and> e_next e' = E_message_ready"
  using assms enc_run_next [of e s]
  by (auto simp: enc_refill_def split: if_splits prod.splits)

text \<open>
  The loop: \<open>out\<close> are the bytes in the buffer so far and \<open>room\<close> is the space left in it, \<open>own\<close>
  says that the buffer is the encoder's own (\<open>*data_\<close> is null).
\<close>

function enc_loop ::
    "bool \<Rightarrow> byte list \<Rightarrow> nat \<Rightarrow> int \<Rightarrow> 's encoder \<Rightarrow> 's \<Rightarrow> byte list \<times> int \<times> 's encoder \<times> 's" where
  "enc_loop own out room offset e s =
     (case enc_refill (length out) offset e s of (ok, offset, e, s) \<Rightarrow>
        if \<not> ok then (out, offset, e, s)
        else if out = [] \<and> own \<and> length (e_write e) \<ge> room
        then (e_write e, offset, e\<lparr>e_write := []\<rparr>, s)
        else
          let to_copy = min (length (e_write e)) room;
              out = out @ take to_copy (e_write e);
              e = e\<lparr>e_write := drop to_copy (e_write e)\<rparr>
          in if room = to_copy then (out, offset, e, s)
             else enc_loop own out (room - to_copy) offset e s)"
  by pat_completeness auto
termination
proof (relation "measure (\<lambda>(own, out, room, offset, e, s). 2 * room + (if e_next e = E_size_ready then 1 else 0))",
    goal_cases)
  case (2 own out room offset e s)
  then show ?case
    by (auto simp: min_def length_greater_0_conv [symmetric] simp del: length_greater_0_conv
      dest!: enc_refill_next [OF sym] split: if_splits)
qed simp

declare enc_loop.simps [simp del]

definition enc_get_data ::
    "nat option \<Rightarrow> 's encoder \<Rightarrow> 's \<Rightarrow> byte list \<times> int \<times> 's encoder \<times> 's" where
  "enc_get_data supplied e s =
     enc_loop (supplied = None) [] (case supplied of None \<Rightarrow> e_bufsize e | Some n \<Rightarrow> n) (-1) e s"

section \<open>The decoder\<close>

datatype dec_step = D_one_byte_size_ready | D_eight_byte_size_ready | D_flags_ready | D_message_ready

datatype dec_target = To_tmpbuf | To_message

record 's decoder =
  d_destination :: "(msg \<Rightarrow> 's \<Rightarrow> bool \<times> 's) option"
  d_tmpbuf :: "byte list"
  d_in_progress :: msg
  d_target :: dec_target
  d_read_pos :: nat
  d_to_read :: nat
  d_next :: "dec_step option"
  d_bufsize :: nat

definition dec_next_step :: "dec_target \<Rightarrow> nat \<Rightarrow> dec_step \<Rightarrow> 's decoder \<Rightarrow> 's decoder" where
  "dec_next_step tgt n nxt d =
     d\<lparr>d_target := tgt, d_read_pos := 0, d_to_read := n, d_next := Some nxt\<rparr>"

definition decoding_error :: "'s decoder \<Rightarrow> 's decoder" where
  "decoding_error d = d\<lparr>d_next := None\<rparr>"

definition decoder_new :: "nat \<Rightarrow> byte list \<Rightarrow> 's decoder" where
  "decoder_new bufsize garbage =
     dec_next_step To_tmpbuf 1 D_one_byte_size_ready
       \<lparr>d_destination = None, d_tmpbuf = garbage, d_in_progress = empty_msg, d_target = To_tmpbuf,
        d_read_pos = 0, d_to_read = 0, d_next = None, d_bufsize = bufsize\<rparr>"

definition dec_set_inout :: "(msg \<Rightarrow> 's \<Rightarrow> bool \<times> 's) option \<Rightarrow> 's decoder \<Rightarrow> 's decoder" where
  "dec_set_inout dst d = d\<lparr>d_destination := dst\<rparr>"

text \<open>\<open>zmq_msg_init_size\<close>, with the failure handling the two size actions share.  A buffer that is allocated
  has the size asked for (the addition in \<open>zmq_msg_init_size\<close> can wrap, see \<open>Msg\<close>).\<close>

definition dec_init_size :: "(nat \<Rightarrow> bool) \<Rightarrow> u64 \<Rightarrow> 's decoder \<Rightarrow> bool \<times> 's decoder" where
  "dec_init_size alloc n d =
     (if alloc (unat n) then
        let d = d\<lparr>d_in_progress := \<lparr>m_body = Data (replicate (unat n) 0), m_flags = NOT ZMQ_MSG_MASK\<rparr>\<rparr>
        in (True, dec_next_step To_tmpbuf 1 D_flags_ready d)
      else (False, decoding_error (d\<lparr>d_in_progress := empty_msg\<rparr>)))"

definition dec_one_byte_size_ready :: "(nat \<Rightarrow> bool) \<Rightarrow> 's decoder \<Rightarrow> bool \<times> 's decoder" where
  "dec_one_byte_size_ready alloc d = (
     let b = d_tmpbuf d ! 0
     in if b = 0xff then (True, dec_next_step To_tmpbuf 8 D_eight_byte_size_ready d)
        else if b = 0 then (False, decoding_error d)
        else dec_init_size alloc (ucast b - 1) d)"

definition dec_eight_byte_size_ready :: "(nat \<Rightarrow> bool) \<Rightarrow> 's decoder \<Rightarrow> bool \<times> 's decoder" where
  "dec_eight_byte_size_ready alloc d = (
     let size = get_uint64 (d_tmpbuf d)
     in if size = 0 then (False, decoding_error d)
        else dec_init_size alloc (size - 1) d)"

definition dec_flags_ready :: "'s decoder \<Rightarrow> bool \<times> 's decoder" where
  "dec_flags_ready d = (
     let d = d\<lparr>d_in_progress := (d_in_progress d)\<lparr>m_flags := (d_tmpbuf d ! 0) OR NOT ZMQ_MSG_MASK\<rparr>\<rparr>
     in (True, dec_next_step To_message (length (body_data (m_body (d_in_progress d)))) D_message_ready d))"

definition dec_message_ready :: "'s decoder \<Rightarrow> 's \<Rightarrow> bool \<times> 's decoder \<times> 's" where
  "dec_message_ready d s =
     (case (case d_destination d of None \<Rightarrow> (False, s) | Some wr \<Rightarrow> wr (d_in_progress d) s) of
        (False, s) \<Rightarrow> (False, d, s)
      | (True, s) \<Rightarrow>
          (True, dec_next_step To_tmpbuf 1 D_one_byte_size_ready (d\<lparr>d_in_progress := empty_msg\<rparr>), s))"

definition dec_run :: "(nat \<Rightarrow> bool) \<Rightarrow> 's decoder \<Rightarrow> 's \<Rightarrow> bool \<times> 's decoder \<times> 's" where
  "dec_run alloc d s =
     (case d_next d of
        None \<Rightarrow> (False, d, s)
      | Some D_one_byte_size_ready \<Rightarrow> (let (ok, d) = dec_one_byte_size_ready alloc d in (ok, d, s))
      | Some D_eight_byte_size_ready \<Rightarrow> (let (ok, d) = dec_eight_byte_size_ready alloc d in (ok, d, s))
      | Some D_flags_ready \<Rightarrow> (let (ok, d) = dec_flags_ready d in (ok, d, s))
      | Some D_message_ready \<Rightarrow> dec_message_ready d s)"

text \<open>Writing through \<open>read_pos\<close>.\<close>

definition dec_fill :: "byte list \<Rightarrow> 's decoder \<Rightarrow> 's decoder" where
  "dec_fill bs d = (
     let d' = (case d_target d of
         To_tmpbuf \<Rightarrow> d\<lparr>d_tmpbuf := take (d_read_pos d) (d_tmpbuf d) @ bs @ drop (d_read_pos d + length bs) (d_tmpbuf d)\<rparr>
       | To_message \<Rightarrow> let old = body_data (m_body (d_in_progress d)) in
           d\<lparr>d_in_progress := (d_in_progress d)
             \<lparr>m_body := Data (take (d_read_pos d) old @ bs @ drop (d_read_pos d + length bs) old)\<rparr>\<rparr>)
     in d'\<lparr>d_read_pos := d_read_pos d + length bs, d_to_read := d_to_read d - length bs\<rparr>)"

text \<open>The loop \<open>while (!to_read)\<close>: true when there is something to read, false when an action failed.\<close>

function dec_settle :: "(nat \<Rightarrow> bool) \<Rightarrow> 's decoder \<Rightarrow> 's \<Rightarrow> bool \<times> 's decoder \<times> 's" where
  "dec_settle alloc d s =
     (if d_to_read d \<noteq> 0 then (True, d, s)
      else case dec_run alloc d s of (ok, d, s) \<Rightarrow>
        if \<not> ok then (False, d, s) else dec_settle alloc d s)"
  by pat_completeness auto
termination
  by (relation "measure (\<lambda>(alloc, d, s). if d_to_read d \<noteq> 0 then 0
      else if d_next d = Some D_flags_ready then 2 else 1)")
    (auto simp: dec_run_def dec_one_byte_size_ready_def dec_eight_byte_size_ready_def dec_flags_ready_def
      dec_message_ready_def dec_init_size_def dec_next_step_def Let_def
      split: option.splits dec_step.splits if_splits prod.splits bool.splits)

declare dec_settle.simps [simp del]

function dec_loop :: "(nat \<Rightarrow> bool) \<Rightarrow> nat \<Rightarrow> byte list \<Rightarrow> 's decoder \<Rightarrow> 's \<Rightarrow> nat option \<times> 's decoder \<times> 's" where
  "dec_loop alloc pos data d s =
     (case dec_settle alloc d s of (ok, d, s) \<Rightarrow>
        if \<not> ok then (if d_next d = None then None else Some pos, d, s)
        else if data = [] then (Some pos, d, s)
        else
          let to_copy = min (d_to_read d) (length data)
          in if to_copy = 0 then (Some pos, d, s)
             else dec_loop alloc (pos + to_copy) (drop to_copy data) (dec_fill (take to_copy data) d) s)"
  by pat_completeness auto
termination by (relation "measure (\<lambda>(alloc, pos, data, d, s). length data)") auto

declare dec_loop.simps [simp del]

text \<open>
  \<open>get_buffer\<close> and \<open>process_buffer\<close>.  \<open>zero_copy\<close>: the engine has read the data directly
  into the message, at \<open>read_pos\<close> (\<open>data_ == read_pos\<close>).  The result \<^term>\<open>None\<close> is
  the \<open>-1\<close> of a decoding error.
\<close>

definition dec_get_buffer :: "'s decoder \<Rightarrow> bool \<times> nat" where
  "dec_get_buffer d = (if d_to_read d \<ge> d_bufsize d then (True, d_to_read d) else (False, d_bufsize d))"

definition dec_process_buffer ::
    "(nat \<Rightarrow> bool) \<Rightarrow> bool \<Rightarrow> byte list \<Rightarrow> 's decoder \<Rightarrow> 's \<Rightarrow> nat option \<times> 's decoder \<times> 's" where
  "dec_process_buffer alloc zero_copy data d s =
     (if d_next d = None then (None, d, s)
      else if zero_copy then
        (case dec_settle alloc (dec_fill data d) s of (ok, d, s) \<Rightarrow>
           if \<not> ok \<and> d_next d = None then (None, d, s) else (Some (length data), d, s))
      else dec_loop alloc 0 data d s)"

section \<open>The frame of a message\<close>

definition msg_bytes :: "msg \<Rightarrow> byte list" where
  "msg_bytes m = body_data (m_body m)"

definition frame :: "msg \<Rightarrow> byte list" where
  "frame m = (
     let size = (of_nat (length (msg_bytes m)) :: u64) + 1; fl = m_flags m AND ZMQ_MSG_MORE
     in (if size < 255 then [ucast size, fl] else [0xff] @ put_uint64 (replicate 8 0) size @ [fl]) @ msg_bytes m)"

text \<open>The message the other side gets: the same data, and the flags the wire carries.\<close>

definition wire_msg :: "msg \<Rightarrow> msg" where
  "wire_msg m = \<lparr>m_body = Data (msg_bytes m), m_flags = (m_flags m AND ZMQ_MSG_MORE) OR NOT ZMQ_MSG_MASK\<rparr>"

fun list_source :: "msg list \<Rightarrow> msg option \<times> msg list" where
  "list_source [] = (None, [])"
| "list_source (m # ms) = (Some m, ms)"

definition list_destination :: "msg \<Rightarrow> msg list \<Rightarrow> bool \<times> msg list" where
  "list_destination m ms = (True, ms @ [m])"

section \<open>What the encoder writes\<close>

definition pending :: "'s encoder \<Rightarrow> byte list" where
  "pending e = e_write e @ (if e_next e = E_size_ready then msg_bytes (e_in_progress e) else [])"

definition stream :: "msg list encoder \<Rightarrow> msg list \<Rightarrow> byte list" where
  "stream e ms = pending e @ concat (map frame ms)"

lemma enc_run_stream:
  assumes "e_source e = Some list_source" and "e_write e = []" and "enc_run e ms = (ok, e', ms')"
  shows "stream e' ms' = stream e ms \<and> e_source e' = Some list_source \<and> e_bufsize e' = e_bufsize e \<and>
    (\<not> ok \<longrightarrow> stream e ms = [])"
proof (cases "e_next e")
  case E_size_ready
  then show ?thesis
    using assms by (auto simp: enc_run_def enc_size_ready_def enc_next_step_def stream_def pending_def msg_bytes_def)
next
  case E_message_ready
  then show ?thesis
    using assms
    by (cases ms)
      (auto simp: enc_run_def enc_message_ready_def enc_next_step_def stream_def pending_def msg_bytes_def
        frame_def Let_def split: if_splits)
qed

lemma enc_refill_stream:
  assumes "e_source e = Some list_source" and "enc_refill pos offset e ms = (ok, offset', e', ms')"
  shows "stream e' ms' = stream e ms \<and> e_source e' = Some list_source \<and> (\<not> ok \<longrightarrow> stream e ms = [])"
proof (cases "e_write e = []")
  case True
  obtain ok1 e1 ms1 where r: "enc_run e ms = (ok1, e1, ms1)" by (metis prod_cases3)
  note st = enc_run_stream [OF assms(1) True r]
  have "stream (e1\<lparr>e_beginning := False\<rparr>) ms1 = stream e1 ms1" by (simp add: stream_def pending_def)
  then show ?thesis using assms(2) True r st by (auto simp: enc_refill_def split: if_splits)
next
  case False
  with assms show ?thesis by (auto simp: enc_refill_def)
qed

text \<open>One call of \<open>get_data\<close>: the bytes returned come next in the stream; fewer than the
  buffer holds are returned only when there is nothing left.\<close>

lemma enc_loop_stream:
  assumes "e_source e = Some list_source" and "enc_loop own out room offset e ms = (bs, offset', e', ms')"
  shows "bs @ stream e' ms' = out @ stream e ms \<and> e_source e' = Some list_source \<and>
    (length bs < length out + room \<longrightarrow> stream e' ms' = [])"
  using assms
proof (induction own out room offset e ms arbitrary: bs offset' e' ms' rule: enc_loop.induct)
  case (1 own out room offset e ms)
  obtain ok off1 e1 ms1 where r: "enc_refill (length out) offset e ms = (ok, off1, e1, ms1)" by (metis prod_cases4)
  note st = enc_refill_stream [OF 1(2) r]
  let ?n = "min (length (e_write e1)) room"
  let ?out = "out @ take ?n (e_write e1)" and ?e = "e1\<lparr>e_write := drop ?n (e_write e1)\<rparr>"
  have cut: "?out @ stream ?e ms1 = out @ stream e1 ms1" by (simp add: stream_def pending_def)
  consider (fail) "\<not> ok" | (zero) "ok" "out = [] \<and> own \<and> length (e_write e1) \<ge> room"
    | (full) "ok" "\<not> (out = [] \<and> own \<and> length (e_write e1) \<ge> room)" "room = ?n"
    | (loop) "ok" "\<not> (out = [] \<and> own \<and> length (e_write e1) \<ge> room)" "room \<noteq> ?n" by blast
  then show ?case
  proof cases
    case fail
    with 1(3) r st show ?thesis by (subst (asm) enc_loop.simps) auto
  next
    case zero
    with 1(3) r st show ?thesis by (subst (asm) enc_loop.simps) (auto simp: stream_def pending_def)
  next
    case full
    then have "(bs, offset', e', ms') = (?out, off1, ?e, ms1)"
      using 1(3) r by (subst (asm) enc_loop.simps) (auto simp: Let_def)
    then show ?thesis using st cut full(3) by auto
  next
    case loop
    have lt: "length (e_write e1) < room" using loop(3) by (auto simp: min_def split: if_splits)
    have "enc_loop own out room offset e ms = enc_loop own ?out (room - ?n) off1 ?e ms1"
      using loop(1,2) lt r by (subst (1) enc_loop.simps) (auto simp: Let_def min_def)
    then have l: "enc_loop own ?out (room - ?n) off1 ?e ms1 = (bs, offset', e', ms')" using 1(3) by simp
    have "bs @ stream e' ms' = ?out @ stream ?e ms1 \<and> e_source e' = Some list_source \<and>
      (length bs < length ?out + (room - ?n) \<longrightarrow> stream e' ms' = [])"
      by (rule 1(1) [OF r [symmetric] refl refl _ _ refl refl refl]) (use loop st l in auto)
    then show ?thesis using cut st by auto
  qed
qed

section \<open>What the decoder reads\<close>

text \<open>There is room for what is to be read.\<close>

definition dec_ok :: "'s decoder \<Rightarrow> bool" where
  "dec_ok d \<longleftrightarrow> length (d_tmpbuf d) = 8 \<and> m_body (d_in_progress d) \<noteq> Delimiter \<and> (d_next d = None \<longrightarrow> d_to_read d = 0) \<and>
     (case d_target d of To_tmpbuf \<Rightarrow> d_read_pos d + d_to_read d \<le> 8
      | To_message \<Rightarrow> d_next d = Some D_message_ready \<and>
          d_read_pos d + d_to_read d \<le> length (msg_bytes (d_in_progress d)))"

lemma dec_run_ok:
  assumes "dec_ok d" and "d_to_read d = 0" and "dec_run alloc d s = (ok, d', s')"
  shows "dec_ok d'" and "d_destination d' = d_destination d"
  using assms
  by (auto simp: dec_run_def dec_one_byte_size_ready_def dec_eight_byte_size_ready_def dec_flags_ready_def
      dec_message_ready_def dec_init_size_def dec_next_step_def dec_ok_def decoding_error_def Let_def
      empty_msg_def msg_bytes_def
      split: option.splits dec_step.splits if_splits prod.splits bool.splits dec_target.splits)

lemma dec_fill_ok:
  assumes "dec_ok d" and "length bs \<le> d_to_read d"
  shows "dec_ok (dec_fill bs d)" and "d_to_read (dec_fill bs d) = d_to_read d - length bs"
    and "d_destination (dec_fill bs d) = d_destination d" and "d_next (dec_fill bs d) = d_next d"
  using assms by (auto simp: dec_ok_def dec_fill_def Let_def msg_bytes_def split: dec_target.splits)

lemma dec_fill_append:
  assumes "dec_ok d" and "length xs + length ys \<le> d_to_read d"
  shows "dec_fill ys (dec_fill xs d) = dec_fill (xs @ ys) d"
proof (cases "d_target d")
  case To_tmpbuf
  then show ?thesis using assms by (simp add: dec_fill_def dec_ok_def Let_def ac_simps)
next
  case To_message
  then show ?thesis using assms by (simp add: dec_fill_def dec_ok_def Let_def msg_bytes_def ac_simps)
qed

lemma dec_settle_some: "d_to_read d \<noteq> 0 \<Longrightarrow> dec_settle alloc d s = (True, d, s)"
  by (subst dec_settle.simps) simp

lemma dec_settle_run:
  "d_to_read d = 0 \<Longrightarrow> dec_run alloc d s = (True, d', s') \<Longrightarrow> dec_settle alloc d s = dec_settle alloc d' s'"
  by (subst dec_settle.simps) simp

lemma dec_settle_ok:
  "dec_ok d \<Longrightarrow> dec_settle alloc d s = (ok, d', s') \<Longrightarrow>
   dec_ok d' \<and> d_destination d' = d_destination d \<and> (ok \<longrightarrow> d_to_read d' \<noteq> 0)"
proof (induction alloc d s rule: dec_settle.induct)
  case (1 alloc d s)
  show ?case
  proof (cases "d_to_read d = 0")
    case True
    obtain ok1 d1 s1 where r: "dec_run alloc d s = (ok1, d1, s1)" by (metis prod_cases3)
    note ro = dec_run_ok [OF 1(2) True r]
    show ?thesis
    proof (cases ok1)
      case ok: True
      then have st: "dec_settle alloc d1 s1 = (ok, d', s')"
        using dec_settle_run [OF True] r 1(3) by simp
      from 1(1) [OF _ r [symmetric] refl _ ro(1) st] True ok ro(2) show ?thesis by simp
    next
      case False
      with 1(3) r True ro show ?thesis by (subst (asm) dec_settle.simps) auto
    qed
  next
    case False
    with 1(2,3) show ?thesis by (simp add: dec_settle_some)
  qed
qed

text \<open>One read of all that is wanted, and one action of the state machine.\<close>

lemma dec_loop_read:
  assumes "d_to_read d = n" and "0 < n" and "n \<le> length data"
  shows "dec_loop alloc pos data d s = dec_loop alloc (pos + n) (drop n data) (dec_fill (take n data) d) s"
  using assms by (subst dec_loop.simps) (auto simp: dec_settle_some Let_def min_def)

lemma dec_loop_run:
  assumes "d_to_read d = 0" and "dec_run alloc d s = (True, d', s')"
  shows "dec_loop alloc pos data d s = dec_loop alloc pos data d' s'"
  using assms unfolding dec_loop.simps [of alloc pos data d] dec_loop.simps [of alloc pos data d']
  by (simp add: dec_settle_run)

text \<open>\<open>dec_idle\<close>: between two messages.  \<open>dec_wants n\<close>: \<open>n\<close> bytes of the next field are to come.\<close>

definition dec_idle :: "msg list decoder \<Rightarrow> bool" where
  "dec_idle d \<longleftrightarrow> length (d_tmpbuf d) = 8 \<and> d_target d = To_tmpbuf \<and> d_read_pos d = 0 \<and> d_to_read d = 1 \<and>
     d_next d = Some D_one_byte_size_ready \<and> d_destination d = Some list_destination \<and> d_in_progress d = empty_msg"

lemma dec_fill_idle:
  "dec_idle d \<Longrightarrow> dec_fill [b] d = d\<lparr>d_tmpbuf := b # drop 1 (d_tmpbuf d), d_read_pos := 1, d_to_read := 0\<rparr>"
  by (simp add: dec_idle_def dec_fill_def Let_def)

text \<open>A destination that takes everything: the loop stops at the end of the data or at an error.\<close>

lemma dec_settle_accepting:
  "d_destination d = Some list_destination \<Longrightarrow> dec_settle alloc d s = (False, d', s') \<Longrightarrow> d_next d' = None"
proof (induction alloc d s rule: dec_settle.induct)
  case (1 alloc d s)
  obtain ok1 d1 s1 where r: "dec_run alloc d s = (ok1, d1, s1)" by (metis prod_cases3)
  have z: "d_to_read d = 0" using 1(3) by (metis dec_settle_some prod.inject)
  show ?case
  proof (cases ok1)
    case True
    then have "dec_settle alloc d1 s1 = (False, d', s')" using dec_settle_run [OF z] r 1(3) by simp
    moreover have "d_destination d1 = d_destination d"
      using r by (auto simp: dec_run_def dec_one_byte_size_ready_def dec_eight_byte_size_ready_def
        dec_flags_ready_def dec_message_ready_def dec_init_size_def dec_next_step_def decoding_error_def Let_def
        split: option.splits dec_step.splits if_splits prod.splits bool.splits)
    ultimately show ?thesis using 1(1) [OF _ r [symmetric] refl] z True 1(2) by simp
  next
    case False
    then have "d1 = d'" using 1(3) r z by (subst (asm) dec_settle.simps) simp
    then show ?thesis
      using r False 1(2)
      by (auto simp: dec_run_def dec_one_byte_size_ready_def dec_eight_byte_size_ready_def dec_flags_ready_def
        dec_message_ready_def dec_init_size_def dec_next_step_def decoding_error_def list_destination_def Let_def
        split: option.splits dec_step.splits if_splits prod.splits bool.splits)
  qed
qed

lemma dec_loop_settled:
  assumes "dec_settle alloc d s = (True, d1, s1)" and "d_to_read d1 \<noteq> 0"
  shows "dec_loop alloc pos data d s = dec_loop alloc pos data d1 s1"
  using assms unfolding dec_loop.simps [of alloc pos data d] dec_loop.simps [of alloc pos data d1]
  by (simp add: dec_settle_some)

lemma dec_loop_step:
  assumes "d_to_read d \<noteq> 0" and "data \<noteq> []"
  shows "dec_loop alloc pos data d s =
    dec_loop alloc (pos + min (d_to_read d) (length data)) (drop (d_to_read d) data) (dec_fill (take (d_to_read d) data) d) s"
  using assms unfolding dec_loop.simps [of alloc pos data d] by (simp add: dec_settle_some Let_def min_def)

lemma dec_loop_end: "d_to_read d \<noteq> 0 \<Longrightarrow> dec_loop alloc pos [] d s = (Some pos, d, s)"
  by (subst dec_loop.simps) (simp add: dec_settle_some)

lemma dec_loop_part:
  assumes "dec_ok d" and "length xs < d_to_read d" and "xs \<noteq> []"
  shows "dec_loop alloc pos (xs @ ys) d s = dec_loop alloc (pos + length xs) ys (dec_fill xs d) s"
proof -
  note f = dec_fill_ok [OF assms(1), of xs]
  show ?thesis
  proof (cases "ys = []")
    case True
    then show ?thesis using assms by (subst dec_loop_step) auto
  next
    case False
    let ?n = "d_to_read d - length xs"
    have "dec_loop alloc pos (xs @ ys) d s =
      dec_loop alloc (pos + length xs + min ?n (length ys)) (drop ?n ys) (dec_fill (xs @ take ?n ys) d) s"
      using assms False by (subst dec_loop_step) (auto simp: min_def ac_simps)
    also have "dec_fill (xs @ take ?n ys) d = dec_fill (take ?n ys) (dec_fill xs d)"
      using dec_fill_append [OF assms(1), of xs "take ?n ys"] assms(2) by simp
    finally show ?thesis
      using dec_loop_step [of "dec_fill xs d" ys alloc "pos + length xs" s] f False assms(2) by simp
  qed
qed

lemma dec_loop_append:
  assumes "dec_loop alloc pos xs d s = (r, d1, s1)" and "dec_ok d"
    and "d_destination d = Some list_destination" 
  shows "case r of None \<Rightarrow> dec_loop alloc pos (xs @ ys) d s = (None, d1, s1)
    | Some p \<Rightarrow> p = pos + length xs \<and> dec_ok d1 \<and> d_destination d1 = Some list_destination \<and> d_next d1 \<noteq> None \<and> d_to_read d1 \<noteq> 0 \<and>
        dec_loop alloc pos (xs @ ys) d s = dec_loop alloc p ys d1 s1"
  using assms
proof (induction alloc pos xs d s arbitrary: r d1 s1 rule: dec_loop.induct)
  case (1 alloc pos xs d s)
  obtain ok d2 s2 where st: "dec_settle alloc d s = (ok, d2, s2)" by (metis prod_cases3)
  note so = dec_settle_ok [OF 1(3) st]
  show ?case
  proof (cases ok)
    case False
    with dec_settle_accepting [OF 1(4)] st have n: "d_next d2 = None" by simp
    have e: "dec_loop alloc pos data d s = (None, d2, s2)" for data
      using st False n by (subst dec_loop.simps) simp
    show ?thesis using 1(2) e by simp
  next
    case ok: True
    then have nz: "d_to_read d2 \<noteq> 0" and ok2: "dec_ok d2" and dst: "d_destination d2 = Some list_destination"
      using so 1(4) by auto
    have sh: "dec_loop alloc pos data d s = dec_loop alloc pos data d2 s2" for data
      using dec_loop_settled [of alloc d s d2 s2] st nz ok by simp
    show ?thesis
    proof (cases "xs = []")
      case True
      then have "r = Some pos" "d1 = d2" "s1 = s2"
        using 1(2) sh [of "[]"] dec_loop_end [OF nz, of alloc pos s2] by auto
      then show ?thesis using True ok2 nz dst sh by (auto simp: dec_ok_def)
    next
      case xs: False
      show ?thesis
      proof (cases "length xs < d_to_read d2")
        case True
        note f = dec_fill_ok [OF ok2, of xs]
        have "dec_loop alloc pos xs d s = (Some (pos + length xs), dec_fill xs d2, s2)"
          using sh [of xs] dec_loop_part [OF ok2 True xs, of alloc pos "[]" s2] True f
          by (simp add: dec_loop_end)
        then have r: "r = Some (pos + length xs)" "d1 = dec_fill xs d2" "s1 = s2" using 1(2) by auto
        show ?thesis
          using sh [of "xs @ ys"] dec_loop_part [OF ok2 True xs, of alloc pos ys s2] f dst ok2 nz True
          unfolding r by (auto simp: dec_ok_def)
      next
        case False
        let ?k = "d_to_read d2" and ?d = "dec_fill (take (d_to_read d2) xs) d2"
        have k: "dec_loop alloc pos (xs @ zs) d s = dec_loop alloc (pos + ?k) (drop ?k xs @ zs) ?d s2" for zs
          using sh [of "xs @ zs"] dec_loop_read [OF refl, of d2 "xs @ zs" alloc pos s2] nz False by simp
        have l: "dec_loop alloc (pos + ?k) (drop ?k xs) ?d s2 = (r, d1, s1)" using k [of "[]"] 1(2) by simp
        note f = dec_fill_ok [OF ok2, of "take ?k xs"]
        have mk: "min ?k (length xs) = ?k" using False by simp
        have "case r of None \<Rightarrow> dec_loop alloc (pos + ?k) (drop ?k xs @ ys) ?d s2 = (None, d1, s1)
          | Some p \<Rightarrow> p = pos + ?k + length (drop ?k xs) \<and> dec_ok d1 \<and> d_destination d1 = Some list_destination \<and>
              d_next d1 \<noteq> None \<and> d_to_read d1 \<noteq> 0 \<and> dec_loop alloc (pos + ?k) (drop ?k xs @ ys) ?d s2 = dec_loop alloc p ys d1 s1"
          using 1(1) [OF st [symmetric] refl _ xs refl, unfolded mk, OF _ _ l] ok nz f dst by simp
        then show ?thesis using k [of ys] False by (auto split: option.splits)
      qed
    qed
  qed
qed

text \<open>The frame of one message, read by an idle decoder.\<close>

lemma dec_loop_deliver:
  assumes "length (d_tmpbuf d) = 8" and "d_destination d = Some list_destination"
    and "d_target d = To_message" and "d_read_pos d = 0" and "d_to_read d = length bs"
    and "d_next d = Some D_message_ready"
    and "d_in_progress d = \<lparr>m_body = Data (replicate (length bs) 0), m_flags = fl\<rparr>"
  shows "\<exists>d'. dec_idle d' \<and>
    dec_loop alloc pos (bs @ rest) d s = dec_loop alloc (pos + length bs) rest d' (s @ [\<lparr>m_body = Data bs, m_flags = fl\<rparr>])"
proof -
  define d1 where "d1 = d\<lparr>d_in_progress := \<lparr>m_body = Data bs, m_flags = fl\<rparr>, d_read_pos := length bs, d_to_read := 0\<rparr>"
  define d2 where "d2 = dec_next_step To_tmpbuf 1 D_one_byte_size_ready (d1\<lparr>d_in_progress := empty_msg\<rparr>)"
  have r: "dec_run alloc d1 s = (True, d2, s @ [\<lparr>m_body = Data bs, m_flags = fl\<rparr>])"
    using assms by (simp add: d1_def d2_def dec_run_def dec_message_ready_def list_destination_def)
  have "dec_loop alloc pos (bs @ rest) d s = dec_loop alloc (pos + length bs) rest d1 s"
  proof (cases "bs = []")
    case True
    then have "d1 = d" using assms by (simp add: d1_def)
    then show ?thesis using True by simp
  next
    case False
    have "dec_fill bs d = d1" using assms by (simp add: dec_fill_def d1_def)
    then show ?thesis using dec_loop_read [OF assms(5), of "bs @ rest" alloc pos s] False by simp
  qed
  also have "\<dots> = dec_loop alloc (pos + length bs) rest d2 (s @ [\<lparr>m_body = Data bs, m_flags = fl\<rparr>])"
    by (rule dec_loop_run [OF _ r]) (simp add: d1_def)
  finally show ?thesis
    using assms by (intro exI [of _ d2]) (simp add: dec_idle_def d2_def d1_def dec_next_step_def)
qed

lemma dec_loop_body:
  assumes "length (d_tmpbuf d) = 8" and "d_destination d = Some list_destination"
    and "d_target d = To_tmpbuf" and "d_read_pos d = 0" and "d_to_read d = 1" and "d_next d = Some D_flags_ready"
    and "d_in_progress d = \<lparr>m_body = Data (replicate (length bs) 0), m_flags = fl0\<rparr>"
  shows "\<exists>d'. dec_idle d' \<and>
    dec_loop alloc pos ((fl # bs) @ rest) d s =
    dec_loop alloc (pos + 1 + length bs) rest d' (s @ [\<lparr>m_body = Data bs, m_flags = fl OR NOT ZMQ_MSG_MASK\<rparr>])"
proof -
  define d1 where "d1 = d\<lparr>d_tmpbuf := fl # drop 1 (d_tmpbuf d), d_read_pos := 1, d_to_read := 0\<rparr>"
  define d2 where "d2 = dec_next_step To_message (length bs) D_message_ready
    (d1\<lparr>d_in_progress := \<lparr>m_body = Data (replicate (length bs) 0), m_flags = fl OR NOT ZMQ_MSG_MASK\<rparr>\<rparr>)"
  have r: "dec_run alloc d1 s = (True, d2, s)"
    using assms by (simp add: d1_def d2_def dec_run_def dec_flags_ready_def Let_def)
  have "dec_fill [fl] d = d1" using assms by (simp add: dec_fill_def d1_def)
  then have "dec_loop alloc pos ((fl # bs) @ rest) d s = dec_loop alloc (pos + 1) (bs @ rest) d1 s"
    using dec_loop_read [OF assms(5), of "(fl # bs) @ rest" alloc pos s] by simp
  also have "\<dots> = dec_loop alloc (pos + 1) (bs @ rest) d2 s"
    by (rule dec_loop_run [OF _ r]) (simp add: d1_def)
  finally show ?thesis
    using dec_loop_deliver [of d2 bs "fl OR NOT ZMQ_MSG_MASK" alloc "pos + 1" rest s] assms
    by (simp add: d2_def d1_def dec_next_step_def)
qed

lemma frame_size:
  assumes "length bs + 1 < 2 ^ 64"
  shows "unat ((of_nat (length bs) :: u64) + 1) = length bs + 1"
  using assms by (simp add: unat_word_ariths unat_of_nat)

lemma dec_loop_frame:
  assumes "dec_idle d" and "alloc (length (msg_bytes m))" and "length (msg_bytes m) + 1 < 2 ^ 64"
  shows "\<exists>d'. dec_idle d' \<and> dec_loop alloc pos (frame m @ rest) d s =
    dec_loop alloc (pos + length (frame m)) rest d' (s @ [wire_msg m])"
proof -
  let ?bs = "msg_bytes m" and ?fl = "m_flags m AND ZMQ_MSG_MORE"
  define size where "size = (of_nat (length ?bs) :: u64) + 1"
  have us: "unat size = length ?bs + 1" using frame_size [OF assms(3)] by (simp add: size_def)
  have sz: "size \<noteq> 0" using us by (metis add_is_0 one_neq_zero unsigned_0)
  have us1: "unat (size - 1) = length ?bs" using us sz by (simp add: unat_minus_one)
  define msg0 where "msg0 = \<lparr>m_body = Data (replicate (length ?bs) 0), m_flags = NOT ZMQ_MSG_MASK\<rparr>"
  have idle: "length (d_tmpbuf d) = 8" "d_target d = To_tmpbuf" "d_read_pos d = 0" "d_to_read d = 1"
    "d_next d = Some D_one_byte_size_ready" "d_destination d = Some list_destination"
    using assms(1) by (auto simp: dec_idle_def)
  have first: "dec_loop alloc pos (b # r) d s = dec_loop alloc (pos + 1) r (dec_fill [b] d) s" for b r
    using dec_loop_read [OF idle(4), of "b # r" alloc pos s] by simp
  have w: "\<lparr>m_body = Data ?bs, m_flags = ?fl OR NOT ZMQ_MSG_MASK\<rparr> = wire_msg m" by (simp add: wire_msg_def)
  show ?thesis
  proof (cases "size < 255")
    case True
    then have ub: "unat (ucast size :: byte) = unat size"
      by (simp add: unsigned_ucast_eq unsigned_take_bit_eq take_bit_nat_eq_self word_less_nat_alt)
    then have nb: "(ucast size :: byte) \<noteq> 0xff" "(ucast size :: byte) \<noteq> 0"
      using True us by (auto simp: word_less_nat_alt word_unat_eq_iff)
    have up: "(ucast (ucast size :: byte) :: u64) = size"
      using ub by (simp add: word_unat_eq_iff unsigned_ucast_eq unsigned_take_bit_eq take_bit_nat_eq_self)
    have fr: "frame m @ rest = ucast size # ((?fl # ?bs) @ rest)"
      using True by (simp add: frame_def size_def Let_def)
    define d1 where "d1 = dec_fill [ucast size :: byte] d"
    define d2 where "d2 = dec_next_step To_tmpbuf 1 D_flags_ready (d1\<lparr>d_in_progress := msg0\<rparr>)"
    have d1: "d1 = d\<lparr>d_tmpbuf := ucast size # drop 1 (d_tmpbuf d), d_read_pos := 1, d_to_read := 0\<rparr>"
      unfolding d1_def by (rule dec_fill_idle [OF assms(1)])
    have r: "dec_run alloc d1 s = (True, d2, s)"
      using idle nb us1 assms(2) up
      by (simp add: d1 d2_def dec_run_def dec_one_byte_size_ready_def dec_init_size_def msg0_def Let_def)
    have "dec_loop alloc pos (frame m @ rest) d s = dec_loop alloc (pos + 1) ((?fl # ?bs) @ rest) d2 s"
      unfolding fr first d1_def [symmetric] by (rule dec_loop_run [OF _ r]) (simp add: d1)
    moreover have "length (frame m) = 2 + length ?bs"
      using True by (simp add: frame_def size_def Let_def)
    ultimately show ?thesis
      using dec_loop_body [of d2 ?bs "NOT ZMQ_MSG_MASK" alloc "pos + 1" ?fl rest s] idle w
      by (simp add: d2_def d1 dec_next_step_def msg0_def)
  next
    case False
    let ?sz = "put_uint64 (replicate 8 0) size"
    have fr: "frame m @ rest = 0xff # (?sz @ (?fl # ?bs) @ rest)"
      using False by (simp add: frame_def size_def Let_def)
    define d1 where "d1 = dec_fill [0xff :: byte] d"
    define d2 where "d2 = dec_next_step To_tmpbuf 8 D_eight_byte_size_ready d1"
    define d3 where "d3 = dec_fill ?sz d2"
    define d4 where "d4 = dec_next_step To_tmpbuf 1 D_flags_ready (d3\<lparr>d_in_progress := msg0\<rparr>)"
    have d1: "d1 = d\<lparr>d_tmpbuf := 0xff # drop 1 (d_tmpbuf d), d_read_pos := 1, d_to_read := 0\<rparr>"
      unfolding d1_def by (rule dec_fill_idle [OF assms(1)])
    have r: "dec_run alloc d1 s = (True, d2, s)"
      using idle by (simp add: d1 d2_def dec_run_def dec_one_byte_size_ready_def Let_def)
    have d3: "d3 = d2\<lparr>d_tmpbuf := ?sz, d_read_pos := 8, d_to_read := 0\<rparr>"
      using idle by (simp add: d3_def d2_def d1 dec_fill_def dec_next_step_def)
    have r3: "dec_run alloc d3 s = (True, d4, s)"
      using us1 sz assms(2) get_put_uint64 [of "replicate 8 0" size]
      by (simp add: d3 d4_def d2_def dec_next_step_def dec_run_def dec_eight_byte_size_ready_def dec_init_size_def
        msg0_def Let_def)
    have "dec_loop alloc pos (frame m @ rest) d s = dec_loop alloc (pos + 1) (?sz @ (?fl # ?bs) @ rest) d2 s"
      unfolding fr first d1_def [symmetric] by (rule dec_loop_run [OF _ r]) (simp add: d1)
    also have "\<dots> = dec_loop alloc (pos + 1 + 8) ((?fl # ?bs) @ rest) d3 s"
      using dec_loop_read [of d2 8 "?sz @ (?fl # ?bs) @ rest" alloc "pos + 1" s]
      by (simp add: d3_def d2_def dec_next_step_def)
    also have "\<dots> = dec_loop alloc (pos + 1 + 8) ((?fl # ?bs) @ rest) d4 s"
      by (rule dec_loop_run [OF _ r3]) (simp add: d3)
    finally have "dec_loop alloc pos (frame m @ rest) d s = dec_loop alloc (pos + 9) ((?fl # ?bs) @ rest) d4 s"
      by (simp add: ac_simps)
    moreover have "length (frame m) = 10 + length ?bs"
      using False by (simp add: frame_def size_def Let_def)
    ultimately show ?thesis
      using dec_loop_body [of d4 ?bs "NOT ZMQ_MSG_MASK" alloc "pos + 9" ?fl rest s] idle w
      by (simp add: d4_def d3 d2_def d1 dec_next_step_def msg0_def ac_simps)
  qed
qed

lemma dec_loop_frames:
  assumes "dec_idle d" and "\<forall>m \<in> set ms. alloc (length (msg_bytes m)) \<and> length (msg_bytes m) + 1 < 2 ^ 64"
  shows "\<exists>d'. dec_idle d' \<and> dec_loop alloc pos (concat (map frame ms) @ rest) d s =
    dec_loop alloc (pos + length (concat (map frame ms))) rest d' (s @ map wire_msg ms)"
  using assms
proof (induction ms arbitrary: d pos s)
  case Nil
  then show ?case by auto
next
  case (Cons m ms)
  obtain d1 where d1: "dec_idle d1" and
    l: "dec_loop alloc pos (frame m @ concat (map frame ms) @ rest) d s =
      dec_loop alloc (pos + length (frame m)) (concat (map frame ms) @ rest) d1 (s @ [wire_msg m])"
    using dec_loop_frame [of d alloc m pos "concat (map frame ms) @ rest" s] Cons.prems by auto
  obtain d2 where "dec_idle d2" and
    "dec_loop alloc (pos + length (frame m)) (concat (map frame ms) @ rest) d1 (s @ [wire_msg m]) =
      dec_loop alloc (pos + length (frame m) + length (concat (map frame ms))) rest d2 (s @ [wire_msg m] @ map wire_msg ms)"
    using Cons.IH [OF d1, of "pos + length (frame m)" "s @ [wire_msg m]"] Cons.prems(2) by auto
  with l show ?case by (intro exI [of _ d2]) (simp add: ac_simps)
qed

lemma dec_run_appends:
  "dec_run alloc d s = (ok, d', s') \<Longrightarrow> d_destination d = Some list_destination \<Longrightarrow>
   prefix s s' \<and> d_destination d' = Some list_destination"
  by (auto simp: dec_run_def dec_one_byte_size_ready_def dec_eight_byte_size_ready_def dec_flags_ready_def
      dec_message_ready_def dec_init_size_def dec_next_step_def decoding_error_def list_destination_def Let_def
      split: option.splits dec_step.splits if_splits prod.splits bool.splits)

lemma dec_settle_appends:
  "dec_settle alloc d s = (ok, d', s') \<Longrightarrow> d_destination d = Some list_destination \<Longrightarrow>
   prefix s s' \<and> d_destination d' = Some list_destination"
proof (induction alloc d s rule: dec_settle.induct)
  case (1 alloc d s)
  obtain ok1 d1 s1 where r: "dec_run alloc d s = (ok1, d1, s1)" by (metis prod_cases3)
  note a = dec_run_appends [OF r 1(3)]
  show ?case
  proof (cases "d_to_read d = 0 \<and> ok1")
    case True
    then have "dec_settle alloc d1 s1 = (ok, d', s')" using dec_settle_run [of d alloc s d1 s1] r 1(2) by simp
    then have "prefix s1 s' \<and> d_destination d' = Some list_destination"
      using 1(1) [OF _ r [symmetric] refl] True a by simp
    then show ?thesis using a by (auto intro: prefix_order.trans)
  next
    case False
    have "dec_settle alloc d s = (if d_to_read d \<noteq> 0 then (True, d, s) else (False, d1, s1))"
      using False r by (subst dec_settle.simps) auto
    then have "s' = (if d_to_read d \<noteq> 0 then s else s1)" "d' = (if d_to_read d \<noteq> 0 then d else d1)"
      using 1(2) by (simp_all split: if_splits)
    then show ?thesis using 1(3) a by simp
  qed
qed

lemma dec_loop_appends:
  "dec_loop alloc pos data d s = (r, d', s') \<Longrightarrow> d_destination d = Some list_destination \<Longrightarrow> prefix s s'"
proof (induction alloc pos data d s rule: dec_loop.induct)
  case (1 alloc pos data d s)
  obtain ok d1 s1 where st: "dec_settle alloc d s = (ok, d1, s1)" by (metis prod_cases3)
  note a = dec_settle_appends [OF st 1(3)]
  let ?k = "min (d_to_read d1) (length data)"
  show ?case
  proof (cases "ok \<and> data \<noteq> [] \<and> ?k \<noteq> 0")
    case True
    then have k: "?k \<noteq> 0" by blast
    from True have l: "dec_loop alloc (pos + ?k) (drop ?k data) (dec_fill (take ?k data) d1) s1 = (r, d', s')"
      using 1(2) st k by (subst (asm) dec_loop.simps) (simp only: Let_def prod.case if_False not_True_eq_False)
    have "d_destination (dec_fill (take ?k data) d1) = Some list_destination"
      using a by (simp add: dec_fill_def Let_def split: dec_target.splits)
    then have "prefix s1 s'"
      using 1(1) [OF st [symmetric] refl _ _ refl _ l] True by auto
    then show ?thesis using a prefix_order.trans by blast
  next
    case False
    then show ?thesis using 1(2) st a by (subst (asm) dec_loop.simps) (auto simp: Let_def split: if_splits)
  qed
qed

section \<open>A connection\<close>

text \<open>The calls of the two engines: the sizes of the buffers the sender's engine offers, and the
  chunks in which the receiver's engine gets the bytes (it reads a chunk directly into the message
  when \<open>get_buffer\<close> says so).\<close>

fun enc_session ::
    "nat option list \<Rightarrow> 's encoder \<Rightarrow> 's \<Rightarrow> byte list list \<times> 's encoder \<times> 's" where
  "enc_session [] e s = ([], e, s)"
| "enc_session (q # qs) e s =
     (case enc_get_data q e s of (bs, offset, e, s) \<Rightarrow>
        case enc_session qs e s of (cs, e, s) \<Rightarrow> (bs # cs, e, s))"

fun dec_feed :: "(nat \<Rightarrow> bool) \<Rightarrow> byte list list \<Rightarrow> 's decoder \<Rightarrow> 's \<Rightarrow> bool \<times> 's decoder \<times> 's" where
  "dec_feed alloc [] d s = (True, d, s)"
| "dec_feed alloc (c # cs) d s =
     (case dec_process_buffer alloc (fst (dec_get_buffer d) \<and> length c \<le> d_to_read d) c d s of
        (None, d, s) \<Rightarrow> (False, d, s)
      | (Some n, d, s) \<Rightarrow> if n = length c then dec_feed alloc cs d s else (False, d, s))"

definition drained :: "'s encoder \<Rightarrow> bool" where
  "drained e \<longleftrightarrow> e_write e = [] \<and> e_next e = E_message_ready"

lemma frame_nonempty [simp]: "frame m \<noteq> []"
  by (simp add: frame_def Let_def)

lemma enc_get_data_stream:
  assumes "e_source e = Some list_source" and "enc_get_data q e ms = (bs, offset, e', ms')"
  shows "bs @ stream e' ms' = stream e ms \<and> e_source e' = Some list_source"
  using enc_loop_stream [OF assms(1), of "q = None" "[]"] assms(2) by (fastforce simp: enc_get_data_def)

lemma enc_session_stream:
  assumes "e_source e = Some list_source" and "enc_session qs e ms = (cs, e', ms')"
  shows "concat cs @ stream e' ms' = stream e ms"
  using assms
proof (induction qs arbitrary: e ms cs)
  case (Cons q qs)
  obtain bs off e1 ms1 where g: "enc_get_data q e ms = (bs, off, e1, ms1)" by (metis prod_cases4)
  obtain cs1 e2 ms2 where "enc_session qs e1 ms1 = (cs1, e2, ms2)" by (metis prod_cases3)
  with Cons g enc_get_data_stream [OF Cons.prems(1) g] show ?case by fastforce
qed simp

lemma dec_fill_nil: "dec_ok d \<Longrightarrow> dec_fill [] d = d"
  by (cases "d_target d"; cases "m_body (d_in_progress d)") (auto simp: dec_fill_def dec_ok_def Let_def)

lemma zero_copy_loop:
  assumes "dec_ok d" and "d_to_read d \<noteq> 0" and "length data \<le> d_to_read d"
  shows "dec_process_buffer alloc True data d s = dec_process_buffer alloc False data d s"
proof (cases "data = []")
  case True
  then show ?thesis using assms
    by (simp add: dec_process_buffer_def dec_fill_nil dec_settle_some dec_loop_end)
next
  case False
  have "dec_loop alloc 0 data d s = dec_loop alloc (length data) [] (dec_fill data d) s"
    using dec_loop_step [OF assms(2) False, of alloc 0 s] assms(3) by (simp add: min_absorb2)
  also have "\<dots> = (case dec_settle alloc (dec_fill data d) s of (ok, d, s) \<Rightarrow>
      if \<not> ok \<and> d_next d = None then (None, d, s) else (Some (length data), d, s))"
    by (subst dec_loop.simps) (auto split: prod.splits)
  finally show ?thesis using assms(1,2) by (auto simp: dec_process_buffer_def dec_ok_def)
qed

lemma dec_loop_pos:
  "dec_loop alloc (k + pos) data d s = (case dec_loop alloc pos data d s of (r, d, s) \<Rightarrow> (map_option ((+) k) r, d, s))"
proof (induction alloc pos data d s rule: dec_loop.induct)
  case (1 alloc pos data d s)
  obtain ok d1 s1 where st: "dec_settle alloc d s = (ok, d1, s1)" by (metis prod_cases3)
  let ?k = "min (d_to_read d1) (length data)"
  note sim = dec_loop.simps [of alloc "k + pos"] dec_loop.simps [of alloc pos data d]
  show ?case
  proof (cases "ok \<and> data \<noteq> [] \<and> ?k \<noteq> 0")
    case True
    then have k: "?k \<noteq> 0" by blast
    have "dec_loop alloc (k + (pos + ?k)) (drop ?k data) (dec_fill (take ?k data) d1) s1 =
      (case dec_loop alloc (pos + ?k) (drop ?k data) (dec_fill (take ?k data) d1) s1 of
        (r, d, s) \<Rightarrow> (map_option ((+) k) r, d, s))"
      using 1 [OF st [symmetric] refl _ _ refl] True by auto
    then show ?thesis
      unfolding sim using st True k
      by (simp only: Let_def prod.case if_False not_True_eq_False add.assoc)
  next
    case False
    then show ?thesis unfolding sim using st by (auto simp: Let_def)
  qed
qed

lemma dec_feed_loop:
  assumes "dec_ok d" and "d_destination d = Some list_destination" and "d_next d \<noteq> None" and "d_to_read d \<noteq> 0"
    and "dec_loop alloc 0 (concat cs) d s = (Some n, d', s')"
  shows "\<exists>d''. dec_feed alloc cs d s = (True, d'', s')"
  using assms
proof (induction cs arbitrary: d s n)
  case Nil
  then show ?case by (simp add: dec_loop_end)
next
  case (Cons c cs)
  obtain r d1 s1 where l: "dec_loop alloc 0 c d s = (r, d1, s1)" by (metis prod_cases3)
  note a = dec_loop_append [OF l Cons.prems(1,2), of "concat cs"]
  have p: "dec_process_buffer alloc z c d s = (r, d1, s1)" if "z \<longrightarrow> length c \<le> d_to_read d" for z
    using that zero_copy_loop [OF Cons.prems(1,4), of c alloc s] l Cons.prems(3)
    by (cases z) (simp_all add: dec_process_buffer_def del: not_None_eq)
  show ?case
  proof (cases r)
    case None
    then show ?thesis using a Cons.prems(5) by simp
  next
    case (Some k)
    then have k: "k = length c" "dec_ok d1" "d_destination d1 = Some list_destination" "d_next d1 \<noteq> None"
      "d_to_read d1 \<noteq> 0" "dec_loop alloc k (concat cs) d1 s1 = (Some n, d', s')"
      using a Cons.prems(5) by auto
    obtain n' where "dec_loop alloc 0 (concat cs) d1 s1 = (Some n', d', s')"
      using dec_loop_pos [of alloc k 0 "concat cs" d1 s1] k(6)
      by (cases "dec_loop alloc 0 (concat cs) d1 s1"; cases "fst (dec_loop alloc 0 (concat cs) d1 s1)") auto
    from Cons.IH [OF k(2-5) this] show ?thesis using p Some k(1) by auto
  qed
qed

lemma decoder_new_idle:
  "length g = 8 \<Longrightarrow> dec_idle (dec_set_inout (Some list_destination) (decoder_new n g))"
  by (simp add: dec_idle_def dec_set_inout_def decoder_new_def dec_next_step_def)

lemma dec_idle_ok: "dec_idle d \<Longrightarrow> dec_ok d \<and> d_destination d = Some list_destination \<and>
    d_next d \<noteq> None \<and> d_to_read d \<noteq> 0"
  by (simp add: dec_idle_def dec_ok_def empty_msg_def)

text \<open>C2 (roundtrip).  Two connected engines: whatever buffers the sender's engine offers to the
  encoder and in whatever chunks its output arrives, the decoder passes on the messages the source
  had, in their order, each with its data and its \<open>MORE\<close> flag, at any time some of the
  first ones, and all of them once the encoder has nothing left.\<close>

theorem codec_roundtrip:
  assumes "length tmp = 8" and "\<forall>m \<in> set ms. alloc (length (msg_bytes m)) \<and> length (msg_bytes m) + 1 < 2 ^ 64"
    and "enc_session qs (enc_set_inout (Some list_source) (encoder_new n tmp')) ms = (sent, e', ms')"
    and "concat received = concat sent"
  shows "\<exists>d' out. dec_feed alloc received (dec_set_inout (Some list_destination) (decoder_new n' tmp)) [] = (True, d', out)
    \<and> prefix out (map wire_msg ms) \<and> (drained e' \<and> ms' = [] \<longrightarrow> out = map wire_msg ms)"
proof -
  let ?e = "enc_set_inout (Some list_source) (encoder_new n tmp')"
  let ?d = "dec_set_inout (Some list_destination) (decoder_new n' tmp)" and ?all = "concat (map frame ms)"
  note idle = decoder_new_idle [OF assms(1), of n']
  note ok = dec_idle_ok [OF idle]
  have "stream ?e ms = ?all"
    by (simp add: stream_def pending_def enc_set_inout_def encoder_new_def enc_next_step_def)
  then have all: "concat received @ stream e' ms' = ?all"
    using enc_session_stream [OF _ assms(3)] assms(4) by (simp add: enc_set_inout_def)
  obtain d2 where d2: "dec_idle d2" and "dec_loop alloc 0 (?all @ []) ?d [] =
      dec_loop alloc (0 + length ?all) [] d2 ([] @ map wire_msg ms)"
    using dec_loop_frames [OF idle assms(2), of 0 "[]" "[]"] by blast
  then have full: "dec_loop alloc 0 ?all ?d [] = (Some (length ?all), d2, map wire_msg ms)"
    using dec_idle_ok [OF d2] by (simp add: dec_loop_end)
  obtain r d1 out where l: "dec_loop alloc 0 (concat received) ?d [] = (r, d1, out)" by (metis prod_cases3)
  note app = dec_loop_append [OF l, of "stream e' ms'", unfolded all, unfolded full]
  obtain k where k: "r = Some k" using app ok by (cases r) auto
  with app ok have rest: "d_destination d1 = Some list_destination" "d_to_read d1 \<noteq> 0"
    "dec_loop alloc k (stream e' ms') d1 out = (Some (length ?all), d2, map wire_msg ms)" by auto
  have "prefix out (map wire_msg ms)" using dec_loop_appends [OF rest(3,1)] .
  moreover have "out = map wire_msg ms" if "drained e' \<and> ms' = []"
    using that rest(2,3) by (simp add: stream_def pending_def drained_def dec_loop_end)
  moreover obtain d'' where "dec_feed alloc received ?d [] = (True, d'', out)"
    using dec_feed_loop [of ?d alloc received "[]" k d1 out] ok l k by auto
  ultimately show ?thesis by auto
qed

definition test_parts :: "msg list" where
  "test_parts = [\<lparr>m_body = Data [1, 2, 3], m_flags = 1\<rparr>, \<lparr>m_body = Data [], m_flags = 0\<rparr>]"

lemma codec_roundtrip_witness:
  "\<exists>d' out. dec_feed (\<lambda>_. True) [[4, 1, 1], [2, 3], [1, 0]]
      (dec_set_inout (Some list_destination) (decoder_new 8192 (replicate 8 0))) [] = (True, d', out)
    \<and> prefix out (map wire_msg test_parts) \<and> out = map wire_msg test_parts"
proof -
  define e where "e = enc_set_inout (Some list_source) (encoder_new 8192 (replicate 10 0))"
  have "case enc_session [Some 4, Some 100] (enc_set_inout (Some list_source) (encoder_new 8192 (replicate 10 0))) test_parts of
    (sent, e', ms') \<Rightarrow> sent = [[4, 1, 1, 2], [3, 1, 0]] \<and> drained e' \<and> ms' = []"
    by code_simp
  then obtain e' where e': "enc_session [Some 4, Some 100] e test_parts = ([[4, 1, 1, 2], [3, 1, 0]], e', [])"
    and "drained e'"
    unfolding e_def by (auto split: prod.splits)
  with codec_roundtrip [OF _ _ e' [unfolded e_def], where received = "[[4, 1, 1], [2, 3], [1, 0]]"
      and tmp = "replicate 8 0" and alloc = "\<lambda>_. True" and n' = 8192]
  show ?thesis by (simp add: test_parts_def msg_bytes_def)
qed

text \<open>A call of \<open>get_data\<close>: the bytes it returns are the next ones of the
  stream of frames, and it returns fewer than the buffer holds only when the source has run dry and
  everything has been written.\<close>

theorem encoder_next_bytes:
  assumes "e_source e = Some list_source" and "enc_get_data q e ms = (bs, offset, e', ms')"
  shows "bs @ stream e' ms' = stream e ms \<and>
    (length bs < (case q of None \<Rightarrow> e_bufsize e | Some n \<Rightarrow> n) \<longrightarrow> stream e' ms' = [])"
  using enc_loop_stream [OF assms(1), of "q = None" "[]"] assms(2) by (fastforce simp: enc_get_data_def)

lemma encoder_next_bytes_witness:
  "case enc_get_data (Some 4) (enc_set_inout (Some list_source) (encoder_new 8192 (replicate 10 0))) test_parts of
    (bs, offset, e', ms') \<Rightarrow> bs = [4, 1, 1, 2] \<and> bs @ stream e' ms' = concat (map frame test_parts)"
proof -
  have *: "e_source (enc_set_inout (Some list_source) (encoder_new 8192 (replicate 10 0))) = Some list_source"
    "stream (enc_set_inout (Some list_source) (encoder_new 8192 (replicate 10 0))) test_parts = concat (map frame test_parts)"
    by (simp_all add: enc_set_inout_def encoder_new_def enc_next_step_def stream_def pending_def)
  have "fst (enc_get_data (Some 4) (enc_set_inout (Some list_source) (encoder_new 8192 (replicate 10 0))) test_parts) =
    [4, 1, 1, 2]" by code_simp
  then show ?thesis using encoder_next_bytes [OF *(1)] *(2) by (auto split: prod.splits)
qed

text \<open>C15 (error).  A frame of size 0 (no flags byte) breaks the connection: the messages before it
  are passed on, the call that meets it reports the error, and so does every later call, whatever
  the bytes.\<close>

theorem decoder_rejects_zero_size:
  assumes "length tmp = 8" and "\<forall>m \<in> set ms. alloc (length (msg_bytes m)) \<and> length (msg_bytes m) + 1 < 2 ^ 64"
  shows "\<exists>d'. dec_process_buffer alloc False (concat (map frame ms) @ 0 # rest)
      (dec_set_inout (Some list_destination) (decoder_new n tmp)) [] = (None, d', map wire_msg ms) \<and>
    (\<forall>z more s. dec_process_buffer alloc z more d' s = (None, d', s))"
proof -
  let ?d = "dec_set_inout (Some list_destination) (decoder_new n tmp)" and ?all = "concat (map frame ms)"
  note idle = decoder_new_idle [OF assms(1), of n]
  note ok = dec_idle_ok [OF idle]
  obtain d2 where d2: "dec_idle d2" and l: "dec_loop alloc 0 (?all @ 0 # rest) ?d [] =
      dec_loop alloc (0 + length ?all) (0 # rest) d2 ([] @ map wire_msg ms)"
    using dec_loop_frames [OF idle assms(2), of 0 "0 # rest" "[]"] by blast
  let ?d2 = "d2\<lparr>d_tmpbuf := 0 # drop 1 (d_tmpbuf d2), d_read_pos := 1, d_to_read := 0\<rparr>"
  have r: "dec_run alloc ?d2 s = (False, ?d2\<lparr>d_next := None\<rparr>, s)" for s
    using d2 by (simp add: dec_idle_def dec_run_def dec_one_byte_size_ready_def decoding_error_def)
  have "dec_settle alloc ?d2 s = (False, ?d2\<lparr>d_next := None\<rparr>, s)" for s
    using r by (subst dec_settle.simps) simp
  then have "dec_loop alloc p rest ?d2 s = (None, ?d2\<lparr>d_next := None\<rparr>, s)" for p s
    by (subst dec_loop.simps) simp
  then have "dec_loop alloc 0 (?all @ 0 # rest) ?d [] = (None, ?d2\<lparr>d_next := None\<rparr>, map wire_msg ms)"
    using l dec_loop_read [of d2 1 "0 # rest"] dec_fill_idle [OF d2, of 0] dec_idle_ok [OF d2] d2
    by (simp add: dec_idle_def)
  then show ?thesis using ok
    by (intro exI [of _ "?d2\<lparr>d_next := None\<rparr>"]) (auto simp: dec_process_buffer_def)
qed

lemma decoder_rejects_zero_size_witness:
  "\<exists>d'. dec_process_buffer (\<lambda>_. True) False [2, 0, 7, 0, 9]
      (dec_set_inout (Some list_destination) (decoder_new 8192 (replicate 8 0))) [] =
    (None, d', [\<lparr>m_body = Data [7], m_flags = 0x7e\<rparr>])"
  using decoder_rejects_zero_size [of "replicate 8 0" "[\<lparr>m_body = Data [7], m_flags = 0\<rparr>]" "\<lambda>_. True" "[9]" 8192]
  by (auto simp: msg_bytes_def frame_def wire_msg_def zmq_flags)

text \<open>C16 (equivalence).  Reading directly into the message (zero copy, for large messages) has the
  effect of reading into the decoder's buffer and copying: the same result, the same decoder and the
  same messages passed on, for any destination.\<close>

theorem decoder_zero_copy:
  assumes "dec_ok d" and "d_to_read d \<noteq> 0" and "length data \<le> d_to_read d"
  shows "dec_process_buffer alloc True data d s = dec_process_buffer alloc False data d s"
  using assms by (rule zero_copy_loop)

lemma decoder_zero_copy_witness:
  "let d = decoder_new 1 (replicate 8 0) :: unit decoder
   in dec_process_buffer (\<lambda>_. True) True [5] d () = dec_process_buffer (\<lambda>_. True) False [5] d ()"
  using decoder_zero_copy [of "decoder_new 1 (replicate 8 0) :: unit decoder" "[5]" "\<lambda>_. True" "()"]
  by (simp add: dec_ok_def decoder_new_def dec_next_step_def empty_msg_def)

end
