(* ===== verification/Pipe_Ends.thy ===== *)
theory Pipe_Ends
  imports Pipe Fq Lb
begin

text \<open>
  The ends of the pipes of a socket: the calls of \<open>Endpoint\<close> on a table of pipes
  (\<open>addr \<rightharpoonup> pipe_sys\<close>), each call going to the pipe with the address, the proofs of the laws
  that fair queueing and load balancing rely on, and what the two then guarantee.
\<close>

section \<open>The calls\<close>

type_synonym pipe_table = "addr \<rightharpoonup> pipe_sys"

definition on_pipe :: "(pipe_sys \<Rightarrow> ('a \<times> pipe_sys) option) \<Rightarrow> addr \<Rightarrow> pipe_table \<Rightarrow> ('a \<times> pipe_table) option" where
  "on_pipe f a t = do { s \<leftarrow> t a; (x, s) \<leftarrow> f s; Some (x, t(a \<mapsto> s)) }"

definition on_pipe_unit :: "(pipe_sys \<Rightarrow> pipe_sys option) \<Rightarrow> addr \<Rightarrow> pipe_table \<Rightarrow> pipe_table option" where
  "on_pipe_unit f a t = do { s \<leftarrow> t a; s \<leftarrow> f s; Some (t(a \<mapsto> s)) }"

definition pipe_reader_ops :: "pipe_table reader_ops" where
  "pipe_reader_ops =
     \<lparr>ro_read = on_pipe reader_read, ro_check_read = on_pipe reader_check_read,
      ro_terminate = on_pipe_unit reader_terminate, ro_set_event_sink = on_pipe_unit reader_set_event_sink\<rparr>"

definition pipe_writer_ops :: "(pipe_table, msg) writer_ops" where
  "pipe_writer_ops =
     \<lparr>wo_write = (\<lambda>a m. on_pipe (writer_write m) a), wo_check_write = (\<lambda>a m. on_pipe (writer_check_write m) a),
      wo_rollback = on_pipe_unit writer_rollback, wo_flush = on_pipe_unit writer_flush,
      wo_terminate = on_pipe_unit writer_terminate, wo_set_event_sink = on_pipe_unit writer_set_event_sink\<rparr>"

section \<open>The reading end\<close>

text \<open>\<open>reads s ms\<close>: the reader of the pipe \<open>s\<close> can be used, and \<open>ms\<close> are the messages it
  will return before it has to wait for another command.\<close>

definition reads :: "pipe_sys \<Rightarrow> msg list \<Rightarrow> bool" where
  "reads s ms \<longleftrightarrow> (\<exists>hwm. pipe_inv hwm s) \<and>
     (\<exists>r y p. pp_reader s = Some r \<and> pp_pipe s = Some y \<and> pipe_rep y p \<and> \<not> (r_active r \<and> r_terminating r) \<and>
        ms = (if r_active r then takeWhile (\<lambda>m. \<not> is_delimiter m) (ap_avail p) else []))"

lemma readsE:
  assumes "reads s ms"
  obtains hwm r y p where "pipe_inv hwm s" and "pp_reader s = Some r" and "pp_pipe s = Some y" and "pipe_rep y p"
    and "\<not> (r_active r \<and> r_terminating r)"
    and "ms = (if r_active r then takeWhile (\<lambda>m. \<not> is_delimiter m) (ap_avail p) else [])"
  using assms by (auto simp: reads_def)

lemma reads_passive:
  "pipe_inv hwm s \<Longrightarrow> pp_reader s = Some r \<Longrightarrow> \<not> r_active r \<Longrightarrow> pp_pipe s = Some y \<Longrightarrow> pipe_rep y p \<Longrightarrow> reads s []"
  unfolding reads_def by auto

lemma reader_delimited_result:
  assumes "pp_reader s = Some r" and "\<not> r_terminating r"
  obtains s' where "reader_delimited s = Some s'"
    and "pp_reader s' = Some (r\<lparr>r_active := False, r_terminating := True\<rparr>)" and "pp_pipe s' = pp_pipe s"
  using assms
  by (cases "r_sink r") (auto simp: reader_delimited_def reader_terminate_def pipe_event_def upd_reader_def send_to_writer_def Let_def)

lemma reads_read:
  assumes "reads s ms"
  shows "\<exists>v s'. reader_read s = Some (v, s') \<and>
    (case ms of [] \<Rightarrow> v = None \<and> reads s' [] | m # ms' \<Rightarrow> v = Some m \<and> reads s' ms')"
proof -
  obtain hwm r y p where s: "pipe_inv hwm s" "pp_reader s = Some r" "pp_pipe s = Some y" "pipe_rep y p"
    "\<not> (r_active r \<and> r_terminating r)" "ms = (if r_active r then takeWhile (\<lambda>m. \<not> is_delimiter m) (ap_avail p) else [])"
    using assms by (rule readsE)
  show ?thesis
  proof (cases "r_active r")
    case False
    with s assms show ?thesis by (auto simp: reader_read_def)
  next
    case act: True
    with s(5) have nt: "\<not> r_terminating r" by simp
    obtain b s' where inv: "reader_read s = Some (b, s')" "pipe_inv hwm s'"
      using reader_read_inv [OF s(1,2) nt] by blast
    from s(4) show ?thesis
    proof (cases rule: read_cases)
      case (empty y')
      then have e: "reader_read s = Some (None, s\<lparr>pp_pipe := Some y', pp_reader := Some (r\<lparr>r_active := False\<rparr>)\<rparr>)"
        using act s(2,3) by (simp add: reader_read_def upd_reader_def)
      with inv empty have "reads s' []" by (auto intro: reads_passive)
      then show ?thesis using e inv(1) s(6) empty(1) act by simp
    next
      case (ready y' v vs)
      show ?thesis
      proof (cases "is_delimiter v")
        case True
        obtain s2 where s2: "reader_delimited (s\<lparr>pp_pipe := Some y'\<rparr>) = Some s2"
          "pp_reader s2 = Some (r\<lparr>r_active := False, r_terminating := True\<rparr>)" "pp_pipe s2 = Some y'"
          using reader_delimited_result [of "s\<lparr>pp_pipe := Some y'\<rparr>" r] s(2) nt by auto
        then have "reader_read s = Some (None, s2)"
          using act s(2,3) ready(2) True by (simp add: reader_read_def is_delimiter_def)
        with inv s2 ready(3) have "reads s2 []" by (auto intro: reads_passive)
        then show ?thesis using \<open>reader_read s = Some (None, s2)\<close> s(6) ready(1) True act by simp
      next
        case False
        define n where "n = (if \<not> has_more v then r_msgs_read r + 1 else r_msgs_read r)"
        let ?s = "s\<lparr>pp_pipe := Some y', pp_reader := Some (r\<lparr>r_msgs_read := n\<rparr>)\<rparr>"
        let ?s' = "if r_lwm r > 0 \<and> n mod r_lwm r = 0 then ?s\<lparr>pp_to_writer := pp_to_writer s @ [Activate_writer n]\<rparr> else ?s"
        have e: "reader_read s = Some (Some v, ?s')"
          using act s(2,3) ready(2) False
          by (simp add: reader_read_def is_delimiter_def upd_reader_def send_to_writer_def n_def Let_def)
        have "reads ?s' (takeWhile (\<lambda>m. \<not> is_delimiter m) vs)"
          using inv e ready(3) act nt unfolding reads_def by (auto intro!: exI [of _ hwm] exI [of _ "p\<lparr>ap_avail := vs\<rparr>"])
        then show ?thesis using e s(6) ready(1) False act by simp
      qed
    qed
  qed
qed

lemma reads_check:
  assumes "reads s ms"
  shows "\<exists>s'. reader_check_read s = Some (ms \<noteq> [], s') \<and> reads s' ms"
proof -
  obtain hwm r y p where s: "pipe_inv hwm s" "pp_reader s = Some r" "pp_pipe s = Some y" "pipe_rep y p"
    "\<not> (r_active r \<and> r_terminating r)" "ms = (if r_active r then takeWhile (\<lambda>m. \<not> is_delimiter m) (ap_avail p) else [])"
    using assms by (rule readsE)
  show ?thesis
  proof (cases "r_active r")
    case False
    with s assms show ?thesis by (auto simp: reader_check_read_def)
  next
    case act: True
    with s(5) have nt: "\<not> r_terminating r" by simp
    obtain b s' where inv: "reader_check_read s = Some (b, s')" "pipe_inv hwm s'"
      using reader_check_read_inv [OF s(1,2) nt] by blast
    from s(4) show ?thesis
    proof (cases rule: check_read_cases)
      case (empty y')
      then have e: "reader_check_read s =
          Some (False, s\<lparr>pp_pipe := Some y', pp_reader := Some (r\<lparr>r_active := False\<rparr>)\<rparr>)"
        using act s(2,3) by (simp add: reader_check_read_def upd_reader_def)
      with inv empty have "reads s' []" by (auto intro: reads_passive)
      then show ?thesis using e inv(1) s(6) empty(1) act by simp
    next
      case (ready y' v vs)
      obtain y2 where y2: "ypipe_probe is_delimiter y' = Some (is_delimiter v, y2)" "pipe_rep y2 p"
        using probe_ypipe_rep [OF ready(3,1)] by blast
      show ?thesis
      proof (cases "is_delimiter v")
        case True
        from y2(2) obtain y3 where y3: "ypipe_read message_pipe_granularity y2 = Some (Some v, y3)"
          "pipe_rep y3 (p\<lparr>ap_avail := vs\<rparr>)"
          by (cases rule: read_cases) (use ready(1) in auto)
        obtain s2 where s2: "reader_delimited (s\<lparr>pp_pipe := Some y3\<rparr>) = Some s2"
          "pp_reader s2 = Some (r\<lparr>r_active := False, r_terminating := True\<rparr>)" "pp_pipe s2 = Some y3"
          using reader_delimited_result [of "s\<lparr>pp_pipe := Some y3\<rparr>" r] s(2) nt by auto
        then have "reader_check_read s = Some (False, s2)"
          using act s(2,3) ready(2) True y2(1) y3(1) by (simp add: reader_check_read_def)
        with inv s2 y3(2) have "reads s2 []" by (auto intro: reads_passive)
        then show ?thesis using \<open>reader_check_read s = Some (False, s2)\<close> s(6) ready(1) True act by simp
      next
        case False
        then have e: "reader_check_read s = Some (True, s\<lparr>pp_pipe := Some y2\<rparr>)"
          using act s(2,3) ready(2) y2(1) by (simp add: reader_check_read_def)
        have "reads (s\<lparr>pp_pipe := Some y2\<rparr>) ms"
          using inv e y2(2) s(2,5,6) unfolding reads_def by (auto intro: exI [of _ hwm])
        then show ?thesis using e s(6) ready(1) False act by simp
      qed
    qed
  qed
qed

lemma reads_terminate:
  assumes "reads s ms"
  shows "\<exists>s'. reader_terminate s = Some s' \<and> reads s' []"
proof -
  obtain hwm r y p where s: "pipe_inv hwm s" "pp_reader s = Some r" "pp_pipe s = Some y" "pipe_rep y p"
    "\<not> (r_active r \<and> r_terminating r)"
    using assms by (rule readsE)
  obtain s' where s': "reader_terminate s = Some s'" "pipe_inv hwm s'"
    using reader_terminate_inv [OF s(1)] s(2) by auto
  have "\<exists>r'. pp_reader s' = Some r' \<and> \<not> r_active r' \<and> pp_pipe s' = Some y"
    using s'(1) s(2,3,5) by (auto simp: reader_terminate_def upd_reader_def send_to_writer_def Let_def split: if_splits)
  then show ?thesis using s' s(4) reads_passive by blast
qed

section \<open>The writing end\<close>

text \<open>\<open>writes s c\<close>: the writer of the pipe \<open>s\<close> can be used; the pipe holds the messages \<open>fst c\<close>
  and the parts \<open>snd c\<close> of an unfinished one, for which there is room.\<close>

definition writes :: "pipe_sys \<Rightarrow> msg list \<times> msg list \<Rightarrow> bool" where
  "writes s c \<longleftrightarrow> (\<exists>hwm. pipe_inv hwm s) \<and>
     (\<exists>w y p. pp_writer s = Some w \<and> pp_pipe s = Some y \<and> pipe_rep y p \<and> c = (ap_avail p @ ap_pend p, ap_inc p) \<and>
        (ap_inc p \<noteq> [] \<longrightarrow> w_active w \<and> \<not> pipe_full w))"

lemma writesI:
  "pipe_inv hwm s \<Longrightarrow> pp_writer s = Some w \<Longrightarrow> pp_pipe s = Some y \<Longrightarrow> pipe_rep y p \<Longrightarrow>
   c = (ap_avail p @ ap_pend p, ap_inc p) \<Longrightarrow> (ap_inc p \<noteq> [] \<longrightarrow> w_active w \<and> \<not> pipe_full w) \<Longrightarrow> writes s c"
  unfolding writes_def by blast

lemma writesE:
  assumes "writes s c"
  obtains hwm w y p where "pipe_inv hwm s" and "pp_writer s = Some w" and "pp_pipe s = Some y" and "pipe_rep y p"
    and "\<not> w_swapping w" and "w_swap w = None" and "c = (ap_avail p @ ap_pend p, ap_inc p)"
    and "ap_inc p \<noteq> [] \<longrightarrow> w_active w \<and> \<not> pipe_full w"
proof -
  from assms obtain hwm w y p where *: "pipe_inv hwm s" "pp_writer s = Some w" "pp_pipe s = Some y" "pipe_rep y p"
    "c = (ap_avail p @ ap_pend p, ap_inc p)" "ap_inc p \<noteq> [] \<longrightarrow> w_active w \<and> \<not> pipe_full w"
    unfolding writes_def by blast
  from *(1,2) obtain r p' ns k W R M where "live_ok hwm s r w p' ns k W R M" by (rule inv_writer)
  then have "\<not> w_swapping w" "w_swap w = None" by (simp_all add: live_ok_def)
  with * that show thesis by blast
qed

lemma writes_check_write:
  assumes "writes s c"
  shows "\<exists>ok s'. writer_check_write m s = Some (ok, s') \<and> writes s' c \<and> (snd c \<noteq> [] \<longrightarrow> ok) \<and>
    (ok \<longrightarrow> s' = s \<and> (\<exists>w. pp_writer s = Some w \<and> w_active w \<and> \<not> pipe_full w))"
proof -
  from assms obtain hwm w y p where s: "pipe_inv hwm s" "pp_writer s = Some w" "pp_pipe s = Some y" "pipe_rep y p"
    "\<not> w_swapping w" "w_swap w = None" "c = (ap_avail p @ ap_pend p, ap_inc p)"
    "ap_inc p \<noteq> [] \<longrightarrow> w_active w \<and> \<not> pipe_full w" by (rule writesE)
  obtain b s' where inv: "writer_check_write m s = Some (b, s')" "pipe_inv hwm s'"
    using writer_check_write_inv [OF s(1,2)] by blast
  show ?thesis
  proof (cases "w_active w \<and> \<not> pipe_full w")
    case True
    with s assms show ?thesis by (intro exI [of _ True] exI [of _ s]) (simp add: writer_check_write_def)
  next
    case False
    let ?s = "if w_active w then s\<lparr>pp_writer := Some (w\<lparr>w_active := False\<rparr>)\<rparr> else s"
    have e: "writer_check_write m s = Some (False, ?s)"
      using False s(2,5,6) by (simp add: writer_check_write_def upd_writer_def)
    then have "pipe_inv hwm ?s" using inv by simp
    then have "writes ?s c"
      using s False unfolding writes_def by (cases "w_active w") (auto intro: exI [of _ hwm])
    then show ?thesis using e s(7,8) False by auto
  qed
qed

lemma writes_write:
  assumes wr: "writes s c" and nd: "\<not> is_delimiter m"
  shows "\<exists>ok s'. writer_write m s = Some (ok, s') \<and> writes s' (if ok then add_part m c else c) \<and> (snd c \<noteq> [] \<longrightarrow> ok)"
proof -
  obtain ok s1 where ch: "writer_check_write m s = Some (ok, s1)" "writes s1 c" "snd c \<noteq> [] \<longrightarrow> ok"
    "ok \<longrightarrow> s1 = s \<and> (\<exists>w. pp_writer s = Some w \<and> w_active w \<and> \<not> pipe_full w)"
    using writes_check_write [OF wr, of m] by blast
  show ?thesis
  proof (cases ok)
    case False
    with ch show ?thesis by (intro exI [of _ False] exI [of _ s1]) (simp add: writer_write_def)
  next
    case True
    from wr obtain hwm w y p where s: "pipe_inv hwm s" "pp_writer s = Some w" "pp_pipe s = Some y" "pipe_rep y p"
      "\<not> w_swapping w" "w_swap w = None" "c = (ap_avail p @ ap_pend p, ap_inc p)" by (rule writesE)
    have act: "w_active w" "\<not> pipe_full w" using ch(4) True s(2) by auto
    obtain b s' where inv: "writer_write m s = Some (b, s')" "pipe_inv hwm s'"
      using writer_write_inv [OF s(1,2) nd] by blast
    obtain y' where y': "ypipe_write message_pipe_granularity m (has_more m) y = Some y'"
      "pipe_rep y' (ap_write m (has_more m) p)"
      using write_ypipe_rep [OF s(4)] by blast
    define w1 where "w1 = (if \<not> has_more m then w\<lparr>w_msgs_written := w_msgs_written w + 1\<rparr> else w)"
    define s2 where "s2 = s\<lparr>pp_pipe := Some y', pp_writer := Some w1\<rparr>"
    have e: "writer_write m s = Some (True, s2)"
      using ch(1,4) True s(2,3,5) y'(1)
      by (simp add: writer_write_def pipe_write_def upd_writer_def s2_def w1_def)
    then have i: "pipe_inv hwm s2" using inv by simp
    have f: "pp_writer s2 = Some w1" "pp_pipe s2 = Some y'" by (simp_all add: s2_def)
    have a: "add_part m c = (ap_avail (ap_write m (has_more m) p) @ ap_pend (ap_write m (has_more m) p),
        ap_inc (ap_write m (has_more m) p))"
      using s(7) by (simp add: add_part_cases ap_write_def)
    have "ap_inc (ap_write m (has_more m) p) \<noteq> [] \<longrightarrow> w_active w1 \<and> \<not> pipe_full w1"
      using act by (simp add: ap_write_def w1_def)
    then have "writes s2 (add_part m c)" by (rule writesI [OF i f y'(2) a])
    then show ?thesis using e by auto
  qed
qed

lemma writes_flush:
  assumes "writes s c"
  shows "\<exists>s'. writer_flush s = Some s' \<and> writes s' c"
proof -
  from assms obtain hwm w y p where s: "pipe_inv hwm s" "pp_writer s = Some w" "pp_pipe s = Some y" "pipe_rep y p"
    "\<not> w_swapping w" "w_swap w = None" "c = (ap_avail p @ ap_pend p, ap_inc p)"
    "ap_inc p \<noteq> [] \<longrightarrow> w_active w \<and> \<not> pipe_full w" by (rule writesE)
  obtain s' where inv: "writer_flush s = Some s'" "pipe_inv hwm s'"
    using writer_flush_inv [OF s(1,2)] by blast
  from s(4) obtain y' where y': "ypipe_flush y = (fst (ap_flush p), y')" "pipe_rep y' (snd (ap_flush p))"
    by (rule flush_cases)
  have "pp_writer s' = Some w \<and> pp_pipe s' = Some y'"
    using inv(1) s(2,3,5) y'(1) by (auto simp: writer_flush_def pipe_flush_def send_to_reader_def Let_def split: if_splits)
  moreover have "c = (ap_avail (snd (ap_flush p)) @ ap_pend (snd (ap_flush p)), ap_inc (snd (ap_flush p)))"
    using s(7) by (simp add: ap_flush_def)
  moreover have "ap_inc (snd (ap_flush p)) = ap_inc p" by (simp add: ap_flush_def)
  ultimately have "writes s' c" using inv(2) y'(2) s(8) by (intro writesI [of hwm s' w y' "snd (ap_flush p)"]) simp_all
  with inv(1) show ?thesis by blast
qed

section \<open>The laws\<close>

definition readers_rep :: "pipe_table \<Rightarrow> (addr \<rightharpoonup> msg list) \<Rightarrow> bool" where
  "readers_rep t f \<longleftrightarrow> (\<forall>a ms. f a = Some ms \<longrightarrow> (\<exists>s. t a = Some s \<and> reads s ms))"

definition writers_rep :: "pipe_table \<Rightarrow> (addr \<rightharpoonup> msg list \<times> msg list) \<Rightarrow> bool" where
  "writers_rep t g \<longleftrightarrow> (\<forall>a c. g a = Some c \<longrightarrow> (\<exists>s. t a = Some s \<and> writes s c))"

lemma readers_rep_upd: "readers_rep t f \<Longrightarrow> reads s ms \<Longrightarrow> readers_rep (t(a \<mapsto> s)) (f(a \<mapsto> ms))"
  by (simp add: readers_rep_def)

lemma readers_rep_keep: "readers_rep t f \<Longrightarrow> f a = Some ms \<Longrightarrow> reads s ms \<Longrightarrow> readers_rep (t(a \<mapsto> s)) f"
  using readers_rep_upd [of t f s ms a] by (simp add: fun_upd_idem)

lemma writers_rep_upd: "writers_rep t g \<Longrightarrow> writes s c \<Longrightarrow> writers_rep (t(a \<mapsto> s)) (g(a \<mapsto> c))"
  unfolding writers_rep_def by (metis fun_upd_apply option.inject)

lemma writers_rep_keep: "writers_rep t g \<Longrightarrow> g a = Some c \<Longrightarrow> writes s c \<Longrightarrow> writers_rep (t(a \<mapsto> s)) g"
  using writers_rep_upd [of t g s c a] by (simp add: fun_upd_idem)

interpretation pr: message_readers readers_rep pipe_reader_ops
proof
  fix t f a
  assume rep: "readers_rep t f" and f: "f a = Some []"
  then obtain s where s: "t a = Some s" "reads s []" by (auto simp: readers_rep_def)
  then obtain s' where "reader_read s = Some (None, s')" "reads s' []" using reads_read [of s "[]"] by auto
  then show "\<exists>p'. ro_read pipe_reader_ops a t = Some (None, p') \<and> readers_rep p' f"
    using s(1) readers_rep_keep [OF rep f] by (simp add: pipe_reader_ops_def on_pipe_def del: fun_upd_apply)
next
  fix t f a m ms
  assume rep: "readers_rep t f" and f: "f a = Some (m # ms)"
  then obtain s where s: "t a = Some s" "reads s (m # ms)" by (auto simp: readers_rep_def)
  then obtain s' where "reader_read s = Some (Some m, s')" "reads s' ms" using reads_read [of s "m # ms"] by auto
  then show "\<exists>p'. ro_read pipe_reader_ops a t = Some (Some m, p') \<and> readers_rep p' (f(a \<mapsto> ms))"
    using s(1) readers_rep_upd [OF rep] by (simp add: pipe_reader_ops_def on_pipe_def del: fun_upd_apply)
next
  fix t f a ms
  assume rep: "readers_rep t f" and f: "f a = Some ms"
  then obtain s where s: "t a = Some s" "reads s ms" by (auto simp: readers_rep_def)
  then show "\<exists>p'. ro_check_read pipe_reader_ops a t = Some (ms \<noteq> [], p') \<and> readers_rep p' f"
    using reads_check [OF s(2)] readers_rep_keep [OF rep f]
    by (auto simp: pipe_reader_ops_def on_pipe_def simp del: fun_upd_apply)
  show "\<exists>p'. ro_terminate pipe_reader_ops a t = Some p' \<and> readers_rep p' (f(a \<mapsto> []))"
    using s(1) reads_terminate [OF s(2)] readers_rep_upd [OF rep]
    by (auto simp: pipe_reader_ops_def on_pipe_unit_def simp del: fun_upd_apply)
qed

interpretation pw: message_writers writers_rep pipe_writer_ops
proof
  fix t g a c and m :: msg
  assume rep: "writers_rep t g" and g: "g a = Some c" and nd: "\<not> is_delimiter m"
  from rep g obtain s where s: "t a = Some s" "writes s c" unfolding writers_rep_def by blast
  obtain ok s' where s': "writer_write m s = Some (ok, s')" "writes s' (if ok then add_part m c else c)"
    "snd c \<noteq> [] \<longrightarrow> ok"
    using writes_write [OF s(2) nd] by blast
  have "writers_rep (t(a \<mapsto> s')) (if ok then g(a \<mapsto> add_part m c) else g)"
    using s'(2) writers_rep_upd [OF rep] writers_rep_keep [OF rep g] by (cases ok) (simp_all del: fun_upd_apply add_part.simps)
  then show "\<exists>ok p'. wo_write pipe_writer_ops a m t = Some (ok, p') \<and>
      writers_rep p' (if ok then g(a \<mapsto> add_part m c) else g) \<and> (snd c \<noteq> [] \<longrightarrow> ok)"
    using s(1) s'(1,3) by (simp add: pipe_writer_ops_def on_pipe_def del: fun_upd_apply)
next
  fix t g a c and m :: msg
  assume rep: "writers_rep t g" and g: "g a = Some c"
  then obtain s where s: "t a = Some s" "writes s c" unfolding writers_rep_def by blast
  show "\<exists>ok p'. wo_check_write pipe_writer_ops a m t = Some (ok, p') \<and> writers_rep p' g"
    using s(1) writes_check_write [OF s(2), of m] writers_rep_keep [OF rep g]
    by (auto simp: pipe_writer_ops_def on_pipe_def simp del: fun_upd_apply)
  show "\<exists>p'. wo_flush pipe_writer_ops a t = Some p' \<and> writers_rep p' g"
    using s(1) writes_flush [OF s(2)] writers_rep_keep [OF rep g]
    by (auto simp: pipe_writer_ops_def on_pipe_unit_def simp del: fun_upd_apply)
qed

section \<open>Concrete pipes\<close>

text \<open>A new pipe, and what a run of a pipe has left to read.\<close>

lemma start_ends:
  "\<exists>s. pipe_start hwm = Some s \<and> writes s ([], [])"
proof -
  obtain y where y: "ypipe_init message_pipe_granularity = Some y" "pipe_rep y ap_init"
    using init_ypipe_rep [OF granularity_pos] by blast
  obtain s where s: "pipe_start hwm = Some s" "pipe_inv hwm s" using start_inv by blast
  then obtain w where "pp_writer s = Some w" "pp_pipe s = Some y"
    using y(1) by (auto simp: pipe_start_def create_pipe_def writer_new_def reader_set_writer_def reader_new_def
      reader_set_event_sink_def writer_set_event_sink_def upd_reader_def upd_writer_def zmq_assert_def)
  then have "writes s ([], [])"
    by (intro writesI [OF s(2) _ _ y(2)]) (simp_all add: ap_init_def)
  with s(1) show ?thesis by blast
qed

fun drain :: "nat \<Rightarrow> pipe_sys \<Rightarrow> msg list" where
  "drain 0 s = []"
| "drain (Suc n) s = (case reader_read s of Some (Some m, s) \<Rightarrow> m # drain n s | _ \<Rightarrow> [])"

lemma reads_drain: "reads s ms \<Longrightarrow> drain n s = take n ms"
proof (induction n arbitrary: s ms)
  case (Suc n)
  then show ?case using reads_read [OF Suc.prems] by (cases ms) auto
qed simp

lemma run_reads:
  assumes "run_from hwm as = Some s" and "map_option r_terminating (pp_reader s) = Some False"
    and "length (drain n s) < n"
  shows "reads s (drain n s)"
proof -
  note inv = reach_inv [OF reach_run_from [OF assms(1)]]
  obtain r where r: "pp_reader s = Some r" "\<not> r_terminating r" using assms(2) by (cases "pp_reader s") auto
  obtain w p ns k W R M where live: "live_ok hwm s r w p ns k W R M" using inv r by (rule inv_reader)
  then obtain y where y: "pp_pipe s = Some y" "pipe_rep y p" by (rule live_pipe)
  then obtain ms where ms: "reads s ms" using inv r unfolding reads_def by auto
  then have "ms = drain n s" using reads_drain [OF ms, of n] assms(3) by auto
  with ms show ?thesis by simp
qed

definition test_acts :: "pipe_act list" where
  "test_acts = [W_write msg1, W_write msg1, W_flush]"

lemma test_reads: "\<exists>s. run_from 0 test_acts = Some s \<and> reads s [msg1, msg1]"
proof -
  have "map_option (\<lambda>s. (map_option r_terminating (pp_reader s), drain 3 s)) (run_from 0 test_acts) =
      Some (Some False, [msg1, msg1])"
    by code_simp
  then obtain s where s: "run_from 0 test_acts = Some s" "map_option r_terminating (pp_reader s) = Some False"
    "drain 3 s = [msg1, msg1]" by auto
  with run_reads [OF s(1,2), of 3] show ?thesis by simp
qed

lemma idle_reads: "\<exists>s. run_from 0 [] = Some s \<and> reads s []"
proof -
  have "map_option (\<lambda>s. (map_option r_terminating (pp_reader s), drain 1 s)) (run_from 0 []) =
      Some (Some False, [])"
    by code_simp
  then obtain s where s: "run_from 0 [] = Some s" "map_option r_terminating (pp_reader s) = Some False"
    "drain 1 s = []" by auto
  with run_reads [OF s(1,2), of 1] show ?thesis by simp
qed

section \<open>Properties\<close>

text \<open>Fair queueing returns a message of one of the active pipes, the first one it
  holds, and from the current pipe when the previous part is only one part of a message; it
  returns \<open>EAGAIN\<close> exactly when no active pipe has a message to read, and no assertion fails.\<close>

theorem fq_recv_result:
  assumes "fq_holds q f" and "readers_rep t f"
  shows "\<exists>rc m q' t'. fq_recv pipe_reader_ops q t = Some (rc, m, q', t') \<and> fq_ok q' \<and>
    (rc = OK \<and> (\<exists>a ms. a \<in> set (fq_active_pipes q) \<and> f a = Some (m # ms) \<and> readers_rep t' (f(a \<mapsto> ms)) \<and>
        fq_more q' = has_more m \<and> (fq_more q \<longrightarrow> a = fq_current_pipe q)) \<or>
     rc = Err EAGAIN \<and> readers_rep t' f \<and> (\<forall>a \<in> set (fq_active_pipes q). f a = Some []))"
proof -
  obtain v q' t' where l: "fq_recv_loop pipe_reader_ops (fq_active q) q t = Some (v, q', t')" "fq_ok q'"
      "set (fq_active_pipes q') \<subseteq> set (fq_active_pipes q)"
      "\<forall>a \<in> set (fq_active_pipes q) - set (fq_active_pipes q'). f a = Some []"
    and v: "case v of None \<Rightarrow> fq_active q' = 0 \<and> \<not> fq_more q' \<and> readers_rep t' f
     | Some m \<Rightarrow> (\<exists>a ms. a \<in> set (fq_active_pipes q') \<and> f a = Some (m # ms) \<and> readers_rep t' (f(a \<mapsto> ms)) \<and>
         fq_more q' = has_more m \<and> (fq_more q \<longrightarrow> a = fq_current_pipe q) \<and>
         (has_more m \<longrightarrow> fq_current_pipe q' = a))"
    using pr.recv_loop_spec [OF assms refl] by blast
  show ?thesis
  proof (cases v)
    case None
    with v have "fq_active_pipes q' = []" by (simp add: fq_active_pipes_def)
    with l v None show ?thesis by (simp add: fq_recv_def)
  next
    case (Some m)
    with v obtain a ms where "a \<in> set (fq_active_pipes q')" "f a = Some (m # ms)" "readers_rep t' (f(a \<mapsto> ms))"
      "fq_more q' = has_more m" "fq_more q \<longrightarrow> a = fq_current_pipe q" by auto
    with l Some show ?thesis by (simp add: fq_recv_def) blast
  qed
qed

text \<open>C19 (liveness).  Fairness: when the next \<open>k\<close> pipes in the cyclic order hold messages (of one
  part each), \<open>k\<close> receptions take one message from each of them, in that order; no pipe is served
  a second time before the others have been served.\<close>

theorem fq_round_robin:
  assumes "fq_holds q f" and "readers_rep t f" and "\<not> fq_more q" and "k \<le> fq_active q"
    and "\<forall>j < k. \<exists>m ms. f (arr_items (fq_pipes q) ! ((fq_current q + j) mod fq_active q)) = Some (m # ms) \<and> \<not> has_more m"
  shows "\<exists>q' t'. fq_recv_times pipe_reader_ops k q t = Some
    (map (\<lambda>j. (OK, hd (the (f (arr_items (fq_pipes q) ! ((fq_current q + j) mod fq_active q)))))) [0..<k], q', t')"
  using assms by (rule pr.recv_round)

text \<open>\<open>has_in\<close> says whether some active pipe has a message to read, and loses no
  message: the pipes hold what they held.\<close>

theorem fq_has_in_exact:
  assumes "fq_holds q f" and "readers_rep t f"
  shows "\<exists>q' t'. fq_has_in pipe_reader_ops q t = Some (\<exists>a \<in> set (fq_active_pipes q). f a \<noteq> Some [], q', t') \<and>
    fq_holds q' f \<and> readers_rep t' f"
  using assms by (rule pr.has_in_iff)

text \<open>C20 (safety).  Load balancing is atomic, when the parts of a message are sent one after the other and
  nothing happens to the set of pipes in between (no pipe is attached, activated or terminated: after a
  termination the rest of the message is dropped, or even sent to another pipe, as the
  property on \<open>lb_t::terminated\<close> in \<open>Lb\<close> shows): the parts are either all refused with the first one (\<open>EAGAIN\<close>, all
  pipes as before), or all accepted by one and the same pipe, after everything the pipe already held;
  the high water mark never splits a message.\<close>

theorem lb_multipart_atomic:
  assumes "lb_holds q g" and "writers_rep t g" and "\<not> lb_more q" and "\<forall>m \<in> set ms. has_more m"
    and "\<not> has_more l" and "\<forall>m \<in> set (ms @ [l]). \<not> is_delimiter m"
  shows "\<exists>rc q' t'. lb_send_parts pipe_writer_ops (ms @ [l]) q t = Some (rc, q', t') \<and>
    (rc = Err EAGAIN \<and> writers_rep t' g \<or>
     rc = OK \<and> (\<exists>a \<in> set (lb_active_pipes q). writers_rep t' (g(a \<mapsto> (fst (the (g a)) @ ms @ [l], [])))))"
  using assms by (rule pw.multipart_atomic)

lemma fq_example_holds:
  assumes "\<And>a. a \<in> {10, 11, 12} \<Longrightarrow> f a \<noteq> None"
  shows "fq_holds fq_example f"
  using assms fq_example_ok by (auto simp: fq_holds_def) (auto simp: fq_example_def)

lemma fq_recv_result_witness:
  "\<exists>t m q' t'. fq_recv pipe_reader_ops fq_example t = Some (OK, m, q', t') \<and> m = msg1"
proof -
  obtain s e where s: "reads s [msg1, msg1]" and e: "reads e []" using test_reads idle_reads by blast
  let ?t = "[10 \<mapsto> e, 11 \<mapsto> s, 12 \<mapsto> e]" and ?f = "[10 \<mapsto> [], 11 \<mapsto> [msg1, msg1], 12 \<mapsto> []]"
  have h: "fq_holds fq_example ?f" by (rule fq_example_holds) auto
  have r: "readers_rep ?t ?f" using s e by (simp add: readers_rep_def)
  have "set (fq_active_pipes fq_example) = {10, 11}" by (auto simp: fq_active_pipes_def fq_example_def)
  with fq_recv_result [OF h r] show ?thesis by (intro exI [of _ ?t]) (auto split: if_splits)
qed

lemma fq_round_robin_witness:
  "\<exists>t q' t'. fq_recv_times pipe_reader_ops 2 fq_example t = Some ([(OK, msg1), (OK, msg1)], q', t')"
proof -
  obtain s e where s: "reads s [msg1, msg1]" and e: "reads e []" using test_reads idle_reads by blast
  let ?t = "[10 \<mapsto> s, 11 \<mapsto> s, 12 \<mapsto> e]" and ?f = "[10 \<mapsto> [msg1, msg1], 11 \<mapsto> [msg1, msg1], 12 \<mapsto> []]"
  have h: "fq_holds fq_example ?f" by (rule fq_example_holds) auto
  have r: "readers_rep ?t ?f" using s e by (simp add: readers_rep_def)
  have x: "\<not> fq_more fq_example" "2 \<le> fq_active fq_example"
    "\<forall>j < 2. \<exists>m ms. ?f (arr_items (fq_pipes fq_example) ! ((fq_current fq_example + j) mod fq_active fq_example)) =
      Some (m # ms) \<and> \<not> has_more m"
    by (auto simp: fq_example_def less_2_cases_iff msg1_def has_more_def)
  show ?thesis using fq_round_robin [OF h r x] by (auto simp: fq_example_def numeral_2_eq_2)
qed

lemma fq_has_in_exact_witness:
  "\<exists>t q' t'. fq_has_in pipe_reader_ops fq_example t = Some (True, q', t')"
proof -
  obtain s e where s: "reads s [msg1, msg1]" and e: "reads e []" using test_reads idle_reads by blast
  let ?t = "[10 \<mapsto> e, 11 \<mapsto> s, 12 \<mapsto> e]" and ?f = "[10 \<mapsto> [], 11 \<mapsto> [msg1, msg1], 12 \<mapsto> []]"
  have h: "fq_holds fq_example ?f" by (rule fq_example_holds) auto
  have r: "readers_rep ?t ?f" using s e by (simp add: readers_rep_def)
  have "set (fq_active_pipes fq_example) = {10, 11}" by (auto simp: fq_active_pipes_def fq_example_def)
  with fq_has_in_exact [OF h r] show ?thesis by (intro exI [of _ ?t]) auto
qed

definition lb_ready :: lb where
  "lb_ready = lb_example\<lparr>lb_more := False\<rparr>"

lemma lb_multipart_atomic_witness:
  "\<exists>t rc q' t'. lb_send_parts pipe_writer_ops [msg1\<lparr>m_flags := 1\<rparr>, msg1] lb_ready t = Some (rc, q', t') \<and>
    (rc = Err EAGAIN \<or> rc = OK)"
proof -
  obtain s where s: "writes s ([], [])" using start_ends by blast
  let ?t = "[10 \<mapsto> s, 11 \<mapsto> s, 12 \<mapsto> s]" and ?g = "[10 \<mapsto> ([], []), 11 \<mapsto> ([], []), 12 \<mapsto> ([], [])]"
  have h: "lb_holds lb_ready ?g"
    by (auto simp: lb_holds_def lb_ok_def lb_ready_def lb_example_def array_ok_def less_Suc_eq)
  have w: "writers_rep ?t ?g" using s by (simp add: writers_rep_def)
  have x: "\<not> lb_more lb_ready" "\<forall>m \<in> set [msg1\<lparr>m_flags := 1\<rparr>]. has_more m" "\<not> has_more msg1"
    "\<forall>m \<in> set ([msg1\<lparr>m_flags := 1\<rparr>] @ [msg1]). \<not> is_delimiter m"
    by (auto simp: lb_ready_def msg1_def has_more_def zmq_flags is_delimiter_def)
  show ?thesis using lb_multipart_atomic [OF h w x] by (auto simp del: lb_send_parts.simps)
qed

text \<open>Pipes holding given messages, for the examples.\<close>

definition part :: "byte list \<Rightarrow> bool \<Rightarrow> msg" where
  "part bs mo = \<lparr>m_body = Data bs, m_flags = (if mo then ZMQ_MSG_MORE else 0)\<rparr>"

lemma part_simps [simp]:
  "has_more (part bs mo) = mo" "body_data (m_body (part bs mo)) = bs" "\<not> is_delimiter (part bs mo)"
  by (simp_all add: part_def has_more_def zmq_flags is_delimiter_def)

lemma run_parts_reads:
  assumes "map_option (\<lambda>s. (map_option r_terminating (pp_reader s), drain n s)) (run_from 0 as) = Some (Some False, ms)"
    and "length ms < n"
  shows "\<exists>s. reads s ms"
proof -
  obtain s where "run_from 0 as = Some s" "map_option r_terminating (pp_reader s) = Some False" "drain n s = ms"
    using assms(1) by auto
  with run_reads [of 0 as s n] assms(2) show ?thesis by auto
qed

definition open_writers :: "(unit, msg) writer_ops" where
  "open_writers = \<lparr>wo_write = (\<lambda>a m p. Some (True, p)), wo_check_write = (\<lambda>a m p. Some (True, p)),
     wo_rollback = (\<lambda>a. Some), wo_flush = (\<lambda>a. Some), wo_terminate = (\<lambda>a. Some), wo_set_event_sink = (\<lambda>a. Some)\<rparr>"

definition closed_readers :: "unit reader_ops" where
  "closed_readers = \<lparr>ro_read = (\<lambda>a p. Some (None, p)), ro_check_read = (\<lambda>a p. Some (False, p)),
     ro_terminate = (\<lambda>a. Some), ro_set_event_sink = (\<lambda>a. Some)\<rparr>"

end
