(* ===== verification/Options.thy ===== *)
theory Options
  imports Wire
begin

text \<open>
  \<open>options.hpp\<close>, \<open>options.cpp\<close>: the options of a socket and the two calls of the API that
  set and read them.  An option value is a block of memory, a \<open>byte list\<close> whose length is the
  size the caller gives; the integers in it are in the order of a little-endian host.  Signed
  integers (\<open>int\<close>, \<open>int64_t\<close>, \<open>int32_t\<close>) are words read with \<open>sint\<close>.  Whether the
  current directory can be written to (\<open>stat\<close>) is a parameter.
\<close>

section \<open>Integers in memory\<close>

definition load64 :: "byte list \<Rightarrow> u64" where "load64 bs = get_uint64 (rev bs)"
definition store64 :: "u64 \<Rightarrow> byte list" where "store64 v = rev (put_uint64 (replicate 8 0) v)"
definition load32 :: "byte list \<Rightarrow> u32" where "load32 bs = get_uint32 (rev bs)"
definition store32 :: "u32 \<Rightarrow> byte list" where "store32 v = rev (put_uint32 (replicate 4 0) v)"

lemma length_store [simp]: "length (store64 v) = 8" "length (store32 w) = 4"
  by (simp_all add: store64_def store32_def)

lemma load_store [simp]: "load64 (store64 v) = v" "load32 (store32 w) = w"
  by (simp_all add: load64_def store64_def load32_def store32_def get_put_uint64 get_put_uint32)

lemma list_of_length_8:
  assumes "length bs = 8"
  obtains a b c d e f g h where "bs = [a, b, c, d, e, f, g, h]"
  using assms by (auto simp: numeral_eq_Suc length_Suc_conv)

lemma list_of_length_4:
  assumes "length bs = 4"
  obtains a b c d where "bs = [a, b, c, d]"
  using assms by (auto simp: numeral_eq_Suc length_Suc_conv)

lemma byte_high [simp]: "8 \<le> k \<Longrightarrow> bit (b :: byte) k = False"
  by (auto dest: bit_imp_le_length)

lemma high_byte: "(\<And>n. n < 8 \<Longrightarrow> bit w (k + n) = bit z n) \<Longrightarrow> (ucast (drop_bit k w) :: byte) = z"
  by (rule bit_word_eqI) (auto simp: bit_simps)

lemma low_byte_eq: "(\<And>n. n < 8 \<Longrightarrow> bit w n = bit z n) \<Longrightarrow> (ucast w :: byte) = z"
  by (rule bit_word_eqI) (auto simp: bit_simps)

lemma upt_8: "[0..<8] = [0, 1, 2, 3, 4, 5, 6, 7 :: nat]" and upt_4: "[0..<4] = [0, 1, 2, 3 :: nat]"
  by code_simp+

lemma put_get_uint64:
  assumes "length bs = 8"
  shows "put_uint64 (replicate 8 0) (get_uint64 bs) = bs"
proof -
  obtain a b c d e f g h where bs: "bs = [a, b, c, d, e, f, g, h]" using assms by (rule list_of_length_8)
  define w where "w = get_uint64 bs"
  have x56: "ucast (drop_bit 56 w) = a" by (rule high_byte) (simp add: w_def get_uint64_def bs bit_simps)
  have x48: "ucast (drop_bit 48 w) = b" by (rule high_byte) (simp add: w_def get_uint64_def bs bit_simps)
  have x40: "ucast (drop_bit 40 w) = c" by (rule high_byte) (simp add: w_def get_uint64_def bs bit_simps)
  have x32: "ucast (drop_bit 32 w) = d" by (rule high_byte) (simp add: w_def get_uint64_def bs bit_simps)
  have x24: "ucast (drop_bit 24 w) = e" by (rule high_byte) (simp add: w_def get_uint64_def bs bit_simps)
  have x16: "ucast (drop_bit 16 w) = f" by (rule high_byte) (simp add: w_def get_uint64_def bs bit_simps)
  have x8: "ucast (drop_bit 8 w) = g" by (rule high_byte) (simp add: w_def get_uint64_def bs bit_simps)
  have x0: "ucast w = h" by (rule low_byte_eq) (simp add: w_def get_uint64_def bs bit_simps)
  have "map ((!) (put_uint64 (replicate 8 0) w)) [0..<8] = bs"
    using x56 x48 x40 x32 x24 x16 x8 x0 unfolding bs upt_8 by (simp add: put_uint64_bytes del: One_nat_def)
  then show ?thesis unfolding w_def [symmetric] by (metis length_put(4) length_replicate map_nth)
qed

lemma put_get_uint32:
  assumes "length bs = 4"
  shows "put_uint32 (replicate 4 0) (get_uint32 bs) = bs"
proof -
  obtain e f g h where bs: "bs = [e, f, g, h]" using assms by (rule list_of_length_4)
  define w where "w = get_uint32 bs"
  have x24: "ucast (drop_bit 24 w) = e" by (rule high_byte) (simp add: w_def get_uint32_def bs bit_simps)
  have x16: "ucast (drop_bit 16 w) = f" by (rule high_byte) (simp add: w_def get_uint32_def bs bit_simps)
  have x8: "ucast (drop_bit 8 w) = g" by (rule high_byte) (simp add: w_def get_uint32_def bs bit_simps)
  have x0: "ucast w = h" by (rule low_byte_eq) (simp add: w_def get_uint32_def bs bit_simps)
  have "map ((!) (put_uint32 (replicate 4 0) w)) [0..<4] = bs"
    using x24 x16 x8 x0 unfolding bs upt_4 by (simp add: put_uint32_bytes del: One_nat_def)
  then show ?thesis unfolding w_def [symmetric] by (metis length_put(3) length_replicate map_nth)
qed

lemma store_load: "length bs = 8 \<Longrightarrow> store64 (load64 bs) = bs" "length bs = 4 \<Longrightarrow> store32 (load32 bs) = bs"
  by (simp_all add: store64_def load64_def store32_def load32_def put_get_uint64 put_get_uint32)

lemma store_loaded: "load64 bs = w \<Longrightarrow> length bs = 8 \<Longrightarrow> store64 w = bs"
  using store_load(1) by blast

section \<open>The options\<close>

datatype sockopt =
    ZMQ_HWM | ZMQ_SWAP | ZMQ_AFFINITY | ZMQ_IDENTITY | ZMQ_SUBSCRIBE | ZMQ_UNSUBSCRIBE | ZMQ_RATE
  | ZMQ_RECOVERY_IVL | ZMQ_MCAST_LOOP | ZMQ_SNDBUF | ZMQ_RCVBUF | ZMQ_RCVMORE | ZMQ_FD | ZMQ_EVENTS
  | ZMQ_TYPE | ZMQ_LINGER | ZMQ_RECONNECT_IVL | ZMQ_BACKLOG | ZMQ_RECOVERY_IVL_MSEC
  | ZMQ_RECONNECT_IVL_MAX | ZMQ_RCVTIMEO | ZMQ_SNDTIMEO | Other_option int

record options =
  o_hwm :: u64
  o_swap :: u64
  o_affinity :: u64
  o_identity :: "byte list"
  o_rate :: u32
  o_recovery_ivl :: u32
  o_recovery_ivl_msec :: u32
  o_use_multicast_loop :: bool
  o_sndbuf :: u64
  o_rcvbuf :: u64
  o_type :: u32
  o_linger :: u32
  o_reconnect_ivl :: u32
  o_reconnect_ivl_max :: u32
  o_backlog :: u32
  o_requires_in :: bool
  o_requires_out :: bool
  o_immediate_connect :: bool
  o_rcvtimeo :: u32
  o_sndtimeo :: u32

definition options_new :: options where
  "options_new =
     \<lparr>o_hwm = 0, o_swap = 0, o_affinity = 0, o_identity = [], o_rate = 40 * 1000, o_recovery_ivl = 10,
      o_recovery_ivl_msec = -1, o_use_multicast_loop = True, o_sndbuf = 0, o_rcvbuf = 0, o_type = -1,
      o_linger = -1, o_reconnect_ivl = 100, o_reconnect_ivl_max = 0, o_backlog = 100,
      o_requires_in = False, o_requires_out = False, o_immediate_connect = True,
      o_rcvtimeo = -1, o_sndtimeo = -1\<rparr>"

definition setsockopt :: "bool \<Rightarrow> sockopt \<Rightarrow> byte list \<Rightarrow> options \<Rightarrow> rc \<times> options" where
  "setsockopt writable opt v s = (
     let len = length v; einval = (Err EINVAL, s)
     in case opt of
       ZMQ_HWM \<Rightarrow> if len \<noteq> 8 then einval else (OK, s\<lparr>o_hwm := load64 v\<rparr>)
     | ZMQ_SWAP \<Rightarrow>
         if len \<noteq> 8 \<or> sint (load64 v) < 0 then einval
         else if \<not> writable then (Err EACCES, s)
         else (OK, s\<lparr>o_swap := load64 v\<rparr>)
     | ZMQ_AFFINITY \<Rightarrow> if len \<noteq> 8 then einval else (OK, s\<lparr>o_affinity := load64 v\<rparr>)
     | ZMQ_IDENTITY \<Rightarrow>
         if len < 1 \<or> len > 255 \<or> v ! 0 = 0 then einval else (OK, s\<lparr>o_identity := v\<rparr>)
     | ZMQ_RATE \<Rightarrow>
         if len \<noteq> 8 \<or> sint (load64 v) < 0 then einval else (OK, s\<lparr>o_rate := ucast (load64 v)\<rparr>)
     | ZMQ_RECOVERY_IVL \<Rightarrow>
         if len \<noteq> 8 \<or> sint (load64 v) < 0 then einval else (OK, s\<lparr>o_recovery_ivl := ucast (load64 v)\<rparr>)
     | ZMQ_RECOVERY_IVL_MSEC \<Rightarrow>
         if len \<noteq> 8 \<or> sint (load64 v) < 0 then einval else (OK, s\<lparr>o_recovery_ivl_msec := ucast (load64 v)\<rparr>)
     | ZMQ_MCAST_LOOP \<Rightarrow>
         if len \<noteq> 8 then einval
         else if load64 v = 0 then (OK, s\<lparr>o_use_multicast_loop := False\<rparr>)
         else if load64 v = 1 then (OK, s\<lparr>o_use_multicast_loop := True\<rparr>)
         else einval
     | ZMQ_SNDBUF \<Rightarrow> if len \<noteq> 8 then einval else (OK, s\<lparr>o_sndbuf := load64 v\<rparr>)
     | ZMQ_RCVBUF \<Rightarrow> if len \<noteq> 8 then einval else (OK, s\<lparr>o_rcvbuf := load64 v\<rparr>)
     | ZMQ_LINGER \<Rightarrow> if len \<noteq> 4 then einval else (OK, s\<lparr>o_linger := load32 v\<rparr>)
     | ZMQ_RECONNECT_IVL \<Rightarrow>
         if len \<noteq> 4 then einval
         else if sint (load32 v) < 0 then einval
         else (OK, s\<lparr>o_reconnect_ivl := load32 v\<rparr>)
     | ZMQ_RECONNECT_IVL_MAX \<Rightarrow>
         if len \<noteq> 4 then einval
         else if sint (load32 v) < 0 then einval
         else (OK, s\<lparr>o_reconnect_ivl_max := load32 v\<rparr>)
     | ZMQ_BACKLOG \<Rightarrow> if len \<noteq> 4 then einval else (OK, s\<lparr>o_backlog := load32 v\<rparr>)
     | ZMQ_RCVTIMEO \<Rightarrow> if len \<noteq> 4 then einval else (OK, s\<lparr>o_rcvtimeo := load32 v\<rparr>)
     | ZMQ_SNDTIMEO \<Rightarrow> if len \<noteq> 4 then einval else (OK, s\<lparr>o_sndtimeo := load32 v\<rparr>)
     | _ \<Rightarrow> einval)"

text \<open>
  \<open>getsockopt\<close>: \<open>buf\<close> is the memory of the caller, whose size is \<open>*optvallen_\<close>; the result has
  the memory afterwards and the new \<open>*optvallen_\<close>.
\<close>

definition give :: "byte list \<Rightarrow> byte list \<Rightarrow> rc \<times> byte list \<times> nat" where
  "give v buf = (if length buf < length v then (Err EINVAL, buf, length buf)
     else (OK, v @ drop (length v) buf, length v))"

definition getsockopt :: "sockopt \<Rightarrow> byte list \<Rightarrow> options \<Rightarrow> rc \<times> byte list \<times> nat" where
  "getsockopt opt buf s =
     (case opt of
       ZMQ_HWM \<Rightarrow> give (store64 (o_hwm s)) buf
     | ZMQ_SWAP \<Rightarrow> give (store64 (o_swap s)) buf
     | ZMQ_AFFINITY \<Rightarrow> give (store64 (o_affinity s)) buf
     | ZMQ_IDENTITY \<Rightarrow> give (o_identity s) buf
     | ZMQ_RATE \<Rightarrow> give (store64 (ucast (o_rate s))) buf
     | ZMQ_RECOVERY_IVL \<Rightarrow> give (store64 (ucast (o_recovery_ivl s))) buf
     | ZMQ_RECOVERY_IVL_MSEC \<Rightarrow> give (store64 (scast (o_recovery_ivl_msec s))) buf
     | ZMQ_MCAST_LOOP \<Rightarrow> give (store64 (if o_use_multicast_loop s then 1 else 0)) buf
     | ZMQ_SNDBUF \<Rightarrow> give (store64 (o_sndbuf s)) buf
     | ZMQ_RCVBUF \<Rightarrow> give (store64 (o_rcvbuf s)) buf
     | ZMQ_TYPE \<Rightarrow> give (store32 (o_type s)) buf
     | ZMQ_LINGER \<Rightarrow> give (store32 (o_linger s)) buf
     | ZMQ_RECONNECT_IVL \<Rightarrow> give (store32 (o_reconnect_ivl s)) buf
     | ZMQ_RECONNECT_IVL_MAX \<Rightarrow> give (store32 (o_reconnect_ivl_max s)) buf
     | ZMQ_BACKLOG \<Rightarrow> give (store32 (o_backlog s)) buf
     | ZMQ_RCVTIMEO \<Rightarrow> give (store32 (o_rcvtimeo s)) buf
     | ZMQ_SNDTIMEO \<Rightarrow> give (store32 (o_sndtimeo s)) buf
     | _ \<Rightarrow> (Err EINVAL, buf, length buf))"

section \<open>Properties\<close>

lemma ucast_back: "(ucast (ucast x :: u32) :: u64) = take_bit 32 x"
  by (rule bit_word_eqI) (auto simp: bit_simps)

lemma small_31: "(x :: u64) < 2 ^ 31 \<Longrightarrow> take_bit 31 x = x"
  by (simp add: word_unat_eq_iff unsigned_take_bit_eq take_bit_nat_eq_self word_less_nat_alt)

lemma small_take_bit: "(x :: u64) < 2 ^ 32 \<Longrightarrow> take_bit 32 x = x"
  by (simp add: word_unat_eq_iff unsigned_take_bit_eq take_bit_nat_eq_self word_less_nat_alt)

lemma scast_back:
  assumes "(x :: u64) < 2 ^ 31"
  shows "(scast (ucast x :: u32) :: u64) = x"
proof (rule bit_word_eqI)
  fix n :: nat
  have "\<not> bit x m" if "31 \<le> m" for m
    using assms that by (metis bit_take_bit_iff linorder_not_le small_31)
  then show "bit (scast (ucast x :: u32) :: u64) n = bit x n"
    by (auto simp: bit_simps min_def dest: bit_imp_le_length)
qed

text \<open>C32 (roundtrip).  What has been set is what is read: when \<open>setsockopt\<close> succeeds, \<open>getsockopt\<close>
  of the same option writes the same bytes and their number into any memory large enough for
  them.  The three options that are kept in 32 bits but set with 64 must be within the range of
  their field.\<close>

theorem options_set_get:
  assumes "setsockopt writable opt v s = (OK, s')" and "length v \<le> length buf"
    and "opt = ZMQ_RATE \<or> opt = ZMQ_RECOVERY_IVL \<Longrightarrow> load64 v < 2 ^ 32"
    and "opt = ZMQ_RECOVERY_IVL_MSEC \<Longrightarrow> load64 v < 2 ^ 31"
  shows "getsockopt opt buf s' = (OK, v @ drop (length v) buf, length v)"
  using assms
  by (auto simp: setsockopt_def getsockopt_def give_def store_load ucast_back small_take_bit scast_back Let_def
      intro: store_loaded split: sockopt.splits if_splits)

lemma options_set_get_witness:
  "\<exists>s'. setsockopt True ZMQ_LINGER [0xe8, 3, 0, 0] options_new = (OK, s') \<and>
    getsockopt ZMQ_LINGER [9, 9, 9, 9, 9, 9] s' = (OK, [0xe8, 3, 0, 0, 9, 9], 4)"
proof -
  have "setsockopt True ZMQ_LINGER [0xe8, 3, 0, 0] options_new =
      (OK, options_new\<lparr>o_linger := load32 [0xe8, 3, 0, 0]\<rparr>)"
    by (simp add: setsockopt_def)
  from options_set_get [OF this, of "[9, 9, 9, 9, 9, 9]"] this show ?thesis by simp
qed

text \<open>A call that fails changes nothing: \<open>setsockopt\<close> fails with \<open>EINVAL\<close>, or
  with \<open>EACCES\<close> for a swap in a directory that cannot be written to, and leaves all options as
  they were; \<open>getsockopt\<close> fails with \<open>EINVAL\<close> and writes nothing.\<close>

theorem options_failed_call_keeps:
  "(case setsockopt writable opt v s of
      (OK, s') \<Rightarrow> True
    | (Err e, s') \<Rightarrow> s' = s \<and> (e = EINVAL \<or> e = EACCES \<and> opt = ZMQ_SWAP \<and> \<not> writable)) \<and>
   (case getsockopt opt buf s of
      (OK, buf', n) \<Rightarrow> n \<le> length buf \<and> length buf' = length buf \<and> drop n buf' = drop n buf
    | (Err e, buf', n) \<Rightarrow> e = EINVAL \<and> buf' = buf \<and> n = length buf)"
proof
  show "case setsockopt writable opt v s of
      (OK, s') \<Rightarrow> True
    | (Err e, s') \<Rightarrow> s' = s \<and> (e = EINVAL \<or> e = EACCES \<and> opt = ZMQ_SWAP \<and> \<not> writable)"
    by (cases opt) (simp_all add: setsockopt_def Let_def)
next
  have "case give w buf of
      (OK, buf', n) \<Rightarrow> n \<le> length buf \<and> length buf' = length buf \<and> drop n buf' = drop n buf
    | (Err e, buf', n) \<Rightarrow> e = EINVAL \<and> buf' = buf \<and> n = length buf" for w
    by (simp add: give_def)
  then show "case getsockopt opt buf s of
      (OK, buf', n) \<Rightarrow> n \<le> length buf \<and> length buf' = length buf \<and> drop n buf' = drop n buf
    | (Err e, buf', n) \<Rightarrow> e = EINVAL \<and> buf' = buf \<and> n = length buf"
    by (cases opt) (simp_all add: getsockopt_def)
qed

text \<open>The ranges \<open>setsockopt\<close> enforces on the fields: a swap size and reconnection intervals that are not
  negative, an identity of at most 255 bytes that does not start like the generated ones.\<close>

definition options_ok :: "options \<Rightarrow> bool" where
  "options_ok s \<longleftrightarrow> 0 \<le> sint (o_swap s) \<and> 0 \<le> sint (o_reconnect_ivl s) \<and> 0 \<le> sint (o_reconnect_ivl_max s) \<and>
     length (o_identity s) \<le> 255 \<and> (o_identity s \<noteq> [] \<longrightarrow> o_identity s ! 0 \<noteq> 0)"

fun setsockopts :: "bool \<Rightarrow> (sockopt \<times> byte list) list \<Rightarrow> options \<Rightarrow> options" where
  "setsockopts writable [] s = s"
| "setsockopts writable ((opt, v) # xs) s = setsockopts writable xs (snd (setsockopt writable opt v s))"

lemma setsockopt_ok: "options_ok s \<Longrightarrow> options_ok (snd (setsockopt writable opt v s))"
  by (cases opt) (auto simp: setsockopt_def Let_def options_ok_def not_less)

text \<open>The fields \<open>setsockopt\<close> does not reach: they are set by the constructors of the socket types.\<close>

definition socket_fields :: "options \<Rightarrow> u32 \<times> bool \<times> bool \<times> bool" where
  "socket_fields s = (o_type s, o_requires_in s, o_requires_out s, o_immediate_connect s)"

lemma setsockopt_fields: "socket_fields (snd (setsockopt writable opt v s)) = socket_fields s"
  by (cases opt) (auto simp: setsockopt_def Let_def socket_fields_def)

text \<open>C33 (type).  Whatever calls of \<open>setsockopt\<close> the user makes, successful or not, the swap size, the two
  reconnection intervals and the identity stay within the ranges above, and the fields that belong
  to the socket type stay as they are.  (Nothing of the kind holds for \<open>rate\<close>, \<open>recovery_ivl\<close> and
  \<open>recovery_ivl_msec\<close>, whose values are checked before they are truncated to 32 bits.)\<close>

theorem options_in_range:
  "options_ok (setsockopts writable xs options_new) \<and>
   socket_fields (setsockopts writable xs options_new) = socket_fields options_new"
proof -
  have "options_ok s \<Longrightarrow> options_ok (setsockopts writable xs s) \<and> socket_fields (setsockopts writable xs s) = socket_fields s" for s
    by (induction xs arbitrary: s) (simp_all add: split_paired_all setsockopt_ok setsockopt_fields)
  moreover have "options_ok options_new" by (simp add: options_ok_def options_new_def)
  ultimately show ?thesis by blast
qed

text \<open>An interval of \<open>2 ^ 31\<close> milliseconds is accepted, since it is not negative, and stored as a
  negative one: what is read back is not what was set.\<close>

lemma options_recovery_msec_negative:
  "map_prod id (\<lambda>s'. sint (o_recovery_ivl_msec s'))
     (setsockopt True ZMQ_RECOVERY_IVL_MSEC [0, 0, 0, 0x80, 0, 0, 0, 0] options_new) = (OK, - (2 ^ 31))"
  by code_simp

text \<open>A rate that does not fit in 32 bits is accepted and truncated: what is read
  back is the remainder modulo \<open>2 ^ 32\<close>, so that a rate of \<open>2 ^ 32\<close> becomes 0.\<close>

theorem options_rate_truncates:
  assumes "length v = 8" and "0 \<le> sint (load64 v)" and "8 \<le> length buf"
  shows "\<exists>s'. setsockopt writable ZMQ_RATE v s = (OK, s') \<and>
    load64 (take 8 (fst (snd (getsockopt ZMQ_RATE buf s')))) = load64 v mod 2 ^ 32"
proof -
  have "(x :: u64) mod 2 ^ 32 = take_bit 32 x" for x by (simp only: take_bit_eq_mod)
  then show ?thesis
    using assms by (simp add: setsockopt_def getsockopt_def give_def ucast_back)
qed

lemma options_rate_truncates_witness:
  "\<exists>s'. setsockopt True ZMQ_RATE [0, 0, 0, 0, 1, 0, 0, 0] options_new = (OK, s') \<and>
    load64 (take 8 (fst (snd (getsockopt ZMQ_RATE (replicate 8 0) s')))) = 0"
proof -
  have v: "load64 [0, 0, 0, 0, 1, 0, 0, 0] = 2 ^ 32" by code_simp
  have "0 \<le> sint (load64 [0, 0, 0, 0, 1, 0, 0, 0])" unfolding v by code_simp
  from options_rate_truncates [OF _ this, of "replicate 8 0" True options_new] v show ?thesis by simp
qed

end
