(* ===== verification/Object.thy ===== *)
theory Object
  imports Atomic
begin

text \<open>
  \<open>command.hpp\<close>, \<open>command.cpp\<close>, \<open>object.hpp\<close>, \<open>object.cpp\<close>: the commands threads send
  to each other's objects, how an object sends and how it processes them.

  The state of all objects (\<open>world\<close>) has the thread each live object belongs to, the mailbox of
  each thread (\<open>ctx_t::slots\<close>: a mailbox keeps the order in which commands are sent to it), the
  \<open>own_t\<close> part of the objects that have one, and the number of identity buffers that are allocated
  (\<open>send_attach\<close> and \<open>send_bind\<close> allocate one, \<open>deallocate_command\<close> frees it).  A call through
  a pointer to an object that has been deleted is \<^term>\<open>None\<close>.
\<close>

section \<open>Commands\<close>

type_synonym blob = "byte list"

text \<open>\<open>None\<close>: a null \<open>peer_identity\<close>.\<close>

datatype cmd =
    Cmd_stop
  | Cmd_plug
  | Cmd_own addr
  | Cmd_attach "addr option" "blob option"
  | Cmd_bind "addr option" "addr option" "blob option"
  | Cmd_activate_reader
  | Cmd_activate_writer u64
  | Cmd_pipe_term
  | Cmd_pipe_term_ack
  | Cmd_term_req addr
  | Cmd_term u32
  | Cmd_term_ack
  | Cmd_reap addr
  | Cmd_reaped
  | Cmd_done

record command =
  cmd_destination :: "addr option"
  cmd_type :: cmd

section \<open>Objects\<close>

record own =
  ow_terminating :: bool
  ow_sent_seqnum :: atomic_counter
  ow_processed_seqnum :: u64
  ow_owner :: "addr option"
  ow_owned :: "addr list"
  ow_term_acks :: int
  ow_linger :: u32

record world =
  w_tid :: "addr \<rightharpoonup> nat"
  w_own :: "addr \<rightharpoonup> own"
  w_mail :: "nat \<Rightarrow> command list"
  w_reaper :: addr
  w_idents :: int

definition term_tid :: nat where "term_tid = 0"

text \<open>\<open>ctx_t::send_command\<close>, and \<open>object_t::send_command\<close>, which asks the destination for its thread.\<close>

definition ctx_send_command :: "nat \<Rightarrow> command \<Rightarrow> world \<Rightarrow> world" where
  "ctx_send_command tid c w = w\<lparr>w_mail := (w_mail w)(tid := w_mail w tid @ [c])\<rparr>"

definition send_command :: "command \<Rightarrow> world \<Rightarrow> world option" where
  "send_command c w = do {
     d \<leftarrow> cmd_destination c;
     tid \<leftarrow> w_tid w d;
     Some (ctx_send_command tid c w)
   }"

definition upd_own :: "addr \<Rightarrow> (own \<Rightarrow> own) \<Rightarrow> world \<Rightarrow> world option" where
  "upd_own a f w = do { x \<leftarrow> w_own w a; Some (w\<lparr>w_own := (w_own w)(a \<mapsto> f x)\<rparr>) }"

definition inc_seqnum :: "addr \<Rightarrow> world \<Rightarrow> world option" where
  "inc_seqnum a w = upd_own a (\<lambda>x. x\<lparr>ow_sent_seqnum := snd (counter_add 1 (ow_sent_seqnum x))\<rparr>) w"

section \<open>Sending\<close>

text \<open>A command without arguments of its own to \<open>dest\<close>.\<close>

abbreviation command_to :: "addr \<Rightarrow> cmd \<Rightarrow> command" where
  "command_to dest c \<equiv> \<lparr>cmd_destination = Some dest, cmd_type = c\<rparr>"

definition send_stop :: "addr \<Rightarrow> world \<Rightarrow> world option" where
  "send_stop this w = do {
     tid \<leftarrow> w_tid w this;
     Some (ctx_send_command tid (command_to this Cmd_stop) w)
   }"

definition send_plug :: "addr \<Rightarrow> bool \<Rightarrow> world \<Rightarrow> world option" where
  "send_plug dest inc w = do {
     w \<leftarrow> (if inc then inc_seqnum dest w else Some w);
     send_command (command_to dest Cmd_plug) w
   }"

definition send_own :: "addr \<Rightarrow> addr \<Rightarrow> world \<Rightarrow> world option" where
  "send_own dest object w = do {
     w \<leftarrow> inc_seqnum dest w;
     send_command (command_to dest (Cmd_own object)) w
   }"

text \<open>The copy of the peer's identity: null when it is empty.\<close>

definition copy_identity :: "blob \<Rightarrow> world \<Rightarrow> (blob option \<times> world) option" where
  "copy_identity b w =
     (if b = [] then Some (None, w)
      else do {
        zmq_assert (length b \<le> 0xff);
        Some (Some b, w\<lparr>w_idents := w_idents w + 1\<rparr>)
      })"

definition send_attach :: "addr \<Rightarrow> addr option \<Rightarrow> blob \<Rightarrow> bool \<Rightarrow> world \<Rightarrow> world option" where
  "send_attach dest engine peer_identity inc w = do {
     w \<leftarrow> (if inc then inc_seqnum dest w else Some w);
     (ident, w) \<leftarrow> copy_identity peer_identity w;
     send_command (command_to dest (Cmd_attach engine ident)) w
   }"

definition send_bind :: "addr \<Rightarrow> addr option \<Rightarrow> addr option \<Rightarrow> blob \<Rightarrow> bool \<Rightarrow> world \<Rightarrow> world option" where
  "send_bind dest in_pipe out_pipe peer_identity inc w = do {
     w \<leftarrow> (if inc then inc_seqnum dest w else Some w);
     (ident, w) \<leftarrow> copy_identity peer_identity w;
     send_command (command_to dest (Cmd_bind in_pipe out_pipe ident)) w
   }"

definition send_activate_reader :: "addr \<Rightarrow> world \<Rightarrow> world option" where
  "send_activate_reader dest w = send_command (command_to dest Cmd_activate_reader) w"

definition send_activate_writer :: "addr \<Rightarrow> u64 \<Rightarrow> world \<Rightarrow> world option" where
  "send_activate_writer dest msgs_read w = send_command (command_to dest (Cmd_activate_writer msgs_read)) w"

definition send_pipe_term :: "addr \<Rightarrow> world \<Rightarrow> world option" where
  "send_pipe_term dest w = send_command (command_to dest Cmd_pipe_term) w"

definition send_pipe_term_ack :: "addr \<Rightarrow> world \<Rightarrow> world option" where
  "send_pipe_term_ack dest w = send_command (command_to dest Cmd_pipe_term_ack) w"

definition send_term_req :: "addr \<Rightarrow> addr \<Rightarrow> world \<Rightarrow> world option" where
  "send_term_req dest object w = send_command (command_to dest (Cmd_term_req object)) w"

definition send_term :: "addr \<Rightarrow> u32 \<Rightarrow> world \<Rightarrow> world option" where
  "send_term dest linger w = send_command (command_to dest (Cmd_term linger)) w"

definition send_term_ack :: "addr \<Rightarrow> world \<Rightarrow> world option" where
  "send_term_ack dest w = send_command (command_to dest Cmd_term_ack) w"

definition send_reap :: "addr \<Rightarrow> world \<Rightarrow> world option" where
  "send_reap socket w = send_command (command_to (w_reaper w) (Cmd_reap socket)) w"

definition send_reaped :: "world \<Rightarrow> world option" where
  "send_reaped w = send_command (command_to (w_reaper w) Cmd_reaped) w"

definition send_done :: "world \<Rightarrow> world" where
  "send_done w = ctx_send_command term_tid \<lparr>cmd_destination = None, cmd_type = Cmd_done\<rparr> w"

section \<open>Processing\<close>

text \<open>The virtual handlers of a class; \<open>object_t\<close> itself handles no command.\<close>

record handlers =
  h_stop :: "world \<Rightarrow> world option"
  h_plug :: "world \<Rightarrow> world option"
  h_own :: "addr \<Rightarrow> world \<Rightarrow> world option"
  h_attach :: "addr option \<Rightarrow> blob \<Rightarrow> world \<Rightarrow> world option"
  h_bind :: "addr option \<Rightarrow> addr option \<Rightarrow> blob \<Rightarrow> world \<Rightarrow> world option"
  h_activate_reader :: "world \<Rightarrow> world option"
  h_activate_writer :: "u64 \<Rightarrow> world \<Rightarrow> world option"
  h_pipe_term :: "world \<Rightarrow> world option"
  h_pipe_term_ack :: "world \<Rightarrow> world option"
  h_term_req :: "addr \<Rightarrow> world \<Rightarrow> world option"
  h_term :: "u32 \<Rightarrow> world \<Rightarrow> world option"
  h_term_ack :: "world \<Rightarrow> world option"
  h_reap :: "addr \<Rightarrow> world \<Rightarrow> world option"
  h_reaped :: "world \<Rightarrow> world option"
  h_seqnum :: "world \<Rightarrow> world option"

definition refuse :: "world \<Rightarrow> world option" where
  "refuse w = do { zmq_assert False; Some w }"

definition object_handlers :: handlers where
  "object_handlers =
     \<lparr>h_stop = refuse, h_plug = refuse, h_own = (\<lambda>_. refuse), h_attach = (\<lambda>_ _. refuse),
      h_bind = (\<lambda>_ _ _. refuse), h_activate_reader = refuse, h_activate_writer = (\<lambda>_. refuse),
      h_pipe_term = refuse, h_pipe_term_ack = refuse, h_term_req = (\<lambda>_. refuse), h_term = (\<lambda>_. refuse),
      h_term_ack = refuse, h_reap = (\<lambda>_. refuse), h_reaped = refuse, h_seqnum = refuse\<rparr>"

definition deallocate_command :: "cmd \<Rightarrow> world \<Rightarrow> world" where
  "deallocate_command c w =
     (case c of
        Cmd_attach _ ident \<Rightarrow> if ident \<noteq> None then w\<lparr>w_idents := w_idents w - 1\<rparr> else w
      | Cmd_bind _ _ ident \<Rightarrow> if ident \<noteq> None then w\<lparr>w_idents := w_idents w - 1\<rparr> else w
      | _ \<Rightarrow> w)"

definition blob_of :: "blob option \<Rightarrow> blob" where
  "blob_of ident = (case ident of None \<Rightarrow> [] | Some b \<Rightarrow> b)"

text \<open>The switch; \<open>plug\<close> and \<open>pipe_term\<close> return without \<open>deallocate_command\<close>.\<close>

definition process_command :: "handlers \<Rightarrow> cmd \<Rightarrow> world \<Rightarrow> world option" where
  "process_command h c w =
     (case c of
        Cmd_plug \<Rightarrow> do { w \<leftarrow> h_plug h w; h_seqnum h w }
      | Cmd_pipe_term \<Rightarrow> h_pipe_term h w
      | _ \<Rightarrow> do {
          w \<leftarrow> (case c of
              Cmd_activate_reader \<Rightarrow> h_activate_reader h w
            | Cmd_activate_writer n \<Rightarrow> h_activate_writer h n w
            | Cmd_stop \<Rightarrow> h_stop h w
            | Cmd_own object \<Rightarrow> do { w \<leftarrow> h_own h object w; h_seqnum h w }
            | Cmd_attach engine ident \<Rightarrow> do { w \<leftarrow> h_attach h engine (blob_of ident) w; h_seqnum h w }
            | Cmd_bind in_pipe out_pipe ident \<Rightarrow> do { w \<leftarrow> h_bind h in_pipe out_pipe (blob_of ident) w; h_seqnum h w }
            | Cmd_pipe_term_ack \<Rightarrow> h_pipe_term_ack h w
            | Cmd_term_req object \<Rightarrow> h_term_req h object w
            | Cmd_term linger \<Rightarrow> h_term h linger w
            | Cmd_term_ack \<Rightarrow> h_term_ack h w
            | Cmd_reap socket \<Rightarrow> h_reap h socket w
            | Cmd_reaped \<Rightarrow> h_reaped h w
            | _ \<Rightarrow> refuse w);
          Some (deallocate_command c w)
        })"

end
