(* ===== verification/Own.thy ===== *)
theory Own
  imports Object
begin

text \<open>
  \<open>own.hpp\<close>, \<open>own.cpp\<close>: the tree of owned objects and its termination.  \<open>this\<close> is the object
  the handler is called on.  \<open>owned\<close> is a \<open>std::set\<close> of pointers: a sorted list without
  repetitions.
\<close>

section \<open>The operations\<close>

definition own_new :: "u32 \<Rightarrow> own" where
  "own_new linger =
     \<lparr>ow_terminating = False, ow_sent_seqnum = 0, ow_processed_seqnum = 0, ow_owner = None,
      ow_owned = [], ow_term_acks = 0, ow_linger = linger\<rparr>"

definition set_owner :: "addr \<Rightarrow> addr option \<Rightarrow> world \<Rightarrow> world option" where
  "set_owner this owner w = do {
     x \<leftarrow> w_own w this;
     zmq_assert (ow_owner x = None);
     upd_own this (\<lambda>x. x\<lparr>ow_owner := owner\<rparr>) w
   }"

text \<open>\<open>delete this\<close>, for a class that does not delay it.\<close>

definition process_destroy :: "addr \<Rightarrow> world \<Rightarrow> world" where
  "process_destroy this w = w\<lparr>w_own := (w_own w)(this := None), w_tid := (w_tid w)(this := None)\<rparr>"

definition caught_up :: "own \<Rightarrow> bool" where
  "caught_up x \<longleftrightarrow> ow_processed_seqnum x = ucast (counter_get (ow_sent_seqnum x))"

definition check_term_acks :: "addr \<Rightarrow> world \<Rightarrow> world option" where
  "check_term_acks this w = do {
     x \<leftarrow> w_own w this;
     if ow_terminating x \<and> caught_up x \<and> ow_term_acks x = 0 then do {
       zmq_assert (ow_owned x = []);
       w \<leftarrow> (case ow_owner x of None \<Rightarrow> Some w | Some owner \<Rightarrow> send_term_ack owner w);
       Some (process_destroy this w)
     }
     else Some w
   }"

definition process_seqnum :: "addr \<Rightarrow> world \<Rightarrow> world option" where
  "process_seqnum this w = do {
     w \<leftarrow> upd_own this (\<lambda>x. x\<lparr>ow_processed_seqnum := ow_processed_seqnum x + 1\<rparr>) w;
     check_term_acks this w
   }"

text \<open>The number of acknowledgements is an \<open>int\<close> of the code; it is not bounded here.\<close>

definition register_term_acks :: "addr \<Rightarrow> int \<Rightarrow> world \<Rightarrow> world option" where
  "register_term_acks this count w = upd_own this (\<lambda>x. x\<lparr>ow_term_acks := ow_term_acks x + count\<rparr>) w"

definition unregister_term_ack :: "addr \<Rightarrow> world \<Rightarrow> world option" where
  "unregister_term_ack this w = do {
     x \<leftarrow> w_own w this;
     zmq_assert (ow_term_acks x > 0);
     w \<leftarrow> upd_own this (\<lambda>x. x\<lparr>ow_term_acks := ow_term_acks x - 1\<rparr>) w;
     check_term_acks this w
   }"

definition process_term_ack :: "addr \<Rightarrow> world \<Rightarrow> world option" where
  "process_term_ack this w = unregister_term_ack this w"

definition launch_child :: "addr \<Rightarrow> addr \<Rightarrow> world \<Rightarrow> world option" where
  "launch_child this object w = do {
     w \<leftarrow> set_owner object (Some this) w;
     w \<leftarrow> send_plug object True w;
     send_own this object w
   }"

definition launch_sibling :: "addr \<Rightarrow> addr \<Rightarrow> world \<Rightarrow> world option" where
  "launch_sibling this object w = do {
     x \<leftarrow> w_own w this;
     w \<leftarrow> set_owner object (ow_owner x) w;
     w \<leftarrow> send_plug object True w;
     owner \<leftarrow> ow_owner x;
     send_own owner object w
   }"

definition process_term_req :: "addr \<Rightarrow> addr \<Rightarrow> world \<Rightarrow> world option" where
  "process_term_req this object w = do {
     x \<leftarrow> w_own w this;
     if ow_terminating x then Some w
     else if object \<notin> set (ow_owned x) then Some w
     else do {
       w \<leftarrow> upd_own this (\<lambda>x. x\<lparr>ow_owned := remove1 object (ow_owned x)\<rparr>) w;
       w \<leftarrow> register_term_acks this 1 w;
       send_term object (ow_linger x) w
     }
   }"

definition process_own :: "addr \<Rightarrow> addr \<Rightarrow> world \<Rightarrow> world option" where
  "process_own this object w = do {
     x \<leftarrow> w_own w this;
     if ow_terminating x then do {
       w \<leftarrow> register_term_acks this 1 w;
       send_term object 0 w
     }
     else upd_own this (\<lambda>x. x\<lparr>ow_owned := (if object \<in> set (ow_owned x) then ow_owned x
            else insort object (ow_owned x))\<rparr>) w
   }"

fun send_terms :: "addr list \<Rightarrow> u32 \<Rightarrow> world \<Rightarrow> world option" where
  "send_terms [] linger w = Some w"
| "send_terms (a # as) linger w = do { w \<leftarrow> send_term a linger w; send_terms as linger w }"

definition process_term :: "addr \<Rightarrow> u32 \<Rightarrow> world \<Rightarrow> world option" where
  "process_term this linger w = do {
     x \<leftarrow> w_own w this;
     zmq_assert (\<not> ow_terminating x);
     w \<leftarrow> send_terms (ow_owned x) linger w;
     w \<leftarrow> register_term_acks this (int (length (ow_owned x))) w;
     w \<leftarrow> upd_own this (\<lambda>x. x\<lparr>ow_owned := [], ow_terminating := True\<rparr>) w;
     check_term_acks this w
   }"

definition own_terminate :: "addr \<Rightarrow> world \<Rightarrow> world option" where
  "own_terminate this w = do {
     x \<leftarrow> w_own w this;
     if ow_terminating x then Some w
     else case ow_owner x of
       None \<Rightarrow> process_term this (ow_linger x) w
     | Some owner \<Rightarrow> send_term_req owner this w
   }"

text \<open>The handlers of an object that does nothing more when it is plugged in.\<close>

definition own_handlers :: "addr \<Rightarrow> handlers" where
  "own_handlers this = object_handlers
     \<lparr>h_plug := Some, h_own := process_own this, h_term_req := process_term_req this,
      h_term := process_term this, h_term_ack := process_term_ack this, h_seqnum := process_seqnum this\<rparr>"

end
