(* ===== verification/Own_Tree.thy ===== *)
theory Own_Tree
  imports Own
begin

text \<open>
  The termination protocol of \<open>own.cpp\<close>, abstractly: the live objects \<open>W\<close>, the commands \<open>B a\<close> on
  their way to each object in order, and the launches \<open>P\<close> that are begun and not finished.  What a
  handler does to one object is the function \<open>react\<close>; the invariant \<open>sys_ok\<close> is kept by every
  reaction, deletion, launch and request, and the measure \<open>work\<close> goes down with every reaction.
\<close>

section \<open>The tree of owners, seen object by object\<close>

text \<open>
  \<open>W\<close> are the live objects, \<open>B a\<close> the commands on their way to \<open>a\<close>, in order.  \<open>kids\<close>: the live
  children of an object; \<open>doomed\<close>: those that have been told to terminate, or are terminating.
\<close>

fun is_seq :: "cmd \<Rightarrow> bool" where
  "is_seq Cmd_plug = True"
| "is_seq (Cmd_own c) = True"
| "is_seq _ = False"

fun is_term :: "cmd \<Rightarrow> bool" where
  "is_term (Cmd_term l) = True"
| "is_term _ = False"

fun own_kind :: "cmd \<Rightarrow> bool" where
  "own_kind Cmd_plug = True"
| "own_kind (Cmd_own c) = True"
| "own_kind (Cmd_term_req c) = True"
| "own_kind (Cmd_term l) = True"
| "own_kind Cmd_term_ack = True"
| "own_kind _ = False"

definition seqs :: "cmd list \<Rightarrow> nat" where "seqs l = length (filter is_seq l)"
definition terms :: "cmd list \<Rightarrow> nat" where "terms l = length (filter is_term l)"
definition acks :: "cmd list \<Rightarrow> nat" where "acks l = length (filter ((=) Cmd_term_ack) l)"

fun owns :: "cmd list \<Rightarrow> addr list" where
  "owns [] = []"
| "owns (Cmd_own c # l) = c # owns l"
| "owns (_ # l) = owns l"

text \<open>A request to terminate is of a live child, or an acknowledgement comes after it.\<close>

fun treqs_ok :: "addr set \<Rightarrow> cmd list \<Rightarrow> bool" where
  "treqs_ok K [] = True"
| "treqs_ok K (Cmd_term_req c # l) = ((c \<in> K \<or> Cmd_term_ack \<in> set l) \<and> treqs_ok K l)"
| "treqs_ok K (_ # l) = treqs_ok K l"

definition kids :: "(addr \<rightharpoonup> own) \<Rightarrow> addr \<Rightarrow> addr set" where
  "kids W a = {c. \<exists>x. W c = Some x \<and> ow_owner x = Some a}"

definition doom :: "(addr \<rightharpoonup> own) \<Rightarrow> (addr \<Rightarrow> cmd list) \<Rightarrow> addr \<Rightarrow> bool" where
  "doom W B c \<longleftrightarrow> (\<exists>x. W c = Some x \<and> (ow_terminating x \<or> 0 < terms (B c)))"

definition doomed :: "(addr \<rightharpoonup> own) \<Rightarrow> (addr \<Rightarrow> cmd list) \<Rightarrow> addr \<Rightarrow> addr set" where
  "doomed W B a = {c \<in> kids W a. doom W B c}"

definition fresh :: "(addr \<rightharpoonup> own) \<Rightarrow> (addr \<Rightarrow> cmd list) \<Rightarrow> addr \<Rightarrow> addr set" where
  "fresh W B a = kids W a - doomed W B a"

text \<open>The counters of an object: \<open>sent\<close> is \<open>processed\<close> and what is on its way.\<close>

definition counters_ok :: "nat \<Rightarrow> own \<Rightarrow> cmd list \<Rightarrow> bool" where
  "counters_ok n x l \<longleftrightarrow> (\<exists>N P. ow_sent_seqnum x = of_nat N \<and> ow_processed_seqnum x = of_nat P \<and>
     N = P + seqs l \<and> N \<le> n)"

text \<open>What holds of an object and the commands on their way to it, given its children and the
  doomed ones among them.\<close>

definition mine_ok :: "addr set \<Rightarrow> addr set \<Rightarrow> own \<Rightarrow> cmd list \<Rightarrow> bool" where
  "mine_ok K D x l \<longleftrightarrow> ow_term_acks x = int (card D) + int (acks l) \<and>
     distinct (ow_owned x) \<and> set (ow_owned x) \<subseteq> K - D \<and>
     distinct (owns l) \<and> set (owns l) \<subseteq> K - D \<and> set (ow_owned x) \<inter> set (owns l) = {} \<and>
     treqs_ok K l \<and> (ow_terminating x \<longrightarrow> ow_owned x = [])"

definition told_ok :: "own \<Rightarrow> cmd list \<Rightarrow> bool" where
  "told_ok x l \<longleftrightarrow> terms l \<le> 1 \<and> (0 < terms l \<longrightarrow> \<not> ow_terminating x \<and> ow_owner x \<noteq> None) \<and> (\<forall>c \<in> set l. own_kind c)"

definition owned_by :: "(addr \<rightharpoonup> own) \<Rightarrow> addr \<Rightarrow> addr list" where
  "owned_by W a = (case W a of None \<Rightarrow> [] | Some x \<Rightarrow> ow_owned x)"

type_synonym pending = "(addr \<times> addr \<times> addr) set"

text \<open>\<open>P\<close> are the launches begun and not finished: \<open>(l, o, c)\<close> is the launch by \<open>l\<close> of the child \<open>c\<close>
  of \<open>o\<close>, whose \<open>own\<close> command has not been sent yet.\<close>

definition sys_ok :: "nat \<Rightarrow> (addr \<rightharpoonup> own) \<Rightarrow> (addr \<Rightarrow> cmd list) \<Rightarrow> addr \<Rightarrow> pending \<Rightarrow> bool" where
  "sys_ok n W B nx P \<longleftrightarrow> dom W \<subseteq> {..<nx} \<and>
     (\<forall>a x. W a = Some x \<longrightarrow> counters_ok n x (B a) \<and> told_ok x (B a) \<and> mine_ok (kids W a) (doomed W B a) x (B a) \<and>
        (\<forall>b. ow_owner x = Some b \<longrightarrow> b \<in> dom W \<and> b < a)) \<and>
     (\<forall>a. \<forall>c \<in> fresh W B a. c \<in> set (owned_by W a) \<or> c \<in> set (owns (B a)) \<or> (\<exists>l. (l, a, c) \<in> P)) \<and>
     (\<forall>l a c. (l, a, c) \<in> P \<longrightarrow> l \<in> dom W \<and> c \<in> fresh W B a \<and> c \<notin> set (owned_by W a) \<and> c \<notin> set (owns (B a)) \<and>
        (l = a \<or> l \<in> kids W a \<and> l < c)) \<and>
     (\<forall>l l' a c. (l, a, c) \<in> P \<and> (l', a, c) \<in> P \<longrightarrow> l = l')"

text \<open>An object that should have been deleted.\<close>

definition ripe :: "own \<Rightarrow> cmd list \<Rightarrow> bool" where
  "ripe x l \<longleftrightarrow> ow_terminating x \<and> seqs l = 0 \<and> ow_term_acks x = 0"

definition none_ripe :: "(addr \<rightharpoonup> own) \<Rightarrow> (addr \<Rightarrow> cmd list) \<Rightarrow> bool" where
  "none_ripe W B \<longleftrightarrow> (\<forall>a x. W a = Some x \<longrightarrow> \<not> ripe x (B a))"

text \<open>The deliveries still to come: the commands on their way, and for each object the command to
  terminate and the acknowledgement.\<close>

definition work :: "(addr \<rightharpoonup> own) \<Rightarrow> (addr \<Rightarrow> cmd list) \<Rightarrow> nat" where
  "work W B = (\<Sum>a \<in> dom W. length (B a) + (if doom W B a then 1 else 2))"

subsection \<open>Lists of commands\<close>

lemma cmd_counts [simp]:
  "seqs [] = 0" "terms [] = 0" "acks [] = 0"
  "seqs (c # l) = (if is_seq c then Suc (seqs l) else seqs l)"
  "terms (c # l) = (if is_term c then Suc (terms l) else terms l)"
  "acks (c # l) = (if c = Cmd_term_ack then Suc (acks l) else acks l)"
  "seqs (l @ l') = seqs l + seqs l'" "terms (l @ l') = terms l + terms l'" "acks (l @ l') = acks l + acks l'"
  by (auto simp: seqs_def terms_def acks_def)

lemma owns_append [simp]: "owns (l @ l') = owns l @ owns l'"
  by (induction l rule: owns.induct) auto

lemma owns_Cons: "owns (c # l) = (case c of Cmd_own b \<Rightarrow> b # owns l | _ \<Rightarrow> owns l)"
  by (cases c) auto

lemma treqs_ok_snoc: "treqs_ok K l \<Longrightarrow> (\<And>b. c = Cmd_term_req b \<Longrightarrow> b \<in> K) \<Longrightarrow> treqs_ok K (l @ [c])"
  by (induction K l rule: treqs_ok.induct) (cases c; auto)+

lemma treqs_ok_mono: "treqs_ok K l \<Longrightarrow> K \<subseteq> K' \<Longrightarrow> treqs_ok K' l"
  by (induction K l rule: treqs_ok.induct) auto

lemma treqs_ok_ack: "treqs_ok K l \<Longrightarrow> treqs_ok (K - {b}) (l @ [Cmd_term_ack])"
  by (induction K l rule: treqs_ok.induct) auto

lemma treqs_ok_tl: "treqs_ok K (c # l) \<Longrightarrow> treqs_ok K l"
  by (cases c) auto

lemma acks_pos: "Cmd_term_ack \<in> set l \<Longrightarrow> 0 < acks l"
  by (induction l) auto

lemma treqs_ok_empty: "treqs_ok {} l \<Longrightarrow> acks l = 0 \<Longrightarrow> Cmd_term_req c \<notin> set l"
  by (induction "{} :: addr set" l rule: treqs_ok.induct) (auto dest: acks_pos)

lemma not_seq_owns: "seqs l = 0 \<Longrightarrow> owns l = []"
  by (induction l rule: owns.induct) auto

lemma idle_box: "seqs l = 0 \<Longrightarrow> terms l = 0 \<Longrightarrow> acks l = 0 \<Longrightarrow> treqs_ok {} l \<Longrightarrow> \<forall>c \<in> set l. own_kind c \<Longrightarrow> l = []"
proof (cases l)
  case (Cons c l')
  assume "seqs l = 0" "terms l = 0" "acks l = 0" "treqs_ok {} l" "\<forall>c \<in> set l. own_kind c"
  with Cons show ?thesis by (cases c) (auto split: if_splits dest: acks_pos)
qed simp

subsection \<open>One object handles a command\<close>

lemma kids_upd: "W a = Some x \<Longrightarrow> ow_owner x' = ow_owner x \<Longrightarrow> kids (W(a \<mapsto> x')) b = kids W b"
  by (auto simp: kids_def)

lemma finite_kids: "dom W \<subseteq> {..<nx} \<Longrightarrow> finite (kids W a)"
  by (rule finite_subset [of _ "{..<nx}"]) (auto simp: kids_def)

lemma finite_doomed: "dom W \<subseteq> {..<nx} \<Longrightarrow> finite (doomed W B a)"
  unfolding doomed_def by (intro finite_subset [OF _ finite_kids]) auto

lemma told_snoc: "told_ok x l \<Longrightarrow> \<not> is_term c \<Longrightarrow> own_kind c \<Longrightarrow> told_ok x (l @ [c])"
  by (auto simp: told_ok_def)

lemma told_term: "told_ok x l \<Longrightarrow> terms l = 0 \<Longrightarrow> \<not> ow_terminating x \<Longrightarrow> ow_owner x \<noteq> None \<Longrightarrow> told_ok x (l @ [Cmd_term g])"
  by (auto simp: told_ok_def)

lemma mine_term: "mine_ok K D x l \<Longrightarrow> mine_ok K D x (l @ [Cmd_term g])"
  by (auto simp: mine_ok_def intro: treqs_ok_snoc)

lemma counters_term: "counters_ok n x (l @ [Cmd_term g]) = counters_ok n x l"
  by (simp add: counters_ok_def)

text \<open>The object \<open>a\<close> becomes \<open>x'\<close> and is left with the commands \<open>r\<close>; it tells its children \<open>S\<close> to
  terminate.\<close>

definition told :: "addr \<Rightarrow> cmd list \<Rightarrow> addr set \<Rightarrow> u32 \<Rightarrow> (addr \<Rightarrow> cmd list) \<Rightarrow> addr \<Rightarrow> cmd list" where
  "told a r S g B d = (if d = a then r else B d) @ (if d \<in> S then [Cmd_term g] else [])"

definition step_ok :: "nat \<Rightarrow> (addr \<rightharpoonup> own) \<Rightarrow> (addr \<Rightarrow> cmd list) \<Rightarrow> pending \<Rightarrow> addr \<Rightarrow> own \<Rightarrow> own \<Rightarrow> cmd list \<Rightarrow> addr set \<Rightarrow> bool" where
  "step_ok n W B P a x x' r S \<longleftrightarrow> ow_owner x' = ow_owner x \<and> S \<subseteq> fresh W B a \<and>
     counters_ok n x' r \<and> told_ok x' r \<and> mine_ok (kids W a) (doomed W B a \<union> S) x' r \<and>
     (\<forall>c \<in> fresh W B a - S. c \<in> set (ow_owned x') \<or> c \<in> set (owns r) \<or> (\<exists>l. (l, a, c) \<in> P)) \<and>
     (\<forall>l c. (l, a, c) \<in> P \<longrightarrow> c \<notin> S \<and> c \<notin> set (ow_owned x') \<and> c \<notin> set (owns r)) \<and>
     (ow_owner x \<noteq> None \<longrightarrow> doom W B a = (ow_terminating x' \<or> 0 < terms r))"

lemma sys_parts:
  assumes "sys_ok n W B nx P"
  shows "dom W \<subseteq> {..<nx}"
    and "W a = Some x \<Longrightarrow> counters_ok n x (B a)"
    and "W a = Some x \<Longrightarrow> told_ok x (B a)"
    and "W a = Some x \<Longrightarrow> mine_ok (kids W a) (doomed W B a) x (B a)"
    and "W a = Some x \<Longrightarrow> ow_owner x = Some b \<Longrightarrow> b \<in> dom W \<and> b < a"
    and "c \<in> fresh W B a \<Longrightarrow> c \<in> set (owned_by W a) \<or> c \<in> set (owns (B a)) \<or> (\<exists>l. (l, a, c) \<in> P)"
    and "(l, a, c) \<in> P \<Longrightarrow> l \<in> dom W \<and> c \<in> fresh W B a \<and> c \<notin> set (owned_by W a) \<and> c \<notin> set (owns (B a)) \<and>
        (l = a \<or> l \<in> kids W a \<and> l < c)"
    and "(l, a, c) \<in> P \<Longrightarrow> (l', a, c) \<in> P \<Longrightarrow> l = l'"
proof -
  note s = assms [unfolded sys_ok_def]
  note s1 = s [THEN conjunct2, THEN conjunct1] and s2 = s [THEN conjunct2, THEN conjunct2, THEN conjunct1]
    and s3 = s [THEN conjunct2, THEN conjunct2, THEN conjunct2, THEN conjunct1]
    and s4 = s [THEN conjunct2, THEN conjunct2, THEN conjunct2, THEN conjunct2]
  show "dom W \<subseteq> {..<nx}" using s by (rule conjunct1)
  show "W a = Some x \<Longrightarrow> counters_ok n x (B a)" "W a = Some x \<Longrightarrow> told_ok x (B a)"
    "W a = Some x \<Longrightarrow> mine_ok (kids W a) (doomed W B a) x (B a)"
    "W a = Some x \<Longrightarrow> ow_owner x = Some b \<Longrightarrow> b \<in> dom W \<and> b < a"
    using s1 by blast+
  show "c \<in> fresh W B a \<Longrightarrow> c \<in> set (owned_by W a) \<or> c \<in> set (owns (B a)) \<or> (\<exists>l. (l, a, c) \<in> P)"
    using s2 by blast
  show "(l, a, c) \<in> P \<Longrightarrow> l \<in> dom W \<and> c \<in> fresh W B a \<and> c \<notin> set (owned_by W a) \<and> c \<notin> set (owns (B a)) \<and>
        (l = a \<or> l \<in> kids W a \<and> l < c)" using s3 by blast
  show "(l, a, c) \<in> P \<Longrightarrow> (l', a, c) \<in> P \<Longrightarrow> l = l'" using s4 by blast
qed

lemma sys_step:
  assumes ok: "sys_ok n W B nx P" and a: "W a = Some x" and st: "step_ok n W B P a x x' r S"
  shows "sys_ok n (W(a \<mapsto> x')) (told a r S g B) nx P"
proof -
  let ?W = "W(a \<mapsto> x')" and ?B = "told a r S g B"
  note p = sys_parts [OF ok]
  have own: "ow_owner x' = ow_owner x" and S: "S \<subseteq> fresh W B a" using st by (auto simp: step_ok_def)
  have kids: "kids ?W b = kids W b" for b using a own by (rule kids_upd)
  have aS: "a \<notin> S"
  proof
    assume "a \<in> S"
    then have "a \<in> kids W a" using S by (auto simp: fresh_def)
    then show False using a p(5) by (fastforce simp: kids_def)
  qed
  have Sd: "d \<in> S \<Longrightarrow> d \<in> kids W a \<and> \<not> doom W B d" for d using S by (auto simp: fresh_def doomed_def)
  have doom: "c \<in> kids W b \<Longrightarrow> doom ?W ?B c = (doom W B c \<or> c \<in> S)" for b c
    using st a aS by (auto simp: doom_def told_def kids_def step_ok_def)
  have doomed: "doomed ?W ?B b = (if b = a then doomed W B a \<union> S else doomed W B b)" for b
  proof -
    have "c \<in> kids W b \<Longrightarrow> c \<in> S \<Longrightarrow> b = a" for c using Sd by (fastforce simp: kids_def)
    moreover have "x \<in> S \<Longrightarrow> doom ?W ?B x" for x using doom [of x a] Sd [of x] by simp
    ultimately show ?thesis using Sd by (auto simp: doomed_def kids doom)
  qed
  have fresh: "fresh ?W ?B b = (if b = a then fresh W B a - S else fresh W B b)" for b
    by (auto simp: fresh_def kids doomed)
  have owns: "owns (?B b) = (if b = a then owns r else owns (B b))" for b
    by (auto simp: told_def)
  have owned: "owned_by ?W b = (if b = a then ow_owned x' else owned_by W b)" for b
    by (simp add: owned_by_def)
  have others: "counters_ok n y (?B d) \<and> told_ok y (?B d) \<and> mine_ok (kids W d) (doomed ?W ?B d) y (?B d)"
    if d: "?W d = Some y" for d y
  proof (cases "d = a")
    case True
    with d have y: "y = x'" by simp
    from st aS show ?thesis unfolding True y doomed by (simp add: told_def step_ok_def)
  next
    case False
    with d have y: "W d = Some y" by simp
    have "told_ok y (B d @ [Cmd_term g])" if "d \<in> S"
      using told_term [OF p(3) [OF y]] Sd [OF that] y by (auto simp: doom_def kids_def)
    then show ?thesis using p(2-4) [OF y] False
      by (auto simp: doomed told_def counters_term mine_term)
  qed
  have covered: "c \<in> set (owned_by ?W b) \<or> c \<in> set (owns (?B b)) \<or> (\<exists>l. (l, b, c) \<in> P)"
    if "c \<in> fresh ?W ?B b" for b c
    using that st p(6) [of c b] by (auto simp: fresh owns owned step_ok_def split: if_splits)
  have pend: "l \<in> dom ?W \<and> c \<in> fresh ?W ?B b \<and> c \<notin> set (owned_by ?W b) \<and> c \<notin> set (owns (?B b)) \<and>
      (l = b \<or> l \<in> kids ?W b \<and> l < c)" if "(l, b, c) \<in> P" for l b c
    using p(7) [OF that] that st by (auto simp: fresh owns owned kids step_ok_def)
  have dm: "dom ?W = dom W" using a by auto
  show ?thesis
    unfolding sys_ok_def kids
  proof (intro conjI allI impI ballI)
    show "dom ?W \<subseteq> {..<nx}" using p(1) dm by simp
  next
    fix b y o' assume "?W b = Some y" "ow_owner y = Some o'"
    then show "o' \<in> dom ?W" "o' < b" using p(5) a own dm by (auto split: if_splits)
  next
    fix l b c assume "(l, b, c) \<in> P"
    from pend [OF this] show "l \<in> dom ?W" "c \<in> fresh ?W ?B b" "c \<notin> set (owned_by ?W b)"
        "c \<notin> set (owns (?B b))" "l = b \<or> l \<in> kids W b \<and> l < c"
      unfolding kids by blast+
  qed (use others [unfolded kids] covered p(8) in blast)+
qed

text \<open>The sum over the objects goes down by one for the command that is handled, and stays as it is
  for the children that are told.\<close>

definition weight :: "(addr \<rightharpoonup> own) \<Rightarrow> (addr \<Rightarrow> cmd list) \<Rightarrow> addr \<Rightarrow> nat" where
  "weight W B a = length (B a) + (if doom W B a then 1 else 2)"

lemma work_weight: "work W B = (\<Sum>a \<in> dom W. weight W B a)"
  by (simp add: work_def weight_def)

lemma work_step:
  assumes ok: "sys_ok n W B nx P" and a: "W a = Some x" and st: "step_ok n W B P a x x' r S"
  shows "work (W(a \<mapsto> x')) (told a r S g B) + weight W B a = work W B + length r + (if ow_terminating x' \<or> 0 < terms r then 1 else 2)"
proof -
  let ?W = "W(a \<mapsto> x')" and ?B = "told a r S g B"
  note p = sys_parts [OF ok]
  have S: "S \<subseteq> fresh W B a" using st by (auto simp: step_ok_def)
  have aS: "a \<notin> S"
  proof
    assume "a \<in> S"
    then have "a \<in> kids W a" using S by (auto simp: fresh_def)
    then show False using a p(5) by (fastforce simp: kids_def)
  qed
  have fin: "finite (dom W)" using p(1) finite_subset by blast
  have "weight ?W ?B d = weight W B d" if "d \<in> dom W - {a}" for d
    using that S by (auto simp: weight_def told_def doom_def fresh_def doomed_def)
  then have "(\<Sum>d \<in> dom W - {a}. weight ?W ?B d) = (\<Sum>d \<in> dom W - {a}. weight W B d)" by (rule sum.cong [OF refl])
  moreover have "dom ?W = dom W" "a \<in> dom W" using a by auto
  moreover have "weight ?W ?B a = length r + (if ow_terminating x' \<or> 0 < terms r then 1 else 2)"
    using aS by (simp add: weight_def told_def doom_def)
  ultimately show ?thesis
    using sum.remove [OF fin, of a "weight ?W ?B"] sum.remove [OF fin, of a "weight W B"]
    by (simp add: work_weight)
qed

subsection \<open>What the handlers do to one object\<close>

text \<open>The record after the command, the children that are told to terminate, and their linger.\<close>

fun react :: "cmd \<Rightarrow> own \<Rightarrow> (own \<times> addr list \<times> u32) option" where
  "react Cmd_plug x = Some (x\<lparr>ow_processed_seqnum := ow_processed_seqnum x + 1\<rparr>, [], 0)"
| "react (Cmd_own b) x = Some (if ow_terminating x
     then (x\<lparr>ow_term_acks := ow_term_acks x + 1, ow_processed_seqnum := ow_processed_seqnum x + 1\<rparr>, [b], 0)
     else (x\<lparr>ow_owned := (if b \<in> set (ow_owned x) then ow_owned x else insort b (ow_owned x)),
            ow_processed_seqnum := ow_processed_seqnum x + 1\<rparr>, [], 0))"
| "react (Cmd_term_req b) x = Some (if ow_terminating x \<or> b \<notin> set (ow_owned x) then (x, [], 0)
     else (x\<lparr>ow_owned := remove1 b (ow_owned x), ow_term_acks := ow_term_acks x + 1\<rparr>, [b], ow_linger x))"
| "react (Cmd_term g) x = (if ow_terminating x then None
     else Some (x\<lparr>ow_term_acks := ow_term_acks x + int (length (ow_owned x)), ow_owned := [], ow_terminating := True\<rparr>,
            ow_owned x, g))"
| "react Cmd_term_ack x = (if ow_term_acks x > 0 then Some (x\<lparr>ow_term_acks := ow_term_acks x - 1\<rparr>, [], 0) else None)"
| "react _ x = None"

definition takes :: "cmd \<Rightarrow> own \<Rightarrow> cmd list \<Rightarrow> cmd list \<Rightarrow> bool" where
  "takes c x l r \<longleftrightarrow> l = c # r \<or> l = r \<and> is_term c \<and> ow_owner x = None \<and> \<not> ow_terminating x"

lemma counters_processed: "counters_ok n x (c # l) \<Longrightarrow> is_seq c \<Longrightarrow>
    ow_sent_seqnum x' = ow_sent_seqnum x \<Longrightarrow> ow_processed_seqnum x' = ow_processed_seqnum x + 1 \<Longrightarrow> counters_ok n x' l"
proof -
  assume "counters_ok n x (c # l)" and c: "is_seq c" and x': "ow_sent_seqnum x' = ow_sent_seqnum x"
    "ow_processed_seqnum x' = ow_processed_seqnum x + 1"
  then obtain N P where "ow_sent_seqnum x = of_nat N" "ow_processed_seqnum x = of_nat P" "N = P + seqs (c # l)" "N \<le> n"
    unfolding counters_ok_def by blast
  with c x' have "ow_sent_seqnum x' = of_nat N \<and> ow_processed_seqnum x' = of_nat (Suc P) \<and> N = Suc P + seqs l \<and> N \<le> n"
    by (simp del: of_nat_Suc) simp
  then show ?thesis unfolding counters_ok_def by blast
qed

lemma counters_same: "counters_ok n x (c # l) \<Longrightarrow> \<not> is_seq c \<Longrightarrow>
    ow_sent_seqnum x' = ow_sent_seqnum x \<Longrightarrow> ow_processed_seqnum x' = ow_processed_seqnum x \<Longrightarrow> counters_ok n x' l"
  by (clarsimp simp: counters_ok_def)

lemma own_by [simp]: "W a = Some x \<Longrightarrow> owned_by W a = ow_owned x"
  by (simp add: owned_by_def)

lemma card_told: "finite D \<Longrightarrow> S \<inter> D = {} \<Longrightarrow> finite S \<Longrightarrow> card (D \<union> S) = card D + card S"
  by (simp add: card_Un_disjoint Int_commute)

text \<open>One object, its commands \<open>l\<close>, its children \<open>K\<close>, the doomed ones \<open>D\<close> and those whose launch is
  pending, \<open>Q\<close>.\<close>

definition obj_ok :: "nat \<Rightarrow> addr set \<Rightarrow> addr set \<Rightarrow> addr set \<Rightarrow> own \<Rightarrow> cmd list \<Rightarrow> bool" where
  "obj_ok n K D Q x l \<longleftrightarrow> counters_ok n x l \<and> told_ok x l \<and> mine_ok K D x l \<and> finite D \<and>
     K - D \<subseteq> set (ow_owned x) \<union> set (owns l) \<union> Q \<and> Q \<inter> (set (ow_owned x) \<union> set (owns l)) = {}"

definition reacts :: "nat \<Rightarrow> addr set \<Rightarrow> addr set \<Rightarrow> addr set \<Rightarrow> own \<Rightarrow> cmd list \<Rightarrow> own \<Rightarrow> addr list \<Rightarrow> cmd list \<Rightarrow> bool" where
  "reacts n K D Q x l x' cs r \<longleftrightarrow> ow_owner x' = ow_owner x \<and> distinct cs \<and> set cs \<subseteq> K - D \<and> set cs \<inter> Q = {} \<and>
     obj_ok n K (D \<union> set cs) Q x' r \<and>
     (ow_owner x \<noteq> None \<longrightarrow> (ow_terminating x \<or> 0 < terms l) = (ow_terminating x' \<or> 0 < terms r)) \<and>
     ow_sent_seqnum x' = ow_sent_seqnum x"

lemma react_plug:
  assumes "obj_ok n K D Q x (Cmd_plug # r)"
  shows "\<exists>x' cs g. react Cmd_plug x = Some (x', cs, g) \<and> reacts n K D Q x (Cmd_plug # r) x' cs r"
  using assms unfolding reacts_def obj_ok_def
  by (auto simp: told_ok_def mine_ok_def elim!: counters_processed)

lemma react_own:
  assumes ok: "obj_ok n K D Q x (Cmd_own b # r)"
  shows "\<exists>x' cs g. react (Cmd_own b) x = Some (x', cs, g) \<and> reacts n K D Q x (Cmd_own b # r) x' cs r"
proof (cases "ow_terminating x")
  case True
  have "card (D \<union> {b}) = card D + 1" using ok by (subst card_told) (auto simp: obj_ok_def mine_ok_def)
  with ok True show ?thesis unfolding reacts_def obj_ok_def
    by (auto simp: told_ok_def mine_ok_def elim!: counters_processed)
next
  case False
  with ok show ?thesis unfolding reacts_def obj_ok_def
    by (auto simp: told_ok_def mine_ok_def set_insort_key distinct_insort elim!: counters_processed)
qed

lemma react_term_req:
  assumes ok: "obj_ok n K D Q x (Cmd_term_req b # r)"
  shows "\<exists>x' cs g. react (Cmd_term_req b) x = Some (x', cs, g) \<and> reacts n K D Q x (Cmd_term_req b # r) x' cs r"
proof (cases "ow_terminating x \<or> b \<notin> set (ow_owned x)")
  case True
  with ok show ?thesis unfolding reacts_def obj_ok_def
    by (auto simp: told_ok_def mine_ok_def elim!: counters_same)
next
  case False
  have "card (D \<union> {b}) = card D + 1" using ok False by (subst card_told) (auto simp: obj_ok_def mine_ok_def)
  with ok False show ?thesis unfolding reacts_def obj_ok_def
    by (auto simp: told_ok_def mine_ok_def elim!: counters_same)
qed

lemma react_term:
  assumes ok: "obj_ok n K D Q x l" and l: "takes (Cmd_term g) x l r"
  shows "\<exists>x' cs g'. react (Cmd_term g) x = Some (x', cs, g') \<and> reacts n K D Q x l x' cs r"
proof -
  have t: "\<not> ow_terminating x" "terms r = 0" and c: "\<And>x'. ow_sent_seqnum x' = ow_sent_seqnum x \<Longrightarrow>
      ow_processed_seqnum x' = ow_processed_seqnum x \<Longrightarrow> counters_ok n x' r"
    using ok l by (auto simp: obj_ok_def told_ok_def takes_def counters_ok_def split: if_splits)
  have "card (D \<union> set (ow_owned x)) = card D + length (ow_owned x)"
    using ok by (subst card_told) (auto simp: obj_ok_def mine_ok_def distinct_card)
  with ok l t c show ?thesis unfolding reacts_def obj_ok_def takes_def
    by (auto simp: told_ok_def mine_ok_def split: if_splits)
qed

lemma react_term_ack:
  assumes "obj_ok n K D Q x (Cmd_term_ack # r)"
  shows "\<exists>x' cs g. react Cmd_term_ack x = Some (x', cs, g) \<and> reacts n K D Q x (Cmd_term_ack # r) x' cs r"
  using assms unfolding reacts_def obj_ok_def
  by (auto simp: told_ok_def mine_ok_def elim!: counters_same)

lemma react_ok:
  assumes ok: "obj_ok n K D Q x l" and l: "takes c x l r" and c: "own_kind c"
  shows "\<exists>x' cs g. react c x = Some (x', cs, g) \<and> reacts n K D Q x l x' cs r"
proof (cases "is_term c")
  case True
  then show ?thesis using react_term [OF ok] l by (cases c) auto
next
  case False
  then have [simp]: "l = c # r" using l by (auto simp: takes_def)
  show ?thesis using False c ok by (cases c) (auto dest: react_plug react_own react_term_req react_term_ack simp del: react.simps)
qed

subsection \<open>The steps of the tree\<close>

definition waits :: "pending \<Rightarrow> addr \<Rightarrow> addr set" where
  "waits P a = {c. \<exists>l. (l, a, c) \<in> P}"

lemma sys_obj: "sys_ok n W B nx P \<Longrightarrow> W a = Some x \<Longrightarrow> obj_ok n (kids W a) (doomed W B a) (waits P a) x (B a)"
  using sys_parts(1-4) [of n W B nx P] sys_parts(6,7) [of n W B nx P _ a]
  unfolding obj_ok_def waits_def by (fastforce simp: fresh_def finite_doomed)

lemma reacts_step:
  assumes a: "W a = Some x"
    and r: "reacts n (kids W a) (doomed W B a) (waits P a) x (B a) x' cs r"
  shows "step_ok n W B P a x x' r (set cs)"
  using assms unfolding step_ok_def reacts_def obj_ok_def waits_def fresh_def doom_def by auto

lemma sys_react:
  assumes ok: "sys_ok n W B nx P" and a: "W a = Some x" and l: "takes c x (B a) r" and c: "own_kind c"
  obtains x' cs g where "react c x = Some (x', cs, g)" "distinct cs" "set cs \<subseteq> dom W" "a \<notin> set cs" "ow_owner x' = ow_owner x"
    "sys_ok n (W(a \<mapsto> x')) (told a r (set cs) g B) nx P"
    "work (W(a \<mapsto> x')) (told a r (set cs) g B) + weight W B a = work W B + length r + (if ow_terminating x' \<or> 0 < terms r then 1 else 2)"
    "ow_owner x \<noteq> None \<Longrightarrow> (ow_terminating x \<or> 0 < terms (B a)) = (ow_terminating x' \<or> 0 < terms r)"
    "counters_ok n x' r"
proof -
  obtain x' cs g where re: "react c x = Some (x', cs, g)"
    and r: "reacts n (kids W a) (doomed W B a) (waits P a) x (B a) x' cs r"
    using react_ok [OF sys_obj [OF ok a] l c] by blast
  note st = reacts_step [OF a r]
  have cs: "set cs \<subseteq> kids W a" using r by (auto simp: reacts_def)
  then have "a \<notin> set cs" using a sys_parts(5) [OF ok a] by (fastforce simp: kids_def)
  moreover have "set cs \<subseteq> dom W" using cs by (auto simp: kids_def)
  moreover note r [unfolded reacts_def obj_ok_def] sys_step [OF ok a st, of g] work_step [OF ok a st, of g]
  ultimately show ?thesis using that [OF re] by simp
qed

lemma ripe_alone:
  assumes ok: "sys_ok n W B nx P" and a: "W a = Some x" and rp: "ripe x (B a)" and nl: "\<forall>o' c. (a, o', c) \<notin> P"
  shows "kids W a = {}" and "B a = []"
proof -
  note p = sys_parts [OF ok]
  have rp': "ow_terminating x" "seqs (B a) = 0" "ow_term_acks x = 0" using rp by (auto simp: ripe_def)
  have mine: "ow_term_acks x = int (card (doomed W B a)) + int (acks (B a))" "ow_owned x = []"
    "treqs_ok (kids W a) (B a)" using p(4) [OF a] rp' by (auto simp: mine_ok_def)
  then have "card (doomed W B a) = 0" and ak: "acks (B a) = 0" using rp' by linarith+
  then have D: "doomed W B a = {}" using finite_doomed [OF p(1)] by simp
  have waits: "\<exists>l. (l, a, c) \<in> P" if "c \<in> kids W a" for c
    using p(6) [of c a] that a rp' mine D by (auto simp: fresh_def not_seq_owns)
  show kids: "kids W a = {}"
  proof (rule ccontr)
    assume "kids W a \<noteq> {}"
    then obtain c where c: "c \<in> kids W a" "\<And>d. d \<in> kids W a \<Longrightarrow> c \<le> d"
      using wellorder_Least_lemma [of "\<lambda>c. c \<in> kids W a"] by blast
    from waits [OF c(1)] obtain l where "(l, a, c) \<in> P" by blast
    then show False using p(7) nl c by fastforce
  qed
  have "terms (B a) = 0" "\<forall>c \<in> set (B a). own_kind c" using p(3) [OF a] rp' by (auto simp: told_ok_def)
  then show "B a = []" using idle_box [of "B a"] rp' ak mine kids by auto
qed

text \<open>The object is deleted; its owner, if it has one, gets an acknowledgement.\<close>

definition acked :: "own \<Rightarrow> (addr \<Rightarrow> cmd list) \<Rightarrow> addr \<Rightarrow> cmd list" where
  "acked x B d = B d @ (if ow_owner x = Some d then [Cmd_term_ack] else [])"

lemma sys_destroy:
  assumes ok: "sys_ok n W B nx P" and a: "W a = Some x" and rp: "ripe x (B a)" and nl: "\<forall>o' c. (a, o', c) \<notin> P"
  shows "sys_ok n (W(a := None)) (acked x B) nx P" and "work (W(a := None)) (acked x B) \<le> work W B"
proof -
  let ?W = "W(a := None)" and ?B = "acked x B"
  note p = sys_parts [OF ok]
  note alone = ripe_alone [OF assms]
  have t: "ow_terminating x" using rp by (simp add: ripe_def)
  have oa: "ow_owner x = Some b \<Longrightarrow> b \<noteq> a" for b using p(5) [OF a] by auto
  have kids: "kids ?W b = kids W b - {a}" for b by (auto simp: kids_def)
  have doom: "c \<noteq> a \<Longrightarrow> doom ?W ?B c = doom W B c" for c
    by (auto simp: doom_def acked_def)
  have doomed: "doomed ?W ?B b = doomed W B b - {a}" for b by (auto simp: doomed_def kids doom)
  have da: "doom W B a" using a t by (auto simp: doom_def)
  have fresh: "fresh ?W ?B b = fresh W B b" for b
    using da by (auto simp: fresh_def kids doomed) (auto simp: doomed_def)
  have Da: "a \<in> doomed W B b \<longleftrightarrow> ow_owner x = Some b" for b using a da by (auto simp: doomed_def kids_def)
  have owns: "owns (?B b) = owns (B b)" for b by (simp add: acked_def)
  have owned: "b \<noteq> a \<Longrightarrow> owned_by ?W b = owned_by W b" for b by (simp add: owned_by_def)
  have others: "counters_ok n y (?B d) \<and> told_ok y (?B d) \<and> mine_ok (kids W d - {a}) (doomed W B d - {a}) y (?B d)"
    if "?W d = Some y" for d y
  proof -
    have y: "W d = Some y" "d \<noteq> a" using that by (auto split: if_splits)
    have ka: "a \<in> kids W d \<longleftrightarrow> ow_owner x = Some d" using a by (auto simp: kids_def)
    have da: "a \<in> doomed W B d \<longleftrightarrow> ow_owner x = Some d" by (rule Da)
    have fin: "finite (doomed W B d)" by (rule finite_doomed [OF p(1)])
    show ?thesis
    proof (cases "ow_owner x = Some d")
      case True
      have "card (doomed W B d) = Suc (card (doomed W B d - {a}))"
        using card_Suc_Diff1 [OF fin] True da by simp
      moreover have sd: "kids W d - {a} - (doomed W B d - {a}) = kids W d - doomed W B d" using True da by auto
      ultimately have "mine_ok (kids W d - {a}) (doomed W B d - {a}) y (B d @ [Cmd_term_ack])"
        using p(4) [OF y(1)] sd by (simp add: mine_ok_def treqs_ok_ack)
      moreover have "counters_ok n y (B d @ [Cmd_term_ack])" "told_ok y (B d @ [Cmd_term_ack])"
        using p(2,3) [OF y(1)] by (simp_all add: counters_ok_def told_snoc)
      ultimately show ?thesis using True by (simp add: acked_def)
    next
      case False
      then show ?thesis using p(2-4) [OF y(1)] da ka unfolding acked_def by simp
    qed
  qed
  have nofresh: "fresh W B a = {}" using alone by (auto simp: fresh_def)
  show "sys_ok n ?W ?B nx P"
    unfolding sys_ok_def kids doomed fresh owns
  proof (intro conjI allI impI ballI)
    show "dom ?W \<subseteq> {..<nx}" using p(1) by auto
  next
    fix b y o' assume y: "?W b = Some y" "ow_owner y = Some o'"
    then have "o' \<in> dom W \<and> o' < b" "o' \<noteq> a" using p(5) alone by (auto simp: kids_def split: if_splits)
    then show "o' \<in> dom ?W" "o' < b" by auto
  next
    fix b c assume c: "c \<in> fresh W B b"
    then have "b \<noteq> a" using nofresh by auto
    then show "c \<in> set (owned_by ?W b) \<or> c \<in> set (owns (B b)) \<or> (\<exists>l. (l, b, c) \<in> P)"
      using p(6) [OF c] owned by simp
  next
    fix l b c assume lp: "(l, b, c) \<in> P"
    note q = p(7) [OF lp]
    have "b \<noteq> a" "l \<noteq> a" using q nofresh nl lp by auto
    then show "l \<in> dom ?W" "c \<in> fresh W B b" "c \<notin> set (owned_by ?W b)" "c \<notin> set (owns (B b))"
      "l = b \<or> l \<in> kids W b - {a} \<and> l < c" using q owned by auto
  qed (use others p(8) in blast)+
  have fin: "finite (dom W)" using p(1) finite_subset by blast
  have aW: "a \<in> dom W" using a by auto
  have wa: "weight W B a = 1" using alone da by (simp add: weight_def)
  have wt: "weight ?W ?B d = weight W B d + (if ow_owner x = Some d then 1 else 0)" if "d \<in> dom W - {a}" for d
    using that by (auto simp: weight_def doom) (auto simp: acked_def)
  have "(\<Sum>d \<in> dom W - {a}. weight ?W ?B d) = (\<Sum>d \<in> dom W - {a}. weight W B d) + (\<Sum>d \<in> dom W - {a}. if ow_owner x = Some d then 1 else 0)"
    using wt by (simp add: sum.distrib)
  moreover have "(\<Sum>d \<in> dom W - {a}. if ow_owner x = Some d then 1 else 0) \<le> (1 :: nat)"
    using fin by (cases "ow_owner x") (auto simp: sum.delta')
  moreover have "dom ?W = dom W - {a}" by auto
  ultimately show "work ?W ?B \<le> work W B"
    using sum.remove [OF fin aW, of "weight W B"] wa by (simp add: work_weight)
qed

lemma counters_mono: "counters_ok n x l \<Longrightarrow> n \<le> m \<Longrightarrow> counters_ok m x l"
  by (auto simp: counters_ok_def)

lemma sys_mono: "sys_ok n W B nx P \<Longrightarrow> n \<le> m \<Longrightarrow> sys_ok m W B nx P"
  unfolding sys_ok_def by (blast intro: counters_mono)

text \<open>A new object, with or without an owner.\<close>

lemma sys_new:
  assumes ok: "sys_ok n W B nx P"
    and y: "counters_ok n y box" "told_ok y box" "ow_owned y = []" "ow_term_acks y = 0" "\<not> ow_terminating y"
    and box: "terms box = 0" "acks box = 0" "owns box = []" "treqs_ok {} box"
    and root: "ow_owner y = None \<Longrightarrow> P' = P"
    and child: "\<And>b. ow_owner y = Some b \<Longrightarrow> b \<in> dom W \<and> (\<exists>l. P' = insert (l, b, nx) P \<and> l \<in> dom W \<and> (l = b \<or> l \<in> kids W b))"
  shows "sys_ok n (W(nx \<mapsto> y)) (B(nx := box)) (Suc nx) P'"
proof -
  let ?W = "W(nx \<mapsto> y)" and ?B = "B(nx := box)"
  note p = sys_parts [OF ok]
  have nx: "nx \<notin> dom W" using p(1) by auto
  have k0: "nx \<notin> kids W b" "c \<in> kids W nx \<Longrightarrow> False" for b c
    using nx p(5) by (auto simp: kids_def) 
  have kids: "kids ?W b = (if ow_owner y = Some b then insert nx (kids W b) else kids W b)" for b
    using nx by (auto simp: kids_def)
  have doom: "doom ?W ?B c = (c \<noteq> nx \<and> doom W B c)" for c
    using y box by (auto simp: doom_def)
  have doomed: "doomed ?W ?B b = doomed W B b" for b
    using k0 by (auto simp: doomed_def kids doom)
  have fresh: "fresh ?W ?B b = (if ow_owner y = Some b then insert nx (fresh W B b) else fresh W B b)" for b
    using k0 by (auto simp: fresh_def kids doomed) (simp add: doomed_def)
  have oy: "ow_owner y = Some b \<Longrightarrow> b \<noteq> nx" for b using child nx by blast
  have owned: "b \<noteq> nx \<Longrightarrow> owned_by ?W b = owned_by W b" "owned_by ?W nx = []" for b
    using y by (auto simp: owned_by_def)
  have sub: "P \<subseteq> P'" using root child by (cases "ow_owner y") auto
  have newP: "(l, b, c) \<in> P' \<Longrightarrow> (l, b, c) \<in> P \<or> c = nx \<and> ow_owner y = Some b \<and> l \<in> dom W \<and> (l = b \<or> l \<in> kids W b)" for l b c
    using root child by (cases "ow_owner y") auto
  have pd: "b \<in> dom W \<and> c \<in> dom W" if "(l, b, c) \<in> P" for l b c
    using p(7) [OF that] p(5) by (auto simp: fresh_def kids_def)
  have others: "counters_ok n z (?B d) \<and> told_ok z (?B d) \<and> mine_ok (kids ?W d) (doomed W B d) z (?B d)"
    if "?W d = Some z" for d z
  proof (cases "d = nx")
    case True
    have "kids ?W nx = {}" "doomed W B nx = {}" using k0 oy by (auto simp: kids doomed_def)
    then show ?thesis using True y box that by (simp add: mine_ok_def)
  next
    case False
    then have z: "W d = Some z" using that by simp
    have "mine_ok (insert c K) D z l" if "mine_ok K D z l" for c K D l
      using that treqs_ok_mono [of K l "insert c K"] by (auto simp: mine_ok_def)
    then show ?thesis using False p(2-4) [OF z] by (auto simp: kids)
  qed
  show ?thesis
    unfolding sys_ok_def doomed
  proof (intro conjI allI impI ballI)
    show "dom ?W \<subseteq> {..<Suc nx}" using p(1) by auto
  next
    fix b z o' assume z: "?W b = Some z" "ow_owner z = Some o'"
    show "o' \<in> dom ?W" "o' < b" using z p(1) p(5) [of b z o'] child by (auto split: if_splits)
  next
    fix b c assume c: "c \<in> fresh ?W ?B b"
    show "c \<in> set (owned_by ?W b) \<or> c \<in> set (owns (?B b)) \<or> (\<exists>l. (l, b, c) \<in> P')"
    proof (cases "c = nx \<and> ow_owner y = Some b")
      case True
      then show ?thesis using child by blast
    next
      case False
      then have c': "c \<in> fresh W B b" using c by (auto simp: fresh split: if_splits)
      then have "b \<noteq> nx" using k0 by (auto simp: fresh_def)
      then show ?thesis using p(6) [OF c'] sub owned by auto
    qed
  next
    fix l b c assume "(l, b, c) \<in> P'"
    then consider (old) "(l, b, c) \<in> P" | (new) "c = nx" "ow_owner y = Some b" "l \<in> dom W" "l = b \<or> l \<in> kids W b"
      using newP by blast
    then have "l \<in> dom ?W \<and> c \<in> fresh ?W ?B b \<and> c \<notin> set (owned_by ?W b) \<and> c \<notin> set (owns (?B b)) \<and> (l = b \<or> l \<in> kids ?W b \<and> l < c)"
    proof cases
      case old
      then have "b \<noteq> nx" using pd nx by blast
      then show ?thesis using p(7) [OF old] owned by (auto simp: fresh kids)
    next
      case new
      then have b: "b \<noteq> nx" "b \<in> dom W" using oy child by auto
      obtain x where x: "W b = Some x" using b by auto
      have "set (ow_owned x) \<subseteq> kids W b" "set (owns (B b)) \<subseteq> kids W b"
        using p(4) [OF x] by (auto simp: mine_ok_def)
      then have "nx \<notin> set (ow_owned x)" "nx \<notin> set (owns (B b))" using k0 by blast+
      then show ?thesis using new b x owned p(1) by (auto simp: fresh kids)
    qed
    then show "l \<in> dom ?W" "c \<in> fresh ?W ?B b" "c \<notin> set (owned_by ?W b)" "c \<notin> set (owns (?B b))"
      "l = b \<or> l \<in> kids ?W b \<and> l < c" by blast+
  next
    fix l l' b c assume "(l, b, c) \<in> P' \<and> (l', b, c) \<in> P'"
    moreover have "c \<noteq> nx" if "(m, b, c) \<in> P" for m using pd [OF that] nx by auto
    ultimately show "l = l'"
      using p(8) root child by (cases "ow_owner y") auto
  qed (use others in blast)+
qed

text \<open>A message to one object that leaves it otherwise as it is: a request of a child, or the second
  half of a launch.\<close>

lemma sys_request:
  assumes ok: "sys_ok n W B nx P" and a: "W a = Some x" and b: "ow_owner x = Some b"
  shows "sys_ok n W (B(b := B b @ [Cmd_term_req a])) nx P"
proof -
  let ?B = "B(b := B b @ [Cmd_term_req a])"
  note p = sys_parts [OF ok]
  have doom: "doom W ?B c = doom W B c" for c by (auto simp: doom_def)
  have doomed: "doomed W ?B d = doomed W B d" for d by (simp add: doomed_def doom)
  have fresh: "fresh W ?B d = fresh W B d" for d by (simp add: fresh_def doomed)
  have owns: "owns (?B d) = owns (B d)" for d by auto
  have ak: "a \<in> kids W b" using a b by (auto simp: kids_def)
  have m: "mine_ok (kids W b) D z (l @ [Cmd_term_req a])" if "mine_ok (kids W b) D z l" for D z l
    using that ak by (auto simp: mine_ok_def intro: treqs_ok_snoc)
  have c: "counters_ok n z (l @ [Cmd_term_req a]) = counters_ok n z l" for z l by (simp add: counters_ok_def)
  have "counters_ok n z (?B d) \<and> told_ok z (?B d) \<and> mine_ok (kids W d) (doomed W B d) z (?B d)" if "W d = Some z" for d z
    using p(2-4) [OF that] m c by (cases "d = b") (auto simp: told_snoc)
  then show ?thesis
    using p(1,5-8) unfolding sys_ok_def doomed fresh owns by blast
qed

lemma sys_finish:
  assumes ok: "sys_ok n W B nx P" and lp: "(l, b, c) \<in> P" and x: "W b = Some x"
  shows "sys_ok (Suc n) (W(b \<mapsto> x\<lparr>ow_sent_seqnum := ow_sent_seqnum x + 1\<rparr>)) (B(b := B b @ [Cmd_own c])) nx (P - {(l, b, c)})"
proof -
  let ?x = "x\<lparr>ow_sent_seqnum := ow_sent_seqnum x + 1\<rparr>"
  let ?W = "W(b \<mapsto> ?x)" and ?B = "B(b := B b @ [Cmd_own c])"
  note p = sys_parts [OF ok]
  have kids: "kids ?W d = kids W d" for d using x by (intro kids_upd) auto
  have doom: "doom ?W ?B d = doom W B d" for d using x by (auto simp: doom_def)
  have doomed: "doomed ?W ?B d = doomed W B d" for d by (simp add: doomed_def doom kids)
  have fresh: "fresh ?W ?B d = fresh W B d" for d by (simp add: fresh_def doomed kids)
  have owned: "owned_by ?W d = owned_by W d" for d using x by (auto simp: owned_by_def)
  have dm: "dom ?W = dom W" using x by auto
  note pc = p(7) [OF lp]
  have owns: "set (owns (?B d)) = set (owns (B d)) \<union> (if d = b then {c} else {})" for d by auto
  have new: "counters_ok (Suc n) ?x (B b @ [Cmd_own c]) \<and> told_ok ?x (B b @ [Cmd_own c]) \<and>
      mine_ok (kids W b) (doomed W B b) ?x (B b @ [Cmd_own c])"
  proof (intro conjI)
    obtain N Q where "ow_sent_seqnum x = of_nat N" "ow_processed_seqnum x = of_nat Q" "N = Q + seqs (B b)" "N \<le> n"
      using p(2) [OF x] unfolding counters_ok_def by blast
    then have "ow_sent_seqnum ?x = of_nat (Suc N) \<and> ow_processed_seqnum ?x = of_nat Q \<and> Suc N = Q + seqs (B b @ [Cmd_own c]) \<and> Suc N \<le> Suc n"
      by simp
    then show "counters_ok (Suc n) ?x (B b @ [Cmd_own c])" unfolding counters_ok_def by blast
    show "told_ok ?x (B b @ [Cmd_own c])" using p(3) [OF x] by (simp add: told_ok_def)
    show "mine_ok (kids W b) (doomed W B b) ?x (B b @ [Cmd_own c])"
      using p(4) [OF x] pc x by (auto simp: mine_ok_def fresh_def intro: treqs_ok_snoc)
  qed
  have others: "counters_ok (Suc n) z (?B d) \<and> told_ok z (?B d) \<and> mine_ok (kids W d) (doomed W B d) z (?B d)"
    if "?W d = Some z" for d z
    using that new p(2-4) [of d z] by (cases "d = b") (auto intro: counters_mono)
  show ?thesis
    unfolding sys_ok_def doomed fresh owned kids dm owns
  proof (intro conjI allI impI ballI)
    fix d z o' assume "?W d = Some z" "ow_owner z = Some o'"
    then show "o' \<in> dom W" "o' < d" using p(5) [of d _ o'] x by (auto split: if_splits)
  next
    fix d e assume "e \<in> fresh W B d"
    from p(6) [OF this] show "e \<in> set (owned_by W d) \<or> e \<in> set (owns (B d)) \<union> (if d = b then {c} else {}) \<or>
        (\<exists>l'. (l', d, e) \<in> P - {(l, b, c)})" by auto
  next
    fix m d e assume "(m, d, e) \<in> P - {(l, b, c)}"
    then have q: "(m, d, e) \<in> P" "(m, d, e) \<noteq> (l, b, c)" by auto
    have "\<not> (d = b \<and> e = c)" using q lp p(8) by blast
    then show "m \<in> dom W" "e \<in> fresh W B d" "e \<notin> set (owned_by W d)" "e \<notin> set (owns (B d)) \<union> (if d = b then {c} else {})"
      "m = d \<or> m \<in> kids W d \<and> m < e" using p(7) [OF q(1)] by auto
  next
    show "dom W \<subseteq> {..<nx}" by (rule p(1))
  qed (use others p(8) in blast)+
qed

end
