(* ===== verification/Own_Protocol.thy ===== *)
theory Own_Protocol
  imports Own_Tree
begin

text \<open>
  The handlers of \<open>own.cpp\<close> implement the abstract reactions (\<open>handler_reacts\<close>, \<open>check_acks_ok\<close>), the system
  of all objects of a process with its mailboxes as sequences of acts, and the properties of
  the protocol: it never goes wrong, its commands die out, and when they have, every tree whose root was
  told to terminate has been deleted.
\<close>

section \<open>The world and the tree\<close>

text \<open>The commands on their way to an object, which wait in the mailbox of its thread.\<close>

definition inbox :: "world \<Rightarrow> addr \<Rightarrow> cmd list" where
  "inbox w a = (case w_tid w a of None \<Rightarrow> []
     | Some t \<Rightarrow> map cmd_type (filter (\<lambda>c. cmd_destination c = Some a) (w_mail w t)))"

definition world_ok :: "world \<Rightarrow> bool" where
  "world_ok w \<longleftrightarrow> dom (w_tid w) = dom (w_own w) \<and>
     (\<forall>t. \<forall>c \<in> set (w_mail w t). \<exists>d. cmd_destination c = Some d \<and> w_tid w d = Some t)"

definition put :: "addr \<Rightarrow> own \<Rightarrow> world \<Rightarrow> world" where
  "put a x w = w\<lparr>w_own := (w_own w)(a \<mapsto> x)\<rparr>"

lemma put_simps [simp]:
  "w_own (put a x w) = (w_own w)(a \<mapsto> x)" "w_tid (put a x w) = w_tid w" "w_mail (put a x w) = w_mail w"
  "put a x (put a y w) = put a x w"
  by (simp_all add: put_def)

lemma put_same: "w_own w a = Some x \<Longrightarrow> put a x w = w"
  by (simp add: put_def fun_upd_idem)

lemma inbox_put [simp]: "inbox (put a x w) = inbox w"
  by (simp add: inbox_def fun_eq_iff split: option.split)

lemma world_put: "world_ok w \<Longrightarrow> w_own w a = Some y \<Longrightarrow> world_ok (put a x w)"
  by (auto simp: world_ok_def)

lemma upd_own_put: "w_own w a = Some x \<Longrightarrow> upd_own a f w = Some (put a (f x) w)"
  by (simp add: upd_own_def put_def)

lemma send_put: "send_command c (put a x w) = map_option (put a x) (send_command c w)"
  by (auto simp: send_command_def ctx_send_command_def put_def split: Option.bind_splits)

lemma send_terms_put: "send_terms cs g (put a x w) = map_option (put a x) (send_terms cs g w)"
proof (induction cs g w rule: send_terms.induct)
  case (2 b bs g w)
  show ?case
  proof (cases "send_term b g w")
    case None
    then show ?thesis by (simp add: send_term_def send_put)
  next
    case (Some w')
    then show ?thesis using 2 [OF Some] by (simp add: send_term_def send_put)
  qed
qed simp

lemma send_ok:
  assumes w: "world_ok w" and d: "d \<in> dom (w_own w)"
  obtains w' where "send_command (command_to d c) w = Some w'" "world_ok w'" "w_own w' = w_own w" "w_tid w' = w_tid w"
    "inbox w' = (inbox w)(d := inbox w d @ [c])"
proof -
  obtain t where t: "w_tid w d = Some t" using w d unfolding world_ok_def by blast
  let ?w = "ctx_send_command t (command_to d c) w"
  have "send_command (command_to d c) w = Some ?w" using t by (simp add: send_command_def)
  moreover have "world_ok ?w" using w t by (auto simp: world_ok_def ctx_send_command_def)
  moreover have "inbox ?w e = ((inbox w)(d := inbox w d @ [c])) e" for e
    using t by (cases "w_tid w e") (auto simp: inbox_def ctx_send_command_def)
  moreover have "w_own ?w = w_own w" "w_tid ?w = w_tid w" by (simp_all add: ctx_send_command_def)
  ultimately show ?thesis using that [of ?w] by blast
qed

lemma sends_ok:
  assumes "world_ok w" "set cs \<subseteq> dom (w_own w)" "distinct cs"
  shows "\<exists>w'. send_terms cs g w = Some w' \<and> world_ok w' \<and> w_own w' = w_own w \<and> w_tid w' = w_tid w \<and>
    inbox w' = (\<lambda>e. inbox w e @ (if e \<in> set cs then [Cmd_term g] else []))"
  using assms
proof (induction cs arbitrary: w)
  case (Cons b bs)
  obtain w1 where w1: "send_term b g w = Some w1" "world_ok w1" "w_own w1 = w_own w" "w_tid w1 = w_tid w"
      "inbox w1 = (inbox w)(b := inbox w b @ [Cmd_term g])"
    using send_ok [of w b "Cmd_term g"] Cons.prems unfolding send_term_def by auto
  obtain w2 where "send_terms bs g w1 = Some w2 \<and> world_ok w2 \<and> w_own w2 = w_own w1 \<and> w_tid w2 = w_tid w1 \<and>
      inbox w2 = (\<lambda>e. inbox w1 e @ (if e \<in> set bs then [Cmd_term g] else []))"
    using Cons.IH [of w1] Cons.prems w1 by auto
  moreover have "b \<notin> set bs" using Cons.prems by simp
  ultimately show ?case using w1 by (auto simp: fun_eq_iff)
qed simp

lemma pop_ok:
  assumes w: "world_ok w" and m: "w_mail w t = c # r"
  obtains d where "cmd_destination c = Some d" "d \<in> dom (w_own w)" "world_ok (w\<lparr>w_mail := (w_mail w)(t := r)\<rparr>)"
    "inbox w = (inbox (w\<lparr>w_mail := (w_mail w)(t := r)\<rparr>))(d := cmd_type c # inbox (w\<lparr>w_mail := (w_mail w)(t := r)\<rparr>) d)"
proof -
  let ?w = "w\<lparr>w_mail := (w_mail w)(t := r)\<rparr>"
  obtain d where d: "cmd_destination c = Some d" "w_tid w d = Some t"
    using w m unfolding world_ok_def by (metis list.set_intros(1))
  have "world_ok ?w" using w m unfolding world_ok_def by (auto simp: dest: spec [of _ t])
  moreover have "inbox w e = ((inbox ?w)(d := cmd_type c # inbox ?w d)) e" for e
    using d m by (cases "w_tid w e") (auto simp: inbox_def)
  ultimately show ?thesis using d w by (intro that [of d]) (auto simp: world_ok_def)
qed

lemma destroy_ok:
  assumes w: "world_ok w" and e: "inbox w a = []"
  shows "world_ok (process_destroy a w)" and "inbox (process_destroy a w) = inbox w"
proof -
  have no: "cmd_destination c \<noteq> Some a" if "c \<in> set (w_mail w t)" for c t
  proof
    assume d: "cmd_destination c = Some a"
    then have "w_tid w a = Some t" using w that unfolding world_ok_def by fastforce
    then show False using e d that by (auto simp: inbox_def filter_empty_conv)
  qed
  show "world_ok (process_destroy a w)"
    using w no unfolding world_ok_def process_destroy_def by fastforce
  show "inbox (process_destroy a w) = inbox w"
  proof
    fix b show "inbox (process_destroy a w) b = inbox w b"
      using e by (cases "b = a") (simp_all add: inbox_def process_destroy_def split: option.split)
  qed
qed

subsection \<open>A handler is a reaction and a check\<close>

abbreviation done_with :: "own \<Rightarrow> bool" where
  "done_with x \<equiv> ow_terminating x \<and> caught_up x \<and> ow_term_acks x = 0"

lemma handler_reacts:
  assumes a: "w_own w a = Some x" and nd: "\<not> done_with x" and re: "react c x = Some (x', cs, g)"
  shows "process_command (own_handlers a) c w = do { w' \<leftarrow> send_terms cs g (put a x' w); check_term_acks a w' }"
proof (cases c)
  case Cmd_plug
  with a re show ?thesis
    by (auto simp: process_command_def own_handlers_def process_seqnum_def upd_own_put)
next
  case (Cmd_own b)
  show ?thesis
  proof (cases "ow_terminating x")
    case True
    show ?thesis
    proof (cases "send_command (command_to b (Cmd_term 0)) w")
      case None
      with True Cmd_own a re show ?thesis
        by (auto simp: process_command_def own_handlers_def process_own_def register_term_acks_def upd_own_put
            send_term_def send_put)
    next
      case (Some w')
      then have "w_own w' = w_own w" by (auto simp: send_command_def ctx_send_command_def split: Option.bind_splits)
      with True Cmd_own a re Some show ?thesis
        by (auto simp: process_command_def own_handlers_def process_own_def register_term_acks_def upd_own_put
            send_term_def send_put process_seqnum_def deallocate_command_def split: Option.bind_splits)
    qed
  next
    case False
    with Cmd_own a re show ?thesis
      by (auto simp: process_command_def own_handlers_def process_own_def upd_own_put process_seqnum_def
          deallocate_command_def split: Option.bind_splits)
  qed
next
  case (Cmd_term_req b)
  have no: "check_term_acks a w' = Some w'" if "w_own w' a = Some y" "\<not> done_with y" for w' y
    using that by (auto simp: check_term_acks_def)
  show ?thesis
  proof (cases "ow_terminating x \<or> b \<notin> set (ow_owned x)")
    case True
    with Cmd_term_req a re nd no [OF a nd] show ?thesis
      by (auto simp: process_command_def own_handlers_def process_term_req_def put_same deallocate_command_def)
  next
    case False
    show ?thesis
    proof (cases "send_command (command_to b (Cmd_term (ow_linger x))) w")
      case None
      with False Cmd_term_req a re show ?thesis
        by (auto simp: process_command_def own_handlers_def process_term_req_def register_term_acks_def upd_own_put
            send_term_def send_put)
    next
      case (Some w')
      then have "w_own w' = w_own w" by (auto simp: send_command_def ctx_send_command_def split: Option.bind_splits)
      with False Cmd_term_req a re Some show ?thesis
        by (auto simp: process_command_def own_handlers_def process_term_req_def register_term_acks_def upd_own_put
            send_term_def send_put deallocate_command_def no)
    qed
  qed
next
  case (Cmd_term h)
  have t: "\<not> ow_terminating x" "cs = ow_owned x" "g = h"
    "x' = x\<lparr>ow_term_acks := ow_term_acks x + int (length (ow_owned x)), ow_owned := [], ow_terminating := True\<rparr>"
    using re Cmd_term by (auto split: if_splits)
  show ?thesis
  proof (cases "send_terms (ow_owned x) h w")
    case None
    with t Cmd_term a show ?thesis
      by (auto simp: process_command_def own_handlers_def process_term_def send_terms_put)
  next
    case (Some w')
    have "send_terms cs' g' v = Some v' \<Longrightarrow> w_own v' = w_own v" for cs' g' v v'
      by (induction cs' g' v rule: send_terms.induct)
        (auto simp: send_term_def send_command_def ctx_send_command_def split: Option.bind_splits)
    with Some have "w_own w' = w_own w" by blast
    with t Cmd_term a Some show ?thesis
      by (auto simp: process_command_def own_handlers_def process_term_def send_terms_put register_term_acks_def
          upd_own_put deallocate_command_def split: Option.bind_splits)
  qed
next
  case Cmd_term_ack
  with a re show ?thesis
    by (auto simp: process_command_def own_handlers_def process_term_ack_def unregister_term_ack_def upd_own_put
        deallocate_command_def split: if_splits Option.bind_splits)
qed (use re in auto)

lemma check_acks_ok:
  assumes w: "world_ok w" and a: "w_own w a = Some x" and d: "done_with x"
    and x: "ow_owned x = []" "inbox w a = []" "\<And>b. ow_owner x = Some b \<Longrightarrow> b \<in> dom (w_own w) \<and> b \<noteq> a"
  obtains w' where "check_term_acks a w = Some w'" "world_ok w'" "w_own w' = (w_own w)(a := None)" "inbox w' = acked x (inbox w)"
proof (cases "ow_owner x")
  case None
  then have "check_term_acks a w = Some (process_destroy a w)" using a d x by (simp add: check_term_acks_def)
  then show ?thesis
    using destroy_ok [OF w x(2)] None by (intro that) (auto simp: process_destroy_def acked_def fun_eq_iff)
next
  case (Some b)
  obtain w1 where w1: "send_command (command_to b Cmd_term_ack) w = Some w1" "world_ok w1" "w_own w1 = w_own w"
      "inbox w1 = (inbox w)(b := inbox w b @ [Cmd_term_ack])"
    using send_ok [OF w, of b Cmd_term_ack] x(3) [OF Some] by blast
  then have "inbox w1 a = []" using x(2) x(3) [OF Some] by simp
  note de = destroy_ok [OF w1(2) this]
  have "check_term_acks a w = Some (process_destroy a w1)"
    using a d x Some w1 by (simp add: check_term_acks_def send_term_ack_def)
  moreover have "w_own (process_destroy a w1) = (w_own w)(a := None)" using w1 by (simp add: process_destroy_def)
  ultimately show ?thesis using de w1 Some by (intro that) (auto simp: acked_def fun_eq_iff)
qed

subsection \<open>One delivery\<close>

lemma done_ripe: "counters_ok n x l \<Longrightarrow> n < 2 ^ 32 \<Longrightarrow> done_with x \<longleftrightarrow> ripe x l"
proof -
  assume "counters_ok n x l" and n: "n < 2 ^ 32"
  then obtain N P where c: "ow_sent_seqnum x = of_nat N" "ow_processed_seqnum x = of_nat P" "N = P + seqs l" "N \<le> n"
    unfolding counters_ok_def by blast
  have "unat (of_nat N :: u32) = N" using c(4) n by (simp add: unat_of_nat take_bit_nat_eq_self)
  moreover have "unat (of_nat P :: u64) = P" using c n by (simp add: unat_of_nat take_bit_nat_eq_self)
  ultimately have "caught_up x \<longleftrightarrow> P = N"
    using c n unfolding caught_up_def counter_get_def word_unat_eq_iff
    by (simp only: unsigned_ucast_eq) (simp add: take_bit_nat_eq_self del: of_nat_add)
  then show ?thesis using c by (auto simp: ripe_def)
qed

lemma react_keeps: "react c x = Some (x', cs, g) \<Longrightarrow> ow_terminating x \<Longrightarrow> ow_terminating x'"
  by (cases c) (auto split: if_splits)

text \<open>\<open>a\<close> handles \<open>c\<close>; \<open>B\<close> are the commands on their way before, \<open>inbox w\<close> those left.\<close>

lemma handle_ok:
  assumes w: "world_ok w" and a: "w_own w a = Some x" and ok: "sys_ok n (w_own w) B nx P"
    and B: "\<And>e. e \<noteq> a \<Longrightarrow> B e = inbox w e" and l: "takes c x (B a) (inbox w a)" and c: "own_kind c"
    and nr: "none_ripe (w_own w) B" and nl: "\<forall>o' c. (a, o', c) \<notin> P" and n: "n < 2 ^ 32"
  shows "\<exists>w'. process_command (own_handlers a) c w = Some w' \<and> world_ok w' \<and> sys_ok n (w_own w') (inbox w') nx P \<and>
      none_ripe (w_own w') (inbox w') \<and> (B a = c # inbox w a \<longrightarrow> work (w_own w') (inbox w') < work (w_own w) B)"
proof -
  let ?r = "inbox w a"
  note p = sys_parts [OF ok]
  obtain x' cs g where re: "react c x = Some (x', cs, g)" and cs: "distinct cs" "set cs \<subseteq> dom (w_own w)" "a \<notin> set cs"
    and own: "ow_owner x' = ow_owner x"
    and ok': "sys_ok n ((w_own w)(a \<mapsto> x')) (told a ?r (set cs) g B) nx P"
    and wk: "work ((w_own w)(a \<mapsto> x')) (told a ?r (set cs) g B) + weight (w_own w) B a =
      work (w_own w) B + length ?r + (if ow_terminating x' \<or> 0 < terms ?r then 1 else 2)"
    and dm: "ow_owner x \<noteq> None \<Longrightarrow> (ow_terminating x \<or> 0 < terms (B a)) = (ow_terminating x' \<or> 0 < terms ?r)"
    and co: "counters_ok n x' ?r"
    using sys_react [OF ok a l c] by metis
  have nd: "\<not> done_with x" using nr a done_ripe [OF p(2) [OF a] n] by (simp add: none_ripe_def)
  obtain w1 where w1: "send_terms cs g (put a x' w) = Some w1" "world_ok w1" "w_own w1 = (w_own w)(a \<mapsto> x')"
      "inbox w1 = (\<lambda>e. inbox w e @ (if e \<in> set cs then [Cmd_term g] else []))"
    using sends_ok [of "put a x' w" cs g] world_put [OF w a] cs by auto
  have B1: "inbox w1 = told a ?r (set cs) g B" using w1(4) B by (auto simp: told_def fun_eq_iff)
  have hd: "process_command (own_handlers a) c w = check_term_acks a w1"
    using handler_reacts [OF a nd re] w1(1) by simp
  have a1: "w_own w1 a = Some x'" using w1 by simp
  have ok1: "sys_ok n (w_own w1) (inbox w1) nx P" using ok' w1(3) B1 by simp
  have less: "B a = c # ?r \<Longrightarrow> work (w_own w1) (inbox w1) < work (w_own w) B"
  proof -
    assume Ba: "B a = c # ?r"
    have "weight (w_own w) B a > length ?r + (if ow_terminating x' \<or> 0 < terms ?r then 1 else 2) - 0"
    proof (cases "ow_owner x")
      case None
      then have "terms (B a) = 0" using p(3) [OF a] by (auto simp: told_ok_def)
      then show ?thesis using Ba react_keeps [OF re] a by (auto simp: weight_def doom_def split: if_splits)
    next
      case Some
      then show ?thesis using dm Ba a by (auto simp: weight_def doom_def)
    qed
    then show ?thesis using wk w1(3) B1 by simp
  qed
  have nr1: "\<not> ripe y (inbox w1 e)" if "w_own w1 e = Some y" "e \<noteq> a" for e y
    using nr [unfolded none_ripe_def, rule_format, of e y] that w1(3) B [of e] by (simp add: B1 told_def ripe_def)
  have r1: "inbox w1 a = ?r" using w1(4) cs by simp
  show ?thesis
  proof (cases "done_with x'")
    case False
    then have "check_term_acks a w1 = Some w1" using a1 by (auto simp: check_term_acks_def)
    moreover have "none_ripe (w_own w1) (inbox w1)"
      using nr1 done_ripe [OF co n] False a1 r1 unfolding none_ripe_def by fastforce
    ultimately show ?thesis using hd w1(2) ok1 less by simp
  next
    case True
    then have rp: "ripe x' (inbox w1 a)" using done_ripe [OF co n] r1 by simp
    have box: "inbox w1 a = []" by (rule ripe_alone [OF ok1 a1 rp nl])
    have "ow_owned x' = []" using sys_parts(4) [OF ok1 a1] True by (auto simp: mine_ok_def)
    moreover have "b \<in> dom (w_own w1) \<and> b \<noteq> a" if "ow_owner x' = Some b" for b
      using sys_parts(5) [OF ok1 a1 that] by auto
    ultimately obtain w2 where w2: "check_term_acks a w1 = Some w2" "world_ok w2" "w_own w2 = (w_own w1)(a := None)"
        "inbox w2 = acked x' (inbox w1)"
      using check_acks_ok [OF w1(2) a1 True _ box] by blast
    have "none_ripe (w_own w2) (inbox w2)"
      using nr1 unfolding none_ripe_def w2(3,4) by (auto simp: acked_def ripe_def)
    then show ?thesis
      using sys_destroy [OF ok1 a1 rp nl] w2 hd less by (auto intro: le_less_trans)
  qed
qed

section \<open>The system\<close>

text \<open>The objects of a process, the next address, and the launches begun but not finished: the
  launcher, the owner and the child.  A launch has two halves, so that everything can happen
  between the \<open>plug\<close> to the child and the \<open>own\<close> to its owner.\<close>

record own_sys =
  os_world :: world
  os_next :: addr
  os_busy :: "addr \<rightharpoonup> addr \<times> addr"

datatype own_act =
    New_root nat u32
  | Launch_child addr nat u32
  | Launch_sibling addr nat u32
  | Finish addr
  | Terminate addr
  | Deliver nat

definition create :: "addr \<Rightarrow> nat \<Rightarrow> u32 \<Rightarrow> world \<Rightarrow> world" where
  "create a t g w = w\<lparr>w_tid := (w_tid w)(a \<mapsto> t), w_own := (w_own w)(a \<mapsto> own_new g)\<rparr>"

definition launch_half :: "addr \<Rightarrow> addr \<Rightarrow> nat \<Rightarrow> u32 \<Rightarrow> own_sys \<Rightarrow> own_sys option" where
  "launch_half l owner t g s = do {
     let c = os_next s;
     w \<leftarrow> set_owner c (Some owner) (create c t g (os_world s));
     w \<leftarrow> send_plug c True w;
     Some (s\<lparr>os_world := w, os_next := Suc c, os_busy := (os_busy s)(l \<mapsto> (owner, c))\<rparr>)
   }"

fun own_do :: "own_act \<Rightarrow> own_sys \<Rightarrow> own_sys option" where
  "own_do (New_root t g) s =
     Some (s\<lparr>os_world := create (os_next s) t g (os_world s), os_next := Suc (os_next s)\<rparr>)"
| "own_do (Launch_child l t g) s = launch_half l l t g s"
| "own_do (Launch_sibling l t g) s = do {
     x \<leftarrow> w_own (os_world s) l;
     owner \<leftarrow> ow_owner x;
     launch_half l owner t g s
   }"
| "own_do (Finish l) s = do {
     (owner, c) \<leftarrow> os_busy s l;
     w \<leftarrow> send_own owner c (os_world s);
     Some (s\<lparr>os_world := w, os_busy := (os_busy s)(l := None)\<rparr>)
   }"
| "own_do (Terminate a) s = do { w \<leftarrow> own_terminate a (os_world s); Some (s\<lparr>os_world := w\<rparr>) }"
| "own_do (Deliver t) s =
     (case w_mail (os_world s) t of
        [] \<Rightarrow> Some s
      | c # r \<Rightarrow> do {
          d \<leftarrow> cmd_destination c;
          w \<leftarrow> process_command (own_handlers d) (cmd_type c) ((os_world s)\<lparr>w_mail := (w_mail (os_world s))(t := r)\<rparr>);
          Some (s\<lparr>os_world := w\<rparr>)
        })"

text \<open>An object acts when it lives and is not in the middle of a launch.\<close>

definition idle :: "own_sys \<Rightarrow> addr \<Rightarrow> bool" where
  "idle s a \<longleftrightarrow> w_own (os_world s) a \<noteq> None \<and> os_busy s a = None"

fun allowed :: "own_act \<Rightarrow> own_sys \<Rightarrow> bool" where
  "allowed (New_root t g) s = True"
| "allowed (Launch_child l t g) s = idle s l"
| "allowed (Launch_sibling l t g) s = (idle s l \<and> (case w_own (os_world s) l of None \<Rightarrow> False | Some x \<Rightarrow> ow_owner x \<noteq> None))"
| "allowed (Finish l) s = (os_busy s l \<noteq> None)"
| "allowed (Terminate a) s = idle s a"
| "allowed (Deliver t) s =
     (case w_mail (os_world s) t of
        [] \<Rightarrow> False
      | c # _ \<Rightarrow> (case cmd_destination c of None \<Rightarrow> True | Some d \<Rightarrow> os_busy s d = None))"

fun own_run :: "own_act list \<Rightarrow> own_sys \<Rightarrow> own_sys option" where
  "own_run [] s = Some s"
| "own_run (act # acts) s = (if allowed act s then do { s \<leftarrow> own_do act s; own_run acts s } else None)"

definition own_start :: own_sys where
  "own_start = \<lparr>os_world = \<lparr>w_tid = Map.empty, w_own = Map.empty, w_mail = (\<lambda>_. []), w_reaper = 0, w_idents = 0\<rparr>,
     os_next = 0, os_busy = Map.empty\<rparr>"

text \<open>Nothing is on its way to an object and no launch is pending.\<close>

definition quiet :: "own_sys \<Rightarrow> bool" where
  "quiet s \<longleftrightarrow> list_all (\<lambda>a. inbox (os_world s) a = [] \<and> os_busy s a = None) [0..<os_next s]"

subsection \<open>The invariant\<close>

definition pend :: "own_sys \<Rightarrow> pending" where
  "pend s = {(l, b, c). os_busy s l = Some (b, c)}"

definition good :: "nat \<Rightarrow> own_sys \<Rightarrow> bool" where
  "good n s \<longleftrightarrow> world_ok (os_world s) \<and> sys_ok n (w_own (os_world s)) (inbox (os_world s)) (os_next s) (pend s) \<and>
     none_ripe (w_own (os_world s)) (inbox (os_world s))"

definition os_work :: "own_sys \<Rightarrow> nat" where
  "os_work s = work (w_own (os_world s)) (inbox (os_world s))"

lemma good_start: "good 0 own_start"
  by (simp add: good_def own_start_def world_ok_def sys_ok_def none_ripe_def pend_def fresh_def kids_def)

lemma unborn_box: "world_ok w \<Longrightarrow> a \<notin> dom (w_own w) \<Longrightarrow> inbox w a = []"
  by (auto simp: inbox_def world_ok_def split: option.split)

lemma create_ok:
  assumes w: "world_ok w" and a: "a \<notin> dom (w_own w)"
  shows "world_ok (create a t g w)" and "inbox (create a t g w) = inbox w"
proof -
  have no: "cmd_destination c \<noteq> Some a" if "c \<in> set (w_mail w u)" for c u
    using w a that unfolding world_ok_def by fastforce
  show "world_ok (create a t g w)" using w no unfolding world_ok_def create_def by fastforce
  have e: "inbox w a = []" by (rule unborn_box [OF w a])
  show "inbox (create a t g w) = inbox w"
  proof
    fix b show "inbox (create a t g w) b = inbox w b"
      using e no by (cases "b = a") (auto simp: inbox_def create_def filter_empty_conv split: option.split)
  qed
qed

lemma good_root:
  assumes "good n s"
  shows "\<exists>s'. own_do (New_root t g) s = Some s' \<and> good (Suc n) s'"
proof -
  let ?w = "os_world s" and ?a = "os_next s"
  have w: "world_ok ?w" and ok: "sys_ok n (w_own ?w) (inbox ?w) ?a (pend s)" and nr: "none_ripe (w_own ?w) (inbox ?w)"
    using assms by (auto simp: good_def)
  have a: "?a \<notin> dom (w_own ?w)" using sys_parts(1) [OF ok] by auto
  note cr = create_ok [OF w a, of t g]
  have "counters_ok n (own_new g) []" unfolding counters_ok_def
    by (intro exI [of _ 0]) (simp add: own_new_def)
  then have "sys_ok n ((w_own ?w)(?a \<mapsto> own_new g)) ((inbox ?w)(?a := [])) (Suc ?a) (pend s)"
    by (intro sys_new [OF ok]) (auto simp: told_ok_def own_new_def)
  moreover have "none_ripe ((w_own ?w)(?a \<mapsto> own_new g)) (inbox ?w)"
    using nr by (auto simp: none_ripe_def ripe_def own_new_def)
  moreover have "(inbox ?w)(?a := []) = inbox ?w" using unborn_box [OF w a] by auto
  moreover have "w_own (create ?a t g ?w) = (w_own ?w)(?a \<mapsto> own_new g)" by (simp add: create_def)
  ultimately show ?thesis using cr sys_mono [of n _ _ _ _ "Suc n"] by (auto simp: good_def pend_def)
qed

lemma good_launch:
  assumes gd: "good n s" and id: "idle s l" and b: "b = l \<or> l \<in> kids (w_own (os_world s)) b"
  shows "\<exists>s'. launch_half l b t g s = Some s' \<and> good (Suc n) s'"
proof -
  let ?w = "os_world s" and ?c = "os_next s"
  have w: "world_ok ?w" and ok: "sys_ok n (w_own ?w) (inbox ?w) ?c (pend s)" and nr: "none_ripe (w_own ?w) (inbox ?w)"
    using gd by (auto simp: good_def)
  note p = sys_parts [OF ok]
  have l: "l \<in> dom (w_own ?w)" "os_busy s l = None" using id by (auto simp: idle_def)
  have bd: "b \<in> dom (w_own ?w)" using b l p(5) by (auto simp: kids_def)
  have c: "?c \<notin> dom (w_own ?w)" using p(1) by auto
  note cr = create_ok [OF w c, of t g]
  define y where "y = (own_new g)\<lparr>ow_owner := Some b, ow_sent_seqnum := 1\<rparr>"
  define w1 where "w1 = put ?c y (create ?c t g ?w)"
  have own1: "w_own w1 = (w_own ?w)(?c \<mapsto> y)" by (simp add: w1_def create_def)
  have w1: "world_ok w1" unfolding w1_def by (rule world_put [OF cr(1)]) (simp add: create_def)
  obtain w2 where w2: "send_command (command_to ?c Cmd_plug) w1 = Some w2" "world_ok w2" "w_own w2 = w_own w1"
      "inbox w2 = (inbox w1)(?c := inbox w1 ?c @ [Cmd_plug])"
    using send_ok [OF w1, of ?c Cmd_plug] own1 by auto
  have box: "inbox w2 = (inbox ?w)(?c := [Cmd_plug])" using w2(4) cr unborn_box [OF w c] by (simp add: w1_def)
  let ?s = "s\<lparr>os_world := w2, os_next := Suc ?c, os_busy := (os_busy s)(l \<mapsto> (b, ?c))\<rparr>"
  have c0: "w_own (create ?c t g ?w) ?c = Some (own_new g)" by (simp add: create_def)
  have half: "launch_half l b t g s = Some ?s"
    using w2(1) c0 unfolding launch_half_def set_owner_def send_plug_def inc_seqnum_def w1_def y_def
    by (simp add: upd_own_put own_new_def counter_add_def Let_def)
  have P: "pend ?s = insert (l, b, ?c) (pend s)" using l(2) by (auto simp: pend_def split: if_splits)
  have "counters_ok (Suc n) y [Cmd_plug]"
    unfolding counters_ok_def y_def by (intro exI [of _ 1] exI [of _ 0]) (simp add: own_new_def)
  then have "sys_ok (Suc n) ((w_own ?w)(?c \<mapsto> y)) ((inbox ?w)(?c := [Cmd_plug])) (Suc ?c) (insert (l, b, ?c) (pend s))"
    using b bd l by (intro sys_new [OF sys_mono [OF ok]]) (auto simp: told_ok_def y_def own_new_def)
  moreover have "none_ripe ((w_own ?w)(?c \<mapsto> y)) ((inbox ?w)(?c := [Cmd_plug]))"
    using nr by (auto simp: none_ripe_def ripe_def y_def own_new_def)
  ultimately have "good (Suc n) ?s" unfolding good_def P using w2 own1 box by simp
  then show ?thesis using half by blast
qed

lemma good_finish:
  assumes gd: "good n s" and bz: "os_busy s l = Some (b, c)"
  shows "\<exists>s'. own_do (Finish l) s = Some s' \<and> good (Suc n) s'"
proof -
  let ?w = "os_world s"
  have w: "world_ok ?w" and ok: "sys_ok n (w_own ?w) (inbox ?w) (os_next s) (pend s)" and nr: "none_ripe (w_own ?w) (inbox ?w)"
    using gd by (auto simp: good_def)
  note p = sys_parts [OF ok]
  have lp: "(l, b, c) \<in> pend s" using bz by (simp add: pend_def)
  have "c \<in> kids (w_own ?w) b" using p(7) [OF lp] by (simp add: fresh_def)
  then have bd: "b \<in> dom (w_own ?w)" using p(5) by (auto simp: kids_def)
  then obtain x where x: "w_own ?w b = Some x" by auto
  define y where "y = x\<lparr>ow_sent_seqnum := ow_sent_seqnum x + 1\<rparr>"
  obtain w2 where w2: "send_command (command_to b (Cmd_own c)) (put b y ?w) = Some w2" "world_ok w2"
      "w_own w2 = (w_own ?w)(b \<mapsto> y)" "inbox w2 = (inbox ?w)(b := inbox ?w b @ [Cmd_own c])"
    using send_ok [OF world_put [OF w x, of y], of b "Cmd_own c"] by auto
  let ?s = "s\<lparr>os_world := w2, os_busy := (os_busy s)(l := None)\<rparr>"
  have do: "own_do (Finish l) s = Some ?s"
    using bz x w2(1) by (simp add: send_own_def inc_seqnum_def upd_own_put counter_add_def y_def)
  have P: "pend ?s = pend s - {(l, b, c)}" using bz by (auto simp: pend_def split: if_splits)
  have "none_ripe ((w_own ?w)(b \<mapsto> y)) ((inbox ?w)(b := inbox ?w b @ [Cmd_own c]))"
    using nr by (auto simp: none_ripe_def ripe_def)
  then have "good (Suc n) ?s"
    using sys_finish [OF ok lp x] w2 unfolding good_def P by (simp add: y_def)
  with do show ?thesis by blast
qed

lemma good_deliver:
  assumes gd: "good n s" and al: "allowed (Deliver t) s" and n: "n < 2 ^ 32"
  shows "\<exists>s'. own_do (Deliver t) s = Some s' \<and> good n s' \<and> os_work s' < os_work s"
proof -
  let ?w = "os_world s"
  have w: "world_ok ?w" and ok: "sys_ok n (w_own ?w) (inbox ?w) (os_next s) (pend s)" and nr: "none_ripe (w_own ?w) (inbox ?w)"
    using gd by (auto simp: good_def)
  obtain c r where m: "w_mail ?w t = c # r" using al by (auto split: list.splits)
  let ?v = "?w\<lparr>w_mail := (w_mail ?w)(t := r)\<rparr>"
  obtain d where d: "cmd_destination c = Some d" "d \<in> dom (w_own ?w)" "world_ok ?v"
      "inbox ?w = (inbox ?v)(d := cmd_type c # inbox ?v d)"
    using pop_ok [OF w m] by blast
  then obtain x where x: "w_own ?v d = Some x" by auto
  have box: "inbox ?w d = cmd_type c # inbox ?v d" "\<And>e. e \<noteq> d \<Longrightarrow> inbox ?w e = inbox ?v e" by (simp_all add: d(4))
  have "own_kind (cmd_type c)" using sys_parts(3) [OF ok, of d x] x box by (simp add: told_ok_def)
  moreover have "\<forall>o' c. (d, o', c) \<notin> pend s" using al m d by (simp add: pend_def)
  ultimately obtain w' where "process_command (own_handlers d) (cmd_type c) ?v = Some w'" "world_ok w'"
      "sys_ok n (w_own w') (inbox w') (os_next s) (pend s)" "none_ripe (w_own w') (inbox w')"
      "work (w_own w') (inbox w') < work (w_own ?w) (inbox ?w)"
    using handle_ok [OF d(3) x, of n "inbox ?w" "os_next s" "pend s" "cmd_type c"] ok nr n box
    by (auto simp: takes_def)
  then show ?thesis using m d(1) by (auto simp: good_def os_work_def pend_def)
qed

lemma good_terminate:
  assumes gd: "good n s" and id: "idle s a" and n: "n < 2 ^ 32"
  shows "\<exists>s'. own_do (Terminate a) s = Some s' \<and> good n s'"
proof -
  let ?w = "os_world s"
  have w: "world_ok ?w" and ok: "sys_ok n (w_own ?w) (inbox ?w) (os_next s) (pend s)" and nr: "none_ripe (w_own ?w) (inbox ?w)"
    using gd by (auto simp: good_def)
  note p = sys_parts [OF ok]
  obtain x where x: "w_own ?w a = Some x" using id by (auto simp: idle_def)
  show ?thesis
  proof (cases "ow_terminating x")
    case True
    then show ?thesis using x gd by (simp add: own_terminate_def)
  next
    case False
    show ?thesis
    proof (cases "ow_owner x")
      case None
      have nl: "\<forall>o' c. (a, o', c) \<notin> pend s" using id by (simp add: pend_def idle_def)
      have "takes (Cmd_term (ow_linger x)) x (inbox ?w a) (inbox ?w a)" using None False by (simp add: takes_def)
      from handle_ok [OF w x ok _ this _ nr nl n] obtain w' where
        w': "process_command (own_handlers a) (Cmd_term (ow_linger x)) ?w = Some w'" "world_ok w'"
          "sys_ok n (w_own w') (inbox w') (os_next s) (pend s)" "none_ripe (w_own w') (inbox w')"
        by auto
      have "process_term a (ow_linger x) ?w = Some w'"
        using w'(1) by (auto simp: process_command_def own_handlers_def deallocate_command_def split: Option.bind_splits)
      then show ?thesis using x False None w' by (simp add: own_terminate_def good_def pend_def)
    next
      case (Some b)
      obtain w2 where w2: "send_command (command_to b (Cmd_term_req a)) ?w = Some w2" "world_ok w2"
          "w_own w2 = w_own ?w" "inbox w2 = (inbox ?w)(b := inbox ?w b @ [Cmd_term_req a])"
        using send_ok [OF w, of b "Cmd_term_req a"] p(5) [OF x Some] by blast
      have "none_ripe (w_own ?w) ((inbox ?w)(b := inbox ?w b @ [Cmd_term_req a]))"
        using nr by (auto simp: none_ripe_def ripe_def)
      then show ?thesis
        using x False Some w2 sys_request [OF ok x Some] by (simp add: own_terminate_def send_term_req_def good_def pend_def)
    qed
  qed
qed

lemma good_mono: "good n s \<Longrightarrow> n \<le> m \<Longrightarrow> good m s"
  by (auto simp: good_def intro: sys_mono)

lemma good_step:
  assumes gd: "good n s" and al: "allowed act s" and n: "n < 2 ^ 32"
  shows "\<exists>s'. own_do act s = Some s' \<and> good (Suc n) s'"
proof (cases act)
  case (Launch_child l t g)
  then show ?thesis using good_launch [OF gd, of l l] al by simp
next
  case (Launch_sibling l t g)
  then obtain x b where x: "w_own (os_world s) l = Some x" "ow_owner x = Some b" "idle s l"
    using al by (auto split: option.splits)
  then show ?thesis using good_launch [OF gd, of l b] Launch_sibling by (auto simp: kids_def)
next
  case (Finish l)
  then show ?thesis using good_finish [OF gd, of l] al by auto
next
  case (Terminate a)
  then show ?thesis using good_terminate [OF gd _ n, of a] al good_mono [of n _ "Suc n"] by auto
next
  case (Deliver t)
  with al have "allowed (Deliver t) s" by simp
  from good_deliver [OF gd this n] show ?thesis using good_mono [of n _ "Suc n"] Deliver by auto
qed (simp only: good_root [OF gd])

lemma good_run: "own_run acts s = Some s' \<Longrightarrow> good n s \<Longrightarrow> n + length acts \<le> 2 ^ 32 \<Longrightarrow> good (n + length acts) s'"
proof (induction acts arbitrary: n s)
  case (Cons act acts)
  have "allowed act s" using Cons.prems(1) by (auto split: if_splits)
  with good_step [OF Cons.prems(2)] Cons.prems obtain s1 where s1: "own_do act s = Some s1" "good (Suc n) s1" by auto
  then show ?case using Cons.IH [of s1 "Suc n"] Cons.prems by (auto split: if_splits)
qed simp

lemma good_reach: "own_run acts own_start = Some s \<Longrightarrow> length acts \<le> 2 ^ 32 \<Longrightarrow> good (length acts) s"
  using good_run [OF _ good_start, of acts s] by simp

lemma own_run_append: "own_run (as @ bs) s = do { s \<leftarrow> own_run as s; own_run bs s }"
  by (induction as arbitrary: s) (auto split: Option.bind_splits)

subsection \<open>What is never reached\<close>

lemma deliver_run:
  assumes "own_run (map Deliver ts) s = Some s'" "good n s" "n < 2 ^ 32"
  shows "os_work s' + length ts \<le> os_work s"
  using assms
proof (induction ts arbitrary: s)
  case (Cons t ts)
  have al: "allowed (Deliver t) s" using Cons.prems(1) by (auto simp del: allowed.simps split: if_splits)
  from good_deliver [OF Cons.prems(2) al Cons.prems(3)]
  obtain s1 where s1: "own_do (Deliver t) s = Some s1" "good n s1" "os_work s1 < os_work s" by blast
  then have "own_run (map Deliver ts) s1 = Some s'" using Cons.prems(1) al by (simp del: allowed.simps own_do.simps)
  then show ?case using Cons.IH [of s1] s1 Cons.prems(3) by simp
qed simp

lemma quiet_settled:
  assumes gd: "good n s" and q: "quiet s" and a: "w_own (os_world s) a = Some x"
  shows "\<not> ow_terminating x"
proof -
  let ?w = "os_world s"
  have w: "world_ok ?w" and ok: "sys_ok n (w_own ?w) (inbox ?w) (os_next s) (pend s)" and nr: "none_ripe (w_own ?w) (inbox ?w)"
    using gd by (auto simp: good_def)
  note p = sys_parts [OF ok]
  have box: "inbox ?w b = [] \<and> os_busy s b = None" if "b \<in> dom (w_own ?w)" for b
    using q p(1) that unfolding quiet_def list_all_iff by auto
  have "\<not> ow_terminating y" if "w_own ?w b = Some y" for b y
    using that
  proof (induction "os_next s - b" arbitrary: b y rule: less_induct)
    case less
    show ?case
    proof
      assume t: "ow_terminating y"
      have bd: "b \<in> dom (w_own ?w)" using less.prems by auto
      have "doomed (w_own ?w) (inbox ?w) b \<noteq> {}"
        using nr [unfolded none_ripe_def, rule_format, OF less.prems] p(4) [OF less.prems] t box [OF bd]
        by (auto simp: ripe_def mine_ok_def)
      then obtain c z where c: "w_own ?w c = Some z" "ow_owner z = Some b" "ow_terminating z \<or> 0 < terms (inbox ?w c)"
        by (auto simp: doomed_def kids_def doom_def)
      have cd: "c \<in> dom (w_own ?w)" using c by auto
      then have "b < c" "c < os_next s" using p(5) [OF c(1,2)] p(1) by auto
      then have "\<not> ow_terminating z" using less.hyps [OF _ c(1)] by simp
      then show False using c(3) box [OF cd] by simp
    qed
  qed
  then show ?thesis using a by blast
qed

subsection \<open>What stays gone\<close>

definition gone :: "world \<Rightarrow> addr \<Rightarrow> bool" where
  "gone w a \<longleftrightarrow> (\<forall>x. w_own w a = Some x \<longrightarrow> ow_terminating x)"

text \<open>No object comes to life, none that is terminating stops doing so.\<close>

definition keeps :: "world \<Rightarrow> world \<Rightarrow> bool" where
  "keeps w w' \<longleftrightarrow> (\<forall>b. gone w b \<longrightarrow> gone w' b)"

lemma keeps_trans: "keeps w w1 \<Longrightarrow> keeps w1 w2 \<Longrightarrow> keeps w w2"
  by (auto simp: keeps_def)

lemma keeps_refl [simp]: "keeps w w"
  by (simp add: keeps_def)

definition pres :: "(world \<Rightarrow> world option) \<Rightarrow> bool" where
  "pres f \<longleftrightarrow> (\<forall>w w'. f w = Some w' \<longrightarrow> keeps w w')"

lemma presD: "pres f \<Longrightarrow> f w = Some w' \<Longrightarrow> gone w b \<Longrightarrow> gone w' b"
  by (auto simp: pres_def keeps_def)

lemma pres_some: "pres Some"
  by (simp add: pres_def)

lemma pres_send: "pres (send_command c)"
  by (auto simp: pres_def send_command_def ctx_send_command_def keeps_def gone_def split: Option.bind_splits)

lemma pres_upd:
  assumes f: "\<And>x. ow_terminating x \<Longrightarrow> ow_terminating (f x)"
  shows "pres (upd_own a f)"
  unfolding pres_def keeps_def gone_def
proof (intro allI impI)
  fix w w' b y
  assume u: "upd_own a f w = Some w'" and g: "\<forall>x. w_own w b = Some x \<longrightarrow> ow_terminating x" and y: "w_own w' b = Some y"
  obtain x where "w_own w a = Some x" "w' = w\<lparr>w_own := (w_own w)(a \<mapsto> f x)\<rparr>"
    using u by (auto simp: upd_own_def split: Option.bind_splits)
  then show "ow_terminating y" using f g y by (cases "b = a") auto
qed

lemma pres_bind: "pres f \<Longrightarrow> pres g \<Longrightarrow> pres (\<lambda>w. f w \<bind> g)"
  by (auto simp: pres_def keeps_def split: Option.bind_splits)

lemma pres_read: "(\<And>x. pres (k x)) \<Longrightarrow> pres (\<lambda>w. w_own w a \<bind> (\<lambda>x. k x w))"
  by (auto simp: pres_def split: Option.bind_splits)

lemma pres_assert: "pres f \<Longrightarrow> pres (\<lambda>w. zmq_assert P \<bind> (\<lambda>_. f w))"
  by (auto simp: pres_def split: Option.bind_splits)

lemma pres_if: "pres f \<Longrightarrow> pres g \<Longrightarrow> pres (\<lambda>w. if P then f w else g w)"
  by (simp add: pres_def)

lemma pres_option: "pres f \<Longrightarrow> (\<And>b. pres (g b)) \<Longrightarrow> pres (\<lambda>w. case z of None \<Rightarrow> f w | Some b \<Rightarrow> g b w)"
  by (cases z) auto

lemma pres_destroy: "pres (\<lambda>w. Some (process_destroy a w))"
  by (simp add: pres_def process_destroy_def keeps_def gone_def)

lemma pres_sends: "pres (send_terms cs g)"
proof (induction cs)
  case (Cons b bs)
  have e: "send_terms (b # bs) g = (\<lambda>w. send_command (command_to b (Cmd_term g)) w \<bind> send_terms bs g)"
    by (simp add: fun_eq_iff send_term_def)
  show ?case unfolding e by (rule pres_bind [OF pres_send Cons])
qed (simp add: pres_def)

named_theorems keeping

lemmas pres_rules [keeping] = pres_bind pres_read pres_assert pres_if pres_option pres_destroy pres_sends pres_send pres_some pres_upd

lemma pres_check [keeping]: "pres (check_term_acks a)"
  unfolding check_term_acks_def [abs_def] send_term_ack_def by (intro keeping)

lemma pres_seqnum [keeping]: "pres (process_seqnum a)"
  unfolding process_seqnum_def [abs_def] by (intro keeping) simp

lemma pres_register [keeping]: "pres (register_term_acks a i)"
  unfolding register_term_acks_def [abs_def] by (intro keeping) simp

lemma pres_handlers [keeping]:
  "pres (process_own a b)" "pres (process_term_req a b)" "pres (process_term a g)" "pres (process_term_ack a)"
  unfolding process_own_def [abs_def] process_term_req_def [abs_def] process_term_def [abs_def] process_term_ack_def [abs_def]
    unregister_term_ack_def [abs_def] send_term_def
  by (intro keeping; simp)+

lemma pres_deallocate [keeping]: "pres (\<lambda>w. Some (deallocate_command c w))"
proof -
  have "w_own (deallocate_command c w) = w_own w" for w by (simp add: deallocate_command_def split: cmd.split)
  then show ?thesis by (simp add: pres_def keeps_def gone_def)
qed

lemma pres_process: "pres (process_command (own_handlers a) c)"
proof -
  have r: "pres refuse" by (simp add: pres_def refuse_def)
  show ?thesis
    unfolding process_command_def [abs_def] own_handlers_def object_handlers_def
    by (cases c) (auto intro!: r keeping)
qed

lemma gone_do:
  assumes act: "own_do act s = Some s'" and b: "b < os_next s" and g: "gone (os_world s) b"
  shows "gone (os_world s') b \<and> b < os_next s'"
proof -
  have half: "gone (os_world s') b \<and> b < os_next s'" if h: "launch_half l o' t g' s = Some s'" for l o' t g'
  proof -
    let ?c = "os_next s"
    obtain w1 w2 where w: "set_owner ?c (Some o') (create ?c t g' (os_world s)) = Some w1" "send_plug ?c True w1 = Some w2"
        "os_world s' = w2" "os_next s' = Suc ?c"
      using h by (auto simp: launch_half_def Let_def split: Option.bind_splits)
    have "pres (set_owner ?c (Some o'))" unfolding set_owner_def [abs_def] by (intro keeping) simp
    moreover have "pres (send_plug ?c True)"
      unfolding send_plug_def [abs_def] inc_seqnum_def [abs_def] by (intro keeping; simp)
    moreover have "gone (create ?c t g' (os_world s)) b" using g b by (auto simp: gone_def create_def)
    ultimately show ?thesis using w b presD by (metis less_SucI)
  qed
  show ?thesis
  proof (cases act)
    case (New_root t g')
    then show ?thesis using act b g by (auto simp: gone_def create_def)
  next
    case (Finish l)
    then obtain o' c w where w: "send_own o' c (os_world s) = Some w" "os_world s' = w" "os_next s' = os_next s"
      using act by (auto split: Option.bind_splits)
    have "pres (send_own o' c)" unfolding send_own_def [abs_def] inc_seqnum_def [abs_def] by (intro keeping; simp)
    then show ?thesis using w b g presD by metis
  next
    case (Terminate a)
    then obtain w where w: "own_terminate a (os_world s) = Some w" "os_world s' = w" "os_next s' = os_next s"
      using act by (auto split: Option.bind_splits)
    have "pres (own_terminate a)" unfolding own_terminate_def [abs_def] send_term_req_def by (intro keeping)
    then show ?thesis using w b g presD by metis
  next
    case (Deliver t)
    show ?thesis
    proof (cases "w_mail (os_world s) t")
      case Nil
      then show ?thesis using act Deliver b g by simp
    next
      case (Cons c r)
      then obtain d w where w: "process_command (own_handlers d) (cmd_type c) ((os_world s)\<lparr>w_mail := (w_mail (os_world s))(t := r)\<rparr>) = Some w"
          "os_world s' = w" "os_next s' = os_next s"
        using act Deliver by (auto split: Option.bind_splits)
      have "gone ((os_world s)\<lparr>w_mail := (w_mail (os_world s))(t := r)\<rparr>) b" using g by (simp add: gone_def)
      then show ?thesis using w b presD [OF pres_process w(1)] by simp
    qed
  qed (use act half in \<open>auto split: Option.bind_splits\<close>)
qed

lemma gone_run: "own_run acts s = Some s' \<Longrightarrow> b < os_next s \<Longrightarrow> gone (os_world s) b \<Longrightarrow> gone (os_world s') b"
proof (induction acts arbitrary: s)
  case (Cons act acts)
  then obtain s1 where "own_do act s = Some s1" "own_run acts s1 = Some s'"
    by (auto split: if_splits Option.bind_splits)
  then show ?case using gone_do Cons by blast
qed simp

text \<open>The two halves of a launch are the operation of the code.\<close>

lemma launch_child_halves:
  assumes "launch_half l l t g s = Some s1" "own_do (Finish l) s1 = Some s2"
  shows "launch_child l (os_next s) (create (os_next s) t g (os_world s)) = Some (os_world s2)"
  using assms unfolding launch_half_def launch_child_def Let_def by (auto split: Option.bind_splits)

lemma launch_sibling_halves:
  assumes "own_do (Launch_sibling l t g) s = Some s1" "own_do (Finish l) s1 = Some s2" "l \<noteq> os_next s"
  shows "launch_sibling l (os_next s) (create (os_next s) t g (os_world s)) = Some (os_world s2)"
proof -
  obtain x b where x: "w_own (os_world s) l = Some x" "ow_owner x = Some b" "launch_half l b t g s = Some s1"
    using assms(1) by (auto split: Option.bind_splits)
  moreover have "w_own (create (os_next s) t g (os_world s)) l = Some x" using x assms(3) by (simp add: create_def)
  ultimately show ?thesis using assms(2) unfolding launch_half_def launch_sibling_def Let_def
    by (auto split: Option.bind_splits)
qed

lemma root_told:
  assumes "w_own w a = Some x" "ow_owner x = None" "own_terminate a w = Some w'"
  shows "gone w' a"
proof (cases "ow_terminating x")
  case True
  then show ?thesis using assms by (simp add: own_terminate_def gone_def)
next
  case False
  then have "process_term a (ow_linger x) w = Some w'" using assms by (simp add: own_terminate_def)
  then obtain w1 w2 w3 where w: "upd_own a (\<lambda>x. x\<lparr>ow_owned := [], ow_terminating := True\<rparr>) w1 = Some w2"
      "check_term_acks a w2 = Some w'"
    using assms(1) False by (auto simp: process_term_def split: Option.bind_splits)
  have "gone w2 a" using w(1) by (auto simp: upd_own_def gone_def split: Option.bind_splits)
  then show ?thesis using presD [OF pres_check w(2)] by blast
qed

section \<open>Properties\<close>

text \<open>C11 (safety).  The termination protocol of own.cpp never goes wrong.  After any sequence of the
  system's acts shorter than 2^32 - new roots, launches of children and of siblings in two halves,
  requests to terminate at any time, deliveries of the oldest command of any thread, in any order -
  every act an object may do, and every delivery, completes: no assertion of the handlers fails,
  no command reaches an object that has been deleted, no acknowledgement comes too many.\<close>

theorem own_protocol_safe:
  assumes "own_run acts own_start = Some s" "length acts < 2 ^ 32" "allowed act s"
  shows "\<exists>s'. own_do act s = Some s'"
  using good_step [OF good_reach [OF assms(1)] assms(3)] assms(2) by auto

text \<open>C12 (termination).  The commands die out: from every state that is reached, only so many commands can be
  delivered before the mailboxes are empty, however the deliveries are ordered: each delivery
  lowers the count of commands on their way, plus one for every live object, plus another one
  for every live object that has not been told to terminate.\<close>

theorem own_commands_die_out:
  assumes "own_run acts own_start = Some s" "length acts < 2 ^ 32" "own_run (map Deliver ts) s = Some s'"
  shows "length ts + os_work s' \<le> os_work s"
  using deliver_run [OF assms(3) good_reach [OF assms(1)]] assms(2) by simp

text \<open>C10 (liveness).  Termination is complete.  When a root object is told to terminate, then whatever happens
  afterwards, once no command is on its way and no launch is pending, the root has been deleted;
  and every object still alive is not terminating and its owner, if it has one, is alive too:
  no descendant of the root is left over.\<close>

theorem own_tree_terminates:
  assumes run: "own_run (acts @ Terminate a # acts') own_start = Some s" "length acts + length acts' + 1 < 2 ^ 32"
    and root: "own_run acts own_start = Some s0" "w_own (os_world s0) a = Some x" "ow_owner x = None"
    and q: "quiet s"
  shows "w_own (os_world s) a = None \<and>
    (\<forall>c y. w_own (os_world s) c = Some y \<longrightarrow>
       \<not> ow_terminating y \<and> (\<forall>b. ow_owner y = Some b \<longrightarrow> w_own (os_world s) b \<noteq> None))"
proof -
  have gd: "good (length acts + length acts' + 1) s" using good_reach [OF run(1)] run(2) by simp
  have gd0: "good (length acts) s0" using good_reach [OF root(1)] run(2) by simp
  obtain s1 where s1: "own_do (Terminate a) s0 = Some s1" "own_run acts' s1 = Some s"
    using run(1) root(1) by (auto simp: own_run_append split: Option.bind_splits if_splits)
  have a0: "a < os_next s0" using gd0 sys_parts(1) root(2) unfolding good_def by blast
  have "gone (os_world s1) a" "os_next s1 = os_next s0"
    using s1(1) root(2,3) root_told [of "os_world s0" a x] by (auto split: Option.bind_splits)
  then have "gone (os_world s) a" using gone_run [OF s1(2)] a0 by simp
  moreover have "\<not> ow_terminating y" if "w_own (os_world s) c = Some y" for c y
    by (rule quiet_settled [OF gd q that])
  moreover have "w_own (os_world s) b \<noteq> None" if "w_own (os_world s) c = Some y" "ow_owner y = Some b" for b c y
    using gd that sys_parts(5) unfolding good_def by blast
  ultimately show ?thesis by (cases "w_own (os_world s) a") (auto simp: gone_def)
qed

text \<open>A root with a child and the child's sibling; the root is told to terminate before it has heard of the
  sibling.\<close>

definition own_demo :: "own_act list" where
  "own_demo = [New_root 0 0, Launch_child 0 1 0, Finish 0, Deliver 1, Launch_sibling 1 2 0, Finish 1, Deliver 0]"

definition own_demo_rest :: "own_act list" where
  "own_demo_rest = map Deliver [0, 1, 2, 2, 0, 0]"

lemma own_demo_runs:
  "\<not> Option.is_none (own_run own_demo own_start)"
  "map_option ow_owner (w_own (os_world (the (own_run own_demo own_start))) 0) = Some None"
  "\<not> Option.is_none (own_run (own_demo @ Terminate 0 # own_demo_rest) own_start)"
  "quiet (the (own_run (own_demo @ Terminate 0 # own_demo_rest) own_start))"
  by code_simp+

lemma some_the: "\<not> Option.is_none z \<Longrightarrow> z = Some (the z)"
  by (cases z) auto

lemma own_tree_terminates_witness:
  "w_own (os_world (the (own_run (own_demo @ Terminate 0 # own_demo_rest) own_start))) 0 = None"
proof -
  obtain x where x: "w_own (os_world (the (own_run own_demo own_start))) 0 = Some x" "ow_owner x = None"
    using own_demo_runs(2) by auto
  have "length own_demo + length own_demo_rest + 1 < 2 ^ 32" by (simp add: own_demo_def own_demo_rest_def)
  from own_tree_terminates [OF some_the [OF own_demo_runs(3)] this some_the [OF own_demo_runs(1)] x own_demo_runs(4)]
  show ?thesis by blast
qed

lemma own_protocol_safe_witness:
  "\<exists>s'. own_do (Deliver 0) (the (own_run own_demo own_start)) = Some s'"
proof -
  have "allowed (Deliver 0) (the (own_run own_demo own_start))" by code_simp
  moreover have "length own_demo < 2 ^ 32" by (simp add: own_demo_def)
  ultimately show ?thesis using own_protocol_safe [OF some_the [OF own_demo_runs(1)]] by blast
qed

lemma own_commands_die_out_witness:
  "6 \<le> os_work (the (own_run (own_demo @ [Terminate 0]) own_start))"
proof -
  let ?s = "the (own_run (own_demo @ [Terminate 0]) own_start)"
  have "\<not> Option.is_none (own_run (own_demo @ [Terminate 0]) own_start)"
    "\<not> Option.is_none (own_run (map Deliver [0, 1, 2, 2, 0, 0]) ?s)" by code_simp+
  moreover have "length (own_demo @ [Terminate 0]) < 2 ^ 32" by (simp add: own_demo_def)
  ultimately have "length [0 :: nat, 1, 2, 2, 0, 0] + os_work (the (own_run (map Deliver [0, 1, 2, 2, 0, 0]) ?s)) \<le> os_work ?s"
    by (intro own_commands_die_out [OF some_the _ some_the])
  then show ?thesis by simp
qed

text \<open>A child asks to terminate after \<open>plug\<close> and before the owner has been sent \<open>own\<close>: the request
  arrives first, the owner does not know the child and drops it, and the child lives on.\<close>

lemma own_early_request_lost:
  "let s = the (own_run [New_root 0 0, Launch_child 0 1 0, Deliver 1, Terminate 1, Finish 0, Deliver 0, Deliver 0] own_start)
   in quiet s \<and> map_option ow_terminating (w_own (os_world s) 1) = Some False \<and>
      map_option ow_owned (w_own (os_world s) 0) = Some [1]"
  by code_simp

end
