(* ===== verification/Mailbox.thy ===== *)
theory Mailbox
  imports Ypipe Object
begin

text \<open>
  \<open>mailbox.hpp\<close>, \<open>mailbox.cpp\<close>, \<open>signaler.hpp\<close>, \<open>signaler.cpp\<close>: the mailbox of a thread, a lock-free
  pipe of commands and a signaler that wakes the reader.  The socket pair of the signaler is the number
  of bytes in it, each of value 0; its creation, and the two ways of waiting on it (\<open>poll\<close> and
  \<open>select\<close>), which differ in system calls only, are not modelled.

  Any number of threads send: what they do under the lock is one step, the signal, sent after the
  lock has been released, is another one.  The reader's \<open>recv\<close> is in two steps, so that commands can
  be sent while it waits.
\<close>

section \<open>The signaler\<close>

type_synonym signaler = nat

definition signaler_new :: signaler where "signaler_new = 0"
definition signaler_send :: "signaler \<Rightarrow> signaler" where "signaler_send n = Suc n"

text \<open>\<open>poll\<close> is interrupted by a signal of the system (\<open>intr\<close>), or returns at once when there is a
  byte to read, or else when the timeout has elapsed.\<close>

definition signaler_wait :: "bool \<Rightarrow> signaler \<Rightarrow> rc" where
  "signaler_wait intr n = (if intr then Err EINTR else if n = 0 then Err EAGAIN else OK)"

definition signaler_recv :: "signaler \<Rightarrow> signaler option" where
  "signaler_recv n = do { zmq_assert (n > 0); Some (n - 1) }"

section \<open>The mailbox\<close>

definition command_pipe_granularity :: nat where "command_pipe_granularity = 16"

record mailbox =
  mb_cpipe :: "command ypipe"
  mb_signaler :: signaler
  mb_active :: bool

definition mailbox_new :: "mailbox option" where
  "mailbox_new = do {
     y \<leftarrow> ypipe_init command_pipe_granularity;
     (c, y) \<leftarrow> ypipe_read command_pipe_granularity y;
     zmq_assert (c = None);
     Some \<lparr>mb_cpipe = y, mb_signaler = signaler_new, mb_active = False\<rparr>
   }"

text \<open>The locked part of \<open>send\<close>: false when the reader is to be woken up.\<close>

definition mailbox_put :: "command \<Rightarrow> mailbox \<Rightarrow> (bool \<times> mailbox) option" where
  "mailbox_put c m = do {
     y \<leftarrow> ypipe_write command_pipe_granularity c False (mb_cpipe m);
     let (ok, y) = ypipe_flush y;
     Some (ok, m\<lparr>mb_cpipe := y\<rparr>)
   }"

definition mailbox_signal :: "mailbox \<Rightarrow> mailbox" where
  "mailbox_signal m = m\<lparr>mb_signaler := signaler_send (mb_signaler m)\<rparr>"

definition mailbox_send :: "command \<Rightarrow> mailbox \<Rightarrow> mailbox option" where
  "mailbox_send c m = do {
     (ok, m) \<leftarrow> mailbox_put c m;
     Some (if \<not> ok then mailbox_signal m else m)
   }"

text \<open>\<open>recv\<close> up to the wait: a command, or the reader goes on to wait.\<close>

definition mailbox_try :: "mailbox \<Rightarrow> (command option \<times> mailbox) option" where
  "mailbox_try m =
     (if mb_active m then do {
        (c, y) \<leftarrow> ypipe_read command_pipe_granularity (mb_cpipe m);
        let m = m\<lparr>mb_cpipe := y\<rparr>;
        case c of
          Some c \<Rightarrow> Some (Some c, m)
        | None \<Rightarrow> do {
            let m = m\<lparr>mb_active := False\<rparr>;
            n \<leftarrow> signaler_recv (mb_signaler m);
            Some (None, m\<lparr>mb_signaler := n\<rparr>)
          }
      }
      else Some (None, m))"

text \<open>\<open>recv\<close> from the return of the wait.\<close>

definition mailbox_wake :: "bool \<Rightarrow> mailbox \<Rightarrow> (rc \<times> command option \<times> mailbox) option" where
  "mailbox_wake intr m =
     (case signaler_wait intr (mb_signaler m) of
        Err e \<Rightarrow> Some (Err e, None, m)
      | OK \<Rightarrow> do {
          let m = m\<lparr>mb_active := True\<rparr>;
          (c, y) \<leftarrow> ypipe_read command_pipe_granularity (mb_cpipe m);
          zmq_assert (c \<noteq> None);
          Some (OK, c, m\<lparr>mb_cpipe := y\<rparr>)
        })"

definition mailbox_recv :: "bool \<Rightarrow> mailbox \<Rightarrow> (rc \<times> command option \<times> mailbox) option" where
  "mailbox_recv intr m = do {
     (c, m) \<leftarrow> mailbox_try m;
     case c of Some c \<Rightarrow> Some (OK, Some c, m) | None \<Rightarrow> mailbox_wake intr m
   }"

section \<open>Senders and reader in any order\<close>

text \<open>\<open>ms_pending\<close>: the senders that have left the lock and have not sent their signal yet;
  \<open>ms_waiting\<close>: the reader is in the wait.\<close>

record mb_sys =
  ms_box :: mailbox
  ms_pending :: nat
  ms_waiting :: bool

datatype mb_act = Mb_put command | Mb_signal | Mb_try | Mb_wake bool

text \<open>The commands the reader gets in a step are its first result.\<close>

fun mb_do :: "mb_act \<Rightarrow> mb_sys \<Rightarrow> (command list \<times> mb_sys) option" where
  "mb_do (Mb_put c) s = do {
     (ok, m) \<leftarrow> mailbox_put c (ms_box s);
     Some ([], s\<lparr>ms_box := m, ms_pending := (if ok then ms_pending s else Suc (ms_pending s))\<rparr>)
   }"
| "mb_do Mb_signal s =
     Some ([], if ms_pending s = 0 then s
        else s\<lparr>ms_box := mailbox_signal (ms_box s), ms_pending := ms_pending s - 1\<rparr>)"
| "mb_do Mb_try s =
     (if ms_waiting s then Some ([], s)
      else do {
        (c, m) \<leftarrow> mailbox_try (ms_box s);
        Some (case c of Some c \<Rightarrow> ([c], s\<lparr>ms_box := m\<rparr>) | None \<Rightarrow> ([], s\<lparr>ms_box := m, ms_waiting := True\<rparr>))
      })"
| "mb_do (Mb_wake intr) s =
     (if \<not> ms_waiting s then Some ([], s)
      else do {
        (rc, c, m) \<leftarrow> mailbox_wake intr (ms_box s);
        Some (case c of Some c \<Rightarrow> [c] | None \<Rightarrow> [], s\<lparr>ms_box := m, ms_waiting := False\<rparr>)
      })"

fun mb_run :: "mb_act list \<Rightarrow> mb_sys \<Rightarrow> (command list \<times> mb_sys) option" where
  "mb_run [] s = Some ([], s)"
| "mb_run (a # as) s = do {
     (cs, s) \<leftarrow> mb_do a s;
     (cs', s) \<leftarrow> mb_run as s;
     Some (cs @ cs', s)
   }"

fun mb_sent :: "mb_act list \<Rightarrow> command list" where
  "mb_sent [] = []"
| "mb_sent (Mb_put c # as) = c # mb_sent as"
| "mb_sent (_ # as) = mb_sent as"

definition mb_start :: "mb_sys option" where
  "mb_start = do { m \<leftarrow> mailbox_new; Some \<lparr>ms_box = m, ms_pending = 0, ms_waiting = False\<rparr> }"

text \<open>The signals sent or about to be sent are those the reader has been promised: one when it is awake.\<close>

definition mb_inv :: "mb_sys \<Rightarrow> command list \<Rightarrow> bool" where
  "mb_inv s cs \<longleftrightarrow> (\<exists>p. yp_rep command_pipe_granularity (mb_cpipe (ms_box s)) p \<and>
     ap_avail p = cs \<and> ap_pend p = [] \<and> ap_inc p = [] \<and>
     mb_signaler (ms_box s) + ms_pending s = (if ap_asleep p then 0 else 1) \<and>
     (if mb_active (ms_box s) then ms_pending s = 0 \<and> \<not> ap_asleep p \<and> \<not> ms_waiting s
      else (cs = []) = ap_asleep p))"

lemma granularity: "command_pipe_granularity = Suc 15"
  by (simp add: command_pipe_granularity_def)

lemmas cpipe_init = yp.init_law [of 15, folded granularity]
  and cpipe_write = yp.write_law [of 15, folded granularity]
  and cpipe_flush = yp.flush_law [of 15, folded granularity]
  and cpipe_read = yp.read_law [of 15, folded granularity]

lemma mb_start_inv: "\<exists>s. mb_start = Some s \<and> mb_inv s []"
proof -
  obtain y where y: "ypipe_init command_pipe_granularity = Some y" "yp_rep command_pipe_granularity y (ap_init :: command apipe)"
    using cpipe_init by blast
  obtain y' where "ypipe_read command_pipe_granularity y = Some (None, y')" "yp_rep command_pipe_granularity y' (ap_init\<lparr>ap_asleep := True\<rparr>)"
    using cpipe_read [OF y(2)] by (auto simp: ap_read_def ap_init_def)
  with y show ?thesis
    by (auto simp: mb_start_def mailbox_new_def mb_inv_def signaler_new_def ap_init_def intro!: exI [of _ "ap_init\<lparr>ap_asleep := True\<rparr>"])
qed

lemma mb_put_inv:
  assumes "mb_inv s cs"
  shows "\<exists>s'. mb_do (Mb_put c) s = Some ([], s') \<and> mb_inv s' (cs @ [c])"
proof -
  obtain p where p: "yp_rep command_pipe_granularity (mb_cpipe (ms_box s)) p" "ap_avail p = cs" "ap_pend p = []" "ap_inc p = []"
      "mb_signaler (ms_box s) + ms_pending s = (if ap_asleep p then 0 else 1)"
      "if mb_active (ms_box s) then ms_pending s = 0 \<and> \<not> ap_asleep p \<and> \<not> ms_waiting s else (cs = []) = ap_asleep p"
    using assms by (auto simp: mb_inv_def)
  obtain y where y: "ypipe_write command_pipe_granularity c False (mb_cpipe (ms_box s)) = Some y"
      "yp_rep command_pipe_granularity y (ap_write c False p)"
    using cpipe_write [OF p(1)] by blast
  let ?q = "p\<lparr>ap_inc := [], ap_avail := cs @ [c], ap_pend := [], ap_asleep := False\<rparr>"
  have fl: "fst (ypipe_flush y) = (\<not> ap_asleep p)" "yp_rep command_pipe_granularity (snd (ypipe_flush y)) ?q"
    using cpipe_flush [OF y(2)] p by (simp_all add: ap_write_def ap_flush_def)
  then show ?thesis
    using y p by (auto simp: mailbox_put_def split_beta Let_def mb_inv_def intro!: exI [of _ ?q])
qed

lemma mb_signal_inv: "mb_inv s cs \<Longrightarrow> \<exists>s'. mb_do Mb_signal s = Some ([], s') \<and> mb_inv s' cs"
  unfolding mb_inv_def mb_do.simps mailbox_signal_def signaler_send_def
  by (elim exE, rule exI, rule conjI, rule refl, rule exI, assumption?) (auto split: if_splits)

lemma mb_try_inv:
  assumes "mb_inv s cs"
  shows "\<exists>got s'. mb_do Mb_try s = Some (got, s') \<and> (\<exists>rest. cs = got @ rest \<and> mb_inv s' rest)"
proof (cases "ms_waiting s \<or> \<not> mb_active (ms_box s)")
  case True
  then show ?thesis using assms by (auto simp: mailbox_try_def mb_inv_def)
next
  case False
  then obtain p where p: "yp_rep command_pipe_granularity (mb_cpipe (ms_box s)) p" "ap_avail p = cs" "ap_pend p = []" "ap_inc p = []"
      "mb_signaler (ms_box s) = 1" "ms_pending s = 0" "\<not> ap_asleep p"
    using assms by (auto simp: mb_inv_def)
  obtain y where y: "ypipe_read command_pipe_granularity (mb_cpipe (ms_box s)) = Some (fst (ap_read p), y)"
      "yp_rep command_pipe_granularity y (snd (ap_read p))"
    using cpipe_read [OF p(1)] by blast
  show ?thesis
  proof (cases cs)
    case Nil
    then show ?thesis using y p False
      by (auto simp: mailbox_try_def ap_read_def signaler_recv_def mb_inv_def Let_def)
  next
    case (Cons c rest)
    then show ?thesis using y p False
      by (auto simp: mailbox_try_def ap_read_def mb_inv_def Let_def intro!: exI [of _ "p\<lparr>ap_avail := rest\<rparr>"])
  qed
qed

lemma mb_wake_inv:
  assumes "mb_inv s cs"
  shows "\<exists>got s'. mb_do (Mb_wake intr) s = Some (got, s') \<and> (\<exists>rest. cs = got @ rest \<and> mb_inv s' rest)"
proof (cases "\<not> ms_waiting s \<or> intr \<or> mb_signaler (ms_box s) = 0")
  case True
  have "mb_inv (s\<lparr>ms_waiting := False\<rparr>) cs"
    using assms unfolding mb_inv_def by (elim exE, intro exI) auto
  then show ?thesis using True assms by (cases "ms_waiting s") (auto simp: mailbox_wake_def signaler_wait_def)
next
  case False
  then obtain p where p: "yp_rep command_pipe_granularity (mb_cpipe (ms_box s)) p" "ap_avail p = cs" "ap_pend p = []" "ap_inc p = []"
      "mb_signaler (ms_box s) = 1" "ms_pending s = 0" "\<not> ap_asleep p" "cs \<noteq> []"
    using assms by (auto simp: mb_inv_def split: if_splits)
  obtain y where y: "ypipe_read command_pipe_granularity (mb_cpipe (ms_box s)) = Some (fst (ap_read p), y)"
      "yp_rep command_pipe_granularity y (snd (ap_read p))"
    using cpipe_read [OF p(1)] by blast
  obtain c rest where cs: "cs = c # rest" using p(8) by (cases cs) auto
  then show ?thesis using y p False
    by (auto simp: mailbox_wake_def signaler_wait_def ap_read_def mb_inv_def Let_def intro!: exI [of _ "p\<lparr>ap_avail := rest\<rparr>"])
qed

lemma mb_step_inv:
  assumes "mb_inv s cs"
  shows "\<exists>got s' rest. mb_do a s = Some (got, s') \<and> cs @ mb_sent [a] = got @ rest \<and> mb_inv s' rest"
proof (cases a)
  case (Mb_put c)
  then show ?thesis using mb_put_inv [OF assms, of c] by fastforce
next
  case Mb_signal
  then show ?thesis using mb_signal_inv [OF assms] by fastforce
next
  case Mb_try
  then show ?thesis using mb_try_inv [OF assms] by fastforce
next
  case (Mb_wake intr)
  then show ?thesis using mb_wake_inv [OF assms, of intr] by fastforce
qed

lemma mb_run_inv:
  "mb_inv s cs \<Longrightarrow> \<exists>got s' rest. mb_run as s = Some (got, s') \<and> cs @ mb_sent as = got @ rest \<and> mb_inv s' rest"
proof (induction as arbitrary: s cs)
  case (Cons a as)
  obtain got s1 rest where 1: "mb_do a s = Some (got, s1)" "cs @ mb_sent [a] = got @ rest" "mb_inv s1 rest"
    using mb_step_inv [OF Cons.prems] by blast
  obtain got' s2 rest' where 2: "mb_run as s1 = Some (got', s2)" "rest @ mb_sent as = got' @ rest'" "mb_inv s2 rest'"
    using Cons.IH [OF 1(3)] by blast
  have "mb_sent (a # as) = mb_sent [a] @ mb_sent as" by (cases a) auto
  then have "cs @ mb_sent (a # as) = (got @ got') @ rest'" using 1(2) 2(2) by (metis append.assoc)
  with 1 2 show ?case by fastforce
qed auto

lemma mb_recv_inv:
  assumes "mb_inv s cs" and "ms_pending s = 0"
  shows "cs = c # cs' \<Longrightarrow> \<exists>m. mailbox_recv False (ms_box s) = Some (OK, Some c, m)"
    and "cs = [] \<Longrightarrow> \<exists>m. mailbox_recv False (ms_box s) = Some (Err EAGAIN, None, m)"
proof -
  obtain p where p: "yp_rep command_pipe_granularity (mb_cpipe (ms_box s)) p" "ap_avail p = cs"
      "mb_signaler (ms_box s) = (if ap_asleep p then 0 else 1)"
      "if mb_active (ms_box s) then \<not> ap_asleep p else (cs = []) = ap_asleep p"
    using assms by (auto simp: mb_inv_def split: if_splits)
  obtain y where y: "ypipe_read command_pipe_granularity (mb_cpipe (ms_box s)) = Some (fst (ap_read p), y)"
    using cpipe_read [OF p(1)] by blast
  show "cs = c # cs' \<Longrightarrow> \<exists>m. mailbox_recv False (ms_box s) = Some (OK, Some c, m)"
    using p y by (auto simp: mailbox_recv_def mailbox_try_def mailbox_wake_def signaler_wait_def ap_read_def Let_def split: if_splits)
  show "cs = [] \<Longrightarrow> \<exists>m. mailbox_recv False (ms_box s) = Some (Err EAGAIN, None, m)"
    using p y by (auto simp: mailbox_recv_def mailbox_try_def mailbox_wake_def signaler_wait_def signaler_recv_def ap_read_def Let_def split: if_splits)
qed

section \<open>Properties\<close>

text \<open>C25 (liveness).  A mailbox loses nothing and its reader is always woken up.  However the steps of
  the senders and of the reader interleave, no assertion fails; the commands the reader has got are,
  in order, the first of those sent; and once every sender has returned, a \<open>recv\<close> that is not
  interrupted gets the next command if there is one left, and EAGAIN only if there is none.\<close>

theorem mailbox_delivers:
  "\<exists>s0 got s rest. mb_start = Some s0 \<and> mb_run as s0 = Some (got, s) \<and> mb_sent as = got @ rest \<and>
     (ms_pending s = 0 \<longrightarrow>
        (\<exists>m. mailbox_recv False (ms_box s) =
           Some (case rest of [] \<Rightarrow> (Err EAGAIN, None, m) | c # _ \<Rightarrow> (OK, Some c, m))))"
proof -
  obtain s0 where s0: "mb_start = Some s0" "mb_inv s0 []" using mb_start_inv by blast
  obtain got s rest where run: "mb_run as s0 = Some (got, s)" "[] @ mb_sent as = got @ rest" "mb_inv s rest"
    using mb_run_inv [OF s0(2)] by blast
  have "\<exists>m. mailbox_recv False (ms_box s) = Some (case rest of [] \<Rightarrow> (Err EAGAIN, None, m) | c # _ \<Rightarrow> (OK, Some c, m))"
    if "ms_pending s = 0" using mb_recv_inv [OF run(3) that] by (cases rest) auto
  with s0 run show ?thesis by auto
qed

lemma mailbox_delivers_witness:
  "\<exists>s0 s m. mb_start = Some s0 \<and>
     mb_run [Mb_try, Mb_put (command_to 1 Cmd_stop), Mb_put (command_to 2 Cmd_plug), Mb_signal, Mb_wake False] s0
       = Some ([command_to 1 Cmd_stop], s) \<and>
     mailbox_recv False (ms_box s) = Some (OK, Some (command_to 2 Cmd_plug), m)"
proof -
  let ?as = "[Mb_try, Mb_put (command_to 1 Cmd_stop), Mb_put (command_to 2 Cmd_plug), Mb_signal, Mb_wake False]"
  define as where "as = ?as"
  obtain s0 got s rest where r: "mb_start = Some s0" "mb_run as s0 = Some (got, s)" "mb_sent as = got @ rest"
    and n: "ms_pending s = 0 \<longrightarrow> (\<exists>m. mailbox_recv False (ms_box s) =
           Some (case rest of [] \<Rightarrow> (Err EAGAIN, None, m) | c # _ \<Rightarrow> (OK, Some c, m)))"
    using mailbox_delivers [of as] by (elim exE conjE) (rule that; assumption)
  have "map_option (\<lambda>(got, s). (got, ms_pending s)) (do { s0 \<leftarrow> mb_start; mb_run ?as s0 }) = Some ([command_to 1 Cmd_stop], 0)"
    by code_simp
  then have "map_option (\<lambda>(got, s). (got, ms_pending s)) (do { s0 \<leftarrow> mb_start; mb_run as s0 }) = Some ([command_to 1 Cmd_stop], 0)"
    unfolding as_def .
  then have g: "got = [command_to 1 Cmd_stop]" "ms_pending s = 0" unfolding r(1) Option.bind_lunit r(2) by simp_all
  moreover have "rest = [command_to 2 Cmd_plug]" using r(3) g(1) by (simp add: as_def)
  ultimately obtain m where "mailbox_recv False (ms_box s) = Some (OK, Some (command_to 2 Cmd_plug), m)" using n by auto
  with g r show ?thesis unfolding as_def by blast
qed

end
