(* ===== verification/Poller.thy ===== *)
theory Poller
  imports Atomic "HOL-Library.Sublist"
begin

text \<open>
  \<open>poller_base.hpp\<close>, \<open>poller_base.cpp\<close>, \<open>clock.cpp\<close>, \<open>i_poll_events.hpp\<close>, \<open>poll.hpp\<close>, \<open>poll.cpp\<close>:
  the timers of an I/O thread and its event loop.  The objects notified of events (\<open>i_poll_events\<close>) are
  addresses; what they do in an event is a parameter, a function on the poller and on the rest of the
  state \<open>'w\<close>: it may add and remove descriptors and timers while the loop runs.  The results of the
  system calls (\<open>poll\<close>, the clocks, the tick counter of the processor) are arguments.
\<close>

section \<open>The clock\<close>

definition clock_precision :: u64 where "clock_precision = 1000000"

record clock =
  cl_last_tsc :: u64
  cl_last_time :: u64

definition clock_new :: "u64 \<Rightarrow> u64 \<Rightarrow> clock" where
  "clock_new tsc now_us = \<lparr>cl_last_tsc = tsc, cl_last_time = now_us div 1000\<rparr>"

text \<open>\<open>tsc\<close> is 0 where there is no tick counter.\<close>

definition clock_now_ms :: "u64 \<Rightarrow> u64 \<Rightarrow> clock \<Rightarrow> u64 \<times> clock" where
  "clock_now_ms tsc now_us c =
     (if tsc = 0 then (now_us div 1000, c)
      else if tsc - cl_last_tsc c \<le> clock_precision div 2 \<and> tsc \<ge> cl_last_tsc c then (cl_last_time c, c)
      else let c = c\<lparr>cl_last_tsc := tsc, cl_last_time := now_us div 1000\<rparr> in (cl_last_time c, c))"

section \<open>The base class: load and timers\<close>

datatype poll_event = In_event | Out_event | Timer_event int

text \<open>The timers are a \<open>std::multimap\<close>: sorted, and a new one behind those with the same
  expiration.  \<open>tm_node\<close> stands for the node of the map an iterator points to.\<close>

record timer =
  tm_node :: nat
  tm_expiration :: u64
  tm_sink :: addr
  tm_id :: int

record poller_base =
  pb_timers :: "timer list"
  pb_nodes :: nat
  pb_load :: atomic_counter

definition poller_base_new :: poller_base where
  "poller_base_new = \<lparr>pb_timers = [], pb_nodes = 0, pb_load = 0\<rparr>"

definition get_load :: "poller_base \<Rightarrow> u32" where
  "get_load b = counter_get (pb_load b)"

definition adjust_load :: "int \<Rightarrow> poller_base \<Rightarrow> poller_base" where
  "adjust_load amount b =
     (if amount > 0 then b\<lparr>pb_load := snd (counter_add (of_int amount) (pb_load b))\<rparr>
      else if amount < 0 then b\<lparr>pb_load := snd (counter_sub (of_int (- amount)) (pb_load b))\<rparr>
      else b)"

definition poller_base_delete :: "poller_base \<Rightarrow> unit option" where
  "poller_base_delete b = zmq_assert (get_load b = 0)"

fun timer_insert :: "timer \<Rightarrow> timer list \<Rightarrow> timer list" where
  "timer_insert t [] = [t]"
| "timer_insert t (u # us) = (if tm_expiration t < tm_expiration u then t # u # us else u # timer_insert t us)"

definition add_timer :: "u64 \<Rightarrow> int \<Rightarrow> addr \<Rightarrow> int \<Rightarrow> poller_base \<Rightarrow> poller_base" where
  "add_timer now timeout sink tid b = (
     let expiration = now + of_int timeout;
         info = \<lparr>tm_node = pb_nodes b, tm_expiration = expiration, tm_sink = sink, tm_id = tid\<rparr>
     in b\<lparr>pb_timers := timer_insert info (pb_timers b), pb_nodes := Suc (pb_nodes b)\<rparr>)"

fun timer_cancel :: "addr \<Rightarrow> int \<Rightarrow> timer list \<Rightarrow> timer list option" where
  "timer_cancel sink tid [] = do { zmq_assert False; Some [] }"
| "timer_cancel sink tid (t # ts) =
     (if tm_sink t = sink \<and> tm_id t = tid then Some ts
      else do { ts \<leftarrow> timer_cancel sink tid ts; Some (t # ts) })"

definition cancel_timer :: "addr \<Rightarrow> int \<Rightarrow> poller_base \<Rightarrow> poller_base option" where
  "cancel_timer sink tid b = do { ts \<leftarrow> timer_cancel sink tid (pb_timers b); Some (b\<lparr>pb_timers := ts\<rparr>) }"

text \<open>The node behind an iterator, \<^term>\<open>Some None\<close> at the end of the map; \<^term>\<open>None\<close> when the
  node of the iterator has been erased.\<close>

fun timer_next :: "nat \<Rightarrow> timer list \<Rightarrow> nat option option" where
  "timer_next n [] = None"
| "timer_next n (t # ts) =
     (if tm_node t = n then Some (case ts of [] \<Rightarrow> None | u # _ \<Rightarrow> Some (tm_node u)) else timer_next n ts)"

text \<open>The state in an event: the poller \<open>'p\<close> and the rest of the world \<open>'w\<close>.\<close>

type_synonym ('p, 'w) callback = "poll_event \<Rightarrow> addr \<Rightarrow> 'p \<times> 'w \<Rightarrow> ('p \<times> 'w) option"

text \<open>\<open>base\<close> and \<open>upd\<close> read and change the base class part of the poller.\<close>

partial_function (option) run_timers ::
    "('p \<Rightarrow> poller_base) \<Rightarrow> ((poller_base \<Rightarrow> poller_base) \<Rightarrow> 'p \<Rightarrow> 'p) \<Rightarrow> ('p, 'w) callback \<Rightarrow> u64 \<Rightarrow> nat option \<Rightarrow> 'p \<times> 'w \<Rightarrow>
     (u64 \<times> 'p \<times> 'w) option" where
  "run_timers base upd cb current it s =
     (case it of
        None \<Rightarrow> Some (0, s)
      | Some n \<Rightarrow> do {
          t \<leftarrow> find (\<lambda>t. tm_node t = n) (pb_timers (base (fst s)));
          if tm_expiration t > current then Some (tm_expiration t - current, s)
          else do {
            s \<leftarrow> cb (Timer_event (tm_id t)) (tm_sink t) s;
            it \<leftarrow> timer_next n (pb_timers (base (fst s)));
            let s = apfst (upd (\<lambda>b. b\<lparr>pb_timers := filter (\<lambda>t. tm_node t \<noteq> n) (pb_timers b)\<rparr>)) s;
            run_timers base upd cb current it s
          }
        })"

definition execute_timers ::
    "('p \<Rightarrow> poller_base) \<Rightarrow> ((poller_base \<Rightarrow> poller_base) \<Rightarrow> 'p \<Rightarrow> 'p) \<Rightarrow> ('p, 'w) callback \<Rightarrow> u64 \<Rightarrow> 'p \<times> 'w \<Rightarrow>
     (u64 \<times> 'p \<times> 'w) option" where
  "execute_timers base upd cb current s =
     (case pb_timers (base (fst s)) of
        [] \<Rightarrow> Some (0, s)
      | t # _ \<Rightarrow> run_timers base upd cb current (Some (tm_node t)) s)"

section \<open>Passing on the events\<close>

text \<open>What the event loops share.  \<open>sink h\<close> is the object the entry \<open>h\<close> notifies, none when the entry
  is retired; \<^term>\<open>None\<close> when there is no such entry.  An event is passed on when it is due.  (Once
  an entry is retired it stays so: the code's \<open>continue\<close> skips the other events.)\<close>

definition notify :: "('h \<Rightarrow> 'p \<Rightarrow> addr option option) \<Rightarrow> 'h \<Rightarrow> bool \<Rightarrow> poll_event \<Rightarrow> ('p, 'w) callback \<Rightarrow> 'p \<times> 'w \<Rightarrow> ('p \<times> 'w) option" where
  "notify sink h due ev cb s = do {
     z \<leftarrow> sink h (fst s);
     case z of None \<Rightarrow> Some s | Some k \<Rightarrow> if due then cb ev k s else Some s
   }"

text \<open>The interface of a set of entries the loop runs over while the objects called change it: \<open>valid\<close>
  entries stay, and the object of one that is not retired is \<open>live\<close>.  Then calls on live objects are
  all that is made.\<close>

locale event_source =
  fixes ok :: "'p \<Rightarrow> bool" and live :: "'p \<Rightarrow> addr \<Rightarrow> bool" and valid :: "'p \<Rightarrow> 'h \<Rightarrow> bool"
    and keep :: "'p \<Rightarrow> 'p \<Rightarrow> bool" and sink :: "'h \<Rightarrow> 'p \<Rightarrow> addr option option"
  assumes keep_refl: "keep p p"
    and keep_trans: "keep p q \<Longrightarrow> keep q r \<Longrightarrow> keep p r"
    and keep_valid: "keep p q \<Longrightarrow> valid p h \<Longrightarrow> valid q h"
    and sink_live: "ok p \<Longrightarrow> valid p h \<Longrightarrow> \<exists>z. sink h p = Some z \<and> (\<forall>k. z = Some k \<longrightarrow> live p k)"
begin

text \<open>What is asked of the callbacks: called on a live object they return, and have changed the poller
  by its operations only.  Nothing is asked of a call on any other object.\<close>

definition handles :: "('p, 'w) callback \<Rightarrow> bool" where
  "handles cb \<longleftrightarrow> (\<forall>ev k s. ok (fst s) \<and> live (fst s) k \<longrightarrow>
     (\<exists>s'. cb ev k s = Some s' \<and> ok (fst s') \<and> keep (fst s) (fst s')))"

lemma notify_ok:
  assumes "handles cb" and "ok (fst s)" and "valid (fst s) h"
  shows "\<exists>s'. notify sink h due ev cb s = Some s' \<and> ok (fst s') \<and> keep (fst s) (fst s')"
proof -
  obtain z where z: "sink h (fst s) = Some z" "\<And>k. z = Some k \<Longrightarrow> live (fst s) k" using sink_live assms by blast
  show ?thesis
  proof (cases "z = None \<or> \<not> due")
    case True
    then have "notify sink h due ev cb s = Some s" using z(1) by (auto simp: notify_def split: option.split)
    then show ?thesis using assms(2) keep_refl by auto
  next
    case False
    then obtain k where k: "z = Some k" by auto
    then obtain s' where "cb ev k s = Some s'" "ok (fst s')" "keep (fst s) (fst s')"
      using assms z(2) [OF k] unfolding handles_def by blast
    then show ?thesis using z(1) k False by (auto simp: notify_def)
  qed
qed

end

section \<open>poll\<close>

text \<open>The bits of \<open>events\<close> and of \<open>revents\<close>; \<open>rv_err\<close> is \<open>POLLERR | POLLHUP\<close>.  The descriptor
  \<open>retired_fd\<close> is \<^term>\<open>None\<close>.\<close>

record revents =
  rv_nval :: bool
  rv_err :: bool
  rv_out :: bool
  rv_in :: bool

definition no_revents :: revents where
  "no_revents = \<lparr>rv_nval = False, rv_err = False, rv_out = False, rv_in = False\<rparr>"

record pollfd =
  pf_fd :: "nat option"
  pf_in :: bool
  pf_out :: bool
  pf_revents :: revents

record fd_entry =
  fe_index :: "nat option"
  fe_events :: addr

record poll =
  po_base :: poller_base
  po_fd_table :: "fd_entry list"
  po_pollset :: "pollfd list"
  po_retired :: bool
  po_stopping :: bool

definition poll_new :: poll where
  "poll_new = \<lparr>po_base = poller_base_new, po_fd_table = [], po_pollset = [], po_retired = False, po_stopping = False\<rparr>"

definition upd_base :: "(poller_base \<Rightarrow> poller_base) \<Rightarrow> poll \<Rightarrow> poll" where
  "upd_base f p = p\<lparr>po_base := f (po_base p)\<rparr>"

text \<open>The entries of a table that has been resized are not initialised, apart from the index.\<close>

definition poll_add_fd :: "nat \<Rightarrow> addr \<Rightarrow> poll \<Rightarrow> poll option" where
  "poll_add_fd fd events p = do {
     let table = po_fd_table p @ replicate (Suc fd - length (po_fd_table p)) \<lparr>fe_index = None, fe_events = 0\<rparr>;
     let pollset = po_pollset p @ [\<lparr>pf_fd = Some fd, pf_in = False, pf_out = False, pf_revents = no_revents\<rparr>];
     zmq_assert (fe_index (table ! fd) = None);
     let table = table[fd := \<lparr>fe_index = Some (length pollset - 1), fe_events = events\<rparr>];
     Some (upd_base (adjust_load 1) (p\<lparr>po_fd_table := table, po_pollset := pollset\<rparr>))
   }"

text \<open>The index of a handle: the table is read within its bounds, and the pollset too.\<close>

definition poll_index :: "nat \<Rightarrow> poll \<Rightarrow> nat option" where
  "poll_index h p = do {
     zmq_assert (h < length (po_fd_table p));
     i \<leftarrow> fe_index (po_fd_table p ! h);
     zmq_assert (i < length (po_pollset p));
     Some i
   }"

definition poll_rm_fd :: "nat \<Rightarrow> poll \<Rightarrow> poll option" where
  "poll_rm_fd h p = do {
     i \<leftarrow> poll_index h p;
     Some (upd_base (adjust_load (- 1)) (p\<lparr>
       po_pollset := (po_pollset p)[i := (po_pollset p ! i)\<lparr>pf_fd := None\<rparr>],
       po_fd_table := (po_fd_table p)[h := (po_fd_table p ! h)\<lparr>fe_index := None\<rparr>],
       po_retired := True\<rparr>))
   }"

definition upd_pollfd :: "nat \<Rightarrow> (pollfd \<Rightarrow> pollfd) \<Rightarrow> poll \<Rightarrow> poll option" where
  "upd_pollfd h f p = do {
     i \<leftarrow> poll_index h p;
     Some (p\<lparr>po_pollset := (po_pollset p)[i := f (po_pollset p ! i)]\<rparr>)
   }"

definition poll_set_pollin :: "nat \<Rightarrow> poll \<Rightarrow> poll option" where
  "poll_set_pollin h p = upd_pollfd h (\<lambda>e. e\<lparr>pf_in := True\<rparr>) p"
definition poll_reset_pollin :: "nat \<Rightarrow> poll \<Rightarrow> poll option" where
  "poll_reset_pollin h p = upd_pollfd h (\<lambda>e. e\<lparr>pf_in := False\<rparr>) p"
definition poll_set_pollout :: "nat \<Rightarrow> poll \<Rightarrow> poll option" where
  "poll_set_pollout h p = upd_pollfd h (\<lambda>e. e\<lparr>pf_out := True\<rparr>) p"
definition poll_reset_pollout :: "nat \<Rightarrow> poll \<Rightarrow> poll option" where
  "poll_reset_pollout h p = upd_pollfd h (\<lambda>e. e\<lparr>pf_out := False\<rparr>) p"

definition poll_stop :: "poll \<Rightarrow> poll" where
  "poll_stop p = p\<lparr>po_stopping := True\<rparr>"

definition poll_sink :: "nat \<Rightarrow> poll \<Rightarrow> addr option option" where
  "poll_sink i p = do {
     zmq_assert (i < length (po_pollset p));
     Some (case pf_fd (po_pollset p ! i) of None \<Rightarrow> None | Some fd \<Rightarrow> Some (fe_events (po_fd_table p ! fd)))
   }"

partial_function (option) poll_dispatch :: "(poll, 'w) callback \<Rightarrow> nat \<Rightarrow> poll \<times> 'w \<Rightarrow> (poll \<times> 'w) option" where
  "poll_dispatch cb i s =
     (if i = length (po_pollset (fst s)) then Some s
      else do {
        zmq_assert (\<not> rv_nval (pf_revents (po_pollset (fst s) ! i)));
        s \<leftarrow> notify poll_sink i (rv_err (pf_revents (po_pollset (fst s) ! i))) In_event cb s;
        s \<leftarrow> notify poll_sink i (rv_out (pf_revents (po_pollset (fst s) ! i))) Out_event cb s;
        s \<leftarrow> notify poll_sink i (rv_in (pf_revents (po_pollset (fst s) ! i))) In_event cb s;
        poll_dispatch cb (Suc i) s
      })"

text \<open>The retired entries are erased, and the table gets the new indices of the others.\<close>

fun poll_reindex :: "nat \<Rightarrow> pollfd list \<Rightarrow> fd_entry list \<Rightarrow> fd_entry list" where
  "poll_reindex i [] table = table"
| "poll_reindex i (e # es) table =
     (case pf_fd e of
        None \<Rightarrow> poll_reindex i es table
      | Some fd \<Rightarrow> poll_reindex (Suc i) es (table[fd := (table ! fd)\<lparr>fe_index := Some i\<rparr>]))"

definition poll_clean :: "poll \<Rightarrow> poll" where
  "poll_clean p =
     (if po_retired p
      then p\<lparr>po_fd_table := poll_reindex 0 (po_pollset p) (po_fd_table p),
             po_pollset := filter (\<lambda>e. pf_fd e \<noteq> None) (po_pollset p), po_retired := False\<rparr>
      else p)"

text \<open>What \<open>poll\<close> returns: \<open>EINTR\<close>, a timeout, or the \<open>revents\<close> of the entries.\<close>

datatype poll_result = Poll_intr | Poll_timeout | Poll_events "revents list"

fun set_revents :: "revents list \<Rightarrow> pollfd list \<Rightarrow> pollfd list" where
  "set_revents (r # rs) (e # es) = e\<lparr>pf_revents := r\<rparr> # set_revents rs es"
| "set_revents _ es = es"

text \<open>One pass of the loop; \<open>call\<close> is \<open>poll\<close> with the pollset and the timeout, an \<open>int\<close> that is
  negative for no timeout.\<close>

definition poll_pass :: "(poll, 'w) callback \<Rightarrow> u64 \<Rightarrow> (pollfd list \<Rightarrow> u32 \<Rightarrow> poll_result) \<Rightarrow>
    poll \<times> 'w \<Rightarrow> (poll \<times> 'w) option" where
  "poll_pass cb now call s = do {
     (timeout, s) \<leftarrow> execute_timers po_base upd_base cb now s;
     let timeout = (ucast timeout :: u32);
     case call (po_pollset (fst s)) (if timeout \<noteq> 0 then timeout else (- 1)) of
       Poll_intr \<Rightarrow> Some s
     | Poll_timeout \<Rightarrow> Some s
     | Poll_events rs \<Rightarrow> do {
         let s = apfst (\<lambda>p. p\<lparr>po_pollset := set_revents rs (po_pollset p)\<rparr>) s;
         s \<leftarrow> poll_dispatch cb 0 s;
         Some (apfst poll_clean s)
       }
   }"

section \<open>The table and the pollset\<close>

definition fd_index :: "poll \<Rightarrow> nat \<rightharpoonup> nat" where
  "fd_index p fd = (if fd < length (po_fd_table p) then fe_index (po_fd_table p ! fd) else None)"

definition fd_at :: "poll \<Rightarrow> nat \<rightharpoonup> nat" where
  "fd_at p i = (if i < length (po_pollset p) then pf_fd (po_pollset p ! i) else None)"

definition inverse_maps :: "(nat \<rightharpoonup> nat) \<Rightarrow> (nat \<rightharpoonup> nat) \<Rightarrow> bool" where
  "inverse_maps f g \<longleftrightarrow> (\<forall>x y. f x = Some y \<longleftrightarrow> g y = Some x)"

definition poll_ok :: "poll \<Rightarrow> bool" where
  "poll_ok p \<longleftrightarrow> inverse_maps (fd_index p) (fd_at p)"

definition registered :: "poll \<Rightarrow> nat \<Rightarrow> addr \<Rightarrow> bool" where
  "registered p fd k \<longleftrightarrow> fd_index p fd \<noteq> None \<and> fe_events (po_fd_table p ! fd) = k"

text \<open>What the operations do to the pollset while the loop runs over it.\<close>

definition extends :: "poll \<Rightarrow> poll \<Rightarrow> bool" where
  "extends p p' \<longleftrightarrow> length (po_pollset p) \<le> length (po_pollset p') \<and>
     (\<forall>i < length (po_pollset p'). pf_revents (po_pollset p' ! i) =
        (if i < length (po_pollset p) then pf_revents (po_pollset p ! i) else no_revents))"

lemma inverse_add: "inverse_maps f g \<Longrightarrow> f x = None \<Longrightarrow> g y = None \<Longrightarrow> inverse_maps (f(x \<mapsto> y)) (g(y \<mapsto> x))"
proof -
  assume h: "inverse_maps f g" and n: "f x = None" "g y = None"
  have "((f(x \<mapsto> y)) a = Some b) = ((g(y \<mapsto> x)) b = Some a)" for a b
    using h [unfolded inverse_maps_def, rule_format, of a b] h [unfolded inverse_maps_def, rule_format, of x b]
      h [unfolded inverse_maps_def, rule_format, of a y] n by (cases "a = x"; cases "b = y") auto
  then show ?thesis unfolding inverse_maps_def by blast
qed

lemma inverse_remove: "inverse_maps f g \<Longrightarrow> f x = Some y \<Longrightarrow> inverse_maps (f(x := None)) (g(y := None))"
proof -
  assume h: "inverse_maps f g" and y: "f x = Some y"
  have "((f(x := None)) a = Some b) = ((g(y := None)) b = Some a)" for a b
    using h [unfolded inverse_maps_def, rule_format, of a b] h [unfolded inverse_maps_def, rule_format, of x b]
      h [unfolded inverse_maps_def, rule_format, of a y] h [unfolded inverse_maps_def, rule_format, of x y] y
    by (cases "a = x"; cases "b = y") auto
  then show ?thesis unfolding inverse_maps_def by blast
qed

lemma poll_new_ok: "poll_ok poll_new"
  by (simp add: poll_ok_def poll_new_def inverse_maps_def fd_index_def fd_at_def)

lemma upd_base_simps [simp]:
  "po_fd_table (upd_base f p) = po_fd_table p" "po_pollset (upd_base f p) = po_pollset p"
  "fd_index (upd_base f p) = fd_index p" "fd_at (upd_base f p) = fd_at p"
  "poll_ok (upd_base f p) = poll_ok p" "extends p (upd_base f q) = extends p q"
  "registered (upd_base f p) = registered p"
proof -
  show i: "fd_index (upd_base f p) = fd_index p" "fd_at (upd_base f p) = fd_at p"
    by (simp_all add: upd_base_def fun_eq_iff fd_index_def fd_at_def)
  then show "poll_ok (upd_base f p) = poll_ok p" by (simp add: poll_ok_def)
  show "registered (upd_base f p) = registered p" using i by (simp add: registered_def fun_eq_iff upd_base_def)
qed (simp_all add: upd_base_def extends_def)

lemma extends_refl [simp]: "extends p p"
  by (simp add: extends_def)

lemma extends_trans: "extends p q \<Longrightarrow> extends q r \<Longrightarrow> extends p r"
  by (auto simp: extends_def)

lemma poll_add_fd_ok:
  assumes ok: "poll_ok p" and free: "fd_index p fd = None"
  shows "\<exists>p'. poll_add_fd fd k p = Some p' \<and> poll_ok p' \<and> extends p p' \<and> registered p' fd k"
proof -
  define t where "t = po_fd_table p @ replicate (Suc fd - length (po_fd_table p)) \<lparr>fe_index = None, fe_events = 0\<rparr>"
  define ps where "ps = po_pollset p @ [\<lparr>pf_fd = Some fd, pf_in = False, pf_out = False, pf_revents = no_revents\<rparr>]"
  define p' where "p' = p\<lparr>po_fd_table := t[fd := \<lparr>fe_index = Some (length ps - 1), fe_events = k\<rparr>], po_pollset := ps\<rparr>"
  have len: "fd < length t" by (simp add: t_def)
  have none: "fe_index (t ! fd) = None"
    using free by (auto simp: t_def fd_index_def nth_append split: if_splits)
  have op: "poll_add_fd fd k p = Some (upd_base (adjust_load 1) p')"
    using none by (simp add: poll_add_fd_def t_def p'_def ps_def Let_def)
  have t: "(if e < length t then fe_index (t ! e) else None) = fd_index p e" for e
    by (auto simp: t_def fd_index_def nth_append)
  have "fd_index p' e = ((fd_index p)(fd \<mapsto> length (po_pollset p))) e" for e
    using len t [of e] by (cases "e = fd"; cases "e < length t") (simp_all add: p'_def ps_def fd_index_def)
  moreover have "fd_at p' i = ((fd_at p)(length (po_pollset p) \<mapsto> fd)) i" for i
    by (simp add: p'_def ps_def fd_at_def nth_append)
  ultimately have m: "fd_index p' = (fd_index p)(fd \<mapsto> length (po_pollset p))" "fd_at p' = (fd_at p)(length (po_pollset p) \<mapsto> fd)"
    by blast+
  have "poll_ok p'" unfolding poll_ok_def m
    by (rule inverse_add [OF ok [unfolded poll_ok_def] free]) (simp add: fd_at_def)
  moreover have "extends p p'" by (simp add: extends_def p'_def ps_def nth_append)
  moreover have "registered p' fd k" unfolding registered_def m using len by (simp add: p'_def)
  ultimately show ?thesis using op by simp
qed

lemma poll_index_ok:
  assumes "poll_ok p" "fd_index p h = Some i"
  shows "poll_index h p = Some i" "i < length (po_pollset p)" "pf_fd (po_pollset p ! i) = Some h" "h < length (po_fd_table p)"
proof -
  have "fd_at p i = Some h" using assms by (simp add: poll_ok_def inverse_maps_def)
  then show i: "i < length (po_pollset p)" "pf_fd (po_pollset p ! i) = Some h" by (auto simp: fd_at_def split: if_splits)
  show h: "h < length (po_fd_table p)" using assms(2) by (auto simp: fd_index_def split: if_splits)
  then show "poll_index h p = Some i" using i assms(2) by (simp add: poll_index_def fd_index_def)
qed

lemma poll_rm_fd_ok:
  assumes ok: "poll_ok p" and reg: "fd_index p h = Some i"
  shows "\<exists>p'. poll_rm_fd h p = Some p' \<and> poll_ok p' \<and> extends p p' \<and> fd_index p' = (fd_index p)(h := None)"
proof -
  note i = poll_index_ok [OF ok reg]
  define p' where "p' = p\<lparr>po_pollset := (po_pollset p)[i := (po_pollset p ! i)\<lparr>pf_fd := None\<rparr>],
       po_fd_table := (po_fd_table p)[h := (po_fd_table p ! h)\<lparr>fe_index := None\<rparr>], po_retired := True\<rparr>"
  have op: "poll_rm_fd h p = Some (upd_base (adjust_load (- 1)) p')" using i by (simp add: poll_rm_fd_def p'_def)
  have m: "fd_index p' = (fd_index p)(h := None)" "fd_at p' = (fd_at p)(i := None)"
    using i by (auto simp: fun_eq_iff fd_index_def fd_at_def p'_def nth_list_update)
  have "poll_ok p'" unfolding poll_ok_def m by (rule inverse_remove [OF ok [unfolded poll_ok_def] reg])
  moreover have "extends p p'" using i by (simp add: extends_def p'_def nth_list_update)
  ultimately show ?thesis using op m by simp
qed

lemma upd_pollfd_ok:
  assumes ok: "poll_ok p" and reg: "fd_index p h = Some i"
    and f: "\<And>e. pf_fd (f e) = pf_fd e" "\<And>e. pf_revents (f e) = pf_revents e"
  shows "\<exists>p'. upd_pollfd h f p = Some p' \<and> poll_ok p' \<and> extends p p' \<and> registered p' = registered p"
proof -
  note i = poll_index_ok [OF ok reg]
  define p' where "p' = p\<lparr>po_pollset := (po_pollset p)[i := f (po_pollset p ! i)]\<rparr>"
  have "fd_index p' = fd_index p" "fd_at p' = fd_at p"
    using i f by (auto simp: fun_eq_iff fd_index_def fd_at_def p'_def nth_list_update)
  moreover from this have "registered p' = registered p" by (simp add: registered_def fun_eq_iff p'_def)
  moreover have "extends p p'" using i f by (simp add: extends_def p'_def nth_list_update)
  ultimately show ?thesis using ok i by (simp add: upd_pollfd_def p'_def poll_ok_def)
qed

section \<open>A pass of the loop\<close>

interpretation po: event_source poll_ok "\<lambda>p k. \<exists>fd. registered p fd k" "\<lambda>p i. i < length (po_pollset p)" extends poll_sink
proof
  fix p i assume ok: "poll_ok p" and i: "i < length (po_pollset p)"
  show "\<exists>z. poll_sink i p = Some z \<and> (\<forall>k. z = Some k \<longrightarrow> (\<exists>fd. registered p fd k))"
  proof (cases "pf_fd (po_pollset p ! i)")
    case None
    then show ?thesis using i by (simp add: poll_sink_def)
  next
    case (Some fd)
    then have "fd_at p i = Some fd" using i by (simp add: fd_at_def)
    then have "fd_index p fd = Some i" using ok by (simp add: poll_ok_def inverse_maps_def)
    then show ?thesis using Some i by (auto simp: poll_sink_def registered_def)
  qed
next
  fix p q i assume "extends p q" "i < length (po_pollset p)"
  then show "i < length (po_pollset q)" by (simp add: extends_def)
qed (auto intro: extends_trans)

lemma dispatch_tail:
  assumes "\<forall>j < length (po_pollset (fst s)). i \<le> j \<longrightarrow> pf_revents (po_pollset (fst s) ! j) = no_revents"
    and "i \<le> length (po_pollset (fst s))"
  shows "poll_dispatch cb i s = Some s"
  using assms
proof (induction "length (po_pollset (fst s)) - i" arbitrary: i)
  case 0
  then show ?case by (subst poll_dispatch.simps) simp
next
  case (Suc n)
  have "i < length (po_pollset (fst s))" using Suc(2) by simp
  then have n: "notify poll_sink i False ev cb s = Some s" for ev
    by (simp add: notify_def poll_sink_def split: option.split)
  have "poll_dispatch cb (Suc i) s = Some s" using Suc by simp
  then show ?case using Suc(2-) by (subst poll_dispatch.simps) (simp add: no_revents_def n)
qed

lemma dispatch_ok:
  assumes h: "po.handles cb"
  shows "poll_ok (fst s) \<Longrightarrow> N \<le> length (po_pollset (fst s)) \<Longrightarrow> i \<le> N \<Longrightarrow>
    (\<forall>j < length (po_pollset (fst s)). N \<le> j \<longrightarrow> pf_revents (po_pollset (fst s) ! j) = no_revents) \<Longrightarrow>
    (\<forall>j < N. \<not> rv_nval (pf_revents (po_pollset (fst s) ! j))) \<Longrightarrow>
    \<exists>s'. poll_dispatch cb i s = Some s' \<and> poll_ok (fst s') \<and> extends (fst s) (fst s')"
proof (induction "N - i" arbitrary: i s)
  case 0
  then have "poll_dispatch cb i s = Some s" by (intro dispatch_tail) auto
  then show ?case using 0 by simp
next
  case (Suc n)
  let ?len = "\<lambda>s. length (po_pollset (fst s))" and ?rv = "\<lambda>s. pf_revents (po_pollset (fst s) ! i)"
  have i: "i < N" and n: "n = N - Suc i" using Suc(2) by simp_all
  obtain s1 where s1: "notify poll_sink i (rv_err (?rv s)) In_event cb s = Some s1" "poll_ok (fst s1)" "extends (fst s) (fst s1)"
    using po.notify_ok [OF h Suc.prems(1)] i Suc.prems(2) by (metis less_le_trans)
  have l1: "N \<le> ?len s1" using s1(3) Suc.prems(2) by (simp add: extends_def)
  obtain s2 where s2: "notify poll_sink i (rv_out (?rv s1)) Out_event cb s1 = Some s2" "poll_ok (fst s2)" "extends (fst s1) (fst s2)"
    using po.notify_ok [OF h s1(2)] i l1 by (metis less_le_trans)
  have l2: "N \<le> ?len s2" using s2(3) l1 by (simp add: extends_def)
  obtain s3 where s3: "notify poll_sink i (rv_in (?rv s2)) In_event cb s2 = Some s3" "poll_ok (fst s3)" "extends (fst s2) (fst s3)"
    using po.notify_ok [OF h s2(2)] i l2 by (metis less_le_trans)
  have e: "extends (fst s) (fst s3)" using s1(3) s2(3) s3(3) extends_trans by blast
  have "N \<le> ?len s3" using e Suc.prems(2) by (simp add: extends_def)
  moreover have "\<forall>j < ?len s3. N \<le> j \<longrightarrow> pf_revents (po_pollset (fst s3) ! j) = no_revents"
    using e Suc.prems(4) by (simp add: extends_def)
  moreover have "\<forall>j < N. \<not> rv_nval (pf_revents (po_pollset (fst s3) ! j))"
    using e Suc.prems(2,5) by (simp add: extends_def)
  ultimately obtain s' where "poll_dispatch cb (Suc i) s3 = Some s'" "poll_ok (fst s')" "extends (fst s3) (fst s')"
    using Suc(1) [of "Suc i" s3] n s3(2) i by (metis Suc_leI)
  moreover have "i \<noteq> ?len s" "\<not> rv_nval (?rv s)" using i Suc.prems by auto
  ultimately show ?case using s1 s2 s3 extends_trans [OF e] by (subst poll_dispatch.simps) auto
qed

lemma nth_updated: "t[x := e] ! y = (if y = x \<and> x < length t then e else t ! y)"
  by (cases "x < length t") (auto simp: nth_list_update list_update_beyond)

lemma reindex_length [simp]: "length (poll_reindex i es t) = length t"
  by (induction i es t rule: poll_reindex.induct) (auto split: option.split)

lemma reindex_events: "fe_events (poll_reindex i es t ! fd) = fe_events (t ! fd)"
  by (induction i es t rule: poll_reindex.induct) (auto split: option.split simp: nth_updated)

lemma reindex_other: "\<forall>e \<in> set es. pf_fd e \<noteq> Some fd \<Longrightarrow> fe_index (poll_reindex i es t ! fd) = fe_index (t ! fd)"
  by (induction i es t rule: poll_reindex.induct) (auto split: option.split simp: nth_updated)

definition fds_distinct :: "pollfd list \<Rightarrow> bool" where
  "fds_distinct es \<longleftrightarrow> (\<forall>i < length es. \<forall>j < length es. pf_fd (es ! i) \<noteq> None \<longrightarrow> pf_fd (es ! i) = pf_fd (es ! j) \<longrightarrow> i = j)"

lemma fds_distinct_Cons: "fds_distinct (e # es) \<Longrightarrow> fds_distinct es \<and> (\<forall>e' \<in> set es. pf_fd e \<noteq> None \<longrightarrow> pf_fd e' \<noteq> pf_fd e)"
proof
  assume d: "fds_distinct (e # es)"
  show "fds_distinct es" using d unfolding fds_distinct_def by fastforce
  show "\<forall>e' \<in> set es. pf_fd e \<noteq> None \<longrightarrow> pf_fd e' \<noteq> pf_fd e"
  proof (intro ballI impI notI)
    fix e' assume "e' \<in> set es" "pf_fd e \<noteq> None" "pf_fd e' = pf_fd e"
    then obtain j where j: "j < length es" "es ! j = e'" by (auto simp: in_set_conv_nth)
    have "0 = Suc j" using d [unfolded fds_distinct_def, rule_format, of 0 "Suc j"] j \<open>pf_fd e \<noteq> None\<close> \<open>pf_fd e' = pf_fd e\<close> by simp
    then show False by simp
  qed
qed

lemma reindex_at:
  assumes "fds_distinct es" and "\<forall>e \<in> set es. \<forall>fd. pf_fd e = Some fd \<longrightarrow> fd < length t"
    and "j < length (filter (\<lambda>e. pf_fd e \<noteq> None) es)" and "pf_fd (filter (\<lambda>e. pf_fd e \<noteq> None) es ! j) = Some fd"
  shows "fe_index (poll_reindex i es t ! fd) = Some (i + j)"
  using assms
proof (induction i es t arbitrary: j rule: poll_reindex.induct)
  case (2 i e es t)
  note d = fds_distinct_Cons [OF 2(3)]
  show ?case
  proof (cases "pf_fd e")
    case None
    then show ?thesis using 2(1) [OF None] 2(4-) d by simp
  next
    case (Some f)
    show ?thesis
    proof (cases j)
      case 0
      then have "fd = f" using 2(6) Some by simp
      moreover have "\<forall>e' \<in> set es. pf_fd e' \<noteq> Some f" using d Some by auto
      moreover have "f < length t" using 2(4) Some by simp
      ultimately show ?thesis using Some 0 by (simp add: reindex_other)
    next
      case (Suc k)
      then show ?thesis using 2(2) [OF Some, of k] 2(4-) d Some by simp
    qed
  qed
qed simp

lemma poll_clean_ok:
  assumes ok: "poll_ok p"
  shows "poll_ok (poll_clean p)" and "registered (poll_clean p) = registered p"
proof -
  let ?es = "po_pollset p" and ?t = "po_fd_table p"
  let ?fs = "filter (\<lambda>e. pf_fd e \<noteq> None) ?es"
  have inv: "fd_index p fd = Some i \<longleftrightarrow> fd_at p i = Some fd" for fd i using ok by (simp add: poll_ok_def inverse_maps_def)
  have at: "i < length ?es \<Longrightarrow> pf_fd (?es ! i) = Some fd \<Longrightarrow> fd < length ?t \<and> fe_index (?t ! fd) = Some i" for i fd
    using inv [of fd i] by (auto simp: fd_at_def fd_index_def split: if_splits)
  have dist: "fds_distinct ?es"
    unfolding fds_distinct_def
  proof (intro allI impI)
    fix i j assume a: "i < length ?es" "j < length ?es" "pf_fd (?es ! i) \<noteq> None" "pf_fd (?es ! i) = pf_fd (?es ! j)"
    then obtain fd where fd: "pf_fd (?es ! i) = Some fd" by auto
    have fj: "pf_fd (?es ! j) = Some fd" by (rule trans [OF a(4) [symmetric] fd])
    have "fe_index (?t ! fd) = Some i" "fe_index (?t ! fd) = Some j" using at [OF a(1) fd] at [OF a(2) fj] by blast+
    then show "i = j" by (metis option.inject)
  qed
  have bound: "\<forall>e \<in> set ?es. \<forall>fd. pf_fd e = Some fd \<longrightarrow> fd < length ?t"
  proof (intro ballI allI impI)
    fix e fd assume "e \<in> set ?es" "pf_fd e = Some fd"
    then obtain i where "i < length ?es" "?es ! i = e" by (auto simp: in_set_conv_nth)
    then show "fd < length ?t" using at [of i fd] \<open>pf_fd e = Some fd\<close> by simp
  qed
  show "poll_ok (poll_clean p)"
  proof (cases "po_retired p")
    case False
    then show ?thesis using ok by (simp add: poll_clean_def)
  next
    case True
    let ?p = "poll_clean p"
    have t: "po_fd_table ?p = poll_reindex 0 ?es ?t" and ps: "po_pollset ?p = ?fs" using True by (simp_all add: poll_clean_def)
    have at': "fd_at ?p j = Some fd \<Longrightarrow> fd_index ?p fd = Some j" for j fd
    proof -
      assume "fd_at ?p j = Some fd"
      then have j: "j < length ?fs" "pf_fd (?fs ! j) = Some fd" by (auto simp: fd_at_def ps split: if_splits)
      then have "?fs ! j \<in> set ?es" using nth_mem by fastforce
      then have "fd < length ?t" using bound j(2) by blast
      then show ?thesis using reindex_at [OF dist bound j, of 0] by (simp add: fd_index_def t)
    qed
    moreover have "fd_at ?p j = Some fd" if r: "fd_index ?p fd = Some j" for j fd
    proof -
      have r': "fd < length ?t" "fe_index (poll_reindex 0 ?es ?t ! fd) = Some j"
        using r by (auto simp: fd_index_def t split: if_splits)
      have "\<exists>e \<in> set ?es. pf_fd e = Some fd"
      proof (rule ccontr)
        assume n: "\<not> (\<exists>e \<in> set ?es. pf_fd e = Some fd)"
        then have "fe_index (?t ! fd) = Some j" using reindex_other [of ?es fd 0 ?t] r' by auto
        then have "fd_at p j = Some fd" using inv [of fd j] r' by (simp add: fd_index_def)
        then show False using n by (auto simp: fd_at_def split: if_splits)
      qed
      then have "\<exists>e \<in> set ?fs. pf_fd e = Some fd" by auto
      then obtain k where k: "k < length ?fs" "pf_fd (?fs ! k) = Some fd" by (metis in_set_conv_nth)
      then have "fd_at ?p k = Some fd" by (simp add: fd_at_def ps)
      moreover from at' [OF this] have "k = j" using r by simp
      ultimately show ?thesis by simp
    qed
    ultimately show ?thesis unfolding poll_ok_def inverse_maps_def by blast
  qed
  show "registered (poll_clean p) = registered p"
  proof (cases "po_retired p")
    case True
    have "(fd_index (poll_clean p) fd \<noteq> None) = (fd_index p fd \<noteq> None)" for fd
    proof (cases "\<exists>e \<in> set ?es. pf_fd e = Some fd")
      case True
      then have "\<exists>e \<in> set ?fs. pf_fd e = Some fd" by auto
      then obtain k where k: "k < length ?fs" "pf_fd (?fs ! k) = Some fd" by (metis in_set_conv_nth)
      obtain i where "i < length ?es" "pf_fd (?es ! i) = Some fd" using True by (auto simp: in_set_conv_nth)
      then have "fd_index p fd \<noteq> None" using inv [of fd i] by (simp add: fd_at_def)
      moreover have "fd < length ?t" using True bound by blast
      ultimately show ?thesis using reindex_at [OF dist bound k, of 0] \<open>po_retired p\<close>
        by (simp add: fd_index_def poll_clean_def)
    next
      case False
      then show ?thesis using reindex_other [of ?es fd 0 ?t] \<open>po_retired p\<close> by (auto simp: fd_index_def poll_clean_def)
    qed
    then show ?thesis using True by (simp add: registered_def fun_eq_iff poll_clean_def reindex_events)
  qed (simp add: poll_clean_def)
qed

lemma set_revents_length [simp]: "length (set_revents rs es) = length es"
  by (induction rs es rule: set_revents.induct) auto

lemma set_revents_nth: "i < length es \<Longrightarrow> i < length rs \<Longrightarrow> set_revents rs es ! i = (es ! i)\<lparr>pf_revents := rs ! i\<rparr>"
proof (induction rs es arbitrary: i rule: set_revents.induct)
  case (1 r rs e es)
  then show ?case by (cases i) auto
qed auto

lemma set_revents_ok: "poll_ok p \<Longrightarrow> length rs = length (po_pollset p) \<Longrightarrow> poll_ok (p\<lparr>po_pollset := set_revents rs (po_pollset p)\<rparr>)"
proof -
  assume ok: "poll_ok p" and l: "length rs = length (po_pollset p)"
  have "fd_at (p\<lparr>po_pollset := set_revents rs (po_pollset p)\<rparr>) = fd_at p"
    "fd_index (p\<lparr>po_pollset := set_revents rs (po_pollset p)\<rparr>) = fd_index p"
    using l by (auto simp: fun_eq_iff fd_at_def fd_index_def set_revents_nth)
  then show ?thesis using ok by (simp add: poll_ok_def)
qed

text \<open>What is asked of \<open>poll\<close>: the results are those of the entries, and no descriptor is invalid.\<close>

definition poll_call_ok :: "(pollfd list \<Rightarrow> u32 \<Rightarrow> poll_result) \<Rightarrow> bool" where
  "poll_call_ok call \<longleftrightarrow> (\<forall>es t rs. call es t = Poll_events rs \<longrightarrow> length rs = length es \<and> (\<forall>r \<in> set rs. \<not> rv_nval r))"

text \<open>C26 (safety).  A pass of the event loop of poll.cpp completes and passes events only to objects that are
  registered at that moment, whatever descriptors the objects called before have added and
  removed in the same pass: the calls on registered objects are all it needs to return, with the
  tables consistent again and the timers' part done.\<close>

theorem poll_pass_safe:
  assumes "execute_timers po_base upd_base cb now s = Some (timeout, s1)" and "poll_ok (fst s1)"
    and "po.handles cb" and "poll_call_ok call"
  shows "\<exists>s'. poll_pass cb now call s = Some s' \<and> poll_ok (fst s')"
proof (cases "call (po_pollset (fst s1)) (if (ucast timeout :: u32) \<noteq> 0 then ucast timeout else - 1)")
  case (Poll_events rs)
  let ?s = "apfst (\<lambda>p. p\<lparr>po_pollset := set_revents rs (po_pollset p)\<rparr>) s1"
  have rs: "length rs = length (po_pollset (fst s1))" "\<forall>r \<in> set rs. \<not> rv_nval r"
    using assms(4) Poll_events by (auto simp: poll_call_ok_def)
  have ok: "poll_ok (fst ?s)" using set_revents_ok [OF assms(2) rs(1)] by simp
  have "\<not> rv_nval (pf_revents (po_pollset (fst ?s) ! j))" if "j < length (po_pollset (fst s1))" for j
    using that rs by (simp add: set_revents_nth)
  then obtain s2 where "poll_dispatch cb 0 ?s = Some s2" "poll_ok (fst s2)"
    using dispatch_ok [OF assms(3) ok, of "length (po_pollset (fst s1))" 0] by auto
  then show ?thesis using assms(1) Poll_events poll_clean_ok(1) by (auto simp: poll_pass_def Let_def)
qed (use assms in \<open>auto simp: poll_pass_def Let_def\<close>)

section \<open>Timers\<close>

lemma timer_insert_set: "set (timer_insert t ts) = insert t (set ts)"
  by (induction t ts rule: timer_insert.induct) auto

definition timers_sorted :: "timer list \<Rightarrow> bool" where
  "timers_sorted ts \<longleftrightarrow> sorted_wrt (\<lambda>t u. tm_expiration t \<le> tm_expiration u) ts"

lemma timer_insert_sorted: "timers_sorted ts \<Longrightarrow> timers_sorted (timer_insert t ts)"
  by (induction t ts rule: timer_insert.induct) (auto simp: timers_sorted_def timer_insert_set)

lemma timer_cancel_sorted: "timer_cancel k i ts = Some ts' \<Longrightarrow> timers_sorted ts \<Longrightarrow> timers_sorted ts' \<and> set ts' \<subseteq> set ts"
proof (induction k i ts arbitrary: ts' rule: timer_cancel.induct)
  case (2 k i t ts)
  show ?case
  proof (cases "tm_sink t = k \<and> tm_id t = i")
    case True
    then show ?thesis using 2 by (auto simp: timers_sorted_def)
  next
    case False
    then obtain us where us: "timer_cancel k i ts = Some us" "ts' = t # us"
      using 2(2) by (auto split: Option.bind_splits if_splits)
    then have "timers_sorted us" "set us \<subseteq> set ts" using 2(1) [OF False us(1)] 2(3) by (auto simp: timers_sorted_def)
    then show ?thesis using us(2) 2(3) unfolding timers_sorted_def by (simp add: subset_iff)
  qed
qed simp

text \<open>What objects do with their timers, and with the load: sequences of the operations of the base class.
  A timer that is not there cannot be cancelled.\<close>

datatype base_op = Op_add u64 int addr int | Op_cancel addr int | Op_load int

fun base_do :: "base_op \<Rightarrow> poller_base \<Rightarrow> poller_base option" where
  "base_do (Op_add now timeout sink tid) b = Some (add_timer now timeout sink tid b)"
| "base_do (Op_cancel sink tid) b = cancel_timer sink tid b"
| "base_do (Op_load n) b = Some (adjust_load n b)"

fun base_run :: "base_op list \<Rightarrow> poller_base \<Rightarrow> poller_base option" where
  "base_run [] b = Some b"
| "base_run (x # xs) b = do { b \<leftarrow> base_do x b; base_run xs b }"

text \<open>The timers are sorted by their expiration, and the nodes are distinct and all used before.\<close>

definition timers_ok :: "poller_base \<Rightarrow> bool" where
  "timers_ok b \<longleftrightarrow> timers_sorted (pb_timers b) \<and> distinct (map tm_node (pb_timers b)) \<and>
     (\<forall>t \<in> set (pb_timers b). tm_node t < pb_nodes b)"

lemma timer_insert_distinct:
  "distinct (map tm_node (timer_insert t ts)) \<longleftrightarrow> distinct (map tm_node (t # ts))"
  by (induction t ts rule: timer_insert.induct) (auto simp: timer_insert_set)

lemma timer_cancel_distinct: "timer_cancel k i ts = Some ts' \<Longrightarrow> distinct (map tm_node ts) \<Longrightarrow> distinct (map tm_node ts')"
proof (induction k i ts arbitrary: ts' rule: timer_cancel.induct)
  case (2 k i t ts)
  show ?case
  proof (cases "tm_sink t = k \<and> tm_id t = i")
    case False
    then obtain us where us: "timer_cancel k i ts = Some us" "ts' = t # us"
      using 2(2) by (auto split: Option.bind_splits if_splits)
    have "set us \<subseteq> set ts" using us(1)
      by (induction k i ts arbitrary: us rule: timer_cancel.induct) (fastforce split: Option.bind_splits if_splits)+
    then show ?thesis using 2(1) [OF False us(1)] 2(3) us(2) by auto
  qed (use 2 in auto)
qed simp

lemma timer_cancel_subset: "timer_cancel k i ts = Some ts' \<Longrightarrow> set ts' \<subseteq> set ts"
  by (induction k i ts arbitrary: ts' rule: timer_cancel.induct) (fastforce split: Option.bind_splits if_splits)+

lemma base_do_ok: "base_do x b = Some b' \<Longrightarrow> timers_ok b \<Longrightarrow> timers_ok b' \<and> pb_nodes b \<le> pb_nodes b'"
proof (cases x)
  case (Op_cancel k i)
  moreover assume "base_do x b = Some b'" "timers_ok b"
  ultimately obtain ts where ts: "timer_cancel k i (pb_timers b) = Some ts" "b' = b\<lparr>pb_timers := ts\<rparr>"
    and b: "timers_sorted (pb_timers b)" "distinct (map tm_node (pb_timers b))" "\<forall>t \<in> set (pb_timers b). tm_node t < pb_nodes b"
    by (auto simp: cancel_timer_def timers_ok_def split: Option.bind_splits)
  show ?thesis
    using timer_cancel_sorted [OF ts(1) b(1)] timer_cancel_distinct [OF ts(1) b(2)] b(3) ts(2) by (auto simp: timers_ok_def)
next
  case (Op_add now timeout k i)
  moreover assume "base_do x b = Some b'" "timers_ok b"
  moreover from this(2) have "pb_nodes b \<notin> tm_node ` set (pb_timers b)" "\<forall>t \<in> set (pb_timers b). tm_node t < Suc (pb_nodes b)"
    by (force simp: timers_ok_def)+
  ultimately show ?thesis
    by (auto simp: timers_ok_def add_timer_def Let_def timer_insert_set timer_insert_distinct timer_insert_sorted)
next
  case (Op_load n)
  moreover assume "base_do x b = Some b'" "timers_ok b"
  ultimately show ?thesis by (auto simp: timers_ok_def adjust_load_def)
qed

lemma base_run_ok: "base_run xs b = Some b' \<Longrightarrow> timers_ok b \<Longrightarrow> timers_ok b' \<and> pb_nodes b \<le> pb_nodes b'"
proof (induction xs arbitrary: b)
  case (Cons x xs)
  then obtain b1 where b1: "base_do x b = Some b1" "base_run xs b1 = Some b'" by (auto split: Option.bind_splits)
  from base_do_ok [OF b1(1) Cons.prems(2)] Cons.IH [OF b1(2)] show ?case by auto
qed simp

lemma base_new_ok: "timers_ok poller_base_new"
  by (simp add: timers_ok_def poller_base_new_def timers_sorted_def)

text \<open>The event of one timer, which is then erased.\<close>

definition fire :: "((poller_base \<Rightarrow> poller_base) \<Rightarrow> 'p \<Rightarrow> 'p) \<Rightarrow> ('p, 'w) callback \<Rightarrow> timer \<Rightarrow> 'p \<times> 'w \<Rightarrow> ('p \<times> 'w) option" where
  "fire upd cb t s = do {
     s \<leftarrow> cb (Timer_event (tm_id t)) (tm_sink t) s;
     Some (apfst (upd (\<lambda>b. b\<lparr>pb_timers := filter (\<lambda>u. tm_node u \<noteq> tm_node t) (pb_timers b)\<rparr>)) s)
   }"

fun fire_all :: "((poller_base \<Rightarrow> poller_base) \<Rightarrow> 'p \<Rightarrow> 'p) \<Rightarrow> ('p, 'w) callback \<Rightarrow> timer list \<Rightarrow> 'p \<times> 'w \<Rightarrow> ('p \<times> 'w) option" where
  "fire_all upd cb [] s = Some s"
| "fire_all upd cb (t # ts) s = do { s \<leftarrow> fire upd cb t s; fire_all upd cb ts s }"

text \<open>What the objects called may do to the timers in the event of the timer \<open>t\<close> at the time \<open>current\<close>:
  any sequence of operations that leaves \<open>t\<close> itself there, all timers it adds being due later.\<close>

definition timer_handler :: "('p \<Rightarrow> poller_base) \<Rightarrow> ('p, 'w) callback \<Rightarrow> u64 \<Rightarrow> bool" where
  "timer_handler base cb current \<longleftrightarrow> (\<forall>s t. t \<in> set (pb_timers (base (fst s))) \<longrightarrow>
     (\<exists>s' xs. cb (Timer_event (tm_id t)) (tm_sink t) s = Some s' \<and>
        base_run xs (base (fst s)) = Some (base (fst s')) \<and> t \<in> set (pb_timers (base (fst s'))) \<and>
        (\<forall>u \<in> set (pb_timers (base (fst s'))). u \<in> set (pb_timers (base (fst s))) \<or> current < tm_expiration u)))"

text \<open>The timers due of \<open>b\<close>: there are at most as many passes of the loop.\<close>

definition timers_due :: "u64 \<Rightarrow> poller_base \<Rightarrow> timer set" where
  "timers_due current b = {t \<in> set (pb_timers b). tm_expiration t \<le> current}"

text \<open>The operations keep the order of the timers there were, those of the nodes up to \<open>n\<close>.\<close>

lemma filter_timer_insert: "\<not> P t \<Longrightarrow> filter P (timer_insert t ts) = filter P ts"
  by (induction t ts rule: timer_insert.induct) auto

lemma timer_cancel_subseq: "timer_cancel k i ts = Some ts' \<Longrightarrow> subseq ts' ts"
  by (induction k i ts arbitrary: ts' rule: timer_cancel.induct) (auto split: Option.bind_splits if_splits)

lemma subseq_set: "subseq xs ys \<Longrightarrow> set xs \<subseteq> set ys"
  by (induction rule: list_emb.induct) auto

lemma subseq_sorted: "subseq ts us \<Longrightarrow> timers_sorted us \<Longrightarrow> timers_sorted ts"
  by (induction rule: list_emb.induct) (auto simp: timers_sorted_def dest: subseq_set)

lemma base_run_old:
  "base_run xs b = Some b' \<Longrightarrow> timers_ok b \<Longrightarrow> n \<le> pb_nodes b \<Longrightarrow>
   subseq (filter (\<lambda>u. tm_node u < n) (pb_timers b')) (filter (\<lambda>u. tm_node u < n) (pb_timers b))"
proof (induction xs arbitrary: b)
  case (Cons x xs)
  then obtain b1 where b1: "base_do x b = Some b1" "base_run xs b1 = Some b'" by (auto split: Option.bind_splits)
  have "subseq (filter (\<lambda>u. tm_node u < n) (pb_timers b1)) (filter (\<lambda>u. tm_node u < n) (pb_timers b))"
    using b1(1) Cons.prems(3)
    by (cases x) (auto simp: add_timer_def adjust_load_def cancel_timer_def Let_def filter_timer_insert
      dest: timer_cancel_subseq intro: subseq_filter split: Option.bind_splits)
  then show ?case
    using Cons.IH [OF b1(2)] base_do_ok [OF b1(1) Cons.prems(2)] Cons.prems(3) by (meson le_trans subseq_order.trans)
qed simp

text \<open>So the first timer stays the first while it is being run.\<close>

lemma head_stays:
  assumes ok: "timers_ok b" and b: "pb_timers b = t # us" and due: "tm_expiration t \<le> current"
    and run: "base_run xs b = Some b'" and t: "t \<in> set (pb_timers b')"
    and new: "\<forall>u \<in> set (pb_timers b'). u \<in> set (pb_timers b) \<or> current < tm_expiration u"
  shows "\<exists>vs. pb_timers b' = t # vs \<and> subseq (filter (\<lambda>u. tm_expiration u \<le> current) vs) us"
proof -
  let ?old = "\<lambda>u. tm_node u < pb_nodes b"
  have ok': "timers_ok b'" using base_run_ok [OF run ok] by simp
  have f: "filter ?old (pb_timers b) = t # us" using ok b by (auto simp: timers_ok_def filter_id_conv)
  then have sub: "subseq (filter ?old (pb_timers b')) (t # us)" using base_run_old [OF run ok le_refl] by simp
  have nt: "t \<notin> set us" using ok b by (auto simp: timers_ok_def)
  have tin: "t \<in> set (filter ?old (pb_timers b'))" using t ok b by (simp add: timers_ok_def)
  then obtain w ws where w: "filter ?old (pb_timers b') = w # ws" by (cases "filter ?old (pb_timers b')") auto
  have wt: "w = t"
  proof (rule ccontr)
    assume "w \<noteq> t"
    then have "subseq (w # ws) us" using sub w by (metis subseq_Cons2_neq)
    then have "set (w # ws) \<subseteq> set us" by (rule subseq_set)
    then show False using tin w nt by auto
  qed
  then have ws: "subseq ws us" using sub w by simp
  obtain v vs where v: "pb_timers b' = v # vs" using t by (cases "pb_timers b'") auto
  have "v = t"
  proof (rule ccontr)
    assume ne: "v \<noteq> t"
    then have "t \<in> set vs" using t v by simp
    then have "tm_expiration v \<le> tm_expiration t" using ok' v by (auto simp: timers_ok_def timers_sorted_def)
    then have "v \<in> set (pb_timers b)" using new v due by (metis leD list.set_intros(1) order_trans)
    then have "?old v" using ok by (simp add: timers_ok_def)
    then have "v = w" using w v by simp
    with ne wt show False by simp
  qed
  moreover have "subseq (filter (\<lambda>u. tm_expiration u \<le> current) vs) us"
  proof -
    have e: "filter (\<lambda>u. tm_expiration u \<le> current) vs = filter (\<lambda>u. tm_expiration u \<le> current) (filter ?old vs)"
      unfolding filter_filter
      by (rule filter_cong [OF refl]) (use new v ok in \<open>auto simp: timers_ok_def not_le\<close>)
    have "?old t" using tin by simp
    then have "filter ?old vs = ws" using w v \<open>v = t\<close> by simp
    then show ?thesis unfolding e using ws by (metis subseq_filter_left subseq_order.trans)
  qed
  ultimately show ?thesis using v by blast
qed

lemma run_timers_due:
  assumes lens: "\<And>f p. base (upd f p) = f (base p)" and hd: "timer_handler base cb current"
  shows "timers_ok (base (fst s)) \<Longrightarrow>
    \<exists>ds s'. run_timers base upd cb current (case pb_timers (base (fst s)) of [] \<Rightarrow> None | t # _ \<Rightarrow> Some (tm_node t)) s =
        Some (case pb_timers (base (fst s')) of [] \<Rightarrow> 0 | u # _ \<Rightarrow> tm_expiration u - current, s') \<and>
      fire_all upd cb ds s = Some s' \<and> subseq ds (pb_timers (base (fst s))) \<and>
      (\<forall>d \<in> set ds. tm_expiration d \<le> current) \<and>
      timers_ok (base (fst s')) \<and> timers_due current (base (fst s')) = {}"
proof (induction "card (timers_due current (base (fst s)))" arbitrary: s rule: less_induct)
  case less
  let ?b = "base (fst s)"
  show ?case
  proof (cases "pb_timers ?b")
    case Nil
    then show ?thesis using less.prems
      by (intro exI [of _ "[]"] exI [of _ s]) (subst run_timers.simps, simp add: timers_due_def)
  next
    case (Cons t us)
    show ?thesis
    proof (cases "tm_expiration t \<le> current")
      case False
      then have "timers_due current ?b = {}"
        using less.prems Cons by (force simp: timers_due_def timers_ok_def timers_sorted_def)
      then show ?thesis using less.prems Cons False
        by (intro exI [of _ "[]"] exI [of _ s]) (subst run_timers.simps, simp add: not_le)
    next
      case True
      have "t \<in> set (pb_timers ?b)" using Cons by simp
      then obtain s1 xs where s1: "cb (Timer_event (tm_id t)) (tm_sink t) s = Some s1"
        "base_run xs ?b = Some (base (fst s1))" "t \<in> set (pb_timers (base (fst s1)))"
        "\<forall>u \<in> set (pb_timers (base (fst s1))). u \<in> set (pb_timers ?b) \<or> current < tm_expiration u"
        using hd unfolding timer_handler_def by blast
      obtain vs where vs: "pb_timers (base (fst s1)) = t # vs" "subseq (filter (\<lambda>u. tm_expiration u \<le> current) vs) us"
        using head_stays [OF less.prems Cons True s1(2-4)] by blast
      have ok1: "timers_ok (base (fst s1))" using base_run_ok [OF s1(2) less.prems] by simp
      let ?s = "apfst (upd (\<lambda>b. b\<lparr>pb_timers := filter (\<lambda>u. tm_node u \<noteq> tm_node t) (pb_timers b)\<rparr>)) s1"
      have "filter (\<lambda>u. tm_node u \<noteq> tm_node t) vs = vs"
        using ok1 vs(1) by (auto simp: timers_ok_def filter_id_conv) (metis imageI)
      then have b2: "base (fst ?s) = (base (fst s1))\<lparr>pb_timers := vs\<rparr>" using vs(1) by (simp add: lens)
      have ok2: "timers_ok (base (fst ?s))" using ok1 vs(1) unfolding b2 by (simp add: timers_ok_def timers_sorted_def)
      have tn: "t \<notin> set vs" using ok1 vs(1) by (auto simp: timers_ok_def)
      have "timers_due current (base (fst ?s)) \<subset> timers_due current ?b"
        using s1(4) vs(1) tn Cons True unfolding b2 by (auto simp: timers_due_def)
      moreover have "finite (timers_due current ?b)" by (simp add: timers_due_def)
      ultimately have less2: "card (timers_due current (base (fst ?s))) < card (timers_due current ?b)" by (rule psubset_card_mono [rotated])
      obtain ds s' where r: "run_timers base upd cb current
          (case pb_timers (base (fst ?s)) of [] \<Rightarrow> None | t # _ \<Rightarrow> Some (tm_node t)) ?s =
          Some (case pb_timers (base (fst s')) of [] \<Rightarrow> 0 | u # _ \<Rightarrow> tm_expiration u - current, s')"
        "fire_all upd cb ds ?s = Some s'" "subseq ds (pb_timers (base (fst ?s)))"
        "\<forall>d \<in> set ds. tm_expiration d \<le> current" "timers_ok (base (fst s'))" "timers_due current (base (fst s')) = {}"
        using less.hyps [OF less2 ok2] by blast
      have fire: "fire upd cb t s = Some ?s" using s1(1) by (simp add: fire_def)
      have "run_timers base upd cb current (Some (tm_node t)) s =
          run_timers base upd cb current (case vs of [] \<Rightarrow> None | t # _ \<Rightarrow> Some (tm_node t)) ?s"
        using Cons True leD [OF True] s1(1) vs(1) by (subst run_timers.simps) (simp add: Let_def)
      moreover have "subseq (t # ds) (pb_timers ?b)"
      proof -
        have "filter (\<lambda>u. tm_expiration u \<le> current) ds = ds" using r(4) by (simp add: filter_id_conv)
        then have "subseq ds us" using r(3) vs(2) unfolding b2 by (metis poller_base.select_convs(1) poller_base.update_convs(1) poller_base.surjective subseq_filter subseq_order.trans)
        then show ?thesis using Cons by simp
      qed
      ultimately show ?thesis
        using r Cons True fire unfolding b2
        by (intro exI [of _ "t # ds"] exI [of _ s']) simp
    qed
  qed
qed

text \<open>C27 (functional).  Timers: in whatever order timers have been added and cancelled before, the pass
  over them returns, the events are passed on for timers that are due only, in the order of their
  expiration, each timer being erased after its event; afterwards no timer is due; and the result is the time
  left to the earliest one, or 0 when there is none.  The objects called may add and cancel
  timers in their events, except that they do not cancel the timer being run, and that the timers
  they add are due later than now (as a reconnection timer with a positive interval is).\<close>

theorem timers_run_when_due:
  assumes "base_run xs poller_base_new = Some (po_base (fst s))" and "timer_handler po_base cb current"
  shows "\<exists>ds timeout s'. execute_timers po_base upd_base cb current s = Some (timeout, s') \<and>
    fire_all upd_base cb ds s = Some s' \<and> subseq ds (pb_timers (po_base (fst s))) \<and> timers_sorted ds \<and>
    (\<forall>d \<in> set ds. tm_expiration d \<le> current) \<and>
    (\<forall>u \<in> set (pb_timers (po_base (fst s'))). current < tm_expiration u \<and> 0 < timeout \<and> timeout \<le> tm_expiration u - current) \<and>
    (pb_timers (po_base (fst s')) = [] \<longrightarrow> timeout = 0) \<and>
    (pb_timers (po_base (fst s')) \<noteq> [] \<longrightarrow> (\<exists>u \<in> set (pb_timers (po_base (fst s'))). timeout = tm_expiration u - current))"
proof -
  have lens: "po_base (upd_base f p) = f (po_base p)" for f p by (simp add: upd_base_def)
  have ok: "timers_ok (po_base (fst s))" using base_run_ok [OF assms(1) base_new_ok] by simp
  obtain ds s' where r: "run_timers po_base upd_base cb current
        (case pb_timers (po_base (fst s)) of [] \<Rightarrow> None | t # _ \<Rightarrow> Some (tm_node t)) s =
        Some (case pb_timers (po_base (fst s')) of [] \<Rightarrow> 0 | u # _ \<Rightarrow> tm_expiration u - current, s')"
      "fire_all upd_base cb ds s = Some s'" "subseq ds (pb_timers (po_base (fst s)))"
      "\<forall>d \<in> set ds. tm_expiration d \<le> current" "timers_ok (po_base (fst s'))" "timers_due current (po_base (fst s')) = {}"
    using run_timers_due [of po_base upd_base cb current s, OF lens assms(2) ok] by blast
  let ?t = "case pb_timers (po_base (fst s')) of [] \<Rightarrow> 0 | u # _ \<Rightarrow> tm_expiration u - current"
  have "execute_timers po_base upd_base cb current s = Some (?t, s')"
  proof (cases "pb_timers (po_base (fst s))")
    case Nil
    then have "s' = s" using r(1) by (subst (asm) run_timers.simps) simp
    then show ?thesis using Nil by (simp add: execute_timers_def)
  next
    case (Cons t us)
    then show ?thesis using r(1) by (simp add: execute_timers_def)
  qed
  moreover have "timers_sorted ds" using r(3) ok by (auto simp: timers_ok_def intro: subseq_sorted)
  moreover have "current < tm_expiration u \<and> 0 < ?t \<and> ?t \<le> tm_expiration u - current"
    if u: "u \<in> set (pb_timers (po_base (fst s')))" for u
  proof -
    obtain v vs where v: "pb_timers (po_base (fst s')) = v # vs" using u by (cases "pb_timers (po_base (fst s'))") auto
    have c: "current < tm_expiration w" if "w \<in> set (v # vs)" for w using r(6) v that by (auto simp: timers_due_def not_le)
    have "tm_expiration v \<le> tm_expiration u" using r(5) u v by (auto simp: timers_ok_def timers_sorted_def)
    then have "tm_expiration v - current \<le> tm_expiration u - current"
      using c [of v] by (simp add: word_le_nat_alt word_less_nat_alt unat_sub less_imp_le)
    moreover have "0 < tm_expiration v - current" using c [of v] by (simp add: word_less_nat_alt unat_sub word_le_nat_alt)
    ultimately show ?thesis using c u v by simp
  qed
  moreover have "pb_timers (po_base (fst s')) \<noteq> [] \<longrightarrow>
      (\<exists>u \<in> set (pb_timers (po_base (fst s'))). ?t = tm_expiration u - current)"
    by (cases "pb_timers (po_base (fst s'))") auto
  moreover have "pb_timers (po_base (fst s')) = [] \<longrightarrow> ?t = 0" by simp
  ultimately show ?thesis using r(2-4) by blast
qed

section \<open>Examples\<close>

text \<open>An object that is called removes the descriptor 4; one that is not registered must not be called.\<close>

definition demo_callback :: "(poll, unit) callback" where
  "demo_callback ev k s =
     (if \<exists>fd < length (po_fd_table (fst s)). fe_index (po_fd_table (fst s) ! fd) \<noteq> None \<and> fe_events (po_fd_table (fst s) ! fd) = k
      then (case fd_index (fst s) 4 of
              None \<Rightarrow> Some s
            | Some _ \<Rightarrow> do { p \<leftarrow> poll_rm_fd 4 (fst s); Some (p, snd s) })
      else None)"

lemma demo_handles: "po.handles demo_callback"
  unfolding po.handles_def
proof (intro allI impI)
  fix ev k and s :: "poll \<times> unit"
  assume a: "poll_ok (fst s) \<and> (\<exists>fd. registered (fst s) fd k)"
  then have r: "\<exists>fd < length (po_fd_table (fst s)). fe_index (po_fd_table (fst s) ! fd) \<noteq> None \<and> fe_events (po_fd_table (fst s) ! fd) = k"
    by (auto simp: registered_def fd_index_def split: if_splits)
  show "\<exists>s'. demo_callback ev k s = Some s' \<and> poll_ok (fst s') \<and> extends (fst s) (fst s')"
  proof (cases "fd_index (fst s) 4")
    case None
    then have "demo_callback ev k s = Some s" using r by (simp add: demo_callback_def)
    then show ?thesis using a by simp
  next
    case (Some i)
    obtain p where "poll_rm_fd 4 (fst s) = Some p" "poll_ok p" "extends (fst s) p" using poll_rm_fd_ok a Some by blast
    moreover from this have "demo_callback ev k s = Some (p, snd s)" using r Some by (simp add: demo_callback_def)
    ultimately show ?thesis by auto
  qed
qed

definition demo_poll :: poll where
  "demo_poll = the (do { p \<leftarrow> poll_add_fd 3 70 poll_new; p \<leftarrow> poll_add_fd 4 80 p; p \<leftarrow> poll_set_pollin 3 p; poll_set_pollin 4 p })"

text \<open>Both descriptors are ready; the first object retires the second, which is not called any more.\<close>

lemma poll_pass_safe_witness:
  "\<exists>s'. poll_pass demo_callback 0 (\<lambda>es _. Poll_events (map (\<lambda>_. no_revents\<lparr>rv_in := True\<rparr>) es)) (demo_poll, ()) = Some s' \<and> poll_ok (fst s')"
proof -
  obtain p1 where p1: "poll_add_fd 3 70 poll_new = Some p1" "poll_ok p1" "registered p1 3 70"
    using poll_add_fd_ok [OF poll_new_ok, of 3 70] by (auto simp: fd_index_def poll_new_def)
  have "fd_index p1 4 = None"
  proof -
    have "map_option (\<lambda>p. fd_index p 4) (poll_add_fd 3 70 poll_new) = Some None" by code_simp
    then show ?thesis using p1 by simp
  qed
  then obtain p2 where p2: "poll_add_fd 4 80 p1 = Some p2" "poll_ok p2" "registered p2 4 80"
    using poll_add_fd_ok [OF p1(2), of 4 80] by auto
  have "map_option (\<lambda>p. fd_index p 3) (do { p \<leftarrow> poll_add_fd 3 70 poll_new; poll_add_fd 4 80 p }) = Some (Some 0)" by code_simp
  then have i3: "fd_index p2 3 = Some 0" using p1(1) p2(1) by simp
  obtain p3 where p3: "poll_set_pollin 3 p2 = Some p3" "poll_ok p3" "registered p3 = registered p2"
    using upd_pollfd_ok [OF p2(2) i3, of "\<lambda>e. e\<lparr>pf_in := True\<rparr>"] unfolding poll_set_pollin_def by auto
  have "registered p3 4 80" using p3(3) p2(3) by simp
  then obtain i where i4: "fd_index p3 4 = Some i" by (auto simp: registered_def)
  obtain p4 where p4: "poll_set_pollin 4 p3 = Some p4" "poll_ok p4"
    using upd_pollfd_ok [OF p3(2) i4, of "\<lambda>e. e\<lparr>pf_in := True\<rparr>"] unfolding poll_set_pollin_def by auto
  have d: "demo_poll = p4" using p1 p2 p3 p4 by (simp add: demo_poll_def)
  have "pb_timers (po_base demo_poll) = []" by code_simp
  then have "execute_timers po_base upd_base demo_callback 0 (demo_poll, ()) = Some (0, demo_poll, ())"
    by (simp add: execute_timers_def)
  then show ?thesis
    by (rule poll_pass_safe) (use p4 d demo_handles in \<open>auto simp: poll_call_ok_def no_revents_def\<close>)
qed

definition demo_timers :: poll where
  "demo_timers = upd_base (add_timer 100 50 7 1 \<circ> add_timer 100 20 8 2 \<circ> add_timer 100 90 9 3) poll_new"

text \<open>The object 8 adds a timer in its event.\<close>

definition demo_timer_events :: "(poll, (poll_event \<times> addr) list) callback" where
  "demo_timer_events ev k = (\<lambda>(p, w).
     if k = 8 then Some (upd_base (add_timer 160 40 8 4) p, w @ [(ev, k)])
     else Some (p, w @ [(ev, k)]))"

lemma timers_run_when_due_witness:
  "\<exists>timeout s'. execute_timers po_base upd_base demo_timer_events 160 (demo_timers, []) = Some (timeout, s') \<and>
     (\<forall>u \<in> set (pb_timers (po_base (fst s'))). 160 < tm_expiration u)"
proof -
  have "base_run [Op_add 100 90 9 3, Op_add 100 20 8 2, Op_add 100 50 7 1] poller_base_new =
      Some (po_base (fst (demo_timers, [] :: (poll_event \<times> addr) list)))"
    by (simp add: demo_timers_def upd_base_def poll_new_def)
  moreover have "timer_handler po_base demo_timer_events 160"
    unfolding timer_handler_def
  proof (intro allI impI)
    fix s :: "poll \<times> (poll_event \<times> addr) list" and t
    assume t: "t \<in> set (pb_timers (po_base (fst s)))"
    let ?xs = "if tm_sink t = 8 then [Op_add 160 40 8 4] else []"
    let ?b = "if tm_sink t = 8 then add_timer 160 40 8 4 (po_base (fst s)) else po_base (fst s)"
    have "demo_timer_events (Timer_event (tm_id t)) (tm_sink t) s =
        Some (upd_base (\<lambda>_. ?b) (fst s), snd s @ [(Timer_event (tm_id t), tm_sink t)])"
      by (cases s) (simp add: demo_timer_events_def upd_base_def)
    moreover have "base_run ?xs (po_base (fst s)) = Some ?b" by simp
    moreover have "t \<in> set (pb_timers ?b)" "\<forall>u \<in> set (pb_timers ?b). u \<in> set (pb_timers (po_base (fst s))) \<or> 160 < tm_expiration u"
      using t by (auto simp: add_timer_def Let_def timer_insert_set)
    ultimately show "\<exists>s' xs. demo_timer_events (Timer_event (tm_id t)) (tm_sink t) s = Some s' \<and>
        base_run xs (po_base (fst s)) = Some (po_base (fst s')) \<and> t \<in> set (pb_timers (po_base (fst s'))) \<and>
        (\<forall>u \<in> set (pb_timers (po_base (fst s'))). u \<in> set (pb_timers (po_base (fst s))) \<or> 160 < tm_expiration u)"
      by (intro exI [of _ "(upd_base (\<lambda>_. ?b) (fst s), snd s @ [(Timer_event (tm_id t), tm_sink t)])"] exI [of _ ?xs])
        (simp add: upd_base_def)
  qed
  ultimately show ?thesis using timers_run_when_due by blast
qed

end
