(* ===== verification/Event_Loops.thy ===== *)
theory Event_Loops
  imports Poller
begin

text \<open>
  The other event loops: \<open>select.hpp\<close>, \<open>select.cpp\<close>, \<open>epoll.hpp\<close>, \<open>epoll.cpp\<close>, \<open>kqueue.hpp\<close>, \<open>kqueue.cpp\<close>, and
  \<open>io_object.cpp\<close>, which passes the calls of an object on to the loop of its thread.  What the kernel
  keeps of the descriptors polled (\<open>epoll_ctl\<close>, \<open>kevent\<close>) is part of the state, with the errors the
  code asserts do not happen; the events a wait returns are an argument.  The entries of \<open>epoll\<close> and
  \<open>kqueue\<close> are heap objects, deleted at the end of the pass in which they were retired.
\<close>

section \<open>The passing on of a list of events\<close>

text \<open>For each event: an error (or the end of the file) and then, in the code's order, output and input.\<close>

fun dispatch_events :: "('h \<Rightarrow> 'p \<Rightarrow> addr option option) \<Rightarrow> ('p, 'w) callback \<Rightarrow> ('h \<times> revents) list \<Rightarrow> 'p \<times> 'w \<Rightarrow> ('p \<times> 'w) option" where
  "dispatch_events sink cb [] s = Some s"
| "dispatch_events sink cb ((h, r) # evs) s = do {
     s \<leftarrow> notify sink h (rv_err r) In_event cb s;
     s \<leftarrow> notify sink h (rv_out r) Out_event cb s;
     s \<leftarrow> notify sink h (rv_in r) In_event cb s;
     dispatch_events sink cb evs s
   }"

context event_source begin

lemma dispatch_safe:
  assumes h: "handles cb"
  shows "ok (fst s) \<Longrightarrow> \<forall>(e, r) \<in> set evs. valid (fst s) e \<Longrightarrow>
    \<exists>s'. dispatch_events sink cb evs s = Some s' \<and> ok (fst s') \<and> keep (fst s) (fst s')"
proof (induction evs arbitrary: s)
  case Nil
  then show ?case using keep_refl by auto
next
  case (Cons ev evs)
  obtain e r where ev: "ev = (e, r)" by (cases ev)
  have v: "valid (fst s) e" using Cons.prems ev by simp
  obtain s1 where s1: "notify sink e (rv_err r) In_event cb s = Some s1" "ok (fst s1)" "keep (fst s) (fst s1)"
    using notify_ok [OF h Cons.prems(1) v] by blast
  obtain s2 where s2: "notify sink e (rv_out r) Out_event cb s1 = Some s2" "ok (fst s2)" "keep (fst s1) (fst s2)"
    using notify_ok [OF h s1(2) keep_valid [OF s1(3) v]] by blast
  have k2: "keep (fst s) (fst s2)" using keep_trans s1(3) s2(3) by blast
  obtain s3 where s3: "notify sink e (rv_in r) In_event cb s2 = Some s3" "ok (fst s3)" "keep (fst s2) (fst s3)"
    using notify_ok [OF h s2(2) keep_valid [OF k2 v]] by blast
  have k3: "keep (fst s) (fst s3)" using keep_trans k2 s3(3) by blast
  have "\<forall>(e, r) \<in> set evs. valid (fst s3) e" using Cons.prems(2) keep_valid [OF k3] by auto
  then obtain s' where "dispatch_events sink cb evs s3 = Some s'" "ok (fst s')" "keep (fst s3) (fst s')"
    using Cons.IH s3(2) by blast
  then show ?case using ev s1 s2 s3 keep_trans [OF k3] by auto
qed

end

section \<open>Entries on the heap\<close>

record poll_entry =
  pe_fd :: "nat option"
  pe_in :: bool
  pe_out :: bool
  pe_events :: addr

datatype wait_result = Wait_intr | Wait_events "(addr \<times> revents) list"

definition entry_sink :: "(addr \<rightharpoonup> poll_entry) \<Rightarrow> addr \<Rightarrow> addr option option" where
  "entry_sink es h = do { e \<leftarrow> es h; Some (case pe_fd e of None \<Rightarrow> None | Some _ \<Rightarrow> Some (pe_events e)) }"

section \<open>epoll\<close>

text \<open>\<open>ep_kernel\<close>: the descriptors the kernel watches, each with the entry and the events of the last
  \<open>epoll_ctl\<close>.\<close>

record epoll =
  ep_base :: poller_base
  ep_entries :: "addr \<rightharpoonup> poll_entry"
  ep_next :: addr
  ep_kernel :: "nat \<rightharpoonup> addr \<times> bool \<times> bool"
  ep_retired :: "addr list"
  ep_stopping :: bool

definition epoll_new :: epoll where
  "epoll_new = \<lparr>ep_base = poller_base_new, ep_entries = Map.empty, ep_next = 0, ep_kernel = Map.empty,
     ep_retired = [], ep_stopping = False\<rparr>"

definition epoll_upd_base :: "(poller_base \<Rightarrow> poller_base) \<Rightarrow> epoll \<Rightarrow> epoll" where
  "epoll_upd_base f p = p\<lparr>ep_base := f (ep_base p)\<rparr>"

text \<open>\<open>epoll_ctl\<close>: adding a descriptor that is watched, or changing one that is not, is an error.\<close>

definition epoll_ctl_add :: "nat \<Rightarrow> addr \<Rightarrow> epoll \<Rightarrow> epoll option" where
  "epoll_ctl_add fd h p = do {
     zmq_assert (ep_kernel p fd = None);
     Some (p\<lparr>ep_kernel := (ep_kernel p)(fd \<mapsto> (h, False, False))\<rparr>)
   }"

definition epoll_ctl_mod :: "addr \<Rightarrow> epoll \<Rightarrow> epoll option" where
  "epoll_ctl_mod h p = do {
     e \<leftarrow> ep_entries p h;
     fd \<leftarrow> pe_fd e;
     zmq_assert (ep_kernel p fd \<noteq> None);
     Some (p\<lparr>ep_kernel := (ep_kernel p)(fd \<mapsto> (h, pe_in e, pe_out e))\<rparr>)
   }"

definition epoll_add_fd :: "nat \<Rightarrow> addr \<Rightarrow> epoll \<Rightarrow> (addr \<times> epoll) option" where
  "epoll_add_fd fd events p = do {
     let h = ep_next p;
     let e = \<lparr>pe_fd = Some fd, pe_in = False, pe_out = False, pe_events = events\<rparr>;
     p \<leftarrow> epoll_ctl_add fd h (p\<lparr>ep_entries := (ep_entries p)(h \<mapsto> e), ep_next := Suc h\<rparr>);
     Some (h, epoll_upd_base (adjust_load 1) p)
   }"

definition epoll_rm_fd :: "addr \<Rightarrow> epoll \<Rightarrow> epoll option" where
  "epoll_rm_fd h p = do {
     e \<leftarrow> ep_entries p h;
     fd \<leftarrow> pe_fd e;
     zmq_assert (ep_kernel p fd \<noteq> None);
     Some (epoll_upd_base (adjust_load (- 1)) (p\<lparr>ep_kernel := (ep_kernel p)(fd := None),
       ep_entries := (ep_entries p)(h \<mapsto> e\<lparr>pe_fd := None\<rparr>), ep_retired := ep_retired p @ [h]\<rparr>))
   }"

definition epoll_upd :: "addr \<Rightarrow> (poll_entry \<Rightarrow> poll_entry) \<Rightarrow> epoll \<Rightarrow> epoll option" where
  "epoll_upd h f p = do {
     e \<leftarrow> ep_entries p h;
     epoll_ctl_mod h (p\<lparr>ep_entries := (ep_entries p)(h \<mapsto> f e)\<rparr>)
   }"

definition epoll_set_pollin :: "addr \<Rightarrow> epoll \<Rightarrow> epoll option" where
  "epoll_set_pollin h p = epoll_upd h (\<lambda>e. e\<lparr>pe_in := True\<rparr>) p"
definition epoll_reset_pollin :: "addr \<Rightarrow> epoll \<Rightarrow> epoll option" where
  "epoll_reset_pollin h p = epoll_upd h (\<lambda>e. e\<lparr>pe_in := False\<rparr>) p"
definition epoll_set_pollout :: "addr \<Rightarrow> epoll \<Rightarrow> epoll option" where
  "epoll_set_pollout h p = epoll_upd h (\<lambda>e. e\<lparr>pe_out := True\<rparr>) p"
definition epoll_reset_pollout :: "addr \<Rightarrow> epoll \<Rightarrow> epoll option" where
  "epoll_reset_pollout h p = epoll_upd h (\<lambda>e. e\<lparr>pe_out := False\<rparr>) p"

definition epoll_stop :: "epoll \<Rightarrow> epoll" where
  "epoll_stop p = p\<lparr>ep_stopping := True\<rparr>"

definition epoll_sink :: "addr \<Rightarrow> epoll \<Rightarrow> addr option option" where
  "epoll_sink h p = entry_sink (ep_entries p) h"

definition epoll_clean :: "epoll \<Rightarrow> epoll" where
  "epoll_clean p = p\<lparr>ep_entries := (\<lambda>h. if h \<in> set (ep_retired p) then None else ep_entries p h), ep_retired := []\<rparr>"

text \<open>One pass of the loop; \<open>wait\<close> is \<open>epoll_wait\<close> with the watched descriptors and the timeout.\<close>

definition epoll_pass :: "(epoll, 'w) callback \<Rightarrow> u64 \<Rightarrow> ((nat \<rightharpoonup> addr \<times> bool \<times> bool) \<Rightarrow> u32 \<Rightarrow> wait_result) \<Rightarrow>
    epoll \<times> 'w \<Rightarrow> (epoll \<times> 'w) option" where
  "epoll_pass cb now wait s = do {
     (timeout, s) \<leftarrow> execute_timers ep_base epoll_upd_base cb now s;
     let timeout = (ucast timeout :: u32);
     case wait (ep_kernel (fst s)) (if timeout \<noteq> 0 then timeout else (- 1)) of
       Wait_intr \<Rightarrow> Some s
     | Wait_events evs \<Rightarrow> do {
         s \<leftarrow> dispatch_events epoll_sink cb evs s;
         Some (apfst epoll_clean s)
       }
   }"

section \<open>kqueue\<close>

text \<open>\<open>kq_kernel\<close>: the filters of the queue, \<open>True\<close> for reading and \<open>False\<close> for writing, each with its
  \<open>udata\<close>.\<close>

record kqueue =
  kq_base :: poller_base
  kq_entries :: "addr \<rightharpoonup> poll_entry"
  kq_next :: addr
  kq_kernel :: "nat \<times> bool \<rightharpoonup> addr"
  kq_retired :: "addr list"
  kq_stopping :: bool

definition kqueue_new :: kqueue where
  "kqueue_new = \<lparr>kq_base = poller_base_new, kq_entries = Map.empty, kq_next = 0, kq_kernel = Map.empty,
     kq_retired = [], kq_stopping = False\<rparr>"

definition kqueue_upd_base :: "(poller_base \<Rightarrow> poller_base) \<Rightarrow> kqueue \<Rightarrow> kqueue" where
  "kqueue_upd_base f p = p\<lparr>kq_base := f (kq_base p)\<rparr>"

definition kevent_add :: "nat \<Rightarrow> bool \<Rightarrow> addr \<Rightarrow> kqueue \<Rightarrow> kqueue option" where
  "kevent_add fd filt udata p = Some (p\<lparr>kq_kernel := (kq_kernel p)((fd, filt) \<mapsto> udata)\<rparr>)"

definition kevent_delete :: "nat \<Rightarrow> bool \<Rightarrow> kqueue \<Rightarrow> kqueue option" where
  "kevent_delete fd filt p = do {
     zmq_assert (kq_kernel p (fd, filt) \<noteq> None);
     Some (p\<lparr>kq_kernel := (kq_kernel p)((fd, filt) := None)\<rparr>)
   }"

definition kqueue_add_fd :: "nat \<Rightarrow> addr \<Rightarrow> kqueue \<Rightarrow> addr \<times> kqueue" where
  "kqueue_add_fd fd reactor p = (
     let h = kq_next p; e = \<lparr>pe_fd = Some fd, pe_in = False, pe_out = False, pe_events = reactor\<rparr>
     in (h, kqueue_upd_base (adjust_load 1) (p\<lparr>kq_entries := (kq_entries p)(h \<mapsto> e), kq_next := Suc h\<rparr>)))"

definition kqueue_rm_fd :: "addr \<Rightarrow> kqueue \<Rightarrow> kqueue option" where
  "kqueue_rm_fd h p = do {
     e \<leftarrow> kq_entries p h;
     fd \<leftarrow> pe_fd e;
     p \<leftarrow> (if pe_in e then kevent_delete fd True p else Some p);
     p \<leftarrow> (if pe_out e then kevent_delete fd False p else Some p);
     Some (kqueue_upd_base (adjust_load (- 1)) (p\<lparr>
       kq_entries := (kq_entries p)(h \<mapsto> e\<lparr>pe_fd := None\<rparr>), kq_retired := kq_retired p @ [h]\<rparr>))
   }"

definition kqueue_set_pollin :: "addr \<Rightarrow> kqueue \<Rightarrow> kqueue option" where
  "kqueue_set_pollin h p = do {
     e \<leftarrow> kq_entries p h;
     if \<not> pe_in e then do {
       fd \<leftarrow> pe_fd e;
       kevent_add fd True h (p\<lparr>kq_entries := (kq_entries p)(h \<mapsto> e\<lparr>pe_in := True\<rparr>)\<rparr>)
     }
     else Some p
   }"

definition kqueue_reset_pollin :: "addr \<Rightarrow> kqueue \<Rightarrow> kqueue option" where
  "kqueue_reset_pollin h p = do {
     e \<leftarrow> kq_entries p h;
     if pe_in e then do {
       fd \<leftarrow> pe_fd e;
       kevent_delete fd True (p\<lparr>kq_entries := (kq_entries p)(h \<mapsto> e\<lparr>pe_in := False\<rparr>)\<rparr>)
     }
     else Some p
   }"

definition kqueue_set_pollout :: "addr \<Rightarrow> kqueue \<Rightarrow> kqueue option" where
  "kqueue_set_pollout h p = do {
     e \<leftarrow> kq_entries p h;
     if \<not> pe_out e then do {
       fd \<leftarrow> pe_fd e;
       kevent_add fd False h (p\<lparr>kq_entries := (kq_entries p)(h \<mapsto> e\<lparr>pe_out := True\<rparr>)\<rparr>)
     }
     else Some p
   }"

definition kqueue_reset_pollout :: "addr \<Rightarrow> kqueue \<Rightarrow> kqueue option" where
  "kqueue_reset_pollout h p = do {
     e \<leftarrow> kq_entries p h;
     if pe_out e then do {
       fd \<leftarrow> pe_fd e;
       kevent_delete fd False (p\<lparr>kq_entries := (kq_entries p)(h \<mapsto> e\<lparr>pe_out := False\<rparr>)\<rparr>)
     }
     else Some p
   }"

definition kqueue_stop :: "kqueue \<Rightarrow> kqueue" where
  "kqueue_stop p = p\<lparr>kq_stopping := True\<rparr>"

definition kqueue_sink :: "addr \<Rightarrow> kqueue \<Rightarrow> addr option option" where
  "kqueue_sink h p = entry_sink (kq_entries p) h"

definition kqueue_clean :: "kqueue \<Rightarrow> kqueue" where
  "kqueue_clean p = p\<lparr>kq_entries := (\<lambda>h. if h \<in> set (kq_retired p) then None else kq_entries p h), kq_retired := []\<rparr>"

text \<open>\<open>wait\<close> is \<open>kevent\<close> with the filters and the timeout, 0 for none; \<open>rv_err\<close> is \<open>EV_EOF\<close>.\<close>

definition kqueue_pass :: "(kqueue, 'w) callback \<Rightarrow> u64 \<Rightarrow> ((nat \<times> bool \<rightharpoonup> addr) \<Rightarrow> u32 \<Rightarrow> wait_result) \<Rightarrow>
    kqueue \<times> 'w \<Rightarrow> (kqueue \<times> 'w) option" where
  "kqueue_pass cb now wait s = do {
     (timeout, s) \<leftarrow> execute_timers kq_base kqueue_upd_base cb now s;
     case wait (kq_kernel (fst s)) (ucast timeout) of
       Wait_intr \<Rightarrow> Some s
     | Wait_events evs \<Rightarrow> do {
         s \<leftarrow> dispatch_events kqueue_sink cb evs s;
         Some (apfst kqueue_clean s)
       }
   }"

section \<open>The entries while events are passed on\<close>

definition entries_keep :: "(addr \<rightharpoonup> poll_entry) \<Rightarrow> (addr \<rightharpoonup> poll_entry) \<Rightarrow> bool" where
  "entries_keep es es' \<longleftrightarrow> dom es \<subseteq> dom es'"

definition entries_live :: "(addr \<rightharpoonup> poll_entry) \<Rightarrow> addr \<Rightarrow> bool" where
  "entries_live es k \<longleftrightarrow> (\<exists>h e. es h = Some e \<and> pe_fd e \<noteq> None \<and> pe_events e = k)"

lemma entry_sink_live: "es h \<noteq> None \<Longrightarrow> \<exists>z. entry_sink es h = Some z \<and> (\<forall>k. z = Some k \<longrightarrow> entries_live es k)"
  by (auto simp: entry_sink_def entries_live_def split: option.split) blast

text \<open>The kernel watches the descriptors of the entries that are not retired, and the retired ones are
  those that have no descriptor.\<close>

definition kq_ok :: "kqueue \<Rightarrow> bool" where
  "kq_ok p \<longleftrightarrow> (\<forall>fd f h. kq_kernel p (fd, f) = Some h \<longrightarrow>
       (\<exists>e. kq_entries p h = Some e \<and> pe_fd e = Some fd \<and> (if f then pe_in e else pe_out e))) \<and>
     (\<forall>h e fd. kq_entries p h = Some e \<and> pe_fd e = Some fd \<longrightarrow>
       (pe_in e \<longrightarrow> kq_kernel p (fd, True) = Some h) \<and> (pe_out e \<longrightarrow> kq_kernel p (fd, False) = Some h)) \<and>
     (\<forall>h \<in> set (kq_retired p). \<exists>e. kq_entries p h = Some e \<and> pe_fd e = None) \<and>
     (\<forall>h e. kq_entries p h = Some e \<longrightarrow> h < kq_next p)"

definition ep_ok :: "epoll \<Rightarrow> bool" where
  "ep_ok p \<longleftrightarrow> (\<forall>fd h i out. ep_kernel p fd = Some (h, i, out) \<longrightarrow>
       (\<exists>e. ep_entries p h = Some e \<and> pe_fd e = Some fd \<and> pe_in e = i \<and> pe_out e = out)) \<and>
     (\<forall>h e fd. ep_entries p h = Some e \<and> pe_fd e = Some fd \<longrightarrow> ep_kernel p fd = Some (h, pe_in e, pe_out e)) \<and>
     (\<forall>h \<in> set (ep_retired p). \<exists>e. ep_entries p h = Some e \<and> pe_fd e = None) \<and>
     (\<forall>h e. ep_entries p h = Some e \<longrightarrow> h < ep_next p)"

interpretation ep: event_source ep_ok "\<lambda>p. entries_live (ep_entries p)" "\<lambda>p h. ep_entries p h \<noteq> None"
  "\<lambda>p q. entries_keep (ep_entries p) (ep_entries q)" epoll_sink
  by unfold_locales (auto simp: entries_keep_def epoll_sink_def intro!: entry_sink_live)

interpretation kq: event_source kq_ok "\<lambda>p. entries_live (kq_entries p)" "\<lambda>p h. kq_entries p h \<noteq> None"
  "\<lambda>p q. entries_keep (kq_entries p) (kq_entries q)" kqueue_sink
  by unfold_locales (auto simp: entries_keep_def kqueue_sink_def intro!: entry_sink_live)

lemma base_simps [simp]:
  "ep_entries (epoll_upd_base f p) = ep_entries p" "ep_kernel (epoll_upd_base f p) = ep_kernel p"
  "ep_retired (epoll_upd_base f p) = ep_retired p" "ep_next (epoll_upd_base f p) = ep_next p"
  "kq_entries (kqueue_upd_base f q) = kq_entries q" "kq_kernel (kqueue_upd_base f q) = kq_kernel q"
  "kq_retired (kqueue_upd_base f q) = kq_retired q" "kq_next (kqueue_upd_base f q) = kq_next q"
  by (simp_all add: epoll_upd_base_def kqueue_upd_base_def)

subsection \<open>epoll\<close>

lemma ep_okD:
  assumes "ep_ok p"
  shows "ep_kernel p fd = Some (h, i, out) \<Longrightarrow> \<exists>e. ep_entries p h = Some e \<and> pe_fd e = Some fd \<and> pe_in e = i \<and> pe_out e = out"
    and "ep_entries p h = Some e \<Longrightarrow> pe_fd e = Some fd \<Longrightarrow> ep_kernel p fd = Some (h, pe_in e, pe_out e)"
    and "h \<in> set (ep_retired p) \<Longrightarrow> \<exists>e. ep_entries p h = Some e \<and> pe_fd e = None"
    and "ep_entries p h = Some e \<Longrightarrow> h < ep_next p"
  using assms unfolding ep_ok_def by blast+

lemma epoll_add_fd_ok:
  assumes ok: "ep_ok p" and free: "ep_kernel p fd = None"
  shows "\<exists>h q. epoll_add_fd fd k p = Some (h, q) \<and> ep_ok q \<and> entries_keep (ep_entries p) (ep_entries q)"
proof -
  let ?e = "\<lparr>pe_fd = Some fd, pe_in = False, pe_out = False, pe_events = k\<rparr>"
  define q where "q = p\<lparr>ep_entries := (ep_entries p)(ep_next p \<mapsto> ?e), ep_next := Suc (ep_next p),
      ep_kernel := (ep_kernel p)(fd \<mapsto> (ep_next p, False, False))\<rparr>"
  note d = ep_okD [OF ok]
  have new: "ep_entries p (ep_next p) = None" using d(4) by fastforce
  have other: "ep_entries p h = Some e \<Longrightarrow> pe_fd e \<noteq> Some fd" for h e using d(2) free by fastforce
  have "ep_ok q"
    unfolding ep_ok_def
  proof (intro conjI allI impI ballI)
    fix f h i out assume a: "ep_kernel q f = Some (h, i, out)"
    show "\<exists>e. ep_entries q h = Some e \<and> pe_fd e = Some f \<and> pe_in e = i \<and> pe_out e = out"
    proof (cases "f = fd")
      case False
      then have "ep_kernel p f = Some (h, i, out)" using a by (simp add: q_def)
      from d(1) [OF this] d(4) show ?thesis by (auto simp: q_def)
    qed (use a in \<open>auto simp: q_def\<close>)
  next
    fix h e f assume a: "ep_entries q h = Some e \<and> pe_fd e = Some f"
    show "ep_kernel q f = Some (h, pe_in e, pe_out e)"
      using a d(2) [of h e f] other [of h e] by (auto simp: q_def split: if_splits)
  next
    fix h assume "h \<in> set (ep_retired q)"
    then have "h \<in> set (ep_retired p)" by (simp add: q_def)
    from d(3) [OF this] new show "\<exists>e. ep_entries q h = Some e \<and> pe_fd e = None" by (auto simp: q_def)
  next
    fix h e assume "ep_entries q h = Some e"
    then show "h < ep_next q" using d(4) [of h e] by (auto simp: q_def split: if_splits)
  qed
  moreover have "entries_keep (ep_entries p) (ep_entries q)" by (auto simp: entries_keep_def q_def)
  moreover have "epoll_add_fd fd k p = Some (ep_next p, epoll_upd_base (adjust_load 1) q)"
    using free by (simp add: epoll_add_fd_def epoll_ctl_add_def Let_def q_def)
  ultimately show ?thesis by (auto simp: ep_ok_def)
qed

lemma epoll_rm_fd_ok:
  assumes ok: "ep_ok p" and e: "ep_entries p h = Some e" "pe_fd e = Some fd"
  shows "\<exists>q. epoll_rm_fd h p = Some q \<and> ep_ok q \<and> entries_keep (ep_entries p) (ep_entries q)"
proof -
  define q where "q = p\<lparr>ep_kernel := (ep_kernel p)(fd := None),
       ep_entries := (ep_entries p)(h \<mapsto> e\<lparr>pe_fd := None\<rparr>), ep_retired := ep_retired p @ [h]\<rparr>"
  note d = ep_okD [OF ok]
  have k: "ep_kernel p fd = Some (h, pe_in e, pe_out e)" using d(2) e by blast
  have "ep_ok q"
    unfolding ep_ok_def
  proof (intro conjI allI impI ballI)
    fix f h' i out assume "ep_kernel q f = Some (h', i, out)"
    then have f: "f \<noteq> fd" "ep_kernel p f = Some (h', i, out)" by (auto simp: q_def split: if_splits)
    from d(1) [OF f(2)] e f(1) show "\<exists>e. ep_entries q h' = Some e \<and> pe_fd e = Some f \<and> pe_in e = i \<and> pe_out e = out"
      by (auto simp: q_def)
  next
    fix h' e' f assume "ep_entries q h' = Some e' \<and> pe_fd e' = Some f"
    then have h': "h' \<noteq> h" "ep_entries p h' = Some e'" "pe_fd e' = Some f" by (auto simp: q_def split: if_splits)
    from d(2) [OF h'(2,3)] k h'(1) show "ep_kernel q f = Some (h', pe_in e', pe_out e')" by (auto simp: q_def)
  next
    fix h' assume "h' \<in> set (ep_retired q)"
    then consider "h' = h" | "h' \<noteq> h" "h' \<in> set (ep_retired p)" by (auto simp: q_def)
    then show "\<exists>e. ep_entries q h' = Some e \<and> pe_fd e = None" using d(3) by cases (auto simp: q_def)
  next
    fix h' e' assume "ep_entries q h' = Some e'"
    then show "h' < ep_next q" using d(4) [of h'] e(1) by (auto simp: q_def split: if_splits)
  qed
  moreover have "entries_keep (ep_entries p) (ep_entries q)" by (auto simp: entries_keep_def q_def)
  moreover have "epoll_rm_fd h p = Some (epoll_upd_base (adjust_load (- 1)) q)"
    using e k by (simp add: epoll_rm_fd_def q_def)
  ultimately show ?thesis by (auto simp: ep_ok_def)
qed

lemma epoll_upd_ok:
  assumes ok: "ep_ok p" and e: "ep_entries p h = Some e" "pe_fd e = Some fd" and f: "pe_fd (f e) = pe_fd e"
  shows "\<exists>q. epoll_upd h f p = Some q \<and> ep_ok q \<and> entries_keep (ep_entries p) (ep_entries q)"
proof -
  define q where "q = p\<lparr>ep_entries := (ep_entries p)(h \<mapsto> f e), ep_kernel := (ep_kernel p)(fd \<mapsto> (h, pe_in (f e), pe_out (f e)))\<rparr>"
  note d = ep_okD [OF ok]
  have k: "ep_kernel p fd = Some (h, pe_in e, pe_out e)" using d(2) e by blast
  have "ep_ok q"
    unfolding ep_ok_def
  proof (intro conjI allI impI ballI)
    fix f' h' i out assume a: "ep_kernel q f' = Some (h', i, out)"
    show "\<exists>e. ep_entries q h' = Some e \<and> pe_fd e = Some f' \<and> pe_in e = i \<and> pe_out e = out"
    proof (cases "f' = fd")
      case False
      then have "ep_kernel p f' = Some (h', i, out)" using a by (simp add: q_def)
      from d(1) [OF this] e False show ?thesis by (auto simp: q_def)
    qed (use a e f in \<open>auto simp: q_def\<close>)
  next
    fix h' e' f' assume a: "ep_entries q h' = Some e' \<and> pe_fd e' = Some f'"
    show "ep_kernel q f' = Some (h', pe_in e', pe_out e')"
      using a d(2) [of h' e' f'] e f k by (auto simp: q_def split: if_splits)
  next
    fix h' assume "h' \<in> set (ep_retired q)"
    then have "h' \<in> set (ep_retired p)" by (simp add: q_def)
    from d(3) [OF this] e show "\<exists>e. ep_entries q h' = Some e \<and> pe_fd e = None" by (auto simp: q_def)
  next
    fix h' e' assume "ep_entries q h' = Some e'"
    then show "h' < ep_next q" using d(4) [of h'] e(1) by (auto simp: q_def split: if_splits)
  qed
  moreover have "entries_keep (ep_entries p) (ep_entries q)" by (auto simp: entries_keep_def q_def)
  moreover have "epoll_upd h f p = Some q"
    using e k f by (simp add: epoll_upd_def epoll_ctl_mod_def q_def)
  ultimately show ?thesis by blast
qed

lemma epoll_clean_ok: "ep_ok p \<Longrightarrow> ep_ok (epoll_clean p)"
proof -
  assume ok: "ep_ok p"
  note d = ep_okD [OF ok]
  have live: "ep_entries p h = Some e \<Longrightarrow> pe_fd e = Some fd \<Longrightarrow> h \<notin> set (ep_retired p)" for h e fd
    using d(3) by fastforce
  show ?thesis
    unfolding ep_ok_def
  proof (intro conjI allI impI ballI)
    fix f h i out assume "ep_kernel (epoll_clean p) f = Some (h, i, out)"
    then have "ep_kernel p f = Some (h, i, out)" by (simp add: epoll_clean_def)
    from d(1) [OF this] obtain e where "ep_entries p h = Some e" "pe_fd e = Some f" "pe_in e = i" "pe_out e = out" by blast
    then show "\<exists>e. ep_entries (epoll_clean p) h = Some e \<and> pe_fd e = Some f \<and> pe_in e = i \<and> pe_out e = out"
      using live by (auto simp: epoll_clean_def)
  next
    fix h e f assume "ep_entries (epoll_clean p) h = Some e \<and> pe_fd e = Some f"
    then show "ep_kernel (epoll_clean p) f = Some (h, pe_in e, pe_out e)" using d(2) by (auto simp: epoll_clean_def split: if_splits)
  next
    fix h e assume "ep_entries (epoll_clean p) h = Some e"
    then show "h < ep_next (epoll_clean p)" using d(4) by (auto simp: epoll_clean_def split: if_splits)
  qed (simp add: epoll_clean_def)
qed

text \<open>What is asked of \<open>epoll_wait\<close>: the events are of descriptors that are watched.\<close>

definition epoll_wait_ok :: "((nat \<rightharpoonup> addr \<times> bool \<times> bool) \<Rightarrow> u32 \<Rightarrow> wait_result) \<Rightarrow> bool" where
  "epoll_wait_ok wait \<longleftrightarrow> (\<forall>m t evs. wait m t = Wait_events evs \<longrightarrow> (\<forall>(h, r) \<in> set evs. \<exists>fd i out. m fd = Some (h, i, out)))"

lemma epoll_pass_safe:
  assumes "execute_timers ep_base epoll_upd_base cb now s = Some (timeout, s1)" and "ep_ok (fst s1)"
    and "ep.handles cb" and "epoll_wait_ok wait"
  shows "\<exists>s'. epoll_pass cb now wait s = Some s' \<and> ep_ok (fst s')"
proof (cases "wait (ep_kernel (fst s1)) (if (ucast timeout :: u32) \<noteq> 0 then ucast timeout else - 1)")
  case (Wait_events evs)
  have "ep_entries (fst s1) h \<noteq> None" if hr: "(h, r) \<in> set evs" for h r
  proof -
    obtain fd i out where "ep_kernel (fst s1) fd = Some (h, i, out)"
      using assms(4) [unfolded epoll_wait_ok_def, rule_format, OF Wait_events] hr by blast
    from ep_okD(1) [OF assms(2) this] show ?thesis by auto
  qed
  then have "\<forall>(h, r) \<in> set evs. ep_entries (fst s1) h \<noteq> None" by blast
  then obtain s2 where "dispatch_events epoll_sink cb evs s1 = Some s2" "ep_ok (fst s2)"
    using ep.dispatch_safe [OF assms(3,2)] by blast
  then show ?thesis using assms(1) Wait_events epoll_clean_ok [of "fst s2"] by (simp add: epoll_pass_def Let_def)
qed (use assms in \<open>auto simp: epoll_pass_def Let_def\<close>)

subsection \<open>kqueue\<close>

lemma kq_okD:
  assumes "kq_ok p"
  shows "kq_kernel p (fd, f) = Some h \<Longrightarrow> \<exists>e. kq_entries p h = Some e \<and> pe_fd e = Some fd \<and> (if f then pe_in e else pe_out e)"
    and "kq_entries p h = Some e \<Longrightarrow> pe_fd e = Some fd \<Longrightarrow> pe_in e \<Longrightarrow> kq_kernel p (fd, True) = Some h"
    and "kq_entries p h = Some e \<Longrightarrow> pe_fd e = Some fd \<Longrightarrow> pe_out e \<Longrightarrow> kq_kernel p (fd, False) = Some h"
    and "h \<in> set (kq_retired p) \<Longrightarrow> \<exists>e. kq_entries p h = Some e \<and> pe_fd e = None"
    and "kq_entries p h = Some e \<Longrightarrow> h < kq_next p"
  using assms unfolding kq_ok_def by blast+

lemma kqueue_add_fd_ok:
  assumes ok: "kq_ok p"
  shows "kq_ok (snd (kqueue_add_fd fd k p)) \<and> entries_keep (kq_entries p) (kq_entries (snd (kqueue_add_fd fd k p)))"
proof -
  define q where "q = p\<lparr>kq_entries := (kq_entries p)(kq_next p \<mapsto> \<lparr>pe_fd = Some fd, pe_in = False, pe_out = False, pe_events = k\<rparr>),
      kq_next := Suc (kq_next p)\<rparr>"
  note d = kq_okD [OF ok]
  have new: "kq_entries p (kq_next p) = None" using d(5) by fastforce
  have "kq_ok q"
    unfolding kq_ok_def
  proof (intro conjI allI impI ballI)
    fix f filt h assume "kq_kernel q (f, filt) = Some h"
    then have "kq_kernel p (f, filt) = Some h" by (simp add: q_def)
    from d(1) [OF this] new show "\<exists>e. kq_entries q h = Some e \<and> pe_fd e = Some f \<and> (if filt then pe_in e else pe_out e)"
      by (auto simp: q_def)
  next
    fix h e f assume a: "kq_entries q h = Some e \<and> pe_fd e = Some f"
    show "kq_kernel q (f, True) = Some h" if "pe_in e" using a d(2) [of h e f] that by (auto simp: q_def split: if_splits)
    show "kq_kernel q (f, False) = Some h" if "pe_out e" using a d(3) [of h e f] that by (auto simp: q_def split: if_splits)
  next
    fix h assume "h \<in> set (kq_retired q)"
    then have "h \<in> set (kq_retired p)" by (simp add: q_def)
    from d(4) [OF this] new show "\<exists>e. kq_entries q h = Some e \<and> pe_fd e = None" by (auto simp: q_def)
  next
    fix h e assume "kq_entries q h = Some e"
    then show "h < kq_next q" using d(5) [of h e] by (auto simp: q_def split: if_splits)
  qed
  moreover have "entries_keep (kq_entries p) (kq_entries q)" by (auto simp: entries_keep_def q_def)
  moreover have "snd (kqueue_add_fd fd k p) = kqueue_upd_base (adjust_load 1) q" by (simp add: kqueue_add_fd_def Let_def q_def)
  ultimately show ?thesis by (auto simp: kq_ok_def)
qed

lemma kqueue_rm_fd_ok:
  assumes ok: "kq_ok p" and e: "kq_entries p h = Some e" "pe_fd e = Some fd"
  shows "\<exists>q. kqueue_rm_fd h p = Some q \<and> kq_ok q \<and> entries_keep (kq_entries p) (kq_entries q)"
proof -
  define m where "m = (\<lambda>x. if x = (fd, True) \<and> pe_in e \<or> x = (fd, False) \<and> pe_out e then None else kq_kernel p x)"
  define q where "q = p\<lparr>kq_kernel := m, kq_entries := (kq_entries p)(h \<mapsto> e\<lparr>pe_fd := None\<rparr>), kq_retired := kq_retired p @ [h]\<rparr>"
  note d = kq_okD [OF ok]
  have "kq_ok q"
    unfolding kq_ok_def
  proof (intro conjI allI impI ballI)
    fix f filt h' assume "kq_kernel q (f, filt) = Some h'"
    then have f: "kq_kernel p (f, filt) = Some h'" "\<not> ((f, filt) = (fd, True) \<and> pe_in e \<or> (f, filt) = (fd, False) \<and> pe_out e)"
      by (auto simp: q_def m_def split: if_splits)
    from d(1) [OF f(1)] f(2) e show "\<exists>e. kq_entries q h' = Some e \<and> pe_fd e = Some f \<and> (if filt then pe_in e else pe_out e)"
      by (cases filt) (auto simp: q_def)
  next
    fix h' e' f assume "kq_entries q h' = Some e' \<and> pe_fd e' = Some f"
    then have h': "h' \<noteq> h" "kq_entries p h' = Some e'" "pe_fd e' = Some f" by (auto simp: q_def split: if_splits)
    show "kq_kernel q (f, True) = Some h'" if "pe_in e'"
      using d(2) [OF h'(2,3) that] d(2) [OF e] h'(1) by (auto simp: q_def m_def)
    show "kq_kernel q (f, False) = Some h'" if "pe_out e'"
      using d(3) [OF h'(2,3) that] d(3) [OF e] h'(1) by (auto simp: q_def m_def)
  next
    fix h' assume "h' \<in> set (kq_retired q)"
    then consider "h' = h" | "h' \<noteq> h" "h' \<in> set (kq_retired p)" by (auto simp: q_def)
    then show "\<exists>e. kq_entries q h' = Some e \<and> pe_fd e = None" using d(4) by cases (auto simp: q_def)
  next
    fix h' e' assume "kq_entries q h' = Some e'"
    then show "h' < kq_next q" using d(5) [of h'] e(1) by (auto simp: q_def split: if_splits)
  qed
  moreover have "entries_keep (kq_entries p) (kq_entries q)" by (auto simp: entries_keep_def q_def)
  moreover have "kqueue_rm_fd h p = Some (kqueue_upd_base (adjust_load (- 1)) q)"
  proof -
    have "m = (let k = (if pe_in e then (kq_kernel p)((fd, True) := None) else kq_kernel p)
               in if pe_out e then k((fd, False) := None) else k)"
      by (auto simp: m_def fun_eq_iff Let_def)
    then show ?thesis using d(2) [OF e] d(3) [OF e] e
      by (auto simp: kqueue_rm_fd_def kevent_delete_def q_def Let_def)
  qed
  ultimately show ?thesis by (auto simp: kq_ok_def)
qed

text \<open>Reading (\<open>filt\<close>) or writing is switched on or off; a descriptor belongs to one entry.\<close>

lemma kq_upd_ok:
  assumes ok: "kq_ok p" and e: "kq_entries p h = Some e" "pe_fd e = Some fd"
    and one: "\<And>h' e'. kq_entries p h' = Some e' \<Longrightarrow> pe_fd e' = Some fd \<Longrightarrow> h' = h"
  shows "kq_ok (p\<lparr>kq_entries := (kq_entries p)(h \<mapsto> e\<lparr>pe_in := b\<rparr>),
           kq_kernel := (kq_kernel p)((fd, True) := (if b then Some h else None))\<rparr>)"
    and "kq_ok (p\<lparr>kq_entries := (kq_entries p)(h \<mapsto> e\<lparr>pe_out := b\<rparr>),
           kq_kernel := (kq_kernel p)((fd, False) := (if b then Some h else None))\<rparr>)"
proof -
  note d = kq_okD [OF ok]
  have gen: "kq_ok (p\<lparr>kq_entries := (kq_entries p)(h \<mapsto> e'), kq_kernel := (kq_kernel p)((fd, f0) := (if b then Some h else None))\<rparr>)"
    if e': "pe_fd e' = Some fd" "(if f0 then pe_in e' else pe_out e') = b" "(if f0 then pe_out e' else pe_in e') = (if f0 then pe_out e else pe_in e)"
    for e' f0
    unfolding kq_ok_def
  proof (intro conjI allI impI ballI)
    let ?q = "p\<lparr>kq_entries := (kq_entries p)(h \<mapsto> e'), kq_kernel := (kq_kernel p)((fd, f0) := (if b then Some h else None))\<rparr>"
    {
      fix f filt h' assume a: "kq_kernel ?q (f, filt) = Some h'"
      show "\<exists>e. kq_entries ?q h' = Some e \<and> pe_fd e = Some f \<and> (if filt then pe_in e else pe_out e)"
      proof (cases "(f, filt) = (fd, f0)")
        case True
        then show ?thesis using a e' by (auto split: if_splits)
      next
        case False
        then have "kq_kernel p (f, filt) = Some h'" using a by (auto split: if_splits)
        from d(1) [OF this] show ?thesis using e e' False by (cases filt; cases f0) (auto split: if_splits)
      qed
    next
      fix h' e2 f assume a: "kq_entries ?q h' = Some e2 \<and> pe_fd e2 = Some f"
      then have f: "h' = h \<longleftrightarrow> f = fd" using e' one by (auto split: if_splits)
      show "kq_kernel ?q (f, True) = Some h'" if "pe_in e2"
        using a d(2) [of h' e2 f] d(2) [OF e] that e' f by (cases f0) (auto split: if_splits)
      show "kq_kernel ?q (f, False) = Some h'" if "pe_out e2"
        using a d(3) [of h' e2 f] d(3) [OF e] that e' f by (cases f0) (auto split: if_splits)
    next
      fix h' assume "h' \<in> set (kq_retired ?q)"
      then have "h' \<in> set (kq_retired p)" by simp
      from d(4) [OF this] e show "\<exists>e. kq_entries ?q h' = Some e \<and> pe_fd e = None" by auto
    next
      fix h' e2 assume "kq_entries ?q h' = Some e2"
      then show "h' < kq_next ?q" using d(5) [of h'] e(1) by (auto split: if_splits)
    }
  qed
  show "kq_ok (p\<lparr>kq_entries := (kq_entries p)(h \<mapsto> e\<lparr>pe_in := b\<rparr>),
           kq_kernel := (kq_kernel p)((fd, True) := (if b then Some h else None))\<rparr>)"
    using gen [of "e\<lparr>pe_in := b\<rparr>" True] e by simp
  show "kq_ok (p\<lparr>kq_entries := (kq_entries p)(h \<mapsto> e\<lparr>pe_out := b\<rparr>),
           kq_kernel := (kq_kernel p)((fd, False) := (if b then Some h else None))\<rparr>)"
    using gen [of "e\<lparr>pe_out := b\<rparr>" False] e by simp
qed

lemma kqueue_set_ok:
  assumes ok: "kq_ok p" and e: "kq_entries p h = Some e" "pe_fd e = Some fd"
    and one: "\<And>h' e'. kq_entries p h' = Some e' \<Longrightarrow> pe_fd e' = Some fd \<Longrightarrow> h' = h"
    and opr: "opr \<in> {kqueue_set_pollin, kqueue_reset_pollin, kqueue_set_pollout, kqueue_reset_pollout}"
  shows "\<exists>q. opr h p = Some q \<and> kq_ok q \<and> entries_keep (kq_entries p) (kq_entries q)"
proof -
  have ui: "kq_ok (p\<lparr>kq_entries := (kq_entries p)(h \<mapsto> e\<lparr>pe_in := b\<rparr>),
      kq_kernel := (kq_kernel p)((fd, True) := (if b then Some h else None))\<rparr>)"
    and uo: "kq_ok (p\<lparr>kq_entries := (kq_entries p)(h \<mapsto> e\<lparr>pe_out := b\<rparr>),
      kq_kernel := (kq_kernel p)((fd, False) := (if b then Some h else None))\<rparr>)" for b
    by (rule kq_upd_ok [OF ok e]; fact one)+
  have k: "entries_keep (kq_entries p) ((kq_entries p)(h \<mapsto> x))" for x by (auto simp: entries_keep_def)
  have r: "entries_keep (kq_entries p) (kq_entries p)" by (simp add: entries_keep_def)
  have ki: "pe_in e \<Longrightarrow> kq_kernel p (fd, True) = Some h" and ko: "pe_out e \<Longrightarrow> kq_kernel p (fd, False) = Some h"
    using kq_okD(2,3) [OF ok e] by blast+
  show ?thesis
    using opr ok e ui [of True] ui [of False] uo [of True] uo [of False] k r ki ko
    by (elim insertE emptyE; cases "pe_in e"; cases "pe_out e")
      (simp_all add: kqueue_set_pollin_def kqueue_reset_pollin_def kqueue_set_pollout_def kqueue_reset_pollout_def
        kevent_add_def kevent_delete_def)
qed

lemma kqueue_clean_ok: "kq_ok p \<Longrightarrow> kq_ok (kqueue_clean p)"
proof -
  assume ok: "kq_ok p"
  note d = kq_okD [OF ok]
  have live: "kq_entries p h = Some e \<Longrightarrow> pe_fd e = Some fd \<Longrightarrow> h \<notin> set (kq_retired p)" for h e fd
    using d(4) by fastforce
  show ?thesis
    unfolding kq_ok_def
  proof (intro conjI allI impI ballI)
    fix f filt h assume "kq_kernel (kqueue_clean p) (f, filt) = Some h"
    then have "kq_kernel p (f, filt) = Some h" by (simp add: kqueue_clean_def)
    from d(1) [OF this] obtain e where "kq_entries p h = Some e" "pe_fd e = Some f" "if filt then pe_in e else pe_out e" by blast
    then show "\<exists>e. kq_entries (kqueue_clean p) h = Some e \<and> pe_fd e = Some f \<and> (if filt then pe_in e else pe_out e)"
      using live by (auto simp: kqueue_clean_def)
  next
    fix h e f assume a: "kq_entries (kqueue_clean p) h = Some e \<and> pe_fd e = Some f"
    show "kq_kernel (kqueue_clean p) (f, True) = Some h" if "pe_in e" using a that d(2) by (auto simp: kqueue_clean_def split: if_splits)
    show "kq_kernel (kqueue_clean p) (f, False) = Some h" if "pe_out e" using a that d(3) by (auto simp: kqueue_clean_def split: if_splits)
  next
    fix h e assume "kq_entries (kqueue_clean p) h = Some e"
    then show "h < kq_next (kqueue_clean p)" using d(5) by (auto simp: kqueue_clean_def split: if_splits)
  qed (simp add: kqueue_clean_def)
qed

definition kevent_ok :: "((nat \<times> bool \<rightharpoonup> addr) \<Rightarrow> u32 \<Rightarrow> wait_result) \<Rightarrow> bool" where
  "kevent_ok wait \<longleftrightarrow> (\<forall>m t evs. wait m t = Wait_events evs \<longrightarrow> (\<forall>(h, r) \<in> set evs. \<exists>x. m x = Some h))"

lemma kqueue_pass_safe:
  assumes "execute_timers kq_base kqueue_upd_base cb now s = Some (timeout, s1)" and "kq_ok (fst s1)"
    and "kq.handles cb" and "kevent_ok wait"
  shows "\<exists>s'. kqueue_pass cb now wait s = Some s' \<and> kq_ok (fst s')"
proof (cases "wait (kq_kernel (fst s1)) (ucast timeout)")
  case (Wait_events evs)
  have "kq_entries (fst s1) h \<noteq> None" if hr: "(h, r) \<in> set evs" for h r
  proof -
    obtain fd filt where "kq_kernel (fst s1) (fd, filt) = Some h"
      using assms(4) [unfolded kevent_ok_def, rule_format, OF Wait_events] hr by fast
    from kq_okD(1) [OF assms(2) this] show ?thesis by auto
  qed
  then have "\<forall>(h, r) \<in> set evs. kq_entries (fst s1) h \<noteq> None" by blast
  then obtain s2 where "dispatch_events kqueue_sink cb evs s1 = Some s2" "kq_ok (fst s2)"
    using kq.dispatch_safe [OF assms(3,2)] by blast
  then show ?thesis using assms(1) Wait_events kqueue_clean_ok [of "fst s2"] by (simp add: kqueue_pass_def Let_def)
qed (use assms in \<open>auto simp: kqueue_pass_def Let_def\<close>)

section \<open>select\<close>

text \<open>The sets of descriptors are functions to bool; \<open>maxfd\<close> is -1 for \<open>retired_fd\<close>.  The sets the call
  works on are uninitialised until the first pass, which nothing reads.\<close>

record select_entry =
  se_fd :: "nat option"
  se_events :: addr

record select =
  sl_base :: poller_base
  sl_fds :: "select_entry list"
  sl_src_in :: "nat \<Rightarrow> bool"
  sl_src_out :: "nat \<Rightarrow> bool"
  sl_src_err :: "nat \<Rightarrow> bool"
  sl_readfds :: "nat \<Rightarrow> bool"
  sl_writefds :: "nat \<Rightarrow> bool"
  sl_exceptfds :: "nat \<Rightarrow> bool"
  sl_maxfd :: int
  sl_retired :: bool
  sl_stopping :: bool

definition no_fds :: "nat \<Rightarrow> bool" where "no_fds fd = False"

definition select_new :: select where
  "select_new = \<lparr>sl_base = poller_base_new, sl_fds = [], sl_src_in = no_fds, sl_src_out = no_fds, sl_src_err = no_fds,
     sl_readfds = no_fds, sl_writefds = no_fds, sl_exceptfds = no_fds, sl_maxfd = - 1, sl_retired = False, sl_stopping = False\<rparr>"

definition select_upd_base :: "(poller_base \<Rightarrow> poller_base) \<Rightarrow> select \<Rightarrow> select" where
  "select_upd_base f p = p\<lparr>sl_base := f (sl_base p)\<rparr>"

text \<open>\<open>fd_setsize\<close> is the constant \<open>FD_SETSIZE\<close> of the system.\<close>

definition select_add_fd :: "nat \<Rightarrow> nat \<Rightarrow> addr \<Rightarrow> select \<Rightarrow> select option" where
  "select_add_fd fd_setsize fd events p = do {
     let fds = sl_fds p @ [\<lparr>se_fd = Some fd, se_events = events\<rparr>];
     zmq_assert (length fds \<le> fd_setsize);
     Some (select_upd_base (adjust_load 1) (p\<lparr>sl_fds := fds, sl_src_err := (sl_src_err p)(fd := True),
       sl_maxfd := (if int fd > sl_maxfd p then int fd else sl_maxfd p)\<rparr>))
   }"

fun select_find :: "nat \<Rightarrow> select_entry list \<Rightarrow> nat option" where
  "select_find fd [] = None"
| "select_find fd (e # es) = (if se_fd e = Some fd then Some 0 else map_option Suc (select_find fd es))"

fun select_max :: "int \<Rightarrow> select_entry list \<Rightarrow> int" where
  "select_max m [] = m"
| "select_max m (e # es) = select_max (case se_fd e of None \<Rightarrow> m | Some fd \<Rightarrow> if int fd > m then int fd else m) es"

definition select_rm_fd :: "nat \<Rightarrow> select \<Rightarrow> select option" where
  "select_rm_fd h p = do {
     i \<leftarrow> select_find h (sl_fds p);
     let fds = (sl_fds p)[i := (sl_fds p ! i)\<lparr>se_fd := None\<rparr>];
     Some (select_upd_base (adjust_load (- 1)) (p\<lparr>sl_fds := fds, sl_retired := True,
       sl_src_in := (sl_src_in p)(h := False), sl_src_out := (sl_src_out p)(h := False),
       sl_src_err := (sl_src_err p)(h := False),
       sl_readfds := (sl_readfds p)(h := False), sl_writefds := (sl_writefds p)(h := False),
       sl_exceptfds := (sl_exceptfds p)(h := False),
       sl_maxfd := (if int h = sl_maxfd p then select_max (- 1) fds else sl_maxfd p)\<rparr>))
   }"

definition select_set_pollin :: "nat \<Rightarrow> select \<Rightarrow> select" where
  "select_set_pollin h p = p\<lparr>sl_src_in := (sl_src_in p)(h := True)\<rparr>"
definition select_reset_pollin :: "nat \<Rightarrow> select \<Rightarrow> select" where
  "select_reset_pollin h p = p\<lparr>sl_src_in := (sl_src_in p)(h := False)\<rparr>"
definition select_set_pollout :: "nat \<Rightarrow> select \<Rightarrow> select" where
  "select_set_pollout h p = p\<lparr>sl_src_out := (sl_src_out p)(h := True)\<rparr>"
definition select_reset_pollout :: "nat \<Rightarrow> select \<Rightarrow> select" where
  "select_reset_pollout h p = p\<lparr>sl_src_out := (sl_src_out p)(h := False)\<rparr>"

definition select_stop :: "select \<Rightarrow> select" where
  "select_stop p = p\<lparr>sl_stopping := True\<rparr>"

definition is_retired_fd :: "select_entry \<Rightarrow> bool" where
  "is_retired_fd e \<longleftrightarrow> se_fd e = None"

definition select_sink :: "nat \<Rightarrow> select \<Rightarrow> addr option option" where
  "select_sink i p = do {
     zmq_assert (i < length (sl_fds p));
     Some (if is_retired_fd (sl_fds p ! i) then None else Some (se_events (sl_fds p ! i)))
   }"

definition FD_ISSET :: "nat \<Rightarrow> (nat \<Rightarrow> bool) \<Rightarrow> select \<Rightarrow> bool" where
  "FD_ISSET i fds p = (case se_fd (sl_fds p ! i) of None \<Rightarrow> False | Some fd \<Rightarrow> fds fd)"

partial_function (option) select_dispatch :: "(select, 'w) callback \<Rightarrow> nat \<Rightarrow> select \<times> 'w \<Rightarrow> (select \<times> 'w) option" where
  "select_dispatch cb i s =
     (if i = length (sl_fds (fst s)) then Some s
      else do {
        s \<leftarrow> notify select_sink i (FD_ISSET i (sl_exceptfds (fst s)) (fst s)) In_event cb s;
        s \<leftarrow> notify select_sink i (FD_ISSET i (sl_writefds (fst s)) (fst s)) Out_event cb s;
        s \<leftarrow> notify select_sink i (FD_ISSET i (sl_readfds (fst s)) (fst s)) In_event cb s;
        select_dispatch cb (Suc i) s
      })"

definition select_clean :: "select \<Rightarrow> select" where
  "select_clean p =
     (if sl_retired p then p\<lparr>sl_fds := filter (\<lambda>e. \<not> is_retired_fd e) (sl_fds p), sl_retired := False\<rparr> else p)"

datatype select_result =
    Select_intr
  | Select_timeout
  | Select_ready "nat \<Rightarrow> bool" "nat \<Rightarrow> bool" "nat \<Rightarrow> bool"

text \<open>\<open>call\<close> is \<open>select\<close>, with the three sets, one more than the greatest descriptor and the timeout in
  milliseconds, 0 for none.  The sets it changes are those of the result; after a timeout they are empty.\<close>

definition select_pass :: "(select, 'w) callback \<Rightarrow> u64 \<Rightarrow>
    ((nat \<Rightarrow> bool) \<Rightarrow> (nat \<Rightarrow> bool) \<Rightarrow> (nat \<Rightarrow> bool) \<Rightarrow> int \<Rightarrow> u32 \<Rightarrow> select_result) \<Rightarrow> select \<times> 'w \<Rightarrow> (select \<times> 'w) option" where
  "select_pass cb now call s = do {
     (timeout, s) \<leftarrow> execute_timers sl_base select_upd_base cb now s;
     let s = apfst (\<lambda>p. p\<lparr>sl_readfds := sl_src_in p, sl_writefds := sl_src_out p, sl_exceptfds := sl_src_err p\<rparr>) s;
     case call (sl_readfds (fst s)) (sl_writefds (fst s)) (sl_exceptfds (fst s)) (sl_maxfd (fst s) + 1) (ucast timeout) of
       Select_intr \<Rightarrow> Some s
     | Select_timeout \<Rightarrow> Some (apfst (\<lambda>p. p\<lparr>sl_readfds := no_fds, sl_writefds := no_fds, sl_exceptfds := no_fds\<rparr>) s)
     | Select_ready r w x \<Rightarrow> do {
         s \<leftarrow> select_dispatch cb 0 (apfst (\<lambda>p. p\<lparr>sl_readfds := r, sl_writefds := w, sl_exceptfds := x\<rparr>) s);
         Some (apfst select_clean s)
       }
   }"

text \<open>The descriptors polled; \<open>select\<close> is told of all of them, by the error set and by \<open>maxfd\<close>.\<close>

definition polled :: "select \<Rightarrow> nat \<Rightarrow> bool" where
  "polled p fd \<longleftrightarrow> (\<exists>e \<in> set (sl_fds p). se_fd e = Some fd)"

fun live_fds :: "select_entry list \<Rightarrow> nat list" where
  "live_fds [] = []"
| "live_fds (e # es) = (case se_fd e of None \<Rightarrow> live_fds es | Some fd \<Rightarrow> fd # live_fds es)"

lemma live_fds_append [simp]: "live_fds (us @ vs) = live_fds us @ live_fds vs"
  by (induction us) (auto split: option.split)

lemma set_live_fds [simp]: "fd \<in> set (live_fds es) \<longleftrightarrow> (\<exists>e \<in> set es. se_fd e = Some fd)"
  by (induction es) (auto split: option.split)

definition select_ok :: "select \<Rightarrow> bool" where
  "select_ok p \<longleftrightarrow>
     distinct (live_fds (sl_fds p)) \<and>
     (\<forall>fd. sl_src_err p fd = polled p fd) \<and>
     (\<forall>fd. sl_src_in p fd \<or> sl_src_out p fd \<longrightarrow> polled p fd) \<and>
     (\<forall>fd. sl_readfds p fd \<or> sl_writefds p fd \<or> sl_exceptfds p fd \<longrightarrow> polled p fd) \<and>
     (\<forall>fd. polled p fd \<longrightarrow> int fd \<le> sl_maxfd p) \<and>
     (sl_maxfd p = - 1 \<or> polled p (nat (sl_maxfd p)) \<and> sl_maxfd p \<ge> 0)"

text \<open>No event is left for the entries from \<open>n\<close> on, and none will be for entries that are added.\<close>

definition quiet_from :: "nat \<Rightarrow> select \<Rightarrow> bool" where
  "quiet_from n p \<longleftrightarrow> (\<forall>i < length (sl_fds p). n \<le> i \<longrightarrow>
     \<not> FD_ISSET i (sl_readfds p) p \<and> \<not> FD_ISSET i (sl_writefds p) p \<and> \<not> FD_ISSET i (sl_exceptfds p) p)"

definition select_keep :: "select \<Rightarrow> select \<Rightarrow> bool" where
  "select_keep p q \<longleftrightarrow> length (sl_fds p) \<le> length (sl_fds q) \<and>
     (\<forall>n \<le> length (sl_fds p). quiet_from n p \<longrightarrow> quiet_from n q)"

definition select_live :: "select \<Rightarrow> addr \<Rightarrow> bool" where
  "select_live p k \<longleftrightarrow> (\<exists>e \<in> set (sl_fds p). \<not> is_retired_fd e \<and> se_events e = k)"

interpretation sl: event_source select_ok select_live "\<lambda>p i. i < length (sl_fds p)" select_keep select_sink
proof unfold_locales
  fix p i assume "select_ok p" and "i < length (sl_fds p)"
  then show "\<exists>z. select_sink i p = Some z \<and> (\<forall>k. z = Some k \<longrightarrow> select_live p k)"
    by (auto simp: select_sink_def select_live_def intro!: bexI [OF _ nth_mem])
qed (auto simp: select_keep_def)

lemma select_upd_base_simps [simp]:
  "select_ok (select_upd_base f p) = select_ok p" "polled (select_upd_base f p) = polled p"
  "select_keep p (select_upd_base f q) = select_keep p q"
  by (simp_all add: select_ok_def select_upd_base_def polled_def select_keep_def quiet_from_def FD_ISSET_def fun_eq_iff)

lemma select_max_spec:
  "(\<forall>fd. (\<exists>e \<in> set es. se_fd e = Some fd) \<longrightarrow> int fd \<le> select_max m es) \<and> m \<le> select_max m es \<and>
   (select_max m es = m \<or> (\<exists>e \<in> set es. se_fd e = Some (nat (select_max m es))) \<and> 0 \<le> select_max m es)"
proof (induction es arbitrary: m)
  case (Cons e es)
  let ?m = "case se_fd e of None \<Rightarrow> m | Some fd \<Rightarrow> if int fd > m then int fd else m"
  note ih = Cons.IH [of ?m]
  have m: "m \<le> ?m" "\<And>fd. se_fd e = Some fd \<Longrightarrow> int fd \<le> ?m" "?m = m \<or> se_fd e = Some (nat ?m) \<and> 0 \<le> ?m"
    by (auto split: option.split)
  have s: "select_max m (e # es) = select_max ?m es" by simp
  show ?case unfolding s
  proof (intro conjI allI impI)
    fix fd assume "\<exists>e' \<in> set (e # es). se_fd e' = Some fd"
    then consider "se_fd e = Some fd" | "\<exists>e' \<in> set es. se_fd e' = Some fd" by auto
    then show "int fd \<le> select_max ?m es"
    proof cases
      case 1
      from m(2) [OF this] ih show ?thesis by linarith
    qed (use ih in blast)
  next
    show "m \<le> select_max ?m es" using ih m(1) by linarith
  next
    show "select_max ?m es = m \<or> (\<exists>e' \<in> set (e # es). se_fd e' = Some (nat (select_max ?m es))) \<and> 0 \<le> select_max ?m es"
    proof (cases "select_max ?m es = ?m")
      case True
      then show ?thesis using m(3) by auto
    next
      case False
      then show ?thesis using ih by auto
    qed
  qed
qed simp

lemma select_find_Some:
  "select_find fd es = Some i \<Longrightarrow> i < length es \<and> se_fd (es ! i) = Some fd"
  by (induction es arbitrary: i) (auto split: if_splits)

lemma select_find_polled: "(\<exists>e \<in> set es. se_fd e = Some fd) \<Longrightarrow> select_find fd es \<noteq> None"
  by (induction es) auto

lemma live_fds_update:
  assumes "i < length es" and "se_fd (es ! i) = Some fd" and "distinct (live_fds es)"
  shows "distinct (live_fds (es[i := (es ! i)\<lparr>se_fd := None\<rparr>]))"
    and "(\<exists>e \<in> set (es[i := (es ! i)\<lparr>se_fd := None\<rparr>]). se_fd e = Some g) = ((\<exists>e \<in> set es. se_fd e = Some g) \<and> g \<noteq> fd)"
proof -
  define us vs where "us = take i es" and "vs = drop (Suc i) es"
  have es: "es = us @ es ! i # vs" using assms(1) by (simp add: us_def vs_def id_take_nth_drop)
  have l: "length us = i" using assms(1) by (simp add: us_def)
  have up: "es[i := x] = us @ x # vs" for x using assms(1) by (simp add: us_def vs_def upd_conv_take_nth_drop)
  have d: "distinct (live_fds (us @ es ! i # vs))" using assms(3) es by simp
  then show "distinct (live_fds (es[i := (es ! i)\<lparr>se_fd := None\<rparr>]))"
    unfolding up using assms(2) by simp
  have n: "e \<in> set us \<union> set vs \<Longrightarrow> se_fd e \<noteq> Some fd" for e
    using d assms(2) by auto
  have "(\<exists>e \<in> set es. se_fd e = Some g) = ((\<exists>e \<in> set us \<union> set vs. se_fd e = Some g) \<or> g = fd)"
    by (subst es) (use assms(2) in auto)
  then show "(\<exists>e \<in> set (es[i := (es ! i)\<lparr>se_fd := None\<rparr>]). se_fd e = Some g) = ((\<exists>e \<in> set es. se_fd e = Some g) \<and> g \<noteq> fd)"
    unfolding up using n by auto
qed

lemma select_add_fd_ok:
  assumes ok: "select_ok p" and new: "\<not> polled p fd" and "length (sl_fds p) < fd_setsize"
  shows "\<exists>q. select_add_fd fd_setsize fd k p = Some q \<and> select_ok q \<and> select_keep p q \<and> polled q = (polled p)(fd := True)"
proof -
  define q where "q = p\<lparr>sl_fds := sl_fds p @ [\<lparr>se_fd = Some fd, se_events = k\<rparr>], sl_src_err := (sl_src_err p)(fd := True),
      sl_maxfd := (if int fd > sl_maxfd p then int fd else sl_maxfd p)\<rparr>"
  have pq: "polled q = (polled p)(fd := True)" by (auto simp: polled_def q_def fun_eq_iff)
  have nin: "fd \<notin> set (live_fds (sl_fds p))" using new by (auto simp: polled_def)
  have "select_ok q"
    unfolding select_ok_def pq
    using ok nin by (auto simp: select_ok_def q_def)
  moreover have "select_add_fd fd_setsize fd k p = Some (select_upd_base (adjust_load 1) q)"
    using assms(3) by (simp add: select_add_fd_def Let_def q_def)
  moreover have "quiet_from n q" if n: "quiet_from n p" for n
    unfolding quiet_from_def
  proof (intro allI impI)
    fix i assume i: "i < length (sl_fds q)" "n \<le> i"
    show "\<not> FD_ISSET i (sl_readfds q) q \<and> \<not> FD_ISSET i (sl_writefds q) q \<and> \<not> FD_ISSET i (sl_exceptfds q) q"
    proof (cases "i < length (sl_fds p)")
      case True
      then show ?thesis using n i unfolding quiet_from_def by (auto simp: FD_ISSET_def q_def nth_append)
    next
      case False
      then have "i = length (sl_fds p)" using i by (simp add: q_def)
      then show ?thesis using ok new by (auto simp: FD_ISSET_def q_def select_ok_def)
    qed
  qed
  then have "select_keep p q" by (simp add: select_keep_def q_def)
  ultimately show ?thesis using pq by auto
qed

lemma select_rm_fd_ok:
  assumes ok: "select_ok p" and live: "polled p fd"
  shows "\<exists>q. select_rm_fd fd p = Some q \<and> select_ok q \<and> select_keep p q \<and> polled q = (polled p)(fd := False)"
proof -
  obtain i where i: "select_find fd (sl_fds p) = Some i" using select_find_polled live unfolding polled_def by blast
  let ?fds = "(sl_fds p)[i := (sl_fds p ! i)\<lparr>se_fd := None\<rparr>]"
  define m where "m = (if int fd = sl_maxfd p then select_max (- 1) ?fds else sl_maxfd p)"
  define q where "q = p\<lparr>sl_fds := ?fds, sl_retired := True,
       sl_src_in := (sl_src_in p)(fd := False), sl_src_out := (sl_src_out p)(fd := False),
       sl_src_err := (sl_src_err p)(fd := False),
       sl_readfds := (sl_readfds p)(fd := False), sl_writefds := (sl_writefds p)(fd := False),
       sl_exceptfds := (sl_exceptfds p)(fd := False), sl_maxfd := m\<rparr>"
  have dist: "distinct (live_fds (sl_fds p))" using ok by (simp add: select_ok_def)
  note u = live_fds_update [OF conjunct1 [OF select_find_Some [OF i]] conjunct2 [OF select_find_Some [OF i]] dist]
  have pq: "polled q = (polled p)(fd := False)" using u(2) by (auto simp: polled_def q_def fun_eq_iff)
  have mx: "(\<forall>g. polled q g \<longrightarrow> int g \<le> m) \<and> (m = - 1 \<or> polled q (nat m) \<and> 0 \<le> m)"
  proof (cases "int fd = sl_maxfd p")
    case True
    then show ?thesis using select_max_spec [of ?fds "- 1"] by (auto simp: m_def polled_def q_def)
  next
    case False
    then have "nat (sl_maxfd p) \<noteq> fd \<or> sl_maxfd p = - 1" using ok by (auto simp: select_ok_def)
    then show ?thesis using False ok unfolding pq by (auto simp: m_def select_ok_def)
  qed
  have "select_ok q"
    unfolding select_ok_def
  proof (intro conjI)
    show "distinct (live_fds (sl_fds q))" using u(1) by (simp add: q_def)
    show "\<forall>g. sl_src_err q g = polled q g" using ok unfolding pq by (auto simp: q_def select_ok_def)
    show "\<forall>g. sl_src_in q g \<or> sl_src_out q g \<longrightarrow> polled q g" using ok unfolding pq by (auto simp: q_def select_ok_def)
    show "\<forall>g. sl_readfds q g \<or> sl_writefds q g \<or> sl_exceptfds q g \<longrightarrow> polled q g" using ok unfolding pq by (auto simp: q_def select_ok_def)
  qed (use mx in \<open>simp_all add: q_def\<close>)
  moreover have "select_rm_fd fd p = Some (select_upd_base (adjust_load (- 1)) q)"
    using i by (simp add: select_rm_fd_def Let_def q_def m_def)
  moreover have "FD_ISSET j f p" if "FD_ISSET j (f(fd := False)) q" for j f
    using that select_find_Some [OF i] by (cases "j = i") (simp_all add: FD_ISSET_def q_def split: option.splits if_splits)
  then have "quiet_from n p \<Longrightarrow> quiet_from n q" for n by (auto simp: quiet_from_def q_def)
  then have "select_keep p q" by (simp add: select_keep_def q_def)
  ultimately show ?thesis using pq by auto
qed

lemma select_set_ok:
  assumes "select_ok p" and "polled p fd"
    and "opr \<in> {select_set_pollin, select_reset_pollin, select_set_pollout, select_reset_pollout}"
  shows "select_ok (opr fd p) \<and> select_keep p (opr fd p) \<and> polled (opr fd p) = polled p"
proof -
  define q where "q = opr fd p"
  have f: "sl_fds q = sl_fds p" "sl_readfds q = sl_readfds p" "sl_writefds q = sl_writefds p" "sl_exceptfds q = sl_exceptfds p"
    "sl_src_err q = sl_src_err p" "sl_maxfd q = sl_maxfd p"
    using assms(3) by (auto simp: q_def select_set_pollin_def select_reset_pollin_def select_set_pollout_def select_reset_pollout_def)
  have i: "sl_src_in q g \<or> sl_src_out q g \<Longrightarrow> sl_src_in p g \<or> sl_src_out p g \<or> g = fd" for g
    using assms(3) by (auto simp: q_def select_set_pollin_def select_reset_pollin_def select_set_pollout_def select_reset_pollout_def split: if_splits)
  have pq: "polled q = polled p" using f by (simp add: polled_def fun_eq_iff)
  have "select_ok q" unfolding select_ok_def pq f using assms(1,2) i unfolding select_ok_def by blast
  moreover have "quiet_from n q = quiet_from n p" for n by (simp add: quiet_from_def FD_ISSET_def f)
  ultimately show ?thesis using pq f(1) unfolding q_def [symmetric] by (simp add: select_keep_def)
qed

lemma select_dispatch_tail:
  "i \<le> length (sl_fds (fst s)) \<Longrightarrow> quiet_from i (fst s) \<Longrightarrow> select_dispatch cb i s = Some s"
proof (induction "length (sl_fds (fst s)) - i" arbitrary: i)
  case 0
  then show ?case by (subst select_dispatch.simps) simp
next
  case (Suc n)
  have i: "i < length (sl_fds (fst s))" using Suc(2) by simp
  have q: "\<not> FD_ISSET i (sl_readfds (fst s)) (fst s)" "\<not> FD_ISSET i (sl_writefds (fst s)) (fst s)"
    "\<not> FD_ISSET i (sl_exceptfds (fst s)) (fst s)" using Suc(4) i unfolding quiet_from_def by blast+
  have "notify select_sink i False ev cb s = Some s" for ev
    using i by (auto simp: notify_def select_sink_def)
  moreover have "select_dispatch cb (Suc i) s = Some s"
    using Suc(1) [of "Suc i"] Suc(2,4) i by (simp add: quiet_from_def)
  ultimately show ?case using q i by (subst select_dispatch.simps) simp
qed

lemma select_dispatch_ok:
  assumes h: "sl.handles cb"
  shows "select_ok (fst s) \<Longrightarrow> i \<le> n \<Longrightarrow> quiet_from n (fst s) \<Longrightarrow> n \<le> length (sl_fds (fst s)) \<Longrightarrow>
    \<exists>s'. select_dispatch cb i s = Some s' \<and> select_ok (fst s')"
proof (induction "n - i" arbitrary: i s)
  case 0
  then have "select_dispatch cb i s = Some s" by (intro select_dispatch_tail) auto
  then show ?case using 0 by simp
next
  case (Suc m)
  let ?len = "\<lambda>s. length (sl_fds (fst s))"
  have i: "i < n" and m: "m = n - Suc i" using Suc(2) by simp_all
  obtain s1 where s1: "notify select_sink i (FD_ISSET i (sl_exceptfds (fst s)) (fst s)) In_event cb s = Some s1"
    "select_ok (fst s1)" "select_keep (fst s) (fst s1)"
    using sl.notify_ok [OF h Suc.prems(1)] i Suc.prems(4) by (metis less_le_trans)
  have l1: "n \<le> ?len s1" "quiet_from n (fst s1)" using s1(3) Suc.prems(3,4) by (auto simp: select_keep_def)
  obtain s2 where s2: "notify select_sink i (FD_ISSET i (sl_writefds (fst s1)) (fst s1)) Out_event cb s1 = Some s2"
    "select_ok (fst s2)" "select_keep (fst s1) (fst s2)"
    using sl.notify_ok [OF h s1(2)] i l1(1) by (metis less_le_trans)
  have l2: "n \<le> ?len s2" "quiet_from n (fst s2)" using s2(3) l1 by (auto simp: select_keep_def)
  obtain s3 where s3: "notify select_sink i (FD_ISSET i (sl_readfds (fst s2)) (fst s2)) In_event cb s2 = Some s3"
    "select_ok (fst s3)" "select_keep (fst s2) (fst s3)"
    using sl.notify_ok [OF h s2(2)] i l2(1) by (metis less_le_trans)
  have l3: "n \<le> ?len s3" "quiet_from n (fst s3)" using s3(3) l2 by (auto simp: select_keep_def)
  obtain s' where "select_dispatch cb (Suc i) s3 = Some s'" "select_ok (fst s')"
    using Suc(1) [OF m s3(2) _ l3(2,1)] i by (metis Suc_leI)
  moreover have "i \<noteq> ?len s" using i Suc.prems by auto
  ultimately show ?case using s1(1) s2(1) s3(1) by (subst select_dispatch.simps) auto
qed

lemma select_clean_ok: "select_ok p \<Longrightarrow> select_ok (select_clean p) \<and> polled (select_clean p) = polled p"
proof -
  assume ok: "select_ok p"
  have p: "polled (select_clean p) = polled p" by (auto simp: polled_def select_clean_def is_retired_fd_def fun_eq_iff)
  have "live_fds (filter (\<lambda>e. \<not> is_retired_fd e) es) = live_fds es" for es
    by (induction es) (auto simp: is_retired_fd_def split: option.split)
  then have "select_ok (select_clean p)" unfolding select_ok_def p using ok by (auto simp: select_clean_def select_ok_def)
  then show ?thesis using p by simp
qed

text \<open>What is asked of \<open>select\<close>: it reports descriptors it was asked for.\<close>

definition select_call_ok :: "((nat \<Rightarrow> bool) \<Rightarrow> (nat \<Rightarrow> bool) \<Rightarrow> (nat \<Rightarrow> bool) \<Rightarrow> int \<Rightarrow> u32 \<Rightarrow> select_result) \<Rightarrow> bool" where
  "select_call_ok call \<longleftrightarrow> (\<forall>r w x m t r' w' x'. call r w x m t = Select_ready r' w' x' \<longrightarrow>
     (\<forall>fd. (r' fd \<longrightarrow> r fd) \<and> (w' fd \<longrightarrow> w fd) \<and> (x' fd \<longrightarrow> x fd)))"

lemma select_pass_safe:
  assumes timers: "execute_timers sl_base select_upd_base cb now s = Some (timeout, s1)" and ok: "select_ok (fst s1)"
    and h: "sl.handles cb" and c: "select_call_ok call"
  shows "\<exists>s'. select_pass cb now call s = Some s' \<and> select_ok (fst s')"
proof -
  define p where "p = fst s1"
  define sets where "sets r w x = apfst (\<lambda>p. p\<lparr>sl_readfds := r, sl_writefds := w, sl_exceptfds := x\<rparr>) s1" for r w x
  have okp: "select_ok (fst (sets r w x))" if "\<And>fd. r fd \<or> w fd \<or> x fd \<Longrightarrow> polled p fd" for r w x
    using that ok unfolding p_def by (simp add: sets_def select_ok_def polled_def)
  have src: "sl_src_in p fd \<or> sl_src_out p fd \<or> sl_src_err p fd \<Longrightarrow> polled p fd" for fd
    using ok unfolding p_def select_ok_def by blast
  have pass: "select_pass cb now call s = (case call (sl_src_in p) (sl_src_out p) (sl_src_err p) (sl_maxfd p + 1) (ucast timeout) of
       Select_intr \<Rightarrow> Some (sets (sl_src_in p) (sl_src_out p) (sl_src_err p))
     | Select_timeout \<Rightarrow> Some (sets no_fds no_fds no_fds)
     | Select_ready r w x \<Rightarrow> map_option (apfst select_clean) (select_dispatch cb 0 (sets r w x)))"
    using timers by (cases s1) (auto simp: select_pass_def Let_def sets_def p_def map_conv_bind_option comp_def split: select_result.split)
  show ?thesis
  proof (cases "call (sl_src_in p) (sl_src_out p) (sl_src_err p) (sl_maxfd p + 1) (ucast timeout)")
    case Select_intr
    then show ?thesis using pass okp src by auto
  next
    case Select_timeout
    then show ?thesis using pass okp [of no_fds no_fds no_fds] by (simp add: no_fds_def)
  next
    case (Select_ready r w x)
    then have sub: "r fd \<or> w fd \<or> x fd \<Longrightarrow> polled p fd" for fd using c src unfolding select_call_ok_def by blast
    have "quiet_from (length (sl_fds (fst (sets r w x)))) (fst (sets r w x))" by (simp add: quiet_from_def)
    then obtain s2 where "select_dispatch cb 0 (sets r w x) = Some s2" "select_ok (fst s2)"
      using select_dispatch_ok [OF h okp, OF sub] by blast
    then show ?thesis using pass Select_ready select_clean_ok by auto
  qed
qed

section \<open>Objects that live in an I/O thread\<close>

text \<open>\<open>poller_t\<close> is \<open>kqueue_t\<close> on the systems this library is built for (\<open>poller.hpp\<close>).  \<open>io_object_t\<close>
  has a pointer to the poller of its thread; a call through a null pointer is \<^term>\<open>None\<close>.\<close>

record io_object =
  io_this :: addr
  io_poller :: "addr option"

type_synonym pollers = "addr \<rightharpoonup> kqueue"

definition io_plug :: "addr option \<Rightarrow> io_object \<Rightarrow> io_object option" where
  "io_plug thread_poller io = do {
     zmq_assert (thread_poller \<noteq> None);
     zmq_assert (io_poller io = None);
     Some (io\<lparr>io_poller := thread_poller\<rparr>)
   }"

definition io_object_new :: "addr \<Rightarrow> addr option \<Rightarrow> io_object option" where
  "io_object_new this thread_poller =
     (if thread_poller \<noteq> None then io_plug thread_poller \<lparr>io_this = this, io_poller = None\<rparr>
      else Some \<lparr>io_this = this, io_poller = None\<rparr>)"

definition io_unplug :: "io_object \<Rightarrow> io_object option" where
  "io_unplug io = do { zmq_assert (io_poller io \<noteq> None); Some (io\<lparr>io_poller := None\<rparr>) }"

definition io_upd :: "(kqueue \<Rightarrow> kqueue option) \<Rightarrow> io_object \<Rightarrow> pollers \<Rightarrow> pollers option" where
  "io_upd f io ps = do { a \<leftarrow> io_poller io; p \<leftarrow> ps a; p \<leftarrow> f p; Some (ps(a \<mapsto> p)) }"

definition io_add_fd :: "nat \<Rightarrow> io_object \<Rightarrow> pollers \<Rightarrow> (addr \<times> pollers) option" where
  "io_add_fd fd io ps = do {
     a \<leftarrow> io_poller io;
     p \<leftarrow> ps a;
     let (h, p) = kqueue_add_fd fd (io_this io) p;
     Some (h, ps(a \<mapsto> p))
   }"

definition io_rm_fd :: "addr \<Rightarrow> io_object \<Rightarrow> pollers \<Rightarrow> pollers option" where
  "io_rm_fd h = io_upd (kqueue_rm_fd h)"
definition io_set_pollin :: "addr \<Rightarrow> io_object \<Rightarrow> pollers \<Rightarrow> pollers option" where
  "io_set_pollin h = io_upd (kqueue_set_pollin h)"
definition io_reset_pollin :: "addr \<Rightarrow> io_object \<Rightarrow> pollers \<Rightarrow> pollers option" where
  "io_reset_pollin h = io_upd (kqueue_reset_pollin h)"
definition io_set_pollout :: "addr \<Rightarrow> io_object \<Rightarrow> pollers \<Rightarrow> pollers option" where
  "io_set_pollout h = io_upd (kqueue_set_pollout h)"
definition io_reset_pollout :: "addr \<Rightarrow> io_object \<Rightarrow> pollers \<Rightarrow> pollers option" where
  "io_reset_pollout h = io_upd (kqueue_reset_pollout h)"

definition io_add_timer :: "u64 \<Rightarrow> int \<Rightarrow> int \<Rightarrow> io_object \<Rightarrow> pollers \<Rightarrow> pollers option" where
  "io_add_timer now timeout tid io =
     io_upd (\<lambda>p. Some (kqueue_upd_base (add_timer now timeout (io_this io) tid) p)) io"

definition io_cancel_timer :: "int \<Rightarrow> io_object \<Rightarrow> pollers \<Rightarrow> pollers option" where
  "io_cancel_timer tid io =
     io_upd (\<lambda>p. do { b \<leftarrow> cancel_timer (io_this io) tid (kq_base p); Some (p\<lparr>kq_base := b\<rparr>) }) io"

text \<open>An object that registers a descriptor and removes it again leaves the poller as consistent as it was,
  and the descriptor unpolled.\<close>

lemma io_add_rm_fd:
  assumes "io_poller io = Some a" and "ps a = Some p" and ok: "kq_ok p"
  shows "\<exists>h ps1 ps2 q. io_add_fd fd io ps = Some (h, ps1) \<and> io_rm_fd h io ps1 = Some ps2 \<and> ps2 a = Some q \<and> kq_ok q \<and>
    kq_kernel q = kq_kernel p \<and> h \<in> set (kq_retired q)"
proof -
  obtain h p1 where a: "kqueue_add_fd fd (io_this io) p = (h, p1)" by fastforce
  have p1: "kq_ok p1" using kqueue_add_fd_ok [OF ok, of fd "io_this io"] a by simp
  have e: "kq_entries p1 h = Some \<lparr>pe_fd = Some fd, pe_in = False, pe_out = False, pe_events = io_this io\<rparr>"
    "kq_kernel p1 = kq_kernel p"
    using a by (auto simp: kqueue_add_fd_def Let_def kqueue_upd_base_def)
  obtain q where q: "kqueue_rm_fd h p1 = Some q" "kq_ok q" using kqueue_rm_fd_ok [OF p1 e(1)] by auto
  then have "kq_kernel q = kq_kernel p \<and> h \<in> set (kq_retired q)"
    using e by (auto simp: kqueue_rm_fd_def kqueue_upd_base_def)
  then show ?thesis using assms a q by (simp add: io_add_fd_def io_rm_fd_def io_upd_def)
qed

end
