(* ===== verification/Sockets.thy ===== *)
theory Sockets
  imports Pipe_Ends Dist Options
begin

text \<open>
  The socket types that only forward to their pipes: \<open>pair.cpp\<close>, \<open>push.cpp\<close>, \<open>pull.cpp\<close>,
  \<open>xreq.cpp\<close>, \<open>xpub.cpp\<close>, \<open>pub.cpp\<close> and the hooks of \<open>socket_base.cpp\<close> they
  override.  A socket is the record of its members; the state of all its pipes is the argument
  \<open>p\<close>, reached through the calls of \<open>Endpoint\<close>.  The hooks \<open>process_term\<close> of the
  socket types end with a call of \<open>socket_base_t::process_term\<close>; the definitions here are the
  part before that call.  The term acks a socket registers with itself (\<open>own_t\<close>) are recorded.
\<close>

section \<open>The socket types and the hooks of the base class\<close>

datatype socket_type = ZMQ_PAIR | ZMQ_PUB | ZMQ_SUB | ZMQ_REQ | ZMQ_REP | ZMQ_XREQ | ZMQ_XREP
  | ZMQ_PULL | ZMQ_PUSH | ZMQ_XPUB | ZMQ_XSUB

fun type_code :: "socket_type \<Rightarrow> u32" where
  "type_code ZMQ_PAIR = 0" | "type_code ZMQ_PUB = 1" | "type_code ZMQ_SUB = 2"
| "type_code ZMQ_REQ = 3" | "type_code ZMQ_REP = 4" | "type_code ZMQ_XREQ = 5"
| "type_code ZMQ_XREP = 6" | "type_code ZMQ_PULL = 7" | "type_code ZMQ_PUSH = 8"
| "type_code ZMQ_XPUB = 9" | "type_code ZMQ_XSUB = 10"

text \<open>What the constructors write into the options.\<close>

definition socket_options :: "socket_type \<Rightarrow> bool \<Rightarrow> bool \<Rightarrow> options \<Rightarrow> options" where
  "socket_options t rin rout os =
     os\<lparr>o_type := type_code t, o_requires_in := rin, o_requires_out := rout\<rparr>"

definition base_xsetsockopt :: "'s \<Rightarrow> rc \<times> 's" where "base_xsetsockopt s = (Err EINVAL, s)"
definition base_xsend :: "msg \<Rightarrow> 's \<Rightarrow> rc \<times> msg \<times> 's" where "base_xsend m s = (Err ENOTSUP, m, s)"
definition base_xrecv :: "msg \<Rightarrow> 's \<Rightarrow> rc \<times> msg \<times> 's" where "base_xrecv m s = (Err ENOTSUP, m, s)"
definition base_xhas_in :: "'s \<Rightarrow> bool \<times> 's" where "base_xhas_in s = (False, s)"
definition base_xhas_out :: "'s \<Rightarrow> bool \<times> 's" where "base_xhas_out s = (False, s)"

section \<open>PAIR\<close>

record pair_socket =
  pa_inpipe :: "addr option"
  pa_outpipe :: "addr option"
  pa_in_alive :: bool
  pa_out_alive :: bool
  pa_terminating :: bool
  pa_calls :: "sink_call list"

definition pair_new :: pair_socket where
  "pair_new = \<lparr>pa_inpipe = None, pa_outpipe = None, pa_in_alive = False, pa_out_alive = False,
     pa_terminating = False, pa_calls = []\<rparr>"

definition pair_options :: "options \<Rightarrow> options" where
  "pair_options = socket_options ZMQ_PAIR True True"

definition pair_delete :: "pair_socket \<Rightarrow> unit option" where
  "pair_delete s = do { zmq_assert (pa_inpipe s = None); zmq_assert (pa_outpipe s = None) }"

definition pair_call :: "sink_call \<Rightarrow> pair_socket \<Rightarrow> pair_socket" where
  "pair_call c s = s\<lparr>pa_calls := pa_calls s @ [c]\<rparr>"

definition pair_xattach_pipes ::
    "'p reader_ops \<Rightarrow> ('p, msg) writer_ops \<Rightarrow> addr \<Rightarrow> addr \<Rightarrow> pair_socket \<Rightarrow> 'p \<Rightarrow> (pair_socket \<times> 'p) option" where
  "pair_xattach_pipes ro wo inpipe outpipe s p = do {
     zmq_assert (pa_inpipe s = None \<and> pa_outpipe s = None);
     let s = s\<lparr>pa_inpipe := Some inpipe, pa_in_alive := True\<rparr>;
     p \<leftarrow> ro_set_event_sink ro inpipe p;
     let s = s\<lparr>pa_outpipe := Some outpipe, pa_out_alive := True\<rparr>;
     p \<leftarrow> wo_set_event_sink wo outpipe p;
     if pa_terminating s then do {
       let s = pair_call (Register_term_acks 2) s;
       p \<leftarrow> ro_terminate ro inpipe p;
       p \<leftarrow> wo_terminate wo outpipe p;
       Some (s, p)
     }
     else Some (s, p)
   }"

definition pair_reader_terminated :: "addr \<Rightarrow> pair_socket \<Rightarrow> pair_socket option" where
  "pair_reader_terminated pipe s = do {
     zmq_assert (pa_inpipe s = Some pipe);
     let s = s\<lparr>pa_inpipe := None, pa_in_alive := False\<rparr>;
     Some (if pa_terminating s then pair_call Unregister_term_ack s else s)
   }"

definition pair_writer_terminated :: "addr \<Rightarrow> pair_socket \<Rightarrow> pair_socket option" where
  "pair_writer_terminated pipe s = do {
     zmq_assert (pa_outpipe s = Some pipe);
     let s = s\<lparr>pa_outpipe := None, pa_out_alive := False\<rparr>;
     Some (if pa_terminating s then pair_call Unregister_term_ack s else s)
   }"

definition pair_delimited :: "addr \<Rightarrow> pair_socket \<Rightarrow> pair_socket" where
  "pair_delimited pipe s = s"

definition pair_process_term ::
    "'p reader_ops \<Rightarrow> ('p, msg) writer_ops \<Rightarrow> pair_socket \<Rightarrow> 'p \<Rightarrow> (pair_socket \<times> 'p) option" where
  "pair_process_term ro wo s p = do {
     let s = s\<lparr>pa_terminating := True\<rparr>;
     (s, p) \<leftarrow> (case pa_inpipe s of
         Some a \<Rightarrow> do { p \<leftarrow> ro_terminate ro a p; Some (pair_call (Register_term_acks 1) s, p) }
       | None \<Rightarrow> Some (s, p));
     (case pa_outpipe s of
         Some a \<Rightarrow> do { p \<leftarrow> wo_terminate wo a p; Some (pair_call (Register_term_acks 1) s, p) }
       | None \<Rightarrow> Some (s, p))
   }"

definition pair_reader_activated :: "addr \<Rightarrow> pair_socket \<Rightarrow> pair_socket option" where
  "pair_reader_activated pipe s = do { zmq_assert (\<not> pa_in_alive s); Some (s\<lparr>pa_in_alive := True\<rparr>) }"

definition pair_writer_activated :: "addr \<Rightarrow> pair_socket \<Rightarrow> pair_socket option" where
  "pair_writer_activated pipe s = do { zmq_assert (\<not> pa_out_alive s); Some (s\<lparr>pa_out_alive := True\<rparr>) }"

text \<open>\<open>sndmore\<close> is the flag \<open>ZMQ_SNDMORE\<close> of the call.\<close>

definition pair_xsend ::
    "('p, msg) writer_ops \<Rightarrow> bool \<Rightarrow> msg \<Rightarrow> pair_socket \<Rightarrow> 'p \<Rightarrow> (rc \<times> msg \<times> pair_socket \<times> 'p) option" where
  "pair_xsend wo sndmore m s p =
     (case pa_outpipe s of
        None \<Rightarrow> Some (Err EAGAIN, m, s, p)
      | Some a \<Rightarrow>
          if \<not> pa_out_alive s then Some (Err EAGAIN, m, s, p)
          else do {
            (ok, p) \<leftarrow> wo_write wo a m p;
            if \<not> ok then Some (Err EAGAIN, m, s\<lparr>pa_out_alive := False\<rparr>, p)
            else do {
              p \<leftarrow> (if \<not> sndmore then wo_flush wo a p else Some p);
              Some (OK, empty_msg, s, p)
            }
          })"

definition pair_xrecv :: "'p reader_ops \<Rightarrow> pair_socket \<Rightarrow> 'p \<Rightarrow> (rc \<times> msg \<times> pair_socket \<times> 'p) option" where
  "pair_xrecv ro s p =
     (case (if pa_in_alive s then pa_inpipe s else None) of
        None \<Rightarrow> Some (Err EAGAIN, empty_msg, s\<lparr>pa_in_alive := False\<rparr>, p)
      | Some a \<Rightarrow> do {
          (v, p) \<leftarrow> ro_read ro a p;
          case v of
            None \<Rightarrow> Some (Err EAGAIN, empty_msg, s\<lparr>pa_in_alive := False\<rparr>, p)
          | Some m \<Rightarrow> Some (OK, m, s, p)
        })"

definition pair_xhas_in :: "'p reader_ops \<Rightarrow> pair_socket \<Rightarrow> 'p \<Rightarrow> (bool \<times> pair_socket \<times> 'p) option" where
  "pair_xhas_in ro s p =
     (case pa_inpipe s of
        None \<Rightarrow> Some (False, s, p)
      | Some a \<Rightarrow>
          if \<not> pa_in_alive s then Some (False, s, p)
          else do { (ok, p) \<leftarrow> ro_check_read ro a p; Some (ok, s\<lparr>pa_in_alive := ok\<rparr>, p) })"

definition pair_xhas_out :: "('p, msg) writer_ops \<Rightarrow> pair_socket \<Rightarrow> 'p \<Rightarrow> (bool \<times> pair_socket \<times> 'p) option" where
  "pair_xhas_out wo s p =
     (case pa_outpipe s of
        None \<Rightarrow> Some (False, s, p)
      | Some a \<Rightarrow>
          if \<not> pa_out_alive s then Some (False, s, p)
          else do { (ok, p) \<leftarrow> wo_check_write wo a empty_msg p; Some (ok, s\<lparr>pa_out_alive := ok\<rparr>, p) })"

section \<open>PUSH and PULL\<close>

definition push_options :: "options \<Rightarrow> options" where
  "push_options = socket_options ZMQ_PUSH False True"

definition push_xattach_pipes ::
    "('p, msg) writer_ops \<Rightarrow> addr option \<Rightarrow> addr option \<Rightarrow> lb \<Rightarrow> 'p \<Rightarrow> (lb \<times> 'p) option" where
  "push_xattach_pipes wo inpipe outpipe s p =
     (case (inpipe, outpipe) of (None, Some a) \<Rightarrow> lb_attach wo a s p | _ \<Rightarrow> None)"

definition push_process_term :: "('p, msg) writer_ops \<Rightarrow> lb \<Rightarrow> 'p \<Rightarrow> (lb \<times> 'p) option" where
  "push_process_term wo s p = lb_terminate wo s p"

definition push_xsend :: "('p, msg) writer_ops \<Rightarrow> msg \<Rightarrow> lb \<Rightarrow> 'p \<Rightarrow> (rc \<times> msg \<times> lb \<times> 'p) option" where
  "push_xsend wo m s p = lb_send wo m s p"

definition push_xhas_out :: "('p, msg) writer_ops \<Rightarrow> lb \<Rightarrow> 'p \<Rightarrow> (bool \<times> lb \<times> 'p) option" where
  "push_xhas_out wo s p = lb_has_out wo s p"

definition pull_options :: "options \<Rightarrow> options" where
  "pull_options = socket_options ZMQ_PULL True False"

definition pull_xattach_pipes ::
    "'p reader_ops \<Rightarrow> addr option \<Rightarrow> addr option \<Rightarrow> fq \<Rightarrow> 'p \<Rightarrow> (fq \<times> 'p) option" where
  "pull_xattach_pipes ro inpipe outpipe s p =
     (case (inpipe, outpipe) of (Some a, None) \<Rightarrow> fq_attach ro a s p | _ \<Rightarrow> None)"

definition pull_process_term :: "'p reader_ops \<Rightarrow> fq \<Rightarrow> 'p \<Rightarrow> (fq \<times> 'p) option" where
  "pull_process_term ro s p = fq_terminate ro s p"

definition pull_xrecv :: "'p reader_ops \<Rightarrow> fq \<Rightarrow> 'p \<Rightarrow> (rc \<times> msg \<times> fq \<times> 'p) option" where
  "pull_xrecv ro s p = fq_recv ro s p"

definition pull_xhas_in :: "'p reader_ops \<Rightarrow> fq \<Rightarrow> 'p \<Rightarrow> (bool \<times> fq \<times> 'p) option" where
  "pull_xhas_in ro s p = fq_has_in ro s p"

section \<open>XREQ\<close>

record xreq_socket =
  xq_fq :: fq
  xq_lb :: lb

definition xreq_new :: xreq_socket where
  "xreq_new = \<lparr>xq_fq = fq_new, xq_lb = lb_new\<rparr>"

definition xreq_options :: "options \<Rightarrow> options" where
  "xreq_options = socket_options ZMQ_XREQ True True"

definition xreq_xattach_pipes ::
    "'p reader_ops \<Rightarrow> ('p, msg) writer_ops \<Rightarrow> addr option \<Rightarrow> addr option \<Rightarrow> xreq_socket \<Rightarrow> 'p \<Rightarrow>
     (xreq_socket \<times> 'p) option" where
  "xreq_xattach_pipes ro wo inpipe outpipe s p =
     (case (inpipe, outpipe) of
        (Some i, Some out) \<Rightarrow> do {
          (q, p) \<leftarrow> fq_attach ro i (xq_fq s) p;
          (l, p) \<leftarrow> lb_attach wo out (xq_lb s) p;
          Some (s\<lparr>xq_fq := q, xq_lb := l\<rparr>, p)
        }
      | _ \<Rightarrow> None)"

definition xreq_process_term ::
    "'p reader_ops \<Rightarrow> ('p, msg) writer_ops \<Rightarrow> xreq_socket \<Rightarrow> 'p \<Rightarrow> (xreq_socket \<times> 'p) option" where
  "xreq_process_term ro wo s p = do {
     (q, p) \<leftarrow> fq_terminate ro (xq_fq s) p;
     (l, p) \<leftarrow> lb_terminate wo (xq_lb s) p;
     Some (s\<lparr>xq_fq := q, xq_lb := l\<rparr>, p)
   }"

definition xreq_xsend ::
    "('p, msg) writer_ops \<Rightarrow> msg \<Rightarrow> xreq_socket \<Rightarrow> 'p \<Rightarrow> (rc \<times> msg \<times> xreq_socket \<times> 'p) option" where
  "xreq_xsend wo m s p = do { (rc, m, l, p) \<leftarrow> lb_send wo m (xq_lb s) p; Some (rc, m, s\<lparr>xq_lb := l\<rparr>, p) }"

definition xreq_xrecv :: "'p reader_ops \<Rightarrow> xreq_socket \<Rightarrow> 'p \<Rightarrow> (rc \<times> msg \<times> xreq_socket \<times> 'p) option" where
  "xreq_xrecv ro s p = do { (rc, m, q, p) \<leftarrow> fq_recv ro (xq_fq s) p; Some (rc, m, s\<lparr>xq_fq := q\<rparr>, p) }"

definition xreq_xhas_in :: "'p reader_ops \<Rightarrow> xreq_socket \<Rightarrow> 'p \<Rightarrow> (bool \<times> xreq_socket \<times> 'p) option" where
  "xreq_xhas_in ro s p = do { (b, q, p) \<leftarrow> fq_has_in ro (xq_fq s) p; Some (b, s\<lparr>xq_fq := q\<rparr>, p) }"

definition xreq_xhas_out :: "('p, msg) writer_ops \<Rightarrow> xreq_socket \<Rightarrow> 'p \<Rightarrow> (bool \<times> xreq_socket \<times> 'p) option" where
  "xreq_xhas_out wo s p = do { (b, l, p) \<leftarrow> lb_has_out wo (xq_lb s) p; Some (b, s\<lparr>xq_lb := l\<rparr>, p) }"

section \<open>XPUB and PUB\<close>

definition xpub_options :: "options \<Rightarrow> options" where
  "xpub_options = socket_options ZMQ_XPUB False True"

definition pub_options :: "options \<Rightarrow> options" where
  "pub_options os = (xpub_options os)\<lparr>o_type := type_code ZMQ_PUB\<rparr>"

definition xpub_xattach_pipes ::
    "('p, zmq_msg) writer_ops \<Rightarrow> addr option \<Rightarrow> addr option \<Rightarrow> dist \<Rightarrow> 'p \<Rightarrow> (dist \<times> 'p) option" where
  "xpub_xattach_pipes wo inpipe outpipe s p =
     (case (inpipe, outpipe) of (None, Some a) \<Rightarrow> dist_attach wo a s p | _ \<Rightarrow> None)"

definition xpub_process_term :: "('p, zmq_msg) writer_ops \<Rightarrow> dist \<Rightarrow> 'p \<Rightarrow> (dist \<times> 'p) option" where
  "xpub_process_term wo s p = dist_terminate wo s p"

definition xpub_xsend ::
    "('p, zmq_msg) writer_ops \<Rightarrow> msg_heap \<Rightarrow> zmq_msg \<Rightarrow> dist \<Rightarrow> 'p \<Rightarrow> (rc \<times> msg_heap \<times> zmq_msg \<times> dist \<times> 'p) option" where
  "xpub_xsend wo h m s p = dist_send wo h m s p"

definition xpub_xhas_out :: "dist \<Rightarrow> bool" where "xpub_xhas_out s = dist_has_out s"

definition xpub_xrecv :: "zmq_msg \<Rightarrow> dist \<Rightarrow> rc \<times> zmq_msg \<times> dist" where
  "xpub_xrecv m s = (Err EAGAIN, m, s)"

definition xpub_xhas_in :: "dist \<Rightarrow> bool" where "xpub_xhas_in s = False"

end
