(* ===== verification/Context.thy ===== *)
theory Context
  imports Array Options Object Sockets Poller
begin

text \<open>
  \<open>ctx.hpp\<close>, \<open>ctx.cpp\<close>, \<open>reaper.hpp\<close>, \<open>reaper.cpp\<close>, \<open>io_thread.hpp\<close>, \<open>io_thread.cpp\<close>, and what
  \<open>socket_base.cpp\<close> does when a socket is closed: the tables of a context, and the shutdown of a process.

  A closed socket is handed to the reaper thread, which destroys it once its tree of owned objects is
  gone (the theory \<open>Own_Protocol\<close>; here this is an event that comes about at some time).  \<open>zmq_term\<close>
  waits for the command \<open>done\<close> of the reaper.  The state has the context, the sockets that are
  allocated, the reaper, and the mailboxes, which belong to the objects the slots point to.
\<close>

section \<open>The state\<close>

datatype mb_owner = Of_term | Of_reaper | Of_io nat | Of_socket addr

record endpoint =
  en_socket :: addr
  en_options :: options

record ctx =
  cx_tag :: u32
  cx_sockets :: "addr array"
  cx_empty_slots :: "nat list"
  cx_terminating :: bool
  cx_slots :: "mb_owner option list"
  cx_io_threads :: nat
  cx_endpoints :: "string \<rightharpoonup> endpoint"
  cx_log_socket :: "addr option"

text \<open>\<open>sk_handle\<close>: the socket's mailbox is in the poller of the reaper.\<close>

record socket_base =
  sk_type :: socket_type
  sk_tid :: nat
  sk_ctx_terminated :: bool
  sk_destroyed :: bool
  sk_handle :: bool

record reaper =
  rp_sockets :: int
  rp_terminating :: bool
  rp_stopped :: bool

record process =
  pr_ctx :: ctx
  pr_sockets :: "addr \<rightharpoonup> socket_base"
  pr_reaper :: reaper
  pr_mail :: "mb_owner \<Rightarrow> cmd list"

definition max_sockets :: nat where "max_sockets = 512"
definition reaper_tid :: nat where "reaper_tid = 1"

definition upd_ctx :: "(ctx \<Rightarrow> ctx) \<Rightarrow> process \<Rightarrow> process" where
  "upd_ctx f s = s\<lparr>pr_ctx := f (pr_ctx s)\<rparr>"
definition upd_reaper :: "(reaper \<Rightarrow> reaper) \<Rightarrow> process \<Rightarrow> process" where
  "upd_reaper f s = s\<lparr>pr_reaper := f (pr_reaper s)\<rparr>"
definition upd_socket :: "addr \<Rightarrow> (socket_base \<Rightarrow> socket_base) \<Rightarrow> process \<Rightarrow> process option" where
  "upd_socket a f s = do { k \<leftarrow> pr_sockets s a; Some (s\<lparr>pr_sockets := (pr_sockets s)(a \<mapsto> f k)\<rparr>) }"

section \<open>Commands\<close>

definition post :: "mb_owner \<Rightarrow> cmd \<Rightarrow> process \<Rightarrow> process" where
  "post to c s = s\<lparr>pr_mail := (pr_mail s)(to := pr_mail s to @ [c])\<rparr>"

text \<open>\<open>ctx_t::send_command\<close>: the slot has to point to a mailbox.\<close>

definition slot_send :: "nat \<Rightarrow> cmd \<Rightarrow> process \<Rightarrow> process option" where
  "slot_send tid c s = do {
     zmq_assert (tid < length (cx_slots (pr_ctx s)));
     to \<leftarrow> cx_slots (pr_ctx s) ! tid;
     Some (post to c s)
   }"

section \<open>Sockets\<close>

fun socket_of_type :: "int \<Rightarrow> socket_type option" where
  "socket_of_type t =
     (if t = 0 then Some ZMQ_PAIR else if t = 1 then Some ZMQ_PUB else if t = 2 then Some ZMQ_SUB
      else if t = 3 then Some ZMQ_REQ else if t = 4 then Some ZMQ_REP else if t = 5 then Some ZMQ_XREQ
      else if t = 6 then Some ZMQ_XREP else if t = 7 then Some ZMQ_PULL else if t = 8 then Some ZMQ_PUSH
      else if t = 9 then Some ZMQ_XPUB else if t = 10 then Some ZMQ_XSUB else None)"

definition socket_create :: "int \<Rightarrow> nat \<Rightarrow> errno + socket_base" where
  "socket_create t tid =
     (case socket_of_type t of
        None \<Rightarrow> Inl EINVAL
      | Some st \<Rightarrow> Inr \<lparr>sk_type = st, sk_tid = tid, sk_ctx_terminated = False, sk_destroyed = False, sk_handle = False\<rparr>)"

text \<open>\<open>a\<close> is the address the new object gets.\<close>

definition create_socket :: "int \<Rightarrow> addr \<Rightarrow> process \<Rightarrow> ((errno + addr) \<times> process) option" where
  "create_socket t a s =
     (let c = pr_ctx s in
      if cx_terminating c then Some (Inl ETERM, s)
      else if cx_empty_slots c = [] then Some (Inl EMFILE, s)
      else let slot = last (cx_empty_slots c); slots = butlast (cx_empty_slots c) in
        case socket_create t slot of
          Inl e \<Rightarrow> Some (Inl e, upd_ctx (\<lambda>c. c\<lparr>cx_empty_slots := slots @ [slot]\<rparr>) s)
        | Inr k \<Rightarrow> do {
            zmq_assert (slot < length (cx_slots c));
            Some (Inr a, s\<lparr>pr_sockets := (pr_sockets s)(a \<mapsto> k), pr_mail := (pr_mail s)(Of_socket a := []),
              pr_ctx := c\<lparr>cx_empty_slots := slots, cx_sockets := array_push_back a (cx_sockets c),
                cx_slots := (cx_slots c)[slot := Some (Of_socket a)]\<rparr>\<rparr>)
          })"

definition socket_stop :: "addr \<Rightarrow> process \<Rightarrow> process option" where
  "socket_stop a s = do { k \<leftarrow> pr_sockets s a; slot_send (sk_tid k) Cmd_stop s }"

definition socket_process_stop :: "addr \<Rightarrow> process \<Rightarrow> process option" where
  "socket_process_stop a s = upd_socket a (\<lambda>k. k\<lparr>sk_ctx_terminated := True\<rparr>) s"

definition socket_close :: "addr \<Rightarrow> process \<Rightarrow> process option" where
  "socket_close a s = do { k \<leftarrow> pr_sockets s a; slot_send reaper_tid (Cmd_reap a) s }"

definition reaper_stop :: "process \<Rightarrow> process option" where
  "reaper_stop s = slot_send reaper_tid Cmd_stop s"

definition destroy_socket :: "addr \<Rightarrow> process \<Rightarrow> process option" where
  "destroy_socket a s = do {
     k \<leftarrow> pr_sockets s a;
     let c = pr_ctx s;
     zmq_assert (sk_tid k < length (cx_slots c));
     socks \<leftarrow> array_erase a (cx_sockets c);
     let s = s\<lparr>pr_ctx := c\<lparr>cx_empty_slots := cx_empty_slots c @ [sk_tid k], cx_slots := (cx_slots c)[sk_tid k := None],
       cx_sockets := socks\<rparr>\<rparr>;
     if cx_terminating c \<and> array_empty socks then reaper_stop s else Some s
   }"

definition start_reaping :: "addr \<Rightarrow> process \<Rightarrow> process option" where
  "start_reaping a s = upd_socket a (\<lambda>k. k\<lparr>sk_handle := True\<rparr>) s"

text \<open>\<open>socket_base_t::process_destroy\<close>, called when the tree of the socket is gone; \<open>gone\<close> says that
  this has come about.\<close>

definition tree_progress :: "bool \<Rightarrow> addr \<Rightarrow> process \<Rightarrow> process option" where
  "tree_progress gone a s = upd_socket a (\<lambda>k. if gone then k\<lparr>sk_destroyed := True\<rparr> else k) s"

text \<open>\<open>check_destroy\<close> in two parts: up to the end of \<open>destroy_socket\<close>, which holds the lock of the context,
  and from then on.\<close>

definition check_destroy_begin :: "addr \<Rightarrow> process \<Rightarrow> (bool \<times> process) option" where
  "check_destroy_begin a s = do {
     k \<leftarrow> pr_sockets s a;
     if sk_destroyed k then do {
       zmq_assert (sk_handle k);
       s \<leftarrow> upd_socket a (\<lambda>k. k\<lparr>sk_handle := False\<rparr>) s;
       s \<leftarrow> destroy_socket a s;
       Some (True, s)
     }
     else Some (False, s)
   }"

definition check_destroy_end :: "addr \<Rightarrow> process \<Rightarrow> process option" where
  "check_destroy_end a s = do {
     s \<leftarrow> slot_send reaper_tid Cmd_reaped s;
     k \<leftarrow> pr_sockets s a;
     zmq_assert (sk_destroyed k);
     Some (s\<lparr>pr_sockets := (pr_sockets s)(a := None)\<rparr>)
   }"

definition check_destroy :: "addr \<Rightarrow> process \<Rightarrow> process option" where
  "check_destroy a s = do {
     (d, s) \<leftarrow> check_destroy_begin a s;
     if d then check_destroy_end a s else Some s
   }"

section \<open>The reaper\<close>

definition reaper_new :: reaper where
  "reaper_new = \<lparr>rp_sockets = 0, rp_terminating = False, rp_stopped = False\<rparr>"

text \<open>\<open>send_done\<close>, and the end of the thread's event loop.\<close>

definition reaper_finish :: "process \<Rightarrow> process option" where
  "reaper_finish s = do {
     s \<leftarrow> slot_send term_tid Cmd_done s;
     Some (upd_reaper (\<lambda>r. r\<lparr>rp_stopped := True\<rparr>) s)
   }"

definition reaper_process_stop :: "process \<Rightarrow> process option" where
  "reaper_process_stop s = (
     let s = upd_reaper (\<lambda>r. r\<lparr>rp_terminating := True\<rparr>) s
     in if rp_sockets (pr_reaper s) = 0 then reaper_finish s else Some s)"

definition reaper_count :: "process \<Rightarrow> process" where
  "reaper_count s = upd_reaper (\<lambda>r. r\<lparr>rp_sockets := rp_sockets r + 1\<rparr>) s"

text \<open>\<open>process_reap\<close> up to the lock in \<open>check_destroy\<close>; the terminating tree may be gone at once.\<close>

definition reap_begin :: "bool \<Rightarrow> addr \<Rightarrow> process \<Rightarrow> (bool \<times> process) option" where
  "reap_begin gone a s = do {
     s \<leftarrow> start_reaping a s;
     s \<leftarrow> tree_progress gone a s;
     check_destroy_begin a s
   }"

definition reaper_process_reap :: "bool \<Rightarrow> addr \<Rightarrow> process \<Rightarrow> process option" where
  "reaper_process_reap gone a s = do {
     (d, s) \<leftarrow> reap_begin gone a s;
     s \<leftarrow> (if d then check_destroy_end a s else Some s);
     Some (reaper_count s)
   }"

definition reaper_process_reaped :: "process \<Rightarrow> process option" where
  "reaper_process_reaped s = (
     let s = upd_reaper (\<lambda>r. r\<lparr>rp_sockets := rp_sockets r - 1\<rparr>) s; r = pr_reaper s
     in if rp_sockets r = 0 \<and> rp_terminating r then reaper_finish s else Some s)"

text \<open>The reaper's poller has an event for a socket that is being reaped.\<close>

definition socket_in_event :: "bool \<Rightarrow> addr \<Rightarrow> process \<Rightarrow> process option" where
  "socket_in_event gone a s = do {
     s \<leftarrow> tree_progress gone a s;
     check_destroy a s
   }"

section \<open>The context\<close>

definition register_endpoint :: "string \<Rightarrow> endpoint \<Rightarrow> ctx \<Rightarrow> rc \<times> ctx" where
  "register_endpoint name e c =
     (if cx_endpoints c name \<noteq> None then (Err EADDRINUSE, c)
      else (OK, c\<lparr>cx_endpoints := (cx_endpoints c)(name \<mapsto> e)\<rparr>))"

definition unregister_endpoints :: "addr \<Rightarrow> ctx \<Rightarrow> ctx" where
  "unregister_endpoints a c = c\<lparr>cx_endpoints := (\<lambda>name.
     case cx_endpoints c name of None \<Rightarrow> None | Some e \<Rightarrow> if en_socket e = a then None else Some e)\<rparr>"

text \<open>The peer's count of commands sent is that of \<open>own_t\<close>.\<close>

definition find_endpoint :: "string \<Rightarrow> ctx \<Rightarrow> world \<Rightarrow> ((errno + endpoint) \<times> world) option" where
  "find_endpoint name c w =
     (case cx_endpoints c name of
        None \<Rightarrow> Some (Inl ECONNREFUSED, w)
      | Some e \<Rightarrow> do { w \<leftarrow> inc_seqnum (en_socket e) w; Some (Inr e, w) })"

text \<open>\<open>loads\<close> are the loads of the I/O threads.  Thread \<open>i\<close> is eligible when bit \<open>i\<close> of the affinity is
  set; the shift is not defined by C++ for \<open>i\<close> of 64 and more, which is 0 here.\<close>

definition eligible :: "u64 \<Rightarrow> nat \<Rightarrow> bool" where
  "eligible affinity i \<longleftrightarrow> affinity = 0 \<or> affinity AND push_bit i 1 \<noteq> 0"

fun choose_loop :: "u64 \<Rightarrow> u32 list \<Rightarrow> nat \<Rightarrow> int \<times> nat \<Rightarrow> int \<times> nat" where
  "choose_loop affinity [] i (min_load, result) = (min_load, result)"
| "choose_loop affinity (l # ls) i (min_load, result) =
     choose_loop affinity ls (Suc i)
       (if eligible affinity i \<and> (min_load = - 1 \<or> sint l < min_load) then (sint l, i) else (min_load, result))"

definition choose_io_thread :: "u64 \<Rightarrow> u32 list \<Rightarrow> nat option option" where
  "choose_io_thread affinity loads =
     (if loads = [] then Some None
      else do {
        let (min_load, result) = choose_loop affinity loads 0 (- 1, 0);
        zmq_assert (min_load \<noteq> - 1);
        Some (Some result)
      })"

definition log_name :: string where "log_name = ''sys://log''"

text \<open>\<open>a\<close> is the address of the log socket; its options play no part here.\<close>

definition ctx_init :: "nat \<Rightarrow> process" where
  "ctx_init io_threads = \<lparr>
     pr_ctx = \<lparr>cx_tag = 0xbadcafe0, cx_sockets = array_new,
       cx_empty_slots = rev [io_threads + 2 ..< max_sockets + io_threads + 3], cx_terminating = False,
       cx_slots = [Some Of_term, Some Of_reaper] @ map (\<lambda>i. Some (Of_io i)) [0..<io_threads] @ replicate (max_sockets + 1) None,
       cx_io_threads = io_threads, cx_endpoints = Map.empty, cx_log_socket = None\<rparr>,
     pr_sockets = Map.empty, pr_reaper = reaper_new, pr_mail = (\<lambda>_. [])\<rparr>"

definition ctx_new :: "nat \<Rightarrow> addr \<Rightarrow> options \<Rightarrow> process option" where
  "ctx_new io_threads a os = do {
     (l, s) \<leftarrow> create_socket 1 a (ctx_init io_threads);
     case l of
       Inl _ \<Rightarrow> None
     | Inr a \<Rightarrow> do {
         let (rc, c) = register_endpoint log_name \<lparr>en_socket = a, en_options = os\<rparr> (pr_ctx s);
         zmq_assert (rc = OK);
         Some (s\<lparr>pr_ctx := c\<lparr>cx_log_socket := Some a\<rparr>\<rparr>)
       }
   }"

definition ctx_check_tag :: "ctx \<Rightarrow> bool" where
  "ctx_check_tag c \<longleftrightarrow> cx_tag c = 0xbadcafe0"

text \<open>\<open>zmq_term\<close> (\<open>terminate\<close>): the log socket is closed under one lock, the sockets are stopped under
  another, and then the caller waits.\<close>

definition term_log :: "process \<Rightarrow> process option" where
  "term_log s = do {
     l \<leftarrow> cx_log_socket (pr_ctx s);
     s \<leftarrow> socket_close l s;
     Some (upd_ctx (\<lambda>c. c\<lparr>cx_log_socket := None\<rparr>) s)
   }"

fun stop_all :: "addr list \<Rightarrow> process \<Rightarrow> process option" where
  "stop_all [] s = Some s"
| "stop_all (a # as) s = do { s \<leftarrow> socket_stop a s; stop_all as s }"

definition term_stop :: "process \<Rightarrow> process option" where
  "term_stop s = do {
     let s = upd_ctx (\<lambda>c. c\<lparr>cx_terminating := True\<rparr>) s;
     s \<leftarrow> stop_all (arr_items (cx_sockets (pr_ctx s))) s;
     if array_empty (cx_sockets (pr_ctx s)) then reaper_stop s else Some s
   }"

text \<open>The destructor: the I/O threads are stopped; then they, the reaper and the slots are gone.\<close>

fun stop_threads :: "nat list \<Rightarrow> process \<Rightarrow> process option" where
  "stop_threads [] s = Some s"
| "stop_threads (i # is) s = do { s \<leftarrow> slot_send (i + 2) Cmd_stop s; stop_threads is s }"

definition ctx_delete :: "process \<Rightarrow> process option" where
  "ctx_delete s = do {
     zmq_assert (array_empty (cx_sockets (pr_ctx s)));
     s \<leftarrow> stop_threads [0..<cx_io_threads (pr_ctx s)] s;
     Some (upd_ctx (\<lambda>c. c\<lparr>cx_tag := 0xdeadbeef, cx_slots := []\<rparr>) s)
   }"

text \<open>The wait; \<open>intr\<close>: it is interrupted by a signal.  \<open>EAGAIN\<close> stands for a caller who keeps waiting,
  as \<open>recv\<close> without a timeout does while there is no command.\<close>

definition term_wait :: "bool \<Rightarrow> process \<Rightarrow> (rc \<times> process) option" where
  "term_wait intr s =
     (if intr then Some (Err EINTR, s)
      else case pr_mail s Of_term of
        [] \<Rightarrow> Some (Err EAGAIN, s)
      | c # cs \<Rightarrow> do {
          let s = s\<lparr>pr_mail := (pr_mail s)(Of_term := cs)\<rparr>;
          zmq_assert (c = Cmd_done);
          zmq_assert (array_empty (cx_sockets (pr_ctx s)));
          s \<leftarrow> ctx_delete s;
          Some (OK, s)
        })"

definition ctx_terminate :: "bool \<Rightarrow> process \<Rightarrow> (rc \<times> process) option" where
  "ctx_terminate intr s = do {
     s \<leftarrow> (if \<not> cx_terminating (pr_ctx s) then do { s \<leftarrow> term_log s; term_stop s } else Some s);
     term_wait intr s
   }"

section \<open>I/O threads\<close>

text \<open>\<open>io_thread_t\<close>: its mailbox is in its poller until the thread is told to stop; the load is that of
  the poller.\<close>

record io_thread =
  it_poller :: poll
  it_handle :: nat

definition io_thread_new :: "nat \<Rightarrow> addr \<Rightarrow> io_thread option" where
  "io_thread_new mailbox_fd this = do {
     p \<leftarrow> poll_add_fd mailbox_fd this poll_new;
     p \<leftarrow> poll_set_pollin mailbox_fd p;
     Some \<lparr>it_poller = p, it_handle = mailbox_fd\<rparr>
   }"

definition io_thread_load :: "io_thread \<Rightarrow> u32" where
  "io_thread_load t = get_load (po_base (it_poller t))"

definition io_thread_process_stop :: "io_thread \<Rightarrow> io_thread option" where
  "io_thread_process_stop t = do {
     p \<leftarrow> poll_rm_fd (it_handle t) (it_poller t);
     Some (t\<lparr>it_poller := poll_stop p\<rparr>)
   }"

end
