(* ===== verification/Shutdown.thy ===== *)
theory Shutdown
  imports Context
begin

text \<open>
  The shutdown of a process in every interleaving: applications create and close sockets, one thread is
  in \<open>zmq_term\<close>, and the reaper thread processes its mailbox and the events of the sockets it destroys.
  Each act is what one thread does between two points where another one can get in between: the
  destruction of a socket is in two acts, \<open>zmq_term\<close> in three.
\<close>

section \<open>Acts\<close>

text \<open>\<open>ts_open\<close>: the sockets that have not been closed; \<open>ts_due\<close>: the reaper thread has left the lock
  in \<open>check_destroy\<close> of a socket, called by \<open>process_reap\<close> (true) or by an event; \<open>ts_phase\<close>: how far
  \<open>zmq_term\<close> has got, 0 before the call, 1 with the log socket closed, 2 waiting, 3 returned.\<close>

record term_sys =
  ts_proc :: process
  ts_open :: "addr set"
  ts_due :: "(addr \<times> bool) option"
  ts_phase :: nat

datatype term_act =
    Ta_create int addr
  | Ta_close addr
  | Ta_log
  | Ta_stop
  | Ta_wait bool
  | Ta_reaper bool
  | Ta_event addr bool
  | Ta_end

abbreviation r_mail :: "process \<Rightarrow> cmd list" where "r_mail p \<equiv> pr_mail p Of_reaper"
abbreviation socks :: "process \<Rightarrow> addr list" where "socks p \<equiv> arr_items (cx_sockets (pr_ctx p))"

fun term_do :: "term_act \<Rightarrow> term_sys \<Rightarrow> term_sys option" where
  "term_do (Ta_create t a) s = do {
     (r, p) \<leftarrow> create_socket t a (ts_proc s);
     Some (s\<lparr>ts_proc := p, ts_open := (case r of Inl _ \<Rightarrow> ts_open s | Inr a \<Rightarrow> insert a (ts_open s))\<rparr>)
   }"
| "term_do (Ta_close a) s = do {
     p \<leftarrow> socket_close a (ts_proc s);
     Some (s\<lparr>ts_proc := p, ts_open := ts_open s - {a}\<rparr>)
   }"
| "term_do Ta_log s = do {
     l \<leftarrow> cx_log_socket (pr_ctx (ts_proc s));
     p \<leftarrow> term_log (ts_proc s);
     Some (s\<lparr>ts_proc := p, ts_open := ts_open s - {l}, ts_phase := 1\<rparr>)
   }"
| "term_do Ta_stop s = do {
     p \<leftarrow> term_stop (ts_proc s);
     Some (s\<lparr>ts_proc := p, ts_phase := 2\<rparr>)
   }"
| "term_do (Ta_wait intr) s = do {
     (rc, p) \<leftarrow> term_wait intr (ts_proc s);
     Some (s\<lparr>ts_proc := p, ts_phase := (if rc = OK then 3 else 2)\<rparr>)
   }"
| "term_do (Ta_reaper gone) s =
     (case r_mail (ts_proc s) of
        [] \<Rightarrow> Some s
      | c # cs \<Rightarrow>
          let p = (ts_proc s)\<lparr>pr_mail := (pr_mail (ts_proc s))(Of_reaper := cs)\<rparr> in
          case c of
            Cmd_stop \<Rightarrow> do { p \<leftarrow> reaper_process_stop p; Some (s\<lparr>ts_proc := p\<rparr>) }
          | Cmd_reaped \<Rightarrow> do { p \<leftarrow> reaper_process_reaped p; Some (s\<lparr>ts_proc := p\<rparr>) }
          | Cmd_reap a \<Rightarrow> do {
              (d, p) \<leftarrow> reap_begin gone a p;
              Some (if d then s\<lparr>ts_proc := p, ts_due := Some (a, True)\<rparr> else s\<lparr>ts_proc := reaper_count p\<rparr>)
            }
          | _ \<Rightarrow> None)"
| "term_do (Ta_event a gone) s = do {
     p \<leftarrow> tree_progress gone a (ts_proc s);
     (d, p) \<leftarrow> check_destroy_begin a p;
     Some (s\<lparr>ts_proc := p, ts_due := (if d then Some (a, False) else ts_due s)\<rparr>)
   }"
| "term_do Ta_end s =
     (case ts_due s of
        None \<Rightarrow> Some s
      | Some (a, inc) \<Rightarrow> do {
          p \<leftarrow> check_destroy_end a (ts_proc s);
          Some (s\<lparr>ts_proc := (if inc then reaper_count p else p), ts_due := None\<rparr>)
        })"

text \<open>What the threads do: an application closes a socket of its own once and lets one thread terminate
  the context; the reaper thread does one thing at a time and stops at the end.\<close>

fun term_allowed :: "term_act \<Rightarrow> term_sys \<Rightarrow> bool" where
  "term_allowed (Ta_create t a) s \<longleftrightarrow> ts_phase s \<noteq> 3 \<and> pr_sockets (ts_proc s) a = None"
| "term_allowed (Ta_close a) s \<longleftrightarrow> a \<in> ts_open s \<and> cx_log_socket (pr_ctx (ts_proc s)) \<noteq> Some a"
| "term_allowed Ta_log s \<longleftrightarrow> ts_phase s = 0"
| "term_allowed Ta_stop s \<longleftrightarrow> ts_phase s = 1"
| "term_allowed (Ta_wait intr) s \<longleftrightarrow> ts_phase s = 2 \<and> (intr \<or> pr_mail (ts_proc s) Of_term \<noteq> [])"
| "term_allowed (Ta_reaper gone) s \<longleftrightarrow>
     ts_due s = None \<and> \<not> rp_stopped (pr_reaper (ts_proc s)) \<and> r_mail (ts_proc s) \<noteq> []"
| "term_allowed (Ta_event a gone) s \<longleftrightarrow>
     ts_due s = None \<and> \<not> rp_stopped (pr_reaper (ts_proc s)) \<and>
     (case pr_sockets (ts_proc s) a of None \<Rightarrow> False | Some k \<Rightarrow> sk_handle k)"
| "term_allowed Ta_end s \<longleftrightarrow> ts_due s \<noteq> None"

text \<open>A run; \<^term>\<open>None\<close> is an abort, an act that is not allowed leaves the state as it is.\<close>

fun term_run :: "term_act list \<Rightarrow> term_sys \<Rightarrow> term_sys option" where
  "term_run [] s = Some s"
| "term_run (a # as) s = (if term_allowed a s then do { s \<leftarrow> term_do a s; term_run as s } else term_run as s)"

definition term_start :: "nat \<Rightarrow> addr \<Rightarrow> options \<Rightarrow> term_sys option" where
  "term_start io_threads l os = do {
     p \<leftarrow> ctx_new io_threads l os;
     Some \<lparr>ts_proc = p, ts_open = {l}, ts_due = None, ts_phase = 0\<rparr>
   }"

section \<open>The invariant\<close>

text \<open>The tables: every live socket has a slot of its own, and the other slots for sockets are empty.\<close>

definition tid_of :: "process \<Rightarrow> addr \<Rightarrow> nat" where
  "tid_of p a = sk_tid (the (pr_sockets p a))"

definition tables_ok :: "nat \<Rightarrow> process \<Rightarrow> (addr \<times> bool) option \<Rightarrow> bool" where
  "tables_ok n p due \<longleftrightarrow> (let c = pr_ctx p in
     array_ok (cx_sockets c) \<and>
     length (cx_slots c) = n + max_sockets + 3 \<and> cx_slots c ! 0 = Some Of_term \<and> cx_slots c ! 1 = Some Of_reaper \<and>
     cx_io_threads c = n \<and> (\<forall>i < n. cx_slots c ! (i + 2) = Some (Of_io i)) \<and>
     distinct (cx_empty_slots c) \<and> inj_on (tid_of p) (set (socks p)) \<and>
     set (cx_empty_slots c) \<inter> tid_of p ` set (socks p) = {} \<and>
     set (cx_empty_slots c) \<union> tid_of p ` set (socks p) = {n + 2 ..< n + max_sockets + 3} \<and>
     (\<forall>a \<in> set (socks p). cx_slots c ! tid_of p a = Some (Of_socket a)) \<and>
     dom (pr_sockets p) = set (socks p) \<union> fst ` set_option due \<and>
     (\<forall>a b. due = Some (a, b) \<longrightarrow> a \<notin> set (socks p)) \<and>
     (\<forall>a k. pr_sockets p a = Some k \<longrightarrow> sk_destroyed k = (a \<notin> set (socks p))))"

definition handled :: "process \<Rightarrow> addr set" where
  "handled p = {a. \<exists>k. pr_sockets p a = Some k \<and> sk_handle k}"

text \<open>A live socket is open, or on its way to the reaper, or being reaped.\<close>

definition flow_ok :: "process \<Rightarrow> addr set \<Rightarrow> bool" where
  "flow_ok p opened \<longleftrightarrow>
     (\<forall>a. count_list (r_mail p) (Cmd_reap a) + of_bool (a \<in> opened) + of_bool (a \<in> handled p) =
        (of_bool (a \<in> set (socks p)) :: nat)) \<and>
     set (r_mail p) \<subseteq> {Cmd_stop, Cmd_reaped} \<union> range Cmd_reap"

text \<open>The reaper is told to stop once, when no socket is left, and answers once, when it has forgotten them
  all.  \<open>e\<close> is 1 within \<open>process_reap\<close>, where a socket is not counted yet.\<close>

definition ends_ok :: "int \<Rightarrow> process \<Rightarrow> (addr \<times> bool) option \<Rightarrow> addr set \<Rightarrow> nat \<Rightarrow> bool" where
  "ends_ok e p due opened phase \<longleftrightarrow> (let c = pr_ctx p; r = pr_reaper p in
     count_list (r_mail p) Cmd_stop + of_bool (rp_terminating r) = (of_bool (cx_terminating c \<and> socks p = []) :: nat) \<and>
     int (card (handled p)) + int (count_list (r_mail p) Cmd_reaped) + of_bool (due \<noteq> None) = rp_sockets r + e \<and>
     pr_mail p Of_term = (if rp_stopped r then [Cmd_done] else []) \<and>
     (rp_stopped r \<longleftrightarrow> rp_terminating r \<and> rp_sockets r = 0) \<and>
     (rp_terminating r \<longrightarrow> due = None) \<and>
     (phase = 0 \<longleftrightarrow> cx_log_socket c \<noteq> None) \<and> set_option (cx_log_socket c) \<subseteq> opened \<and>
     (phase \<ge> 2 \<longleftrightarrow> cx_terminating c) \<and> phase < 3)"

definition term_inv :: "nat \<Rightarrow> int \<Rightarrow> term_sys \<Rightarrow> bool" where
  "term_inv n e s \<longleftrightarrow> tables_ok n (ts_proc s) (ts_due s) \<and> flow_ok (ts_proc s) (ts_open s) \<and>
     ends_ok e (ts_proc s) (ts_due s) (ts_open s) (ts_phase s)"

text \<open>After \<open>zmq_term\<close> has returned nothing is left.\<close>

definition all_gone :: "term_sys \<Rightarrow> bool" where
  "all_gone s \<longleftrightarrow> ts_phase s = 3 \<and> ts_open s = {} \<and> ts_due s = None \<and> pr_sockets (ts_proc s) = Map.empty \<and>
     rp_stopped (pr_reaper (ts_proc s)) \<and> r_mail (ts_proc s) = [] \<and> pr_mail (ts_proc s) Of_term = []"

definition inc_due :: "term_sys \<Rightarrow> int" where
  "inc_due s = (case ts_due s of Some (_, True) \<Rightarrow> 1 | _ \<Rightarrow> 0)"

definition term_good :: "nat \<Rightarrow> term_sys \<Rightarrow> bool" where
  "term_good n s \<longleftrightarrow> term_inv n (inc_due s) s \<or> all_gone s"

text \<open>What the reaper thread has left to do.\<close>

fun cmd_work :: "cmd \<Rightarrow> nat" where
  "cmd_work (Cmd_reap _) = 5"
| "cmd_work _ = 1"

definition term_work :: "term_sys \<Rightarrow> nat" where
  "term_work s = 4 * card (handled (ts_proc s)) + sum_list (map cmd_work (r_mail (ts_proc s))) + (if ts_due s = None then 0 else 2)"

definition progress :: "nat \<Rightarrow> term_act \<Rightarrow> term_sys \<Rightarrow> bool" where
  "progress n b s \<longleftrightarrow> (\<exists>s'. term_do b s = Some s' \<and> term_good n s' \<and> term_work s' < term_work s \<and>
     ts_phase s' = ts_phase s \<and> ts_open s' = ts_open s)"

lemma progressD: "progress n b s \<Longrightarrow> \<exists>s'. term_do b s = Some s' \<and> term_good n s'"
  by (auto simp: progress_def)

section \<open>Every act keeps it\<close>

lemma tables_okD:
  assumes "tables_ok n (ts_proc s) (ts_due s)"
  shows "a \<in> set (socks (ts_proc s)) \<Longrightarrow> \<exists>k. pr_sockets (ts_proc s) a = Some k \<and> \<not> sk_destroyed k"
    and "pr_sockets (ts_proc s) a = Some k \<Longrightarrow> a \<in> set (socks (ts_proc s)) \<or> (\<exists>b. ts_due s = Some (a, b))"
    and "ts_due s = Some (a, b) \<Longrightarrow> a \<notin> set (socks (ts_proc s)) \<and> (\<exists>k. pr_sockets (ts_proc s) a = Some k \<and> sk_destroyed k)"
proof -
  have dm: "dom (pr_sockets (ts_proc s)) = set (socks (ts_proc s)) \<union> fst ` set_option (ts_due s)"
    and ds: "\<And>a k. pr_sockets (ts_proc s) a = Some k \<Longrightarrow> sk_destroyed k = (a \<notin> set (socks (ts_proc s)))"
    using assms by (auto simp: tables_ok_def Let_def)
  show "a \<in> set (socks (ts_proc s)) \<Longrightarrow> \<exists>k. pr_sockets (ts_proc s) a = Some k \<and> \<not> sk_destroyed k"
  proof -
    assume a: "a \<in> set (socks (ts_proc s))"
    then have "a \<in> dom (pr_sockets (ts_proc s))" unfolding dm by blast
    then obtain k where "pr_sockets (ts_proc s) a = Some k" by blast
    with ds [OF this] a show ?thesis by blast
  qed
  show "pr_sockets (ts_proc s) a = Some k \<Longrightarrow> a \<in> set (socks (ts_proc s)) \<or> (\<exists>b. ts_due s = Some (a, b))"
  proof -
    assume "pr_sockets (ts_proc s) a = Some k"
    then have "a \<in> dom (pr_sockets (ts_proc s))" by blast
    then show ?thesis unfolding dm by (cases "ts_due s") auto
  qed
  show "ts_due s = Some (a, b) \<Longrightarrow> a \<notin> set (socks (ts_proc s)) \<and> (\<exists>k. pr_sockets (ts_proc s) a = Some k \<and> sk_destroyed k)"
  proof -
    assume a: "ts_due s = Some (a, b)"
    then have n: "a \<notin> set (socks (ts_proc s))" using assms by (auto simp: tables_ok_def Let_def)
    from a have "a \<in> dom (pr_sockets (ts_proc s))" unfolding dm by simp
    then obtain k where "pr_sockets (ts_proc s) a = Some k" by blast
    with ds [OF this] n show ?thesis by blast
  qed
qed

lemma finite_handled: "tables_ok n (ts_proc s) (ts_due s) \<Longrightarrow> finite (handled (ts_proc s))"
proof -
  assume "tables_ok n (ts_proc s) (ts_due s)"
  then have "finite (dom (pr_sockets (ts_proc s)))" by (cases "ts_due s") (auto simp: tables_ok_def Let_def)
  moreover have "handled (ts_proc s) \<subseteq> dom (pr_sockets (ts_proc s))" by (auto simp: handled_def)
  ultimately show ?thesis by (rule rev_finite_subset)
qed

lemma slot_reaper: "tables_ok n p due \<Longrightarrow> slot_send reaper_tid c p = Some (post Of_reaper c p)"
  by (simp add: tables_ok_def Let_def slot_send_def reaper_tid_def)

lemma slot_term: "tables_ok n p due \<Longrightarrow> slot_send term_tid c p = Some (post Of_term c p)"
  by (simp add: tables_ok_def Let_def slot_send_def term_tid_def)

lemma flow_live:
  assumes "flow_ok (ts_proc s) (ts_open s)"
  shows "a \<in> ts_open s \<or> a \<in> handled (ts_proc s) \<or> Cmd_reap a \<in> set (r_mail (ts_proc s)) \<Longrightarrow> a \<in> set (socks (ts_proc s))"
    and "a \<in> ts_open s \<Longrightarrow> a \<notin> handled (ts_proc s)"
    and "a \<in> ts_open s \<or> a \<in> handled (ts_proc s) \<Longrightarrow> Cmd_reap a \<notin> set (r_mail (ts_proc s))"
    and "a \<in> set (socks (ts_proc s)) \<Longrightarrow> a \<in> ts_open s \<or> a \<in> handled (ts_proc s) \<or> Cmd_reap a \<in> set (r_mail (ts_proc s))"
proof -
  have "count_list (r_mail (ts_proc s)) (Cmd_reap a) + of_bool (a \<in> ts_open s) + of_bool (a \<in> handled (ts_proc s)) =
        of_bool (a \<in> set (socks (ts_proc s)))" using assms by (simp add: flow_ok_def Let_def)
  moreover have "count_list (r_mail (ts_proc s)) (Cmd_reap a) = 0 \<longleftrightarrow> Cmd_reap a \<notin> set (r_mail (ts_proc s))"
    by (rule count_list_0_iff)
  ultimately show "a \<in> ts_open s \<or> a \<in> handled (ts_proc s) \<or> Cmd_reap a \<in> set (r_mail (ts_proc s)) \<Longrightarrow> a \<in> set (socks (ts_proc s))"
    "a \<in> ts_open s \<Longrightarrow> a \<notin> handled (ts_proc s)"
    "a \<in> ts_open s \<or> a \<in> handled (ts_proc s) \<Longrightarrow> Cmd_reap a \<notin> set (r_mail (ts_proc s))"
    "a \<in> set (socks (ts_proc s)) \<Longrightarrow> a \<in> ts_open s \<or> a \<in> handled (ts_proc s) \<or> Cmd_reap a \<in> set (r_mail (ts_proc s))"
    by (auto simp: of_bool_def split: if_splits)
qed

lemma same_sockets [simp]:
  "tid_of (pr_mail_update f p) = tid_of p" "tid_of (pr_ctx_update g p) = tid_of p" "tid_of (pr_reaper_update h p) = tid_of p"
  "handled (pr_mail_update f p) = handled p" "handled (pr_ctx_update g p) = handled p" "handled (pr_reaper_update h p) = handled p"
  by (simp_all add: tid_of_def handled_def fun_eq_iff)

lemma tables_post [simp]: "tables_ok n (post to c p) due = tables_ok n p due"
  by (simp add: tables_ok_def Let_def post_def)

lemma handled_post [simp]: "handled (post to c p) = handled p"
  by (simp add: post_def)

lemma close_ok:
  assumes t: "tables_ok n (ts_proc s) (ts_due s)" and f: "flow_ok (ts_proc s) (ts_open s)" and a: "a \<in> ts_open s"
  shows "socket_close a (ts_proc s) = Some (post Of_reaper (Cmd_reap a) (ts_proc s))"
    and "flow_ok (post Of_reaper (Cmd_reap a) (ts_proc s)) (ts_open s - {a})"
proof -
  have "a \<in> set (socks (ts_proc s))" using flow_live(1) [OF f] a by blast
  then obtain k where k: "pr_sockets (ts_proc s) a = Some k" using tables_okD(1) [OF t] by blast
  then show "socket_close a (ts_proc s) = Some (post Of_reaper (Cmd_reap a) (ts_proc s))"
    using slot_reaper [OF t] by (simp add: socket_close_def)
  show "flow_ok (post Of_reaper (Cmd_reap a) (ts_proc s)) (ts_open s - {a})"
    unfolding flow_ok_def Let_def
  proof (intro conjI allI)
    fix b
    have "count_list (r_mail (ts_proc s)) (Cmd_reap b) + of_bool (b \<in> ts_open s) + of_bool (b \<in> handled (ts_proc s)) =
        of_bool (b \<in> set (socks (ts_proc s)))" using f by (simp add: flow_ok_def Let_def)
    then show "count_list (r_mail (post Of_reaper (Cmd_reap a) (ts_proc s))) (Cmd_reap b) + of_bool (b \<in> ts_open s - {a}) +
        of_bool (b \<in> handled (post Of_reaper (Cmd_reap a) (ts_proc s))) = of_bool (b \<in> set (socks (post Of_reaper (Cmd_reap a) (ts_proc s))))"
      using a by (cases "a = b") (simp_all add: post_def)
  qed (use f in \<open>auto simp: post_def flow_ok_def Let_def\<close>)
qed

lemma ends_close:
  assumes "ends_ok e (ts_proc s) (ts_due s) (ts_open s) (ts_phase s)"
  shows "set_option (cx_log_socket (pr_ctx (ts_proc s))) \<subseteq> ts_open s - {a} \<Longrightarrow>
      ends_ok e (post Of_reaper (Cmd_reap a) (ts_proc s)) (ts_due s) (ts_open s - {a}) (ts_phase s)"
    and "ts_phase s = 0 \<Longrightarrow> ends_ok e (upd_ctx (\<lambda>c. c\<lparr>cx_log_socket := None\<rparr>) (post Of_reaper (Cmd_reap a) (ts_proc s)))
      (ts_due s) (ts_open s - {a}) 1"
  using assms unfolding ends_ok_def Let_def by (auto simp: post_def upd_ctx_def)

lemma act_close:
  assumes inv: "term_inv n (inc_due s) s" and al: "term_allowed (Ta_close a) s"
  shows "\<exists>s'. term_do (Ta_close a) s = Some s' \<and> term_good n s'"
proof -
  have t: "tables_ok n (ts_proc s) (ts_due s)" and f: "flow_ok (ts_proc s) (ts_open s)" and d: "ends_ok (inc_due s) (ts_proc s) (ts_due s) (ts_open s) (ts_phase s)" using inv by (auto simp: term_inv_def)
  have a: "a \<in> ts_open s" "cx_log_socket (pr_ctx (ts_proc s)) \<noteq> Some a" using al by simp_all
  then have "set_option (cx_log_socket (pr_ctx (ts_proc s))) \<subseteq> ts_open s - {a}" using d by (auto simp: ends_ok_def Let_def)
  from ends_close(1) [OF d this] close_ok [OF t f a(1)] t show ?thesis
    by (simp add: term_good_def term_inv_def inc_due_def)
qed

lemma act_log:
  assumes inv: "term_inv n (inc_due s) s" and al: "term_allowed Ta_log s"
  shows "\<exists>s'. term_do Ta_log s = Some s' \<and> term_good n s'"
proof -
  have t: "tables_ok n (ts_proc s) (ts_due s)" and f: "flow_ok (ts_proc s) (ts_open s)" and d: "ends_ok (inc_due s) (ts_proc s) (ts_due s) (ts_open s) (ts_phase s)" using inv by (auto simp: term_inv_def)
  obtain l where l: "cx_log_socket (pr_ctx (ts_proc s)) = Some l" "l \<in> ts_open s" using d al by (auto simp: ends_ok_def Let_def)
  let ?p = "post Of_reaper (Cmd_reap l) (ts_proc s)"
  let ?s = "s\<lparr>ts_proc := upd_ctx (\<lambda>c. c\<lparr>cx_log_socket := None\<rparr>) ?p, ts_open := ts_open s - {l}, ts_phase := 1\<rparr>"
  let ?p' = "upd_ctx (\<lambda>c. c\<lparr>cx_log_socket := None\<rparr>) ?p"
  have "flow_ok ?p' (ts_open s - {l})" using close_ok(2) [OF t f l(2)] by (simp add: flow_ok_def Let_def upd_ctx_def)
  moreover have "tables_ok n ?p' (ts_due s)" using t by (simp add: tables_ok_def Let_def upd_ctx_def post_def)
  moreover have "ends_ok (inc_due s) ?p' (ts_due s) (ts_open s - {l}) 1" using ends_close(2) [OF d] al by simp
  moreover have "term_do Ta_log s = Some ?s" using l close_ok(1) [OF t f l(2)] by (simp add: term_log_def post_def)
  ultimately show ?thesis by (simp add: term_good_def term_inv_def inc_due_def)
qed

lemma act_create:
  assumes inv: "term_inv n (inc_due s) s" and al: "term_allowed (Ta_create ty a) s"
  shows "\<exists>s'. term_do (Ta_create ty a) s = Some s' \<and> term_good n s'"
proof -
  have t: "tables_ok n (ts_proc s) (ts_due s)" and f: "flow_ok (ts_proc s) (ts_open s)" and d: "ends_ok (inc_due s) (ts_proc s) (ts_due s) (ts_open s) (ts_phase s)" using inv by (auto simp: term_inv_def)
  let ?c = "pr_ctx (ts_proc s)"
  have new: "pr_sockets (ts_proc s) a = None" using al by simp
  show ?thesis
  proof (cases "cx_terminating ?c \<or> cx_empty_slots ?c = [] \<or> socket_of_type ty = None")
    case True
    then have "term_do (Ta_create ty a) s = Some s"
      by (auto simp: create_socket_def Let_def socket_create_def upd_ctx_def simp del: socket_of_type.simps)
    then show ?thesis using inv by (simp add: term_good_def)
  next
    case False
    then obtain E slot where E: "cx_empty_slots ?c = E @ [slot]" by (cases "cx_empty_slots ?c" rule: rev_cases) auto
    obtain st where st: "socket_of_type ty = Some st" using False by auto
    define k where "k = \<lparr>sk_type = st, sk_tid = slot, sk_ctx_terminated = False, sk_destroyed = False, sk_handle = False\<rparr>"
    define p where "p = (ts_proc s)\<lparr>pr_sockets := (pr_sockets (ts_proc s))(a \<mapsto> k), pr_mail := (pr_mail (ts_proc s))(Of_socket a := []),
              pr_ctx := ?c\<lparr>cx_empty_slots := E, cx_sockets := array_push_back a (cx_sockets ?c),
                cx_slots := (cx_slots ?c)[slot := Some (Of_socket a)]\<rparr>\<rparr>"
    let ?s = "s\<lparr>ts_proc := p, ts_open := insert a (ts_open s)\<rparr>"
    have aX: "a \<notin> set (socks (ts_proc s))" using tables_okD(1) [OF t] new by fastforce
    have slot: "n + 2 \<le> slot" "slot < n + max_sockets + 3" "slot \<notin> set E" "slot \<notin> tid_of (ts_proc s) ` set (socks (ts_proc s))"
      using t E by (auto simp: tables_ok_def Let_def)
    have "term_do (Ta_create ty a) s = Some ?s"
      using False E st t slot(2) by (simp add: create_socket_def Let_def socket_create_def p_def k_def tables_ok_def del: socket_of_type.simps)
    moreover have "tables_ok n p (ts_due s)"
    proof -
      have X: "socks p = socks (ts_proc s) @ [a]" "array_ok (cx_sockets (pr_ctx p))"
        using array_push_back_ok [OF _ aX] t by (simp_all add: p_def tables_ok_def Let_def)
      have td: "tid_of p b = (if b = a then slot else tid_of (ts_proc s) b)" for b by (simp add: tid_of_def p_def k_def)
      have im: "tid_of p ` set (socks (ts_proc s)) = tid_of (ts_proc s) ` set (socks (ts_proc s))" using aX td by (auto simp: image_iff)
      have inj: "inj_on (tid_of p) (set (socks p))"
        using t slot(4) aX unfolding X by (auto simp: tables_ok_def Let_def inj_on_def td)
      have sX: "set (socks p) = insert a (set (socks (ts_proc s)))" unfolding X by simp
      have len: "length (cx_slots ?c) = n + max_sockets + 3" and sl: "cx_slots ?c ! 0 = Some Of_term" "cx_slots ?c ! 1 = Some Of_reaper"
        "\<forall>i < n. cx_slots ?c ! (i + 2) = Some (Of_io i)" "cx_io_threads ?c = n"
        "\<forall>b \<in> set (socks (ts_proc s)). cx_slots ?c ! tid_of (ts_proc s) b = Some (Of_socket b)"
        and de: "distinct (E @ [slot])" "set (E @ [slot]) \<inter> tid_of (ts_proc s) ` set (socks (ts_proc s)) = {}"
        "set (E @ [slot]) \<union> tid_of (ts_proc s) ` set (socks (ts_proc s)) = {n + 2 ..< n + max_sockets + 3}"
        and dm: "dom (pr_sockets (ts_proc s)) = set (socks (ts_proc s)) \<union> fst ` set_option (ts_due s)"
        and ds: "\<forall>b k. pr_sockets (ts_proc s) b = Some k \<longrightarrow> sk_destroyed k = (b \<notin> set (socks (ts_proc s)))"
        using t E by (simp_all add: tables_ok_def Let_def)
      have pc: "cx_slots (pr_ctx p) = (cx_slots ?c)[slot := Some (Of_socket a)]" "cx_empty_slots (pr_ctx p) = E" "cx_io_threads (pr_ctx p) = n"
        "pr_sockets p = (pr_sockets (ts_proc s))(a \<mapsto> k)" using sl(4) by (simp_all add: p_def)
      have nsl: "cx_slots (pr_ctx p) ! i = cx_slots ?c ! i" if "i \<noteq> slot" for i using that by (simp add: pc)
      show ?thesis
        unfolding tables_ok_def Let_def
      proof (intro conjI)
        show "\<forall>b \<in> set (socks p). cx_slots (pr_ctx p) ! tid_of p b = Some (Of_socket b)"
        proof
          fix b assume b: "b \<in> set (socks p)"
          show "cx_slots (pr_ctx p) ! tid_of p b = Some (Of_socket b)"
          proof (cases "b = a")
            case True
            then show ?thesis using slot(2) len by (simp add: pc td)
          next
            case False
            then have bX: "b \<in> set (socks (ts_proc s))" using b sX by simp
            then have "tid_of (ts_proc s) b \<noteq> slot" using slot(4) by blast
            then show ?thesis using sl(5) bX nsl False by (simp add: td)
          qed
        qed
        show "set (cx_empty_slots (pr_ctx p)) \<inter> tid_of p ` set (socks p) = {}"
          using slot(3) de(2) unfolding sX image_insert im by (auto simp: pc td)
        show "set (cx_empty_slots (pr_ctx p)) \<union> tid_of p ` set (socks p) = {n + 2..<n + max_sockets + 3}"
          using de(3) unfolding sX image_insert im by (auto simp: pc td)
        show "dom (pr_sockets p) = set (socks p) \<union> fst ` set_option (ts_due s)" using dm by (simp add: pc sX)
        show "\<forall>d b. ts_due s = Some (d, b) \<longrightarrow> d \<notin> set (socks p)" using tables_okD(3) [OF t] new unfolding sX by fastforce
        show "\<forall>b k. pr_sockets p b = Some k \<longrightarrow> sk_destroyed k = (b \<notin> set (socks p))"
          using ds by (auto simp: pc sX k_def)
        show "\<forall>i < n. cx_slots (pr_ctx p) ! (i + 2) = Some (Of_io i)" using sl(3) nsl slot(1) by auto
        show "cx_slots (pr_ctx p) ! 0 = Some Of_term" "cx_slots (pr_ctx p) ! 1 = Some Of_reaper" using sl(1,2) nsl slot(1) by auto
      qed (use X inj de(1) len in \<open>simp_all add: pc\<close>)
    qed
    moreover have h: "handled p = handled (ts_proc s)" using new by (auto simp: handled_def p_def k_def)
    have "flow_ok p (insert a (ts_open s))"
      unfolding flow_ok_def
    proof (intro conjI allI)
      fix b
      have "count_list (r_mail (ts_proc s)) (Cmd_reap b) + of_bool (b \<in> ts_open s) + of_bool (b \<in> handled (ts_proc s)) =
          of_bool (b \<in> set (socks (ts_proc s)))" using f by (simp add: flow_ok_def Let_def)
      moreover have "r_mail p = r_mail (ts_proc s)" "set (socks p) = insert a (set (socks (ts_proc s)))"
        by (simp_all add: p_def array_push_back_def)
      ultimately show "count_list (r_mail p) (Cmd_reap b) + of_bool (b \<in> insert a (ts_open s)) + of_bool (b \<in> handled p) =
          of_bool (b \<in> set (socks p))"
        using aX h by (cases "a = b") auto
    qed (use f in \<open>auto simp: p_def flow_ok_def Let_def\<close>)
    moreover have "ends_ok (inc_due s) p (ts_due s) (insert a (ts_open s)) (ts_phase s)"
    proof -
      have pe: "cx_terminating (pr_ctx p) = cx_terminating ?c" "cx_log_socket (pr_ctx p) = cx_log_socket ?c" "pr_reaper p = pr_reaper (ts_proc s)"
        "r_mail p = r_mail (ts_proc s)" "pr_mail p Of_term = pr_mail (ts_proc s) Of_term" by (simp_all add: p_def)
      show ?thesis using d False unfolding ends_ok_def Let_def h pe by auto
    qed
    ultimately show ?thesis by (simp add: term_good_def term_inv_def inc_due_def)
  qed
qed

text \<open>The reaper destroys a socket: the locked part, and the rest.\<close>

lemma begin_ok:
  assumes inv: "term_inv n e s" and due: "ts_due s = None" and a: "a \<in> handled (ts_proc s)"
  shows "\<exists>p. (tree_progress True a (ts_proc s) \<bind> check_destroy_begin a) = Some (True, p) \<and>
    (\<forall>b. term_inv n e (s\<lparr>ts_proc := p, ts_due := Some (a, b)\<rparr>)) \<and>
    card (handled (ts_proc s)) = Suc (card (handled p)) \<and>
    (r_mail p = r_mail (ts_proc s) \<or> r_mail p = r_mail (ts_proc s) @ [Cmd_stop])"
proof -
  have t: "tables_ok n (ts_proc s) (ts_due s)" and f: "flow_ok (ts_proc s) (ts_open s)" and d: "ends_ok e (ts_proc s) (ts_due s) (ts_open s) (ts_phase s)" using inv by (auto simp: term_inv_def)
  let ?q = "ts_proc s" and ?c = "pr_ctx (ts_proc s)"
  obtain k where k: "pr_sockets ?q a = Some k" "sk_handle k" using a by (auto simp: handled_def)
  have aX: "a \<in> set (socks ?q)" using flow_live(1) [OF f] a by blast
  obtain arr where arr: "array_erase a (cx_sockets ?c) = Some arr" "array_ok arr" "set (arr_items arr) = set (socks ?q) - {a}"
  proof (rule array_erase_ok [OF _ aX])
    show "array_ok (cx_sockets ?c)" using t by (simp add: tables_ok_def Let_def)
  qed blast
  define k' where "k' = k\<lparr>sk_destroyed := True, sk_handle := False\<rparr>"
  define p0 where "p0 = ?q\<lparr>pr_sockets := (pr_sockets ?q)(a \<mapsto> k'),
    pr_ctx := ?c\<lparr>cx_empty_slots := cx_empty_slots ?c @ [sk_tid k], cx_slots := (cx_slots ?c)[sk_tid k := None], cx_sockets := arr\<rparr>\<rparr>"
  define p where "p = (if cx_terminating ?c \<and> arr_items arr = [] then post Of_reaper Cmd_stop p0 else p0)"
  have len: "length (cx_slots ?c) = n + max_sockets + 3" and sl: "cx_slots ?c ! 0 = Some Of_term" "cx_slots ?c ! 1 = Some Of_reaper"
    "\<forall>i < n. cx_slots ?c ! (i + 2) = Some (Of_io i)" "cx_io_threads ?c = n"
    "\<forall>b \<in> set (socks ?q). cx_slots ?c ! tid_of ?q b = Some (Of_socket b)"
    and de: "distinct (cx_empty_slots ?c)" "set (cx_empty_slots ?c) \<inter> tid_of ?q ` set (socks ?q) = {}" "inj_on (tid_of ?q) (set (socks ?q))"
    "set (cx_empty_slots ?c) \<union> tid_of ?q ` set (socks ?q) = {n + 2 ..< n + max_sockets + 3}"
    and dm: "dom (pr_sockets ?q) = set (socks ?q)"
    and ds: "\<forall>b k. pr_sockets ?q b = Some k \<longrightarrow> sk_destroyed k = (b \<notin> set (socks ?q))"
    using t due by (simp_all add: tables_ok_def Let_def)
  have tk: "tid_of ?q a = sk_tid k" using k by (simp add: tid_of_def)
  have tX: "sk_tid k \<in> tid_of ?q ` set (socks ?q)" unfolding tk [symmetric] using aX by (rule imageI)
  then have slot: "sk_tid k \<in> {n + 2 ..< n + max_sockets + 3}" unfolding de(4) [symmetric] by (rule UnI2)
  have st: "slot_send reaper_tid Cmd_stop p0 = Some (post Of_reaper Cmd_stop p0)"
  proof -
    have "sk_tid k \<noteq> 1" using slot by simp
    then have "cx_slots (pr_ctx p0) ! 1 = Some Of_reaper" "1 < length (cx_slots (pr_ctx p0))" using sl(2) len by (simp_all add: p0_def)
    then show ?thesis by (simp add: slot_send_def reaper_tid_def)
  qed
  define q2 where "q2 = ?q\<lparr>pr_sockets := (pr_sockets ?q)(a \<mapsto> k')\<rparr>"
  have "destroy_socket a q2 = Some p"
    using arr(1) len slot st by (simp add: destroy_socket_def Let_def reaper_stop_def array_empty_def p_def p0_def q2_def k'_def)
  moreover have "upd_socket a (\<lambda>k. k\<lparr>sk_handle := False\<rparr>) (?q\<lparr>pr_sockets := (pr_sockets ?q)(a \<mapsto> k\<lparr>sk_destroyed := True\<rparr>)\<rparr>) = Some q2"
    by (simp add: upd_socket_def q2_def k'_def)
  moreover have "tree_progress True a ?q = Some (?q\<lparr>pr_sockets := (pr_sockets ?q)(a \<mapsto> k\<lparr>sk_destroyed := True\<rparr>)\<rparr>)"
    using k by (simp add: tree_progress_def upd_socket_def)
  ultimately have run: "(tree_progress True a ?q \<bind> check_destroy_begin a) = Some (True, p)"
    using k by (simp add: check_destroy_begin_def)
  have td: "tid_of p = tid_of ?q" using k by (auto simp: p_def p0_def k'_def tid_of_def fun_eq_iff post_def)
  have sX: "set (socks p) = set (socks ?q) - {a}"
  proof -
    have "socks p = arr_items arr" by (simp add: p_def p0_def post_def)
    then show ?thesis using arr(3) by simp
  qed
  have pc: "cx_sockets (pr_ctx p) = arr" "cx_slots (pr_ctx p) = (cx_slots ?c)[sk_tid k := None]"
    "cx_empty_slots (pr_ctx p) = cx_empty_slots ?c @ [sk_tid k]" "cx_io_threads (pr_ctx p) = n"
    "pr_sockets p = (pr_sockets ?q)(a \<mapsto> k')" "pr_reaper p = pr_reaper ?q" "cx_terminating (pr_ctx p) = cx_terminating ?c"
    "cx_log_socket (pr_ctx p) = cx_log_socket ?c" "pr_mail p Of_term = pr_mail ?q Of_term"
    "r_mail p = r_mail ?q @ (if cx_terminating ?c \<and> arr_items arr = [] then [Cmd_stop] else [])"
    using sl(4) by (simp_all add: p_def p0_def post_def)
  have nsl: "cx_slots (pr_ctx p) ! i = cx_slots ?c ! i" if "i \<noteq> sk_tid k" for i using that by (simp add: pc)
  have im: "tid_of ?q ` (set (socks ?q) - {a}) = tid_of ?q ` set (socks ?q) - {sk_tid k}"
    using inj_on_image_set_diff [OF de(3), of "set (socks ?q)" "{a}"] aX tk by simp
  have "tables_ok n p (Some (a, b))" for b
    unfolding tables_ok_def Let_def
  proof (intro conjI)
    show "array_ok (cx_sockets (pr_ctx p))" using arr(2) by (simp add: pc)
    show "length (cx_slots (pr_ctx p)) = n + max_sockets + 3" "cx_io_threads (pr_ctx p) = n" using len by (simp_all add: pc)
    show "cx_slots (pr_ctx p) ! 0 = Some Of_term" "cx_slots (pr_ctx p) ! 1 = Some Of_reaper" using sl(1,2) nsl slot by auto
    show "\<forall>i < n. cx_slots (pr_ctx p) ! (i + 2) = Some (Of_io i)" using sl(3) nsl slot by auto
    have "sk_tid k \<notin> set (cx_empty_slots ?c)" using de(2) tX by blast
    then show "distinct (cx_empty_slots (pr_ctx p))" using de(1) by (simp add: pc)
    show "inj_on (tid_of p) (set (socks p))" unfolding td sX using de(3) by (rule inj_on_subset) blast
    show "set (cx_empty_slots (pr_ctx p)) \<inter> tid_of p ` set (socks p) = {}"
      unfolding td sX im pc(3) using de(2) by auto
    show "set (cx_empty_slots (pr_ctx p)) \<union> tid_of p ` set (socks p) = {n + 2..<n + max_sockets + 3}"
      unfolding td sX im pc(3) using de(4) slot by auto
    show "\<forall>b \<in> set (socks p). cx_slots (pr_ctx p) ! tid_of p b = Some (Of_socket b)"
    proof
      fix b assume b: "b \<in> set (socks p)"
      then have "tid_of ?q b \<noteq> sk_tid k" using de(3) aX tk unfolding sX inj_on_def by auto
      then show "cx_slots (pr_ctx p) ! tid_of p b = Some (Of_socket b)" using sl(5) nsl b unfolding td sX by simp
    qed
    show "dom (pr_sockets p) = set (socks p) \<union> fst ` set_option (Some (a, b))" using dm aX unfolding sX pc(5) by auto
    show "\<forall>d b'. Some (a, b) = Some (d, b') \<longrightarrow> d \<notin> set (socks p)" unfolding sX by simp
    show "\<forall>b k. pr_sockets p b = Some k \<longrightarrow> sk_destroyed k = (b \<notin> set (socks p))"
      using ds unfolding sX pc(5) by (simp add: k'_def)
  qed
  moreover have h: "handled p = handled ?q - {a}" unfolding handled_def pc(5) by (auto simp: k'_def)
  have 2: "card (handled ?q) = Suc (card (handled p))" unfolding h by (rule card.remove [OF finite_handled [OF t] a])
  have "flow_ok p (ts_open s)"
    unfolding flow_ok_def Let_def
  proof (intro conjI allI)
    fix x
    have "count_list (r_mail ?q) (Cmd_reap x) + of_bool (x \<in> ts_open s) + of_bool (x \<in> handled ?q) =
        of_bool (x \<in> set (socks ?q))" using f by (simp add: flow_ok_def Let_def)
    then show "count_list (r_mail p) (Cmd_reap x) + of_bool (x \<in> ts_open s) + of_bool (x \<in> handled p) = of_bool (x \<in> set (socks p))"
      using a aX unfolding h sX pc(10) by (cases "x = a") auto
  qed (use f in \<open>auto simp: pc(10) flow_ok_def Let_def\<close>)
  moreover have "ends_ok e p (Some (a, b)) (ts_open s) (ts_phase s)" for b
  proof -
    have "socks ?q \<noteq> []" using aX by auto
    then have 1: "count_list (r_mail ?q) Cmd_stop = 0" "\<not> rp_terminating (pr_reaper ?q)" "\<not> rp_stopped (pr_reaper ?q)"
      using d by (auto simp: ends_ok_def Let_def)
    have 3: "socks p = arr_items arr" by (simp add: pc)
    show ?thesis using d 1 2 due unfolding ends_ok_def Let_def 3 pc(6-10) by simp
  qed
  moreover have "r_mail p = r_mail ?q \<or> r_mail p = r_mail ?q @ [Cmd_stop]" using pc(10) by simp
  ultimately show ?thesis using run 2 by (auto simp: term_inv_def)
qed

lemma end_ok:
  assumes inv: "term_inv n e s" and due: "ts_due s = Some (a, b)"
  shows "\<exists>p. check_destroy_end a (ts_proc s) = Some p \<and> term_inv n e (s\<lparr>ts_proc := p, ts_due := None\<rparr>) \<and>
    handled p = handled (ts_proc s) \<and> r_mail p = r_mail (ts_proc s) @ [Cmd_reaped]"
proof -
  have t: "tables_ok n (ts_proc s) (ts_due s)" and f: "flow_ok (ts_proc s) (ts_open s)" and d: "ends_ok e (ts_proc s) (ts_due s) (ts_open s) (ts_phase s)" using inv by (auto simp: term_inv_def)
  let ?q = "ts_proc s"
  obtain k where k: "pr_sockets ?q a = Some k" "sk_destroyed k" and aX: "a \<notin> set (socks ?q)" using tables_okD(3) [OF t due] by blast
  define p where "p = (post Of_reaper Cmd_reaped ?q)\<lparr>pr_sockets := (pr_sockets ?q)(a := None)\<rparr>"
  have "check_destroy_end a ?q = Some p"
    using slot_reaper [OF t] k by (simp add: check_destroy_end_def p_def post_def)
  moreover have pc: "pr_ctx p = pr_ctx ?q" "pr_reaper p = pr_reaper ?q" "pr_sockets p = (pr_sockets ?q)(a := None)"
    "r_mail p = r_mail ?q @ [Cmd_reaped]" "pr_mail p Of_term = pr_mail ?q Of_term" by (simp_all add: p_def post_def)
  have "a \<notin> handled ?q" using flow_live(1) [OF f] aX by blast
  then have h: "handled p = handled ?q" unfolding handled_def pc(3) by auto
  have tq: "\<forall>b \<in> set (socks ?q). tid_of p b = tid_of ?q b" using aX by (auto simp: tid_of_def pc(3))
  then have im: "tid_of p ` set (socks ?q) = tid_of ?q ` set (socks ?q)" "inj_on (tid_of p) (set (socks ?q)) = inj_on (tid_of ?q) (set (socks ?q))"
    by (auto simp: inj_on_def)
  have "tables_ok n p None"
    using t due aX tq im unfolding tables_ok_def Let_def by (simp add: pc)
  moreover have "flow_ok p (ts_open s)" using f unfolding flow_ok_def Let_def by (simp add: pc h)
  moreover have "ends_ok e p None (ts_open s) (ts_phase s)" using d due unfolding ends_ok_def Let_def by (simp add: pc h of_bool_def split: if_splits)
  ultimately show ?thesis using pc(4) h by (auto simp: term_inv_def)
qed

text \<open>Taking a command out of the reaper's mailbox.\<close>

abbreviation popped :: "cmd list \<Rightarrow> process \<Rightarrow> process" where
  "popped cs p \<equiv> p\<lparr>pr_mail := (pr_mail p)(Of_reaper := cs)\<rparr>"

lemma popped_ok:
  assumes "tables_ok n p due" and "r_mail p = c # cs"
  shows "tables_ok n (popped cs p) due"
  using assms by (simp add: tables_ok_def Let_def)

lemma finish_ok:
  assumes "tables_ok n p due"
  shows "reaper_finish p = Some (upd_reaper (\<lambda>r. r\<lparr>rp_stopped := True\<rparr>) (post Of_term Cmd_done p))"
  using slot_term [OF assms] by (simp add: reaper_finish_def)

lemma tables_reaper [simp]: "tables_ok n (upd_reaper f p) due = tables_ok n p due"
  by (simp add: tables_ok_def Let_def upd_reaper_def)

lemma act_end:
  assumes inv: "term_inv n (inc_due s) s" and al: "term_allowed Ta_end s"
  shows "progress n Ta_end s"
proof -
  obtain a b where due: "ts_due s = Some (a, b)" using al by auto
  obtain p where p: "check_destroy_end a (ts_proc s) = Some p" "term_inv n (inc_due s) (s\<lparr>ts_proc := p, ts_due := None\<rparr>)"
    "handled p = handled (ts_proc s)" "r_mail p = r_mail (ts_proc s) @ [Cmd_reaped]"
    using end_ok [OF inv due] by blast
  have "term_inv n 0 (s\<lparr>ts_proc := (if b then reaper_count p else p), ts_due := None\<rparr>)"
  proof (cases b)
    case True
    then have e: "inc_due s = 1" using due by (simp add: inc_due_def)
    have t: "\<not> rp_terminating (pr_reaper p)"
      using inv due by (auto simp: term_inv_def ends_ok_def Let_def) (use p(1) in \<open>auto simp: check_destroy_end_def slot_send_def post_def split: Option.bind_splits\<close>)
    then show ?thesis using p(2) True unfolding e term_inv_def
      by (simp add: reaper_count_def) (simp add: ends_ok_def flow_ok_def Let_def upd_reaper_def)
  next
    case False
    then show ?thesis using p(2) due by (simp add: inc_due_def)
  qed
  then have "term_good n (s\<lparr>ts_proc := (if b then reaper_count p else p), ts_due := None\<rparr>)"
    by (simp add: term_good_def inc_due_def)
  then show ?thesis using due p(1,3,4) by (simp add: progress_def term_work_def reaper_count_def upd_reaper_def)
qed

lemma act_event:
  assumes inv: "term_inv n (inc_due s) s" and al: "term_allowed (Ta_event a gone) s"
  shows "if gone then progress n (Ta_event a gone) s else term_do (Ta_event a gone) s = Some s"
proof -
  have due: "ts_due s = None" and e: "inc_due s = 0" using al by (simp_all add: inc_due_def)
  obtain k where k: "pr_sockets (ts_proc s) a = Some k" "sk_handle k" using al by (auto split: option.splits)
  then have a: "a \<in> handled (ts_proc s)" by (simp add: handled_def)
  show ?thesis
  proof (cases gone)
    case True
    obtain p where p: "(tree_progress True a (ts_proc s) \<bind> check_destroy_begin a) = Some (True, p)"
      "\<And>b. term_inv n 0 (s\<lparr>ts_proc := p, ts_due := Some (a, b)\<rparr>)" "card (handled (ts_proc s)) = Suc (card (handled p))"
      "r_mail p = r_mail (ts_proc s) \<or> r_mail p = r_mail (ts_proc s) @ [Cmd_stop]"
      using begin_ok [OF inv due a] unfolding e by blast
    then obtain q where q: "tree_progress True a (ts_proc s) = Some q" "check_destroy_begin a q = Some (True, p)"
      by (cases "tree_progress True a (ts_proc s)") auto
    have "term_good n (s\<lparr>ts_proc := p, ts_due := Some (a, False)\<rparr>)" using p(2) [of False] by (simp add: term_good_def inc_due_def)
    moreover have "term_work (s\<lparr>ts_proc := p, ts_due := Some (a, False)\<rparr>) < term_work s"
      using p(3,4) due by (auto simp: term_work_def)
    ultimately show ?thesis using q True by (simp add: progress_def)
  next
    case False
    have "a \<in> set (socks (ts_proc s))" using flow_live(1) a inv by (auto simp: term_inv_def)
    then have "\<not> sk_destroyed k" using tables_okD(1) inv k by (fastforce simp: term_inv_def)
    moreover have "(pr_sockets (ts_proc s))(a \<mapsto> k) = pr_sockets (ts_proc s)" using k by (simp add: fun_upd_idem)
    ultimately show ?thesis
      using k False by (simp add: tree_progress_def upd_socket_def check_destroy_begin_def)
  qed
qed

lemma act_reaper_stop:
  assumes inv: "term_inv n (inc_due s) s" and al: "term_allowed (Ta_reaper gone) s" and m: "r_mail (ts_proc s) = Cmd_stop # cs"
  shows "progress n (Ta_reaper gone) s"
proof -
  have due: "ts_due s = None" and e: "inc_due s = 0" using al by (simp_all add: inc_due_def)
  have t: "tables_ok n (ts_proc s) None" and f: "flow_ok (ts_proc s) (ts_open s)" and d: "ends_ok 0 (ts_proc s) None (ts_open s) (ts_phase s)"
    using inv due e by (simp_all add: term_inv_def)
  let ?p = "upd_reaper (\<lambda>r. r\<lparr>rp_terminating := True\<rparr>) (popped cs (ts_proc s))"
  have tp: "tables_ok n ?p None" using popped_ok [OF t m] by simp
  define p where "p = (if rp_sockets (pr_reaper (ts_proc s)) = 0 then upd_reaper (\<lambda>r. r\<lparr>rp_stopped := True\<rparr>) (post Of_term Cmd_done ?p) else ?p)"
  have "reaper_process_stop (popped cs (ts_proc s)) = Some p"
    using finish_ok [OF tp] by (simp add: reaper_process_stop_def p_def Let_def upd_reaper_def)
  then have "term_do (Ta_reaper gone) s = Some (s\<lparr>ts_proc := p\<rparr>)" using m by simp
  moreover have "tables_ok n p None" using tp by (simp add: p_def)
  moreover have pc: "socks p = socks (ts_proc s)" "r_mail p = cs" "handled p = handled (ts_proc s)" "pr_ctx p = pr_ctx (ts_proc s)"
    "rp_terminating (pr_reaper p)" "rp_sockets (pr_reaper p) = rp_sockets (pr_reaper (ts_proc s))"
    "rp_stopped (pr_reaper p) = (rp_stopped (pr_reaper (ts_proc s)) \<or> rp_sockets (pr_reaper (ts_proc s)) = 0)"
    "pr_mail p Of_term = pr_mail (ts_proc s) Of_term @ (if rp_sockets (pr_reaper (ts_proc s)) = 0 then [Cmd_done] else [])"
    by (simp_all add: p_def upd_reaper_def post_def)
  moreover have "flow_ok p (ts_open s)" using f unfolding flow_ok_def pc by (simp add: m)
  moreover have "\<not> rp_terminating (pr_reaper (ts_proc s))" "cx_terminating (pr_ctx (ts_proc s)) \<and> socks (ts_proc s) = []" "count_list cs Cmd_stop = 0"
    using d m by (auto simp: ends_ok_def Let_def of_bool_def split: if_splits)
  then have "ends_ok 0 p None (ts_open s) (ts_phase s)" using d m unfolding ends_ok_def Let_def pc by (simp add: pc(5))
  ultimately show ?thesis using due e by (simp add: progress_def term_work_def pc m term_good_def term_inv_def inc_due_def)
qed

lemma act_reaper_reaped:
  assumes inv: "term_inv n (inc_due s) s" and al: "term_allowed (Ta_reaper gone) s" and m: "r_mail (ts_proc s) = Cmd_reaped # cs"
  shows "progress n (Ta_reaper gone) s"
proof -
  have due: "ts_due s = None" and e: "inc_due s = 0" using al by (simp_all add: inc_due_def)
  have t: "tables_ok n (ts_proc s) None" and f: "flow_ok (ts_proc s) (ts_open s)" and d: "ends_ok 0 (ts_proc s) None (ts_open s) (ts_phase s)"
    using inv due e by (simp_all add: term_inv_def)
  have ns: "\<not> rp_stopped (pr_reaper (ts_proc s))" using al by simp
  let ?p = "upd_reaper (\<lambda>r. r\<lparr>rp_sockets := rp_sockets r - 1\<rparr>) (popped cs (ts_proc s))"
  let ?fin = "rp_sockets (pr_reaper (ts_proc s)) = 1 \<and> rp_terminating (pr_reaper (ts_proc s))"
  have tp: "tables_ok n ?p None" using popped_ok [OF t m] by simp
  define p where "p = (if ?fin then upd_reaper (\<lambda>r. r\<lparr>rp_stopped := True\<rparr>) (post Of_term Cmd_done ?p) else ?p)"
  have "reaper_process_reaped (popped cs (ts_proc s)) = Some p"
  proof -
    have "rp_sockets (pr_reaper ?p) = rp_sockets (pr_reaper (ts_proc s)) - 1" "rp_terminating (pr_reaper ?p) = rp_terminating (pr_reaper (ts_proc s))"
      by (simp_all add: upd_reaper_def)
    then show ?thesis using finish_ok [OF tp] unfolding reaper_process_reaped_def Let_def p_def by (cases ?fin) auto
  qed
  then have "term_do (Ta_reaper gone) s = Some (s\<lparr>ts_proc := p\<rparr>)" using m by simp
  moreover have "tables_ok n p None" using tp by (simp add: p_def)
  moreover have pc: "socks p = socks (ts_proc s)" "r_mail p = cs" "handled p = handled (ts_proc s)" "pr_ctx p = pr_ctx (ts_proc s)"
    "rp_terminating (pr_reaper p) = rp_terminating (pr_reaper (ts_proc s))" "rp_sockets (pr_reaper p) = rp_sockets (pr_reaper (ts_proc s)) - 1"
    "rp_stopped (pr_reaper p) = (rp_stopped (pr_reaper (ts_proc s)) \<or> ?fin)"
    "pr_mail p Of_term = pr_mail (ts_proc s) Of_term @ (if ?fin then [Cmd_done] else [])"
    by (auto simp: p_def upd_reaper_def post_def)
  moreover have "flow_ok p (ts_open s)" using f unfolding flow_ok_def pc by (simp add: m)
  moreover have "ends_ok 0 p None (ts_open s) (ts_phase s)" using d m ns unfolding ends_ok_def Let_def pc by auto
  ultimately show ?thesis using due e by (simp add: progress_def term_work_def pc m term_good_def term_inv_def inc_due_def)
qed

lemma act_reaper_reap:
  assumes inv: "term_inv n (inc_due s) s" and al: "term_allowed (Ta_reaper gone) s" and m: "r_mail (ts_proc s) = Cmd_reap a # cs"
  shows "progress n (Ta_reaper gone) s"
proof -
  have due: "ts_due s = None" and e: "inc_due s = 0" using al by (simp_all add: inc_due_def)
  have t: "tables_ok n (ts_proc s) (ts_due s)" and f: "flow_ok (ts_proc s) (ts_open s)" and d: "ends_ok 0 (ts_proc s) None (ts_open s) (ts_phase s)"
    using inv due e by (simp_all add: term_inv_def)
  let ?q = "popped cs (ts_proc s)"
  have aX: "a \<in> set (socks (ts_proc s))" using flow_live(1) [OF f] m by simp
  then obtain k where k: "pr_sockets (ts_proc s) a = Some k" "\<not> sk_destroyed k" using tables_okD(1) [OF t] by blast
  have h: "a \<notin> handled (ts_proc s)" and o: "a \<notin> ts_open s" using flow_live(3) [OF f] m by auto
  define p where "p = ?q\<lparr>pr_sockets := (pr_sockets ?q)(a \<mapsto> k\<lparr>sk_handle := True\<rparr>)\<rparr>"
  have start: "start_reaping a ?q = Some p" using k by (simp add: start_reaping_def upd_socket_def p_def)
  have pc: "socks p = socks (ts_proc s)" "r_mail p = cs" "pr_ctx p = pr_ctx (ts_proc s)" "pr_reaper p = pr_reaper (ts_proc s)"
    "pr_mail p Of_term = pr_mail (ts_proc s) Of_term" "pr_sockets p = (pr_sockets (ts_proc s))(a \<mapsto> k\<lparr>sk_handle := True\<rparr>)" by (simp_all add: p_def)
  have hp: "handled p = insert a (handled (ts_proc s))" unfolding handled_def pc by auto
  have cp: "card (handled p) = Suc (card (handled (ts_proc s)))" unfolding hp using finite_handled [OF t] h by simp
  have tp: "tid_of p = tid_of (ts_proc s)" using k by (auto simp: tid_of_def pc fun_eq_iff)
  have "tables_ok n p None"
  proof -
    have dm: "dom (pr_sockets p) = dom (pr_sockets (ts_proc s))" unfolding pc using k by auto
    have "\<forall>b k. pr_sockets (ts_proc s) b = Some k \<longrightarrow> sk_destroyed k = (b \<notin> set (socks (ts_proc s)))"
      using t by (simp add: tables_ok_def Let_def)
    then have "\<forall>b k'. pr_sockets p b = Some k' \<longrightarrow> sk_destroyed k' = (b \<notin> set (socks (ts_proc s)))" unfolding pc using k by simp
    then show ?thesis using t due unfolding tables_ok_def Let_def tp pc(3) dm by simp
  qed
  moreover have "flow_ok p (ts_open s)"
    unfolding flow_ok_def
  proof (intro conjI allI)
    fix b
    have "count_list (r_mail (ts_proc s)) (Cmd_reap b) + of_bool (b \<in> ts_open s) + of_bool (b \<in> handled (ts_proc s)) =
        of_bool (b \<in> set (socks (ts_proc s)))" using f by (simp add: flow_ok_def)
    then show "count_list (r_mail p) (Cmd_reap b) + of_bool (b \<in> ts_open s) + of_bool (b \<in> handled p) = of_bool (b \<in> set (socks p))"
      using h m unfolding pc hp by (cases "b = a") auto
  qed (use f m in \<open>auto simp: pc flow_ok_def\<close>)
  moreover have nt: "\<not> rp_terminating (pr_reaper (ts_proc s))" "ends_ok 1 p None (ts_open s) (ts_phase s)"
  proof -
    have "socks (ts_proc s) \<noteq> []" using aX by auto
    then have 1: "count_list (r_mail (ts_proc s)) Cmd_stop = 0" "\<not> rp_terminating (pr_reaper (ts_proc s))"
      using d by (auto simp: ends_ok_def Let_def)
    show "ends_ok 1 p None (ts_open s) (ts_phase s)" using d 1 m cp unfolding ends_ok_def Let_def pc by simp
    show "\<not> rp_terminating (pr_reaper (ts_proc s))" using 1 by simp
  qed
  ultimately have inv1: "term_inv n 1 (s\<lparr>ts_proc := p\<rparr>)" using due by (simp add: term_inv_def)
  show ?thesis
  proof (cases gone)
    case True
    obtain q where q: "(tree_progress True a p \<bind> check_destroy_begin a) = Some (True, q)"
      "\<And>b. term_inv n 1 (s\<lparr>ts_proc := q, ts_due := Some (a, b)\<rparr>)" "card (handled p) = Suc (card (handled q))"
      "r_mail q = cs \<or> r_mail q = cs @ [Cmd_stop]"
      using begin_ok [OF inv1, of a] hp due pc(2) by (simp, blast)
    have "reap_begin gone a ?q = Some (True, q)" using start q(1) True by (simp add: reap_begin_def)
    then have "term_do (Ta_reaper gone) s = Some (s\<lparr>ts_proc := q, ts_due := Some (a, True)\<rparr>)" using m by simp
    moreover have "term_work (s\<lparr>ts_proc := q, ts_due := Some (a, True)\<rparr>) < term_work s"
      using q(3,4) cp m due by (auto simp: term_work_def)
    ultimately show ?thesis using q(2) [of True] by (simp add: progress_def term_good_def inc_due_def)
  next
    case False
    have "pr_sockets p a = Some (k\<lparr>sk_handle := True\<rparr>)" by (simp add: pc)
    then have "reap_begin gone a ?q = Some (False, p)"
      using start k False by (simp add: reap_begin_def tree_progress_def upd_socket_def check_destroy_begin_def fun_upd_idem)
    then have "term_do (Ta_reaper gone) s = Some (s\<lparr>ts_proc := reaper_count p\<rparr>)" using m by simp
    moreover have "term_inv n 0 (s\<lparr>ts_proc := reaper_count p\<rparr>)"
      using inv1 nt(1) due unfolding term_inv_def
      by (simp add: reaper_count_def) (simp add: ends_ok_def flow_ok_def Let_def upd_reaper_def pc(4))
    moreover have "term_work (s\<lparr>ts_proc := reaper_count p\<rparr>) < term_work s"
      using cp m due pc(2) by (simp add: term_work_def reaper_count_def upd_reaper_def)
    ultimately show ?thesis using due by (simp add: progress_def term_good_def inc_due_def)
  qed
qed

lemma act_reaper:
  assumes inv: "term_inv n (inc_due s) s" and al: "term_allowed (Ta_reaper gone) s"
  shows "progress n (Ta_reaper gone) s"
proof -
  obtain c cs where m: "r_mail (ts_proc s) = c # cs" using al by (cases "r_mail (ts_proc s)") auto
  moreover from this have "c \<in> {Cmd_stop, Cmd_reaped} \<union> range Cmd_reap" using inv by (auto simp: term_inv_def flow_ok_def)
  ultimately show ?thesis using act_reaper_stop act_reaper_reaped act_reaper_reap inv al by blast
qed

lemma stop_all_ok:
  "tables_ok n p due \<Longrightarrow> set as \<subseteq> set (socks p) \<Longrightarrow>
   \<exists>m. stop_all as p = Some (p\<lparr>pr_mail := m\<rparr>) \<and> m Of_reaper = r_mail p \<and> m Of_term = pr_mail p Of_term"
proof (induction as arbitrary: p)
  case Nil
  then show ?case by (auto intro!: exI [of _ "pr_mail p"])
next
  case (Cons a as)
  then have sl: "cx_slots (pr_ctx p) ! tid_of p a = Some (Of_socket a)" "tid_of p a < length (cx_slots (pr_ctx p))"
    and "a \<in> dom (pr_sockets p)"
    by (auto simp: tables_ok_def Let_def)
  then obtain k where "pr_sockets p a = Some k" by blast
  then have s: "socket_stop a p = Some (post (Of_socket a) Cmd_stop p)" using sl by (simp add: socket_stop_def slot_send_def tid_of_def)
  have "tables_ok n (post (Of_socket a) Cmd_stop p) due" "set as \<subseteq> set (socks (post (Of_socket a) Cmd_stop p))" using Cons.prems by (simp, simp add: post_def)
  from Cons.IH [OF this] obtain m where "stop_all as (post (Of_socket a) Cmd_stop p) = Some ((post (Of_socket a) Cmd_stop p)\<lparr>pr_mail := m\<rparr>)"
    "m Of_reaper = r_mail (post (Of_socket a) Cmd_stop p)" "m Of_term = pr_mail (post (Of_socket a) Cmd_stop p) Of_term" by blast
  then show ?case using s by (auto simp: post_def)
qed

lemma stop_threads_ok:
  "tables_ok n p due \<Longrightarrow> set is \<subseteq> {..<n} \<Longrightarrow>
   \<exists>m. stop_threads is p = Some (p\<lparr>pr_mail := m\<rparr>) \<and> m Of_reaper = r_mail p \<and> m Of_term = pr_mail p Of_term"
proof (induction "is" arbitrary: p)
  case Nil
  then show ?case by (auto intro!: exI [of _ "pr_mail p"])
next
  case (Cons i "is")
  then have s: "slot_send (i + 2) Cmd_stop p = Some (post (Of_io i) Cmd_stop p)"
    by (auto simp: tables_ok_def Let_def slot_send_def)
  have "tables_ok n (post (Of_io i) Cmd_stop p) due" "set is \<subseteq> {..<n}" using Cons.prems by (simp, simp add: post_def)
  from Cons.IH [OF this] obtain m where "stop_threads is (post (Of_io i) Cmd_stop p) = Some ((post (Of_io i) Cmd_stop p)\<lparr>pr_mail := m\<rparr>)"
    "m Of_reaper = r_mail (post (Of_io i) Cmd_stop p)" "m Of_term = pr_mail (post (Of_io i) Cmd_stop p) Of_term" by blast
  then show ?case using s by (auto simp: post_def)
qed

lemma act_stop:
  assumes inv: "term_inv n (inc_due s) s" and al: "term_allowed Ta_stop s"
  shows "\<exists>s'. term_do Ta_stop s = Some s' \<and> term_good n s'"
proof -
  let ?q = "upd_ctx (\<lambda>c. c\<lparr>cx_terminating := True\<rparr>) (ts_proc s)"
  have t: "tables_ok n (ts_proc s) (ts_due s)" and f: "flow_ok (ts_proc s) (ts_open s)" and ph: "ts_phase s = 1"
    and d: "ends_ok (inc_due s) (ts_proc s) (ts_due s) (ts_open s) 1"
    using inv al by (simp_all add: term_inv_def)
  have tq: "tables_ok n ?q (ts_due s)" using t by (simp add: tables_ok_def Let_def upd_ctx_def)
  obtain m where m: "stop_all (socks ?q) ?q = Some (?q\<lparr>pr_mail := m\<rparr>)" "m Of_reaper = r_mail ?q" "m Of_term = pr_mail ?q Of_term"
    using stop_all_ok [OF tq] by blast
  have tm: "tables_ok n (?q\<lparr>pr_mail := m\<rparr>) (ts_due s)" using tq by (simp add: tables_ok_def Let_def)
  define p where "p = (if socks (ts_proc s) = [] then post Of_reaper Cmd_stop (?q\<lparr>pr_mail := m\<rparr>) else ?q\<lparr>pr_mail := m\<rparr>)"
  have "term_do Ta_stop s = Some (s\<lparr>ts_proc := p, ts_phase := 2\<rparr>)"
    using m(1) slot_reaper [OF tm] by (simp add: term_stop_def Let_def reaper_stop_def array_empty_def p_def upd_ctx_def)
  moreover have "tables_ok n p (ts_due s)" using tm by (simp add: p_def)
  moreover have pc: "socks p = socks (ts_proc s)" "r_mail p = r_mail (ts_proc s) @ (if socks (ts_proc s) = [] then [Cmd_stop] else [])"
    "handled p = handled (ts_proc s)" "pr_reaper p = pr_reaper (ts_proc s)" "pr_mail p Of_term = pr_mail (ts_proc s) Of_term"
    "cx_terminating (pr_ctx p)" "cx_log_socket (pr_ctx p) = cx_log_socket (pr_ctx (ts_proc s))"
    using m(2,3) by (simp_all add: p_def upd_ctx_def post_def)
  moreover have "flow_ok p (ts_open s)" using f unfolding flow_ok_def pc by auto
  moreover have "ends_ok (inc_due s) p (ts_due s) (ts_open s) 2" using d unfolding ends_ok_def Let_def pc by (simp add: pc(6))
  ultimately show ?thesis by (simp add: term_good_def term_inv_def inc_due_def)
qed

text \<open>When the reaper has answered, nothing is left; and when it has nothing to do any more, it has answered.\<close>

lemma all_quiet:
  assumes inv: "term_inv n (inc_due s) s"
  shows "rp_stopped (pr_reaper (ts_proc s)) \<Longrightarrow>
      socks (ts_proc s) = [] \<and> r_mail (ts_proc s) = [] \<and> ts_due s = None \<and> ts_open s = {} \<and> pr_sockets (ts_proc s) = Map.empty"
    and "ts_phase s = 2 \<Longrightarrow> ts_open s = {} \<Longrightarrow> r_mail (ts_proc s) = [] \<Longrightarrow> ts_due s = None \<Longrightarrow> handled (ts_proc s) = {} \<Longrightarrow>
      rp_stopped (pr_reaper (ts_proc s))"
proof -
  have t: "tables_ok n (ts_proc s) (ts_due s)" and f: "flow_ok (ts_proc s) (ts_open s)"
    and d: "ends_ok (inc_due s) (ts_proc s) (ts_due s) (ts_open s) (ts_phase s)" using inv by (auto simp: term_inv_def)
  show "socks (ts_proc s) = [] \<and> r_mail (ts_proc s) = [] \<and> ts_due s = None \<and> ts_open s = {} \<and> pr_sockets (ts_proc s) = Map.empty"
    if st: "rp_stopped (pr_reaper (ts_proc s))"
  proof -
    have r: "rp_terminating (pr_reaper (ts_proc s))" "rp_sockets (pr_reaper (ts_proc s)) = 0" and due: "ts_due s = None"
      using d st by (auto simp: ends_ok_def Let_def)
    have X: "socks (ts_proc s) = []" "count_list (r_mail (ts_proc s)) Cmd_stop = 0" "count_list (r_mail (ts_proc s)) Cmd_reaped = 0"
      using d r due by (auto simp: ends_ok_def Let_def inc_due_def of_bool_def split: if_splits)
    have o: "ts_open s = {}" using flow_live(1) [OF f] X(1) by fastforce
    have "Cmd_reap a \<notin> set (r_mail (ts_proc s))" for a using flow_live(1) [OF f, of a] X(1) by auto
    moreover have "Cmd_stop \<notin> set (r_mail (ts_proc s))" "Cmd_reaped \<notin> set (r_mail (ts_proc s))" using X(2,3) by (simp_all add: count_list_0_iff)
    ultimately have "c \<notin> set (r_mail (ts_proc s))" for c using f by (auto simp: flow_ok_def)
    then have "r_mail (ts_proc s) = []" by (metis list.set_intros(1) neq_Nil_conv)
    moreover have "dom (pr_sockets (ts_proc s)) = {}" using t X(1) due by (simp add: tables_ok_def Let_def)
    ultimately show ?thesis using X due o by simp
  qed
  show "rp_stopped (pr_reaper (ts_proc s))"
    if "ts_phase s = 2" "ts_open s = {}" "r_mail (ts_proc s) = []" "ts_due s = None" "handled (ts_proc s) = {}"
  proof -
    have "socks (ts_proc s) = []" using flow_live(4) [OF f] that by (metis empty_iff list.set_intros(1) neq_Nil_conv set_empty2)
    then show ?thesis using d that by (auto simp: ends_ok_def Let_def inc_due_def)
  qed
qed

lemma act_wait:
  assumes inv: "term_inv n (inc_due s) s" and al: "term_allowed (Ta_wait intr) s"
  shows "\<exists>s'. term_do (Ta_wait intr) s = Some s' \<and> term_good n s' \<and> (intr \<or> all_gone s')"
proof (cases intr)
  case True
  then have "term_do (Ta_wait intr) s = Some (s\<lparr>ts_phase := 2\<rparr>)" by (simp add: term_wait_def)
  moreover have "s\<lparr>ts_phase := 2\<rparr> = s" using al by simp
  ultimately show ?thesis using inv True by (simp add: term_good_def)
next
  case False
  have t: "tables_ok n (ts_proc s) (ts_due s)" and d: "ends_ok (inc_due s) (ts_proc s) (ts_due s) (ts_open s) 2"
    using inv al by (simp_all add: term_inv_def)
  have st: "rp_stopped (pr_reaper (ts_proc s))" and m: "pr_mail (ts_proc s) Of_term = [Cmd_done]"
    using d al False by (auto simp: ends_ok_def Let_def split: if_splits)
  note q = all_quiet(1) [OF inv st]
  let ?p = "(ts_proc s)\<lparr>pr_mail := (pr_mail (ts_proc s))(Of_term := [])\<rparr>"
  have tp: "tables_ok n ?p (ts_due s)" using t by (simp add: tables_ok_def Let_def)
  have n: "cx_io_threads (pr_ctx ?p) = n" using t by (simp add: tables_ok_def Let_def)
  have "set [0..<n] \<subseteq> {..<n}" by auto
  from stop_threads_ok [OF tp this]
  obtain m' where m': "stop_threads [0..<n] ?p = Some (?p\<lparr>pr_mail := m'\<rparr>)" "m' Of_reaper = r_mail ?p" "m' Of_term = pr_mail ?p Of_term"
    by blast
  define p where "p = upd_ctx (\<lambda>c. c\<lparr>cx_tag := 0xdeadbeef, cx_slots := []\<rparr>) (?p\<lparr>pr_mail := m'\<rparr>)"
  have "ctx_delete ?p = Some p" using m'(1) n q by (simp add: ctx_delete_def array_empty_def p_def)
  then have "term_do (Ta_wait intr) s = Some (s\<lparr>ts_proc := p, ts_phase := 3\<rparr>)"
    using False m q by (simp add: term_wait_def array_empty_def)
  moreover have "all_gone (s\<lparr>ts_proc := p, ts_phase := 3\<rparr>)" using q st m'(2,3) by (simp add: all_gone_def p_def upd_ctx_def)
  ultimately show ?thesis by (simp add: term_good_def)
qed

section \<open>All runs\<close>

lemma act_good:
  assumes "term_good n s" and "term_allowed b s"
  shows "\<exists>s'. term_do b s = Some s' \<and> term_good n s'"
proof (cases "all_gone s")
  case True
  then have "ts_phase s = 3" "ts_open s = {}" "ts_due s = None" "rp_stopped (pr_reaper (ts_proc s))" "pr_mail (ts_proc s) Of_term = []"
    by (simp_all add: all_gone_def)
  then have False using assms(2) by (cases b) simp_all
  then show ?thesis ..
next
  case False
  then have inv: "term_inv n (inc_due s) s" using assms(1) by (simp add: term_good_def)
  show ?thesis
  proof (cases b)
    case (Ta_create t a)
    then show ?thesis using act_create [OF inv] assms(2) by blast
  next
    case (Ta_close a)
    then show ?thesis using act_close [OF inv] assms(2) by blast
  next
    case Ta_log
    then show ?thesis using act_log [OF inv] assms(2) by blast
  next
    case Ta_stop
    then show ?thesis using act_stop [OF inv] assms(2) by blast
  next
    case (Ta_wait intr)
    then show ?thesis using act_wait [OF inv] assms(2) by blast
  next
    case (Ta_reaper gone)
    then show ?thesis using progressD [OF act_reaper [OF inv]] assms(2) by blast
  next
    case (Ta_event a gone)
    have ev: "if gone then progress n (Ta_event a gone) s else term_do (Ta_event a gone) s = Some s"
      using act_event [OF inv] assms(2) Ta_event by blast
    show ?thesis
    proof (cases gone)
      case True
      then show ?thesis using ev progressD [of n b s] Ta_event by (simp del: term_do.simps)
    next
      case False
      then show ?thesis using ev Ta_event assms(1) by (simp del: term_do.simps)
    qed
  next
    case Ta_end
    then show ?thesis using progressD [OF act_end [OF inv]] assms(2) by blast
  qed
qed

lemma run_good: "term_good n s \<Longrightarrow> \<exists>s'. term_run bs s = Some s' \<and> term_good n s'"
proof (induction bs arbitrary: s)
  case (Cons b bs)
  show ?case
  proof (cases "term_allowed b s")
    case True
    obtain s1 where "term_do b s = Some s1" "term_good n s1" using act_good [OF Cons.prems True] by blast
    then show ?thesis using Cons.IH True by simp
  next
    case False
    then show ?thesis using Cons by simp
  qed
qed simp

lemma start_good: "\<exists>s. term_start n l os = Some s \<and> term_good n s"
proof -
  let ?E = "rev [n + 2 ..< max_sockets + n + 3]"
  have "n + 2 < max_sockets + n + 3" by (simp add: max_sockets_def)
  then have E: "?E = rev [n + 3 ..< max_sockets + n + 3] @ [n + 2]" using upt_conv_Cons [of "n + 2"] by (simp add: eval_nat_numeral)
  define sl where "sl = [Some Of_term, Some Of_reaper] @ map (\<lambda>i. Some (Of_io i)) [0..<n] @ replicate (max_sockets + 1) None"
  define k where "k = \<lparr>sk_type = ZMQ_PUB, sk_tid = n + 2, sk_ctx_terminated = False, sk_destroyed = False, sk_handle = False\<rparr>"
  define p where "p = (ctx_init n)\<lparr>pr_sockets := [l \<mapsto> k], pr_mail := (\<lambda>_. [])(Of_socket l := []),
    pr_ctx := (pr_ctx (ctx_init n))\<lparr>cx_empty_slots := rev [n + 3 ..< max_sockets + n + 3], cx_sockets := array_push_back l array_new,
      cx_slots := sl[n + 2 := Some (Of_socket l)], cx_endpoints := [log_name \<mapsto> \<lparr>en_socket = l, en_options = os\<rparr>], cx_log_socket := Some l\<rparr>\<rparr>"
  have len: "length sl = n + max_sockets + 3" by (simp add: sl_def)
  have "create_socket 1 l (ctx_init n) = Some (Inr l, (ctx_init n)\<lparr>pr_sockets := [l \<mapsto> k], pr_mail := (\<lambda>_. [])(Of_socket l := []),
    pr_ctx := (pr_ctx (ctx_init n))\<lparr>cx_empty_slots := rev [n + 3 ..< max_sockets + n + 3], cx_sockets := array_push_back l array_new,
      cx_slots := sl[n + 2 := Some (Of_socket l)]\<rparr>\<rparr>)"
    using len E by (simp add: create_socket_def Let_def ctx_init_def socket_create_def k_def sl_def)
  then have st: "term_start n l os = Some \<lparr>ts_proc = p, ts_open = {l}, ts_due = None, ts_phase = 0\<rparr>"
    by (simp add: term_start_def ctx_new_def register_endpoint_def Let_def p_def) (simp add: ctx_init_def)
  have X: "socks p = [l]" "array_ok (cx_sockets (pr_ctx p))"
    using array_push_back_ok [OF array_new_ok(1), of l] by (simp_all add: p_def)
  have nth: "sl ! 0 = Some Of_term" "sl ! 1 = Some Of_reaper" "\<And>i. i < n \<Longrightarrow> sl ! (i + 2) = Some (Of_io i)"
    by (simp_all add: sl_def nth_append)
  have td: "tid_of p l = n + 2" by (simp add: tid_of_def p_def k_def)
  have "tables_ok n p None"
    unfolding tables_ok_def Let_def X(1)
  proof (intro conjI)
    show "length (cx_slots (pr_ctx p)) = n + max_sockets + 3" using len by (simp add: p_def)
    show "cx_slots (pr_ctx p) ! 0 = Some Of_term" "cx_slots (pr_ctx p) ! 1 = Some Of_reaper"
      "\<forall>i<n. cx_slots (pr_ctx p) ! (i + 2) = Some (Of_io i)" using nth by (simp_all add: p_def)
    show "set (cx_empty_slots (pr_ctx p)) \<union> tid_of p ` set [l] = {n + 2..<n + max_sockets + 3}"
      using td by (auto simp: p_def max_sockets_def)
    show "\<forall>a\<in>set [l]. cx_slots (pr_ctx p) ! tid_of p a = Some (Of_socket a)" using td len by (simp add: p_def)
  qed (use X td in \<open>auto simp: p_def k_def ctx_init_def\<close>)
  moreover have h: "handled p = {}" by (auto simp: handled_def p_def k_def)
  have "flow_ok p {l}" unfolding flow_ok_def h X(1) by (simp add: p_def)
  moreover have "ends_ok 0 p None {l} 0"
    unfolding ends_ok_def Let_def h X(1) by (simp add: p_def ctx_init_def reaper_new_def)
  ultimately show ?thesis using st by (simp add: term_good_def term_inv_def inc_due_def)
qed

text \<open>C21 (safety).  Whatever the interleaving of applications that create and close sockets, of the
  thread in zmq_term and of the reaper, no assertion fails and no command goes to an empty slot; and when
  zmq_term has returned, every socket has been destroyed, the reaper has stopped, and no command
  is left for it.\<close>

theorem zmq_term_safe:
  "\<exists>s. (do { s \<leftarrow> term_start n l os; term_run bs s }) = Some s \<and>
     (ts_phase s = 3 \<longrightarrow> pr_sockets (ts_proc s) = Map.empty \<and> ts_open s = {} \<and>
        rp_stopped (pr_reaper (ts_proc s)) \<and> r_mail (ts_proc s) = [])"
proof -
  obtain s where s: "(do { s \<leftarrow> term_start n l os; term_run bs s }) = Some s" "term_good n s"
    using start_good [of n l os] run_good by fastforce
  have "ts_phase s = 3 \<longrightarrow> all_gone s" using s(2) by (auto simp: term_good_def term_inv_def ends_ok_def Let_def)
  then show ?thesis using s(1) by (auto simp: all_gone_def)
qed

text \<open>Acts of the reaper thread that get it on: a command, the destruction of a socket, the rest of it.\<close>

fun reaper_act :: "term_act \<Rightarrow> bool" where
  "reaper_act (Ta_reaper _) = True"
| "reaper_act (Ta_event _ gone) = gone"
| "reaper_act Ta_end = True"
| "reaper_act _ = False"

lemma term_gets_on:
  assumes "term_good n s" and "ts_phase s = 2" and "ts_open s = {}"
  shows "(\<forall>b. reaper_act b \<and> term_allowed b s \<longrightarrow>
      (\<exists>s'. term_do b s = Some s' \<and> term_work s' < term_work s \<and> ts_phase s' = 2 \<and> ts_open s' = {})) \<and>
    ((\<forall>b. reaper_act b \<longrightarrow> \<not> term_allowed b s) \<longrightarrow>
      (\<exists>s'. term_allowed (Ta_wait False) s \<and> term_do (Ta_wait False) s = Some s' \<and> all_gone s'))"
proof -
  have inv: "term_inv n (inc_due s) s" using assms(1,2) by (auto simp: term_good_def all_gone_def)
  have "progress n b s" if "reaper_act b" "term_allowed b s" for b
    using that act_reaper [OF inv] act_event [OF inv] act_end [OF inv] by (cases b) fastforce+
  then have 1: "\<forall>b. reaper_act b \<and> term_allowed b s \<longrightarrow>
      (\<exists>s'. term_do b s = Some s' \<and> term_work s' < term_work s \<and> ts_phase s' = 2 \<and> ts_open s' = {})"
    using assms(2,3) unfolding progress_def by metis
  have 2: "\<exists>s'. term_allowed (Ta_wait False) s \<and> term_do (Ta_wait False) s = Some s' \<and> all_gone s'"
    if none: "\<forall>b. reaper_act b \<longrightarrow> \<not> term_allowed b s"
  proof -
    have st: "rp_stopped (pr_reaper (ts_proc s))"
    proof (rule ccontr)
      assume ns: "\<not> rp_stopped (pr_reaper (ts_proc s))"
      have due: "ts_due s = None" using none [rule_format, of Ta_end] by (cases "ts_due s") auto
      have "r_mail (ts_proc s) = []" using none [rule_format, of "Ta_reaper False"] ns due by simp
      moreover have "x \<notin> handled (ts_proc s)" for x
        using none [rule_format, of "Ta_event x True"] ns due by (auto simp: handled_def)
      then have "handled (ts_proc s) = {}" by blast
      ultimately show False using all_quiet(2) [OF inv assms(2,3) _ due] ns by blast
    qed
    then have "pr_mail (ts_proc s) Of_term = [Cmd_done]" using inv by (simp add: term_inv_def ends_ok_def Let_def)
    then have al: "term_allowed (Ta_wait False) s" using assms(2) by simp
    from act_wait [OF inv this] al show ?thesis by auto
  qed
  show ?thesis using 1 2 by blast
qed

text \<open>So some run of the reaper thread ends with the context destroyed.\<close>

lemma term_ends:
  assumes "term_good n s" and "ts_phase s = 2" and "ts_open s = {}"
  shows "\<exists>bs s'. term_run bs s = Some s' \<and> ts_phase s' = 3"
  using assms
proof (induction "term_work s" arbitrary: s rule: less_induct)
  case less
  note on = term_gets_on [OF less.prems]
  show ?case
  proof (cases "\<exists>b. reaper_act b \<and> term_allowed b s")
    case True
    then obtain b s1 where b: "term_allowed b s" "term_do b s = Some s1" "term_work s1 < term_work s"
      "ts_phase s1 = 2" "ts_open s1 = {}" using on by blast
    have "term_good n s1" using act_good [OF less.prems(1) b(1)] b(2) by auto
    then obtain bs s' where "term_run bs s1 = Some s'" "ts_phase s' = 3" using less.hyps b(3-5) by blast
    then have "term_run (b # bs) s = Some s' \<and> ts_phase s' = 3" using b(1,2) by (simp del: term_do.simps)
    then show ?thesis by blast
  next
    case False
    then obtain s' where "term_allowed (Ta_wait False) s" "term_do (Ta_wait False) s = Some s'" "all_gone s'"
      using on by blast
    then have "term_run [Ta_wait False] s = Some s' \<and> ts_phase s' = 3"
      by (simp add: all_gone_def del: term_do.simps)
    then show ?thesis by blast
  qed
qed

text \<open>C22 (liveness).  zmq_term returns: once all sockets have been closed, each act of the reaper thread
  decreases the work it has left, and when there is no such act any more (the trees of all closed
  sockets are gone, the mailbox is empty), the command done is in the mailbox zmq_term waits on,
  and with it zmq_term destroys the context and returns 0.\<close>

theorem zmq_term_returns:
  assumes "(do { s \<leftarrow> term_start n l os; term_run bs s }) = Some s" and "ts_phase s = 2" and "ts_open s = {}"
  shows "(\<forall>b. reaper_act b \<and> term_allowed b s \<longrightarrow>
      (\<exists>s'. term_do b s = Some s' \<and> term_work s' < term_work s \<and> ts_phase s' = 2 \<and> ts_open s' = {})) \<and>
    ((\<forall>b. reaper_act b \<longrightarrow> \<not> term_allowed b s) \<longrightarrow>
      (\<exists>s'. term_allowed (Ta_wait False) s \<and> term_do (Ta_wait False) s = Some s' \<and> all_gone s'))"
proof -
  obtain s0 where "term_start n l os = Some s0" "term_run bs s0 = Some s" using assms(1) by (auto split: Option.bind_splits)
  then have "term_good n s" using start_good [of n l os] run_good [of n s0 bs] by auto
  then show ?thesis by (rule term_gets_on [OF _ assms(2,3)])
qed

text \<open>C28 (error).  The limit on sockets: while the context is not being terminated, \<open>create_socket\<close> fails with
  EMFILE exactly when 512 sockets (and the log socket, until zmq_term closes it) are alive, with EINVAL
  exactly when there is a slot and the type is unknown, and otherwise makes the socket; nothing else
  changes when it fails.\<close>

theorem socket_limit:
  assumes "(do { s \<leftarrow> term_start n l os; term_run bs s }) = Some s" and "ts_phase s < 2"
  shows "\<exists>r p. create_socket t a (ts_proc s) = Some (r, p) \<and>
    (if length (socks (ts_proc s)) = max_sockets + 1 then r = Inl EMFILE \<and> p = ts_proc s
     else if socket_of_type t = None then r = Inl EINVAL \<and> p = ts_proc s
     else r = Inr a \<and> set (socks p) = insert a (set (socks (ts_proc s))))"
proof -
  obtain s0 where "term_start n l os = Some s0" "term_run bs s0 = Some s" using assms(1) by (auto split: Option.bind_splits)
  then have "term_good n s" using start_good [of n l os] run_good [of n s0 bs] by auto
  then have inv: "term_inv n (inc_due s) s" using assms(2) by (auto simp: term_good_def all_gone_def)
  let ?c = "pr_ctx (ts_proc s)"
  have nt: "\<not> cx_terminating ?c" using inv assms(2) by (auto simp: term_inv_def ends_ok_def Let_def)
  have T: "distinct (cx_empty_slots ?c)" "inj_on (tid_of (ts_proc s)) (set (socks (ts_proc s)))"
    "set (cx_empty_slots ?c) \<inter> tid_of (ts_proc s) ` set (socks (ts_proc s)) = {}"
    "set (cx_empty_slots ?c) \<union> tid_of (ts_proc s) ` set (socks (ts_proc s)) = {n + 2 ..< n + max_sockets + 3}"
    "length (cx_slots ?c) = n + max_sockets + 3" "distinct (socks (ts_proc s))"
    using inv by (simp_all add: term_inv_def tables_ok_def array_ok_def Let_def)
  have "card (set (cx_empty_slots ?c) \<union> tid_of (ts_proc s) ` set (socks (ts_proc s))) =
      length (cx_empty_slots ?c) + length (socks (ts_proc s))"
    using T(1-3,6) by (simp add: card_Un_disjoint card_image distinct_card)
  then have sum: "length (cx_empty_slots ?c) + length (socks (ts_proc s)) = max_sockets + 1" unfolding T(4) by simp
  show ?thesis
  proof (cases "cx_empty_slots ?c" rule: rev_cases)
    case Nil
    then show ?thesis using nt sum by (simp add: create_socket_def Let_def)
  next
    case (snoc E slot)
    then have "slot \<in> {n + 2 ..< n + max_sockets + 3}" unfolding T(4) [symmetric] by simp
    then have "slot < length (cx_slots ?c)" using T(5) by simp
    then show ?thesis using nt sum snoc
      by (auto simp: create_socket_def Let_def socket_create_def upd_ctx_def array_push_back_def simp del: socket_of_type.simps split: option.split)
  qed
qed

section \<open>Examples\<close>

lemma start_state:
  "term_start n l os = Some s \<Longrightarrow> ts_phase s = 0 \<and> ts_open s = {l} \<and> cx_log_socket (pr_ctx (ts_proc s)) = Some l"
  by (auto simp: term_start_def ctx_new_def create_socket_def ctx_init_def Let_def register_endpoint_def
      split: Option.bind_splits sum.splits if_splits)

text \<open>\<open>zmq_term\<close> is called at once, and waits for the log socket only.\<close>

lemma start_stopped:
  "\<exists>s0 s1 s2. term_start 1 5 options_new = Some s0 \<and> term_allowed Ta_log s0 \<and> term_do Ta_log s0 = Some s1 \<and>
    term_allowed Ta_stop s1 \<and> term_do Ta_stop s1 = Some s2 \<and> term_good 1 s2 \<and> ts_phase s2 = 2 \<and> ts_open s2 = {}"
proof -
  obtain s0 where s0: "term_start 1 5 options_new = Some s0" "term_good 1 s0" using start_good by blast
  note st = start_state [OF s0(1)]
  obtain s1 where s1: "term_do Ta_log s0 = Some s1" "term_good 1 s1" using act_good [OF s0(2), of Ta_log] st by auto
  have p1: "ts_phase s1 = 1 \<and> ts_open s1 = {}" using s1(1) st by (auto split: Option.bind_splits)
  obtain s2 where s2: "term_do Ta_stop s1 = Some s2" "term_good 1 s2" using act_good [OF s1(2), of Ta_stop] p1 by auto
  have "ts_phase s2 = 2 \<and> ts_open s2 = {}" using s2(1) p1 by (auto split: Option.bind_splits)
  then show ?thesis using s0(1) s1(1) s2 st p1 by (auto simp del: term_do.simps)
qed

lemma zmq_term_returns_witness:
  "\<exists>s. (do { s \<leftarrow> term_start 1 5 options_new; term_run [Ta_log, Ta_stop] s }) = Some s \<and>
    (\<forall>b. reaper_act b \<and> term_allowed b s \<longrightarrow>
      (\<exists>s'. term_do b s = Some s' \<and> term_work s' < term_work s \<and> ts_phase s' = 2 \<and> ts_open s' = {})) \<and>
    ((\<forall>b. reaper_act b \<longrightarrow> \<not> term_allowed b s) \<longrightarrow>
      (\<exists>s'. term_allowed (Ta_wait False) s \<and> term_do (Ta_wait False) s = Some s' \<and> all_gone s'))"
proof -
  obtain s0 s1 s2 where s: "term_start 1 5 options_new = Some s0" "term_allowed Ta_log s0" "term_do Ta_log s0 = Some s1"
    "term_allowed Ta_stop s1" "term_do Ta_stop s1 = Some s2" "ts_phase s2 = 2" "ts_open s2 = {}"
    using start_stopped by blast
  have r: "(do { s \<leftarrow> term_start 1 5 options_new; term_run [Ta_log, Ta_stop] s }) = Some s2"
    using s by (simp del: term_do.simps term_allowed.simps)
  from zmq_term_returns [OF this s(6,7)] r show ?thesis by blast
qed

text \<open>The same start, run until zmq_term has returned.\<close>

lemma zmq_term_safe_witness:
  "\<exists>bs s. (do { s \<leftarrow> term_start 1 5 options_new; term_run (Ta_log # Ta_stop # bs) s }) = Some s \<and>
    ts_phase s = 3 \<and> pr_sockets (ts_proc s) = Map.empty \<and> ts_open s = {} \<and>
    rp_stopped (pr_reaper (ts_proc s)) \<and> r_mail (ts_proc s) = []"
proof -
  obtain s0 s1 s2 where s: "term_start 1 5 options_new = Some s0" "term_allowed Ta_log s0" "term_do Ta_log s0 = Some s1"
    "term_allowed Ta_stop s1" "term_do Ta_stop s1 = Some s2" "term_good 1 s2" "ts_phase s2 = 2" "ts_open s2 = {}"
    using start_stopped by blast
  obtain bs s' where "term_run bs s2 = Some s'" and p: "ts_phase s' = 3" using term_ends [OF s(6-8)] by blast
  then have r: "(do { s \<leftarrow> term_start 1 5 options_new; term_run (Ta_log # Ta_stop # bs) s }) = Some s'"
    using s by (simp del: term_do.simps term_allowed.simps)
  from zmq_term_safe [of 1 5 options_new "Ta_log # Ta_stop # bs"] r p show ?thesis by auto
qed

lemma socket_limit_witness:
  "\<exists>s. (do { s \<leftarrow> term_start 1 5 options_new; term_run [] s }) = Some s \<and>
    (\<exists>r p. create_socket 3 7 (ts_proc s) = Some (r, p) \<and>
    (if length (socks (ts_proc s)) = max_sockets + 1 then r = Inl EMFILE \<and> p = ts_proc s
     else if socket_of_type 3 = None then r = Inl EINVAL \<and> p = ts_proc s
     else r = Inr 7 \<and> set (socks p) = insert 7 (set (socks (ts_proc s)))))"
proof -
  obtain s0 where s0: "term_start 1 5 options_new = Some s0" using start_good by blast
  then have r: "(do { s \<leftarrow> term_start 1 5 options_new; term_run [] s }) = Some s0" by simp
  have "ts_phase s0 < 2" using start_state [OF s0] by simp
  from socket_limit [OF r this, of 3 7] r show ?thesis by blast
qed

section \<open>The choice of an I/O thread\<close>

lemma choose_loop_spec:
  assumes "\<forall>l \<in> set ls. 0 \<le> sint l" and "m = - 1 \<or> 0 \<le> m"
  shows "choose_loop aff ls i (m, r) = (m', r') \<Longrightarrow>
    (m' = - 1 \<longleftrightarrow> m = - 1 \<and> (\<forall>j < length ls. \<not> eligible aff (i + j))) \<and> (m' = - 1 \<or> 0 \<le> m') \<and>
    (m \<noteq> - 1 \<longrightarrow> m' \<le> m) \<and>
    ((m', r') = (m, r) \<or> (\<exists>j < length ls. r' = i + j \<and> eligible aff r' \<and> m' = sint (ls ! j))) \<and>
    (\<forall>j < length ls. eligible aff (i + j) \<longrightarrow> m' \<le> sint (ls ! j))"
  using assms
proof (induction ls arbitrary: i m r)
  case Nil
  then show ?case by auto
next
  case (Cons l ls)
  let ?take = "eligible aff i \<and> (m = - 1 \<or> sint l < m)"
  define m1 where "m1 = (if ?take then sint l else m)"
  define r1 where "r1 = (if ?take then i else r)"
  have l0: "0 \<le> sint l" and ls0: "\<forall>l \<in> set ls. 0 \<le> sint l" using Cons.prems(2) by auto
  have run: "choose_loop aff ls (Suc i) (m1, r1) = (m', r')"
  proof (cases ?take)
    case True
    then have "m1 = sint l" "r1 = i" by (simp_all add: m1_def r1_def)
    then show ?thesis using Cons.prems(1) True by simp
  next
    case False
    then have "m1 = m" "r1 = r" unfolding m1_def r1_def by meson+
    then show ?thesis using Cons.prems(1) False by simp
  qed
  have "m1 = - 1 \<or> 0 \<le> m1" using Cons.prems(3) l0 by (auto simp: m1_def)
  note ih = Cons.IH [OF run ls0 this]
  have all: "(\<forall>j < length (l # ls). P j) \<longleftrightarrow> P 0 \<and> (\<forall>j < length ls. P (Suc j))" for P by (simp add: less_Suc_eq_0_disj all_conj_distrib) auto
  have ex: "(\<exists>j < length (l # ls). P j) \<longleftrightarrow> P 0 \<or> (\<exists>j < length ls. P (Suc j))" for P by (auto simp: less_Suc_eq_0_disj)
  show ?case
    unfolding all ex using ih l0 Cons.prems(3) by (auto simp: m1_def r1_def split: if_splits)
qed

text \<open>C29 (functional).  \<open>choose_io_thread\<close> picks, among the threads the affinity allows (all for 0), one with
  the least load; without any I/O thread it picks none; and the process aborts exactly when the
  affinity, which the user sets, allows none of the threads there are.\<close>

theorem choose_io_thread_least:
  assumes "\<forall>l \<in> set loads. 0 \<le> sint l"
  shows "case choose_io_thread affinity loads of
      None \<Rightarrow> loads \<noteq> [] \<and> (\<forall>i < length loads. \<not> eligible affinity i)
    | Some None \<Rightarrow> loads = []
    | Some (Some i) \<Rightarrow> i < length loads \<and> eligible affinity i \<and>
        (\<forall>j < length loads. eligible affinity j \<longrightarrow> sint (loads ! i) \<le> sint (loads ! j))"
proof (cases "loads = []")
  case False
  obtain m r where c: "choose_loop affinity loads 0 (- 1, 0) = (m, r)" by fastforce
  from choose_loop_spec [OF assms _ c] show ?thesis using False c by (auto simp: choose_io_thread_def zmq_assert_def)
qed (simp add: choose_io_thread_def)

lemma choose_io_thread_least_witness:
  "choose_io_thread 6 [3, 7, 2] = Some (Some 2) \<and> choose_io_thread 8 [3, 7, 2] = None"
proof -
  have e: "eligible 6 0 = False" "eligible 6 1 = True" "eligible 6 2 = True"
    "eligible 8 0 = False" "eligible 8 1 = False" "eligible 8 2 = False" by code_simp+
  have l: "\<forall>l \<in> set [3, 7, 2 :: u32]. 0 \<le> sint l" by code_simp
  have a: "\<forall>j < length [3, 7, 2 :: u32]. \<not> eligible 8 j" using e by (auto simp: less_Suc_eq numeral_3_eq_3 numeral_2_eq_2)
  have s: "sint (3 :: u32) = 3" "sint (7 :: u32) = 7" "sint (2 :: u32) = 2" by code_simp+
  have "choose_io_thread 8 [3, 7, 2] = None"
    using choose_io_thread_least [OF l, of 8] a by (auto split: option.splits)
  moreover have "choose_io_thread 6 [3, 7, 2] = Some (Some 2)"
    using choose_io_thread_least [OF l, of 6] e s by (auto split: option.splits simp: less_Suc_eq numeral_3_eq_3 numeral_2_eq_2)
  ultimately show ?thesis by simp
qed

end
