(* ===== verification/Socket_Api.thy ===== *)
theory Socket_Api
  imports Context Endpoint
begin

text \<open>
  \<open>socket_base.cpp\<close>: the calls of the API on a socket, and the processing of its commands.

  The virtual functions of the socket types (\<open>xsend\<close> and the others, modelled in \<open>Sockets\<close>, \<open>Req\<close>,
  \<open>Xrep\<close> and \<open>Xsub\<close>), the mailbox (\<open>Mailbox\<close>) and the clock (\<open>Poller\<close>) are a record of
  functions on the state \<open>'u\<close> of everything outside the class; what a socket keeps itself is the record
  \<open>api\<close>.  A call that does not return (a blocking call for which nothing ever happens) is \<^term>\<open>None\<close>,
  like an abort; the properties say what a call that returns has done.
\<close>

section \<open>Addresses\<close>

text \<open>\<open>std::string::find\<close> of \<open>://\<close>, and the two parts; the strings are not null.\<close>

fun find_sep :: "string \<Rightarrow> nat option" where
  "find_sep [] = None"
| "find_sep (c # cs) = (if take 3 (c # cs) = ''://'' then Some 0 else map_option Suc (find_sep cs))"

definition parse_uri :: "string \<Rightarrow> errno + string \<times> string" where
  "parse_uri uri =
     (case find_sep uri of
        None \<Rightarrow> Inl EINVAL
      | Some pos \<Rightarrow>
          let protocol = take pos uri; address = drop (pos + 3) uri
          in if protocol = [] \<or> address = [] then Inl EINVAL else Inr (protocol, address))"

text \<open>\<open>openpgm\<close> and \<open>no_ipc\<close>: what the library has been built with and for.\<close>

definition check_protocol :: "bool \<Rightarrow> bool \<Rightarrow> string \<Rightarrow> options \<Rightarrow> rc" where
  "check_protocol openpgm no_ipc protocol os =
     (if protocol \<notin> {''inproc'', ''ipc'', ''tcp'', ''pgm'', ''epgm'', ''sys''} then Err EPROTONOSUPPORT
      else if \<not> openpgm \<and> (protocol = ''pgm'' \<or> protocol = ''epgm'') then Err EPROTONOSUPPORT
      else if no_ipc \<and> protocol = ''ipc'' then Err EPROTONOSUPPORT
      else if (protocol = ''pgm'' \<or> protocol = ''epgm'') \<and>
          o_type os \<notin> {type_code ZMQ_PUB, type_code ZMQ_SUB, type_code ZMQ_XPUB, type_code ZMQ_XSUB} then Err ENOCOMPATPROTO
      else OK)"

text \<open>The high water mark and the swap of a pipe between two sockets of a process.\<close>

definition inproc_hwm :: "options \<Rightarrow> options \<Rightarrow> u64" where
  "inproc_hwm os peer = (if o_hwm os = 0 \<or> o_hwm peer = 0 then 0 else o_hwm os + o_hwm peer)"

definition inproc_swap :: "options \<Rightarrow> options \<Rightarrow> u64" where
  "inproc_swap os peer = (if o_swap os = 0 \<and> o_swap peer = 0 then 0 else o_swap os + o_swap peer)"

section \<open>The state of a socket\<close>

record api =
  ab_this :: addr
  ab_ctx_terminated :: bool
  ab_last_tsc :: u64
  ab_ticks :: u32
  ab_rcvmore :: bool
  ab_options :: options

definition inbound_poll_rate :: u32 where "inbound_poll_rate = 100"
definition max_command_delay :: u64 where "max_command_delay = 3000000"

definition api_new :: "addr \<Rightarrow> options \<Rightarrow> api" where
  "api_new this os = \<lparr>ab_this = this, ab_ctx_terminated = False, ab_last_tsc = 0, ab_ticks = 0, ab_rcvmore = False, ab_options = os\<rparr>"

datatype mail = Mail command | Mail_again | Mail_intr

record 'u api_ops =
  op_xsend :: "msg \<Rightarrow> 'u \<Rightarrow> (rc \<times> msg \<times> 'u) option"
  op_xrecv :: "msg \<Rightarrow> 'u \<Rightarrow> (rc \<times> msg \<times> 'u) option"
  op_xhas_in :: "'u \<Rightarrow> (bool \<times> 'u) option"
  op_xhas_out :: "'u \<Rightarrow> (bool \<times> 'u) option"
  op_xsetsockopt :: "sockopt \<Rightarrow> byte list \<Rightarrow> 'u \<Rightarrow> rc \<times> 'u"
  op_mail :: "int \<Rightarrow> 'u \<Rightarrow> (mail \<times> 'u) option"
  op_command :: "command \<Rightarrow> 'u \<Rightarrow> 'u option"
  op_rdtsc :: "'u \<Rightarrow> u64 \<times> 'u"
  op_now_ms :: "'u \<Rightarrow> u64 \<times> 'u"
  op_writable :: "'u \<Rightarrow> bool"
  op_fd :: u32

section \<open>The processing of commands\<close>

text \<open>A command goes to its destination, which is an object of the same thread; this socket's \<open>stop\<close> is
  \<open>process_stop\<close>.\<close>

definition api_process_stop :: "api \<Rightarrow> api" where
  "api_process_stop s = s\<lparr>ab_ctx_terminated := True\<rparr>"

definition api_command :: "'u api_ops \<Rightarrow> command \<Rightarrow> api \<times> 'u \<Rightarrow> (api \<times> 'u) option" where
  "api_command ops c su =
     (if c = \<lparr>cmd_destination = Some (ab_this (fst su)), cmd_type = Cmd_stop\<rparr> then Some (api_process_stop (fst su), snd su)
      else do { u \<leftarrow> op_command ops c (snd su); Some (fst su, u) })"

text \<open>From the first result of the mailbox on.\<close>

partial_function (option) api_drain :: "'u api_ops \<Rightarrow> mail \<Rightarrow> api \<times> 'u \<Rightarrow> (rc \<times> api \<times> 'u) option" where
  "api_drain ops r su =
     (case r of
        Mail_again \<Rightarrow> Some (if ab_ctx_terminated (fst su) then Err ETERM else OK, su)
      | Mail_intr \<Rightarrow> Some (Err EINTR, su)
      | Mail c \<Rightarrow> do {
          su \<leftarrow> api_command ops c su;
          (r, u) \<leftarrow> op_mail ops 0 (snd su);
          api_drain ops r (fst su, u)
        })"

lemma api_drain_end [simp]:
  "api_drain ops Mail_again su = Some (if ab_ctx_terminated (fst su) then Err ETERM else OK, su)"
  "api_drain ops Mail_intr su = Some (Err EINTR, su)"
  by (subst api_drain.simps, simp)+

definition process_commands :: "'u api_ops \<Rightarrow> int \<Rightarrow> bool \<Rightarrow> api \<times> 'u \<Rightarrow> (rc \<times> api \<times> 'u) option" where
  "process_commands ops timeout throttle su = (
     let s = fst su; u = snd su in
     if timeout \<noteq> 0 then do {
       (r, u) \<leftarrow> op_mail ops timeout u;
       api_drain ops r (s, u)
     }
     else
       let (tsc, u) = op_rdtsc ops u in
       if tsc \<noteq> 0 \<and> throttle \<and> tsc \<ge> ab_last_tsc s \<and> tsc - ab_last_tsc s \<le> max_command_delay then Some (OK, s, u)
       else do {
         let s = (if tsc \<noteq> 0 \<and> throttle then s\<lparr>ab_last_tsc := tsc\<rparr> else s);
         (r, u) \<leftarrow> op_mail ops 0 u;
         api_drain ops r (s, u)
       })"

section \<open>Sending\<close>

definition valid_msg :: "msg \<Rightarrow> bool" where
  "valid_msg m \<longleftrightarrow> m_flags m OR ZMQ_MSG_MASK = 0xff"

definition set_more :: "msg \<Rightarrow> msg" where
  "set_more m = m\<lparr>m_flags := m_flags m OR ZMQ_MSG_MORE\<rparr>"

definition clear_more :: "msg \<Rightarrow> msg" where
  "clear_more m = m\<lparr>m_flags := m_flags m AND NOT ZMQ_MSG_MORE\<rparr>"

text \<open>The time left, an \<open>int\<close>, and the end of the wait.\<close>

definition time_left :: "u64 \<Rightarrow> u64 \<Rightarrow> int" where
  "time_left end_ms now = sint (ucast (end_ms - now) :: u32)"

definition wait_end :: "'u api_ops \<Rightarrow> int \<Rightarrow> 'u \<Rightarrow> u64 \<times> 'u" where
  "wait_end ops timeout u =
     (if timeout < 0 then (0, u) else let (now, u) = op_now_ms ops u in (now + of_int timeout, u))"

text \<open>The loop of a blocking call that cannot go on: wait for a command, then try again.\<close>

partial_function (option) send_wait :: "'u api_ops \<Rightarrow> u64 \<Rightarrow> int \<Rightarrow> msg \<Rightarrow> api \<times> 'u \<Rightarrow> (rc \<times> msg \<times> api \<times> 'u) option" where
  "send_wait ops end_ms timeout m su = do {
     (rc, su) \<leftarrow> process_commands ops timeout False su;
     if rc \<noteq> OK then Some (rc, m, su)
     else do {
       (rc, m, u) \<leftarrow> op_xsend ops m (snd su);
       let su = (fst su, u);
       if rc \<noteq> Err EAGAIN then Some (rc, m, su)
       else if timeout > 0 then
         let (now, u) = op_now_ms ops (snd su); su = (fst su, u); timeout = time_left end_ms now in
         if timeout \<le> 0 then Some (Err EAGAIN, m, su) else send_wait ops end_ms timeout m su
       else send_wait ops end_ms timeout m su
     }
   }"

definition api_send :: "'u api_ops \<Rightarrow> bool \<Rightarrow> bool \<Rightarrow> msg \<Rightarrow> api \<times> 'u \<Rightarrow> (rc \<times> msg \<times> api \<times> 'u) option" where
  "api_send ops sndmore noblock m su =
     (if ab_ctx_terminated (fst su) then Some (Err ETERM, m, su)
      else if \<not> valid_msg m then Some (Err EFAULT, m, su)
      else do {
        (rc, su) \<leftarrow> process_commands ops 0 True su;
        if rc \<noteq> OK then Some (rc, m, su)
        else do {
          let m = (if sndmore then set_more m else m);
          (rc, m, u) \<leftarrow> op_xsend ops m (snd su);
          let su = (fst su, u);
          if rc \<noteq> Err EAGAIN then Some (rc, m, su)
          else
            let timeout = sint (o_sndtimeo (ab_options (fst su))) in
            if noblock \<or> timeout = 0 then Some (Err EAGAIN, m, su)
            else let (end_ms, u) = wait_end ops timeout (snd su) in send_wait ops end_ms timeout m (fst su, u)
        }
      })"

section \<open>Receiving\<close>

text \<open>The flag of a part that others follow is taken off the message and kept in the socket.\<close>

definition take_more :: "msg \<Rightarrow> api \<Rightarrow> msg \<times> api" where
  "take_more m s = (if has_more m then clear_more m else m, s\<lparr>ab_rcvmore := has_more m\<rparr>)"

definition deliver :: "msg \<Rightarrow> api \<times> 'u \<Rightarrow> (rc \<times> msg \<times> api \<times> 'u) option" where
  "deliver m su = (let (m, s) = take_more m (fst su) in Some (OK, m, s, snd su))"

partial_function (option) recv_wait :: "'u api_ops \<Rightarrow> u64 \<Rightarrow> int \<Rightarrow> bool \<Rightarrow> msg \<Rightarrow> api \<times> 'u \<Rightarrow> (rc \<times> msg \<times> api \<times> 'u) option" where
  "recv_wait ops end_ms timeout block m su = do {
     (rc, su) \<leftarrow> process_commands ops (if block then timeout else 0) False su;
     if rc \<noteq> OK then Some (rc, m, su)
     else do {
       (rc, m, u) \<leftarrow> op_xrecv ops m (snd su);
       let su = (fst su, u);
       if rc = OK then deliver m ((fst su)\<lparr>ab_ticks := 0\<rparr>, snd su)
       else if rc \<noteq> Err EAGAIN then Some (rc, m, su)
       else if timeout > 0 then
         let (now, u) = op_now_ms ops (snd su); su = (fst su, u); timeout = time_left end_ms now in
         if timeout \<le> 0 then Some (Err EAGAIN, m, su) else recv_wait ops end_ms timeout True m su
       else recv_wait ops end_ms timeout True m su
     }
   }"

definition api_recv :: "'u api_ops \<Rightarrow> bool \<Rightarrow> msg \<Rightarrow> api \<times> 'u \<Rightarrow> (rc \<times> msg \<times> api \<times> 'u) option" where
  "api_recv ops noblock m su =
     (if ab_ctx_terminated (fst su) then Some (Err ETERM, m, su)
      else if \<not> valid_msg m then Some (Err EFAULT, m, su)
      else do {
        (rc, m, u) \<leftarrow> op_xrecv ops m (snd su);
        let su = (fst su, u);
        if rc \<noteq> OK \<and> rc \<noteq> Err EAGAIN then Some (rc, m, su)
        else do {
          let s = (fst su)\<lparr>ab_ticks := ab_ticks (fst su) + 1\<rparr>;
          (pc, su) \<leftarrow> (if ab_ticks s = inbound_poll_rate then do {
              (pc, su) \<leftarrow> process_commands ops 0 False (s, snd su);
              Some (pc, if pc = OK then (fst su)\<lparr>ab_ticks := 0\<rparr> else fst su, snd su)
            }
            else Some (OK, s, snd su));
          if pc \<noteq> OK then Some (pc, m, su)
          else if rc = OK then deliver m su
          else
            let timeout = sint (o_rcvtimeo (ab_options (fst su))) in
            if noblock \<or> timeout = 0 then do {
              (pc, su) \<leftarrow> process_commands ops 0 False su;
              if pc \<noteq> OK then Some (pc, m, su)
              else do {
                let s = (fst su)\<lparr>ab_ticks := 0\<rparr>;
                (rc, m, u) \<leftarrow> op_xrecv ops m (snd su);
                if rc = OK then deliver m (s, u) else Some (rc, m, s, u)
              }
            }
            else
              let (end_ms, u) = wait_end ops timeout (snd su) in
              recv_wait ops end_ms timeout (ab_ticks (fst su) \<noteq> 0) m (fst su, u)
        }
      })"

section \<open>Options\<close>

definition api_setsockopt :: "'u api_ops \<Rightarrow> sockopt \<Rightarrow> byte list \<Rightarrow> api \<times> 'u \<Rightarrow> rc \<times> api \<times> 'u" where
  "api_setsockopt ops opt v su =
     (if ab_ctx_terminated (fst su) then (Err ETERM, su)
      else
        let (rc, u) = op_xsetsockopt ops opt v (snd su) in
        if rc \<noteq> Err EINVAL then (rc, fst su, u)
        else let (rc, os) = setsockopt (op_writable ops u) opt v (ab_options (fst su)) in
          (rc, (fst su)\<lparr>ab_options := os\<rparr>, u))"

definition ZMQ_POLLIN :: u32 where "ZMQ_POLLIN = 1"
definition ZMQ_POLLOUT :: u32 where "ZMQ_POLLOUT = 2"

definition api_getsockopt :: "'u api_ops \<Rightarrow> sockopt \<Rightarrow> byte list \<Rightarrow> api \<times> 'u \<Rightarrow> ((rc \<times> byte list \<times> nat) \<times> api \<times> 'u) option" where
  "api_getsockopt ops opt buf su =
     (if ab_ctx_terminated (fst su) then Some ((Err ETERM, buf, length buf), su)
      else if opt = ZMQ_RCVMORE then Some (give (store64 (if ab_rcvmore (fst su) then 1 else 0)) buf, su)
      else if opt = ZMQ_FD then Some (give (store32 (op_fd ops)) buf, su)
      else if opt = ZMQ_EVENTS then
        (if length buf < 4 then Some ((Err EINVAL, buf, length buf), su)
         else do {
           (rc, su) \<leftarrow> process_commands ops 0 False su;
           if rc = Err EINTR \<or> rc = Err ETERM then Some ((rc, buf, length buf), su)
           else do {
             zmq_assert (rc = OK);
             (hout, u) \<leftarrow> op_xhas_out ops (snd su);
             (hin, u) \<leftarrow> op_xhas_in ops u;
             Some (give (store32 ((if hout then ZMQ_POLLOUT else 0) OR (if hin then ZMQ_POLLIN else 0))) buf, fst su, u)
           }
         })
      else Some (getsockopt opt buf (ab_options (fst su)), su))"

section \<open>Binding\<close>

text \<open>\<open>bind\<close>: \<open>listen\<close> makes a listener in the I/O thread given, and \<open>connect_to\<close> is \<open>connect\<close>, to which
  the multicast protocols are passed on.\<close>

definition api_bind :: "bool \<Rightarrow> bool \<Rightarrow> u32 list \<Rightarrow> (nat \<Rightarrow> string \<Rightarrow> string \<Rightarrow> 'u \<Rightarrow> (rc \<times> 'u) option) \<Rightarrow>
    (string \<Rightarrow> api \<times> ctx \<times> 'u \<Rightarrow> (rc \<times> api \<times> ctx \<times> 'u) option) \<Rightarrow> string \<Rightarrow> api \<times> ctx \<times> 'u \<Rightarrow> (rc \<times> api \<times> ctx \<times> 'u) option" where
  "api_bind openpgm no_ipc loads listen connect_to addr scu = (
     let (s, c, u) = scu in
     if ab_ctx_terminated s then Some (Err ETERM, scu)
     else case parse_uri addr of
       Inl e \<Rightarrow> Some (Err e, scu)
     | Inr (protocol, address) \<Rightarrow>
         if check_protocol openpgm no_ipc protocol (ab_options s) \<noteq> OK
         then Some (check_protocol openpgm no_ipc protocol (ab_options s), scu)
         else if protocol = ''inproc'' \<or> protocol = ''sys'' then
           let (rc, c) = register_endpoint addr \<lparr>en_socket = ab_this s, en_options = ab_options s\<rparr> c in Some (rc, s, c, u)
         else if protocol = ''tcp'' \<or> protocol = ''ipc'' then do {
           t \<leftarrow> choose_io_thread (o_affinity (ab_options s)) loads;
           case t of
             None \<Rightarrow> Some (Err EMTHREAD, scu)
           | Some i \<Rightarrow> do { (rc, u) \<leftarrow> listen i protocol address u; Some (rc, s, c, u) }
         }
         else if protocol = ''pgm'' \<or> protocol = ''epgm'' then connect_to addr scu
         else None)"

section \<open>Named sessions\<close>

type_synonym sessions = "blob \<rightharpoonup> addr"

definition register_session :: "blob \<Rightarrow> addr \<Rightarrow> sessions \<Rightarrow> bool \<times> sessions" where
  "register_session name a ss = (if ss name = None then (True, ss(name \<mapsto> a)) else (False, ss))"

definition unregister_session :: "blob \<Rightarrow> sessions \<Rightarrow> sessions option" where
  "unregister_session name ss = do { zmq_assert (ss name \<noteq> None); Some (ss(name := None)) }"

definition find_session :: "blob \<Rightarrow> sessions \<Rightarrow> world \<Rightarrow> (addr option \<times> world) option" where
  "find_session name ss w =
     (case ss name of None \<Rightarrow> Some (None, w) | Some a \<Rightarrow> do { w \<leftarrow> inc_seqnum a w; Some (Some a, w) })"


section \<open>Addresses are split at the first separator\<close>

lemma find_sep_Some:
  "find_sep u = Some n \<longleftrightarrow> take 3 (drop n u) = ''://'' \<and> (\<forall>i < n. take 3 (drop i u) \<noteq> ''://'')"
proof (induction u arbitrary: n)
  case (Cons c cs)
  show ?case
  proof (cases "take 3 (c # cs) = ''://''")
    case True
    then have "find_sep (c # cs) = Some 0" by (subst find_sep.simps) (rule if_P)
    then show ?thesis using True by (cases n) (auto simp del: find_sep.simps)
  next
    case False
    then have f: "find_sep (c # cs) = map_option Suc (find_sep cs)" by (subst find_sep.simps) (rule if_not_P)
    show ?thesis
    proof (cases n)
      case 0
      then show ?thesis using False f by (simp del: find_sep.simps)
    next
      case (Suc m)
      have all: "(\<forall>i < Suc m. P i) \<longleftrightarrow> P 0 \<and> (\<forall>i < m. P (Suc i))" for P using less_Suc_eq_0_disj by auto
      have "find_sep (c # cs) = Some n \<longleftrightarrow> find_sep cs = Some m" using f Suc by (simp del: find_sep.simps)
      then show ?thesis using Cons.IH [of m] False unfolding Suc all by simp
    qed
  qed
qed simp

text \<open>C30 (roundtrip).  \<open>parse_uri\<close> accepts exactly the strings protocol://address with both parts
  nonempty, and splits them at the first separator: the parts put together again are the string.\<close>

theorem parse_uri_splits:
  "parse_uri u = Inr (p, a) \<longleftrightarrow>
     u = p @ ''://'' @ a \<and> p \<noteq> [] \<and> a \<noteq> [] \<and> (\<forall>i < length p. take 3 (drop i u) \<noteq> ''://'')"
proof
  assume "parse_uri u = Inr (p, a)"
  then obtain n where n: "find_sep u = Some n" "p = take n u" "a = drop (n + 3) u" "p \<noteq> []" "a \<noteq> []"
    by (auto simp: parse_uri_def Let_def split: option.splits if_splits)
  then have t: "take 3 (drop n u) = ''://''" "\<forall>i < n. take 3 (drop i u) \<noteq> ''://''" using find_sep_Some by blast+
  have "drop n u = ''://'' @ a"
    using append_take_drop_id [of 3 "drop n u"] unfolding t(1) n(3) by (simp add: add.commute)
  then have "u = p @ ''://'' @ a" using append_take_drop_id [of n u] n(2) by simp
  moreover have "length p \<le> n" using n(2) by simp
  ultimately show "u = p @ ''://'' @ a \<and> p \<noteq> [] \<and> a \<noteq> [] \<and> (\<forall>i < length p. take 3 (drop i u) \<noteq> ''://'')" using t n by auto
next
  assume a: "u = p @ ''://'' @ a \<and> p \<noteq> [] \<and> a \<noteq> [] \<and> (\<forall>i < length p. take 3 (drop i u) \<noteq> ''://'')"
  then have "take 3 (drop (length p) u) = ''://''" by simp
  then have "find_sep u = Some (length p)" using a find_sep_Some by blast
  then show "parse_uri u = Inr (p, a)" using a by (simp add: parse_uri_def)
qed

lemma parse_uri_splits_witness: "parse_uri ''ipc://a'' = Inr (''ipc'', ''a'')"
proof -
  have "\<forall>i < length ''ipc''. take 3 (drop i ''ipc://a'') \<noteq> ''://''"
    by (auto simp: less_Suc_eq numeral_3_eq_3)
  then show ?thesis unfolding parse_uri_splits by simp
qed

section \<open>What processing commands changes\<close>

text \<open>All of the socket but the mark that the context is terminating and the time of the last check.\<close>

definition same_api :: "api \<Rightarrow> api \<Rightarrow> bool" where
  "same_api s s' \<longleftrightarrow> (\<exists>b t. s' = s\<lparr>ab_ctx_terminated := b, ab_last_tsc := t\<rparr> \<and> (ab_ctx_terminated s \<longrightarrow> b))"

lemma same_api_refl [simp]: "same_api s s"
  by (auto simp: same_api_def intro!: exI [of _ "ab_ctx_terminated s"] exI [of _ "ab_last_tsc s"])

lemma same_apiD:
  "same_api s s' \<Longrightarrow> ab_ticks s' = ab_ticks s \<and> ab_rcvmore s' = ab_rcvmore s \<and> ab_options s' = ab_options s \<and> ab_this s' = ab_this s"
  by (auto simp: same_api_def)

lemma same_api_trans: "same_api s t \<Longrightarrow> same_api t u \<Longrightarrow> same_api s u"
  by (fastforce simp: same_api_def)

lemma same_api_stop: "same_api s (api_process_stop s)"
  by (auto simp: api_process_stop_def same_api_def intro!: exI [of _ True] exI [of _ "ab_last_tsc s"])

lemma command_same: "api_command ops c su = Some su' \<Longrightarrow> same_api (fst su) (fst su')"
  by (auto simp: api_command_def same_api_stop split: if_splits Option.bind_splits)

definition commands_done :: "api \<Rightarrow> rc \<Rightarrow> api \<Rightarrow> bool" where
  "commands_done s rc s' \<longleftrightarrow> same_api s s' \<and> (rc = OK \<or> rc = Err EINTR \<or> rc = Err ETERM) \<and>
     (rc = Err ETERM \<longrightarrow> ab_ctx_terminated s')"

lemma drain_done:
  assumes "api_drain ops r su = Some y"
  shows "commands_done (fst su) (fst y) (fst (snd y))"
proof (induction rule: api_drain.raw_induct [OF _ assms])
  case (1 drain ops r su y)
  show ?case
  proof (cases r)
    case (Mail c)
    then obtain su1 r1 u1 where c: "api_command ops c su = Some su1" "op_mail ops 0 (snd su1) = Some (r1, u1)"
      "drain ops r1 (fst su1, u1) = Some y" using 1(2) by (auto split: Option.bind_splits)
    have "commands_done (fst su1) (fst y) (fst (snd y))" using 1(1) [OF c(3)] by simp
    then show ?thesis using same_api_trans [OF command_same [OF c(1)]] by (auto simp: commands_done_def)
  next
    case Mail_again
    then show ?thesis using 1(2) by (auto simp: commands_done_def split: if_splits)
  next
    case Mail_intr
    then show ?thesis using 1(2) by (auto simp: commands_done_def)
  qed
qed

lemma same_api_tsc: "same_api s (s\<lparr>ab_last_tsc := t\<rparr>)"
  by (auto simp: same_api_def intro!: exI [of _ "ab_ctx_terminated s"] exI [of _ t])

lemma drain_terminated:
  assumes "api_drain ops r su = Some y"
  shows "ab_ctx_terminated (fst su) \<longrightarrow> fst y \<noteq> OK"
proof (induction rule: api_drain.raw_induct [OF _ assms])
  case (1 drain ops r su y)
  show ?case
  proof (cases r)
    case (Mail c)
    then obtain su1 r1 u1 where c: "api_command ops c su = Some su1" "op_mail ops 0 (snd su1) = Some (r1, u1)"
      "drain ops r1 (fst su1, u1) = Some y" using 1(2) by (auto split: Option.bind_splits)
    then show ?thesis using 1(1) [OF c(3)] command_same [OF c(1)] by (auto simp: same_api_def)
  qed (use 1(2) in auto)
qed

lemma process_cases:
  assumes "process_commands ops timeout throttle su = Some (rc, su')"
  shows "(\<exists>s r u. same_api (fst su) s \<and> api_drain ops r (s, u) = Some (rc, su')) \<or> (rc = OK \<and> fst su' = fst su)"
proof (cases "timeout = 0")
  case False
  then show ?thesis using assms by (auto simp: process_commands_def Let_def split: Option.bind_splits)
next
  case True
  obtain tsc u where u: "op_rdtsc ops (snd su) = (tsc, u)" by fastforce
  define s where "s = (if tsc \<noteq> 0 \<and> throttle then (fst su)\<lparr>ab_last_tsc := tsc\<rparr> else fst su)"
  have s: "same_api (fst su) s" by (simp add: s_def same_api_tsc)
  show ?thesis
  proof (cases "tsc \<noteq> 0 \<and> throttle \<and> tsc \<ge> ab_last_tsc (fst su) \<and> tsc - ab_last_tsc (fst su) \<le> max_command_delay")
    case c: True
    then show ?thesis using assms True u by (simp add: process_commands_def Let_def) auto
  next
    case False
    then have "do { (r, u) \<leftarrow> op_mail ops 0 u; api_drain ops r (s, u) } = Some (rc, su')"
      using assms True u unfolding process_commands_def Let_def s_def by (simp only: simp_thms prod.case if_False split: if_splits)
    then show ?thesis using s by (auto split: Option.bind_splits)
  qed
qed

lemma process_done:
  assumes "process_commands ops timeout throttle su = Some (rc, su')"
  shows "same_api (fst su) (fst su')" and "rc = OK \<or> rc = Err EINTR \<or> rc = Err ETERM" and "rc = Err ETERM \<longrightarrow> ab_ctx_terminated (fst su')"
proof -
  consider s r u where "same_api (fst su) s" "api_drain ops r (s, u) = Some (rc, su')" | "rc = OK" "fst su' = fst su"
    using process_cases [OF assms] by blast
  then have "\<exists>s. same_api (fst su) s \<and> commands_done s rc (fst su')"
  proof cases
    case 1
    then show ?thesis using drain_done [OF 1(2)] by auto
  next
    case 2
    then show ?thesis by (auto simp: commands_done_def intro!: exI [of _ "fst su"])
  qed
  then show "same_api (fst su) (fst su')" "rc = OK \<or> rc = Err EINTR \<or> rc = Err ETERM" "rc = Err ETERM \<longrightarrow> ab_ctx_terminated (fst su')"
    using same_api_trans by (auto simp: commands_done_def)
qed

section \<open>Blocking calls\<close>

lemma send_wait_result:
  assumes "send_wait ops e timeout m su = Some y"
  shows "timeout < 0 \<longrightarrow> fst y \<noteq> Err EAGAIN"
proof (induction rule: send_wait.raw_induct [OF _ assms])
  case (1 wait ops e timeout m su y)
  obtain rc su1 where p: "process_commands ops timeout False su = Some (rc, su1)"
    using 1(2) by (auto split: Option.bind_splits)
  show ?case
  proof (cases "rc = OK")
    case False
    then show ?thesis using 1(2) p process_done(2) [OF p] by auto
  next
    case True
    obtain rc2 m2 u2 where x: "op_xsend ops m (snd su1) = Some (rc2, m2, u2)"
      using 1(2) p True by (auto split: Option.bind_splits)
    show ?thesis
    proof (cases "rc2 = Err EAGAIN")
      case eagain: True
      show ?thesis
      proof
        assume t: "timeout < 0"
        then have "wait ops e timeout m2 (fst su1, u2) = Some y" using 1(2) p True x eagain by (simp add: Let_def)
        from 1(1) [OF this] t show "fst y \<noteq> Err EAGAIN" by simp
      qed
    next
      case False
      then show ?thesis using 1(2) p True x by (auto simp: Let_def)
    qed
  qed
qed

text \<open>What is delivered: the message \<open>xrecv\<close> returned, its flag taken off and kept.\<close>

definition delivered :: "'u api_ops \<Rightarrow> msg \<Rightarrow> api \<Rightarrow> bool" where
  "delivered ops m s \<longleftrightarrow> (\<exists>m0 u0 x u1. op_xrecv ops m0 u0 = Some (OK, x, u1) \<and> m_body m = m_body x \<and>
     \<not> has_more m \<and> ab_rcvmore s = has_more x)"

lemma clear_more_not [simp]: "\<not> has_more (clear_more m)" "m_body (clear_more m) = m_body m"
  by (simp_all add: has_more_def clear_more_def ac_simps flip: and.assoc)

lemma deliver_delivered:
  assumes "op_xrecv ops m0 u0 = Some (OK, x, u1)" and "deliver x su = Some y"
  shows "delivered ops (fst (snd y)) (fst (snd (snd y)))" and "fst y = OK"
proof -
  obtain m s where m: "take_more x (fst su) = (m, s)" by fastforce
  then have y: "y = (OK, m, s, snd su)" using assms(2) by (simp add: deliver_def)
  have "m_body m = m_body x \<and> \<not> has_more m \<and> ab_rcvmore s = has_more x" using m by (auto simp: take_more_def split: if_splits)
  then show "delivered ops (fst (snd y)) (fst (snd (snd y)))" using assms(1) y unfolding delivered_def y fst_conv snd_conv by blast
  show "fst y = OK" using y by simp
qed

lemma recv_wait_result:
  assumes "recv_wait ops e timeout block m su = Some y"
  shows "(timeout < 0 \<longrightarrow> fst y \<noteq> Err EAGAIN) \<and> (fst y = OK \<longrightarrow> delivered ops (fst (snd y)) (fst (snd (snd y))))"
proof (induction rule: recv_wait.raw_induct [OF _ assms])
  case (1 wait ops e timeout block m su y)
  obtain rc su1 where p: "process_commands ops (if block then timeout else 0) False su = Some (rc, su1)"
    using 1(2) by (auto split: Option.bind_splits)
  show ?case
  proof (cases "rc = OK")
    case False
    then show ?thesis using 1(2) p process_done(2) [OF p] by auto
  next
    case True
    obtain rc2 m2 u2 where x: "op_xrecv ops m (snd su1) = Some (rc2, m2, u2)"
      using 1(2) p True by (auto split: Option.bind_splits)
    show ?thesis
    proof (cases "rc2 = OK")
      case ok: True
      then have "deliver m2 ((fst su1)\<lparr>ab_ticks := 0\<rparr>, u2) = Some y" using 1(2) p True x by (simp add: Let_def)
      from deliver_delivered [OF x [unfolded ok] this] show ?thesis by simp
    next
      case False
      then show ?thesis using 1(2) p True x 1(1)
        by (auto simp: Let_def split: if_splits prod.splits dest: 1(1))
    qed
  qed
qed

text \<open>What \<open>api_recv\<close> comes to.\<close>

lemma recv_result:
  assumes r: "api_recv ops noblock m su = Some y"
  shows "(\<not> noblock \<and> sint (o_rcvtimeo (ab_options (fst su))) < 0 \<longrightarrow> fst y \<noteq> Err EAGAIN) \<and>
    (fst y = OK \<longrightarrow> delivered ops (fst (snd y)) (fst (snd (snd y))))"
proof (cases "ab_ctx_terminated (fst su) \<or> \<not> valid_msg m")
  case True
  then show ?thesis using r by (auto simp: api_recv_def split: if_splits)
next
  case False
  obtain rc x u where x: "op_xrecv ops m (snd su) = Some (rc, x, u)" using r False by (auto simp: api_recv_def split: Option.bind_splits)
  show ?thesis
  proof (cases "rc \<noteq> OK \<and> rc \<noteq> Err EAGAIN")
    case True
    then show ?thesis using r False x by (auto simp: api_recv_def)
  next
    case rc: False
    let ?s = "(fst su)\<lparr>ab_ticks := ab_ticks (fst su) + 1\<rparr>"
    obtain pc s1 u1 where p: "(if ab_ticks ?s = inbound_poll_rate then do {
              (pc, su) \<leftarrow> process_commands ops 0 False (?s, u);
              Some (pc, if pc = OK then (fst su)\<lparr>ab_ticks := 0\<rparr> else fst su, snd su)
            }
            else Some (OK, ?s, u)) = Some (pc, s1, u1)"
      and rest: "(if pc \<noteq> OK then Some (pc, x, s1, u1)
          else if rc = OK then deliver x (s1, u1)
          else
            let timeout = sint (o_rcvtimeo (ab_options s1)) in
            if noblock \<or> timeout = 0 then do {
              (pc, su) \<leftarrow> process_commands ops 0 False (s1, u1);
              if pc \<noteq> OK then Some (pc, x, su)
              else do {
                let s = (fst su)\<lparr>ab_ticks := 0\<rparr>;
                (rc, m, u) \<leftarrow> op_xrecv ops x (snd su);
                if rc = OK then deliver m (s, u) else Some (rc, m, s, u)
              }
            }
            else
              let (end_ms, u) = wait_end ops timeout u1 in
              recv_wait ops end_ms timeout (ab_ticks s1 \<noteq> 0) x (s1, u)) = Some y"
      using r False x rc by (auto simp: api_recv_def Let_def split: Option.bind_splits if_splits)
    have opts: "ab_options s1 = ab_options (fst su)" and pc: "pc = OK \<or> pc = Err EINTR \<or> pc = Err ETERM"
    proof -
      have "ab_options s1 = ab_options (fst su) \<and> (pc = OK \<or> pc = Err EINTR \<or> pc = Err ETERM)"
      proof (cases "ab_ticks ?s = inbound_poll_rate")
        case True
        then obtain su2 where c: "process_commands ops 0 False (?s, u) = Some (pc, su2)"
          and s1: "s1 = (if pc = OK then (fst su2)\<lparr>ab_ticks := 0\<rparr> else fst su2)" using p by (auto split: Option.bind_splits)
        show ?thesis using same_apiD [OF process_done(1) [OF c]] process_done(2) [OF c] s1 by simp
      next
        case False
        then show ?thesis using p by auto
      qed
      then show "ab_options s1 = ab_options (fst su)" "pc = OK \<or> pc = Err EINTR \<or> pc = Err ETERM" by blast+
    qed
    consider "pc \<noteq> OK" | "pc = OK" "rc = OK" | "pc = OK" "rc = Err EAGAIN" using rc by blast
    then show ?thesis
    proof cases
      case 1
      then show ?thesis using rest pc by auto
    next
      case 2
      then have "deliver x (s1, u1) = Some y" using rest by simp
      from deliver_delivered [OF x [unfolded 2] this] show ?thesis by simp
    next
      case 3
      show ?thesis
      proof (cases "noblock \<or> sint (o_rcvtimeo (ab_options s1)) = 0")
        case True
        then obtain pc2 su2 where p2: "process_commands ops 0 False (s1, u1) = Some (pc2, su2)"
          and rest2: "(if pc2 \<noteq> OK then Some (pc2, x, su2)
              else do {
                let s = (fst su2)\<lparr>ab_ticks := 0\<rparr>;
                (rc, m, u) \<leftarrow> op_xrecv ops x (snd su2);
                if rc = OK then deliver m (s, u) else Some (rc, m, s, u)
              }) = Some y"
          using rest 3 by (auto simp: Let_def split: Option.bind_splits)
        have "fst y = OK \<longrightarrow> delivered ops (fst (snd y)) (fst (snd (snd y)))"
        proof
          assume "fst y = OK"
          then obtain x2 u2 where "op_xrecv ops x (snd su2) = Some (OK, x2, u2)" "deliver x2 ((fst su2)\<lparr>ab_ticks := 0\<rparr>, u2) = Some y"
            using rest2 by (auto simp: Let_def split: if_splits Option.bind_splits)
          then show "delivered ops (fst (snd y)) (fst (snd (snd y)))" by (rule deliver_delivered(1))
        qed
        then show ?thesis using True opts by auto
      next
        case False
        then obtain e u2 where "recv_wait ops e (sint (o_rcvtimeo (ab_options s1))) (ab_ticks s1 \<noteq> 0) x (s1, u2) = Some y"
          using rest 3 by (auto simp: Let_def split: prod.splits)
        from recv_wait_result [OF this] show ?thesis using opts by simp
      qed
    qed
  qed
qed

lemma send_result:
  assumes r: "api_send ops sndmore noblock m su = Some y" and "\<not> noblock" and t: "sint (o_sndtimeo (ab_options (fst su))) < 0"
  shows "fst y \<noteq> Err EAGAIN"
proof (cases "ab_ctx_terminated (fst su) \<or> \<not> valid_msg m")
  case True
  then show ?thesis using r by (auto simp: api_send_def split: if_splits)
next
  case False
  obtain rc su1 where p: "process_commands ops 0 True su = Some (rc, su1)" using r False by (auto simp: api_send_def split: Option.bind_splits)
  have o: "ab_options (fst su1) = ab_options (fst su)" using same_apiD [OF process_done(1) [OF p]] by simp
  show ?thesis
  proof (cases "rc = OK")
    case False
    then show ?thesis using r \<open>\<not> (ab_ctx_terminated (fst su) \<or> \<not> valid_msg m)\<close> p process_done(2) [OF p] by (auto simp: api_send_def)
  next
    case True
    let ?m = "if sndmore then set_more m else m"
    obtain rc2 m2 u2 where x: "op_xsend ops ?m (snd su1) = Some (rc2, m2, u2)"
      using r False p True by (auto simp: api_send_def Let_def split: Option.bind_splits)
    show ?thesis
    proof (cases "rc2 = Err EAGAIN")
      case eagain: True
      have "\<exists>e u3. send_wait ops e (sint (o_sndtimeo (ab_options (fst su1)))) m2 (fst su1, u3) = Some y"
        using r False p True x eagain assms(2) t o by (auto simp: api_send_def Let_def split: prod.splits)
      then show ?thesis using send_wait_result t o by fastforce
    next
      case False
      then show ?thesis using r \<open>\<not> (ab_ctx_terminated (fst su) \<or> \<not> valid_msg m)\<close> p True x by (auto simp: api_send_def Let_def)
    qed
  qed
qed

text \<open>C23 (error).  With infinite timeouts (negative ZMQ_SNDTIMEO and ZMQ_RCVTIMEO, as by default) a call
  without ZMQ_NOBLOCK never reports that it would block: neither zmq_send nor zmq_recv returns EAGAIN,
  whatever the commands that arrive, and however often a command wakes the caller in vain.  (With a
  timeout EAGAIN is what reports its end.)\<close>

theorem api_blocking:
  assumes "sint (o_sndtimeo (ab_options (fst su))) < 0" and "sint (o_rcvtimeo (ab_options (fst su))) < 0"
  shows "(\<forall>y. api_send ops sndmore False m su = Some y \<longrightarrow> fst y \<noteq> Err EAGAIN) \<and>
    (\<forall>y. api_recv ops False m su = Some y \<longrightarrow> fst y \<noteq> Err EAGAIN)"
  using send_result assms recv_result by blast

text \<open>C24 (functional).  What zmq_recv delivers, blocking or not, is a message that the socket type has
  received, without the flag that says that parts follow, and the option ZMQ_RCVMORE says afterwards
  whether that flag was set.\<close>

theorem api_recv_delivers:
  assumes "api_recv ops noblock m su = Some (OK, m', s', u')"
  shows "\<exists>m0 u0 x u1. op_xrecv ops m0 u0 = Some (OK, x, u1) \<and> m_body m' = m_body x \<and> \<not> has_more m' \<and>
    ab_rcvmore s' = has_more x"
  using recv_result [OF assms] by (simp add: delivered_def)

text \<open>After zmq_term every call on a socket fails with ETERM and touches nothing, neither the
  socket nor its pipes nor the context; and a thread that is in a call and gets the command stop
  returns from the processing of commands with ETERM (or with EINTR, when a signal comes first).\<close>

theorem api_terminated:
  assumes "ab_ctx_terminated s"
  shows "api_send ops sndmore noblock m (s, u) = Some (Err ETERM, m, s, u) \<and>
    api_recv ops noblock m (s, u) = Some (Err ETERM, m, s, u) \<and>
    api_setsockopt ops opt v (s, u) = (Err ETERM, s, u) \<and>
    api_getsockopt ops opt v (s, u) = Some ((Err ETERM, v, length v), s, u) \<and>
    api_bind openpgm no_ipc loads listen connect_to uri (s, c, u) = Some (Err ETERM, s, c, u) \<and>
    (\<forall>t rc t'. api_drain ops (Mail (command_to (ab_this (fst t)) Cmd_stop)) t = Some (rc, t') \<longrightarrow>
       (rc = Err ETERM \<or> rc = Err EINTR) \<and> ab_ctx_terminated (fst t'))"
proof -
  have "(rc = Err ETERM \<or> rc = Err EINTR) \<and> ab_ctx_terminated (fst t')"
    if d: "api_drain ops (Mail (command_to (ab_this (fst t)) Cmd_stop)) t = Some (rc, t')" for t rc t'
  proof -
    obtain r u1 where d1: "api_drain ops r (api_process_stop (fst t), u1) = Some (rc, t')"
      using d by (subst (asm) api_drain.simps) (auto simp: api_command_def split: Option.bind_splits)
    have st: "ab_ctx_terminated (api_process_stop (fst t))" by (simp add: api_process_stop_def)
    have "same_api (api_process_stop (fst t)) (fst t')" and rc: "rc = OK \<or> rc = Err EINTR \<or> rc = Err ETERM"
      using drain_done [OF d1] by (simp_all add: commands_done_def)
    then have "ab_ctx_terminated (fst t')" using st by (auto simp: same_api_def)
    moreover have "rc \<noteq> OK" using drain_terminated [OF d1] st by simp
    ultimately show ?thesis using rc by blast
  qed
  then show ?thesis using assms
    by (simp add: api_send_def api_recv_def api_setsockopt_def api_getsockopt_def api_bind_def)
qed

text \<open>C31 (safety).  A defect: zmq_recv checks for commands at every hundredth message only after it has
  taken the message from the pipe; when the check is interrupted (or finds that the context is being
  terminated) the call fails and the message is lost.  The counter stays at 100, and as long as
  there are messages no later call checks for commands any more.\<close>

theorem api_recv_loses_message:
  assumes "\<not> ab_ctx_terminated s" and "valid_msg m" and "ab_ticks s = 99"
    and "op_xrecv ops m u = Some (OK, x, u1)"
    and "process_commands ops 0 False (s\<lparr>ab_ticks := 100\<rparr>, u1) = Some (Err e, s2, u2)"
  shows "api_recv ops noblock m (s, u) = Some (Err e, x, s2, u2) \<and> ab_ticks s2 = 100 \<and>
    (\<forall>t m' x' u3. \<not> ab_ctx_terminated t \<and> 100 \<le> ab_ticks t \<and> ab_ticks t < - 1 \<and> valid_msg m' \<and>
        op_xrecv ops m' u2 = Some (OK, x', u3) \<longrightarrow>
      api_recv ops noblock m' (t, u2) = deliver x' (t\<lparr>ab_ticks := ab_ticks t + 1\<rparr>, u3))"
proof -
  have "api_recv ops noblock m (s, u) = Some (Err e, x, s2, u2)"
    using assms by (simp add: api_recv_def inbound_poll_rate_def)
  moreover have "ab_ticks s2 = 100" using same_apiD [OF process_done(1) [OF assms(5)]] by simp
  moreover have "ab_ticks t + 1 \<noteq> 100" if "100 \<le> ab_ticks t" "ab_ticks t < - 1" for t
  proof
    assume "ab_ticks t + 1 = 100"
    then have "ab_ticks t + 1 - 1 = 100 - 1" by (rule arg_cong)
    then have "ab_ticks t = 99" by simp
    then show False using that(1) by simp
  qed
  ultimately show ?thesis by (simp add: api_recv_def inbound_poll_rate_def Let_def)
qed

text \<open>A defect: zmq_send sets the flag of a part that others follow in the message of the caller, and
  leaves it there when it fails: the caller who tries again with the same message sends it with the
  flag, whether it asks for it or not.\<close>

lemma has_more_set [simp]: "has_more (set_more m)"
  by (simp add: has_more_def set_more_def ZMQ_MSG_MORE_def ac_simps bit.conj_disj_distrib)

lemma api_send_leaves_more:
  assumes "\<And>m u m' u'. op_xsend ops m u = Some (Err EAGAIN, m', u') \<Longrightarrow> m' = m"
    and "api_send ops True True m su = Some (Err EAGAIN, m', su')"
  shows "has_more m'"
  using assms(2) by (auto simp: api_send_def Let_def split: Option.bind_splits if_splits dest!: assms(1) process_done(2))

section \<open>Examples\<close>

text \<open>The outside: results of the mailbox and the messages that can be received; a command brings the
  message \<open>x\<close>.\<close>

type_synonym demo_out = "mail list \<times> msg list"

definition demo_part :: msg where "demo_part = \<lparr>m_body = Data [7], m_flags = 0x7f\<rparr>"
definition demo_more :: msg where "demo_more = set_more demo_part"

definition demo_api_ops :: "demo_out api_ops" where
  "demo_api_ops = \<lparr>op_xsend = (\<lambda>m u. Some (Err EAGAIN, m, u)),
     op_xrecv = (\<lambda>m (ml, q). Some (case q of [] \<Rightarrow> (Err EAGAIN, m, (ml, q)) | x # q \<Rightarrow> (OK, x, (ml, q)))),
     op_xhas_in = (\<lambda>u. Some (snd u \<noteq> [], u)), op_xhas_out = (\<lambda>u. Some (False, u)), op_xsetsockopt = (\<lambda>_ _ u. (Err EINVAL, u)),
     op_mail = (\<lambda>_ (ml, q). Some (case ml of [] \<Rightarrow> (Mail_again, (ml, q)) | r # ml \<Rightarrow> (r, (ml, q)))),
     op_command = (\<lambda>c (ml, q). Some (ml, q @ [demo_more])), op_rdtsc = (\<lambda>u. (0, u)), op_now_ms = (\<lambda>u. (0, u)),
     op_writable = (\<lambda>_. True), op_fd = 5\<rparr>"

definition demo_api :: "u32 \<Rightarrow> api" where
  "demo_api ticks = (api_new 1 options_new)\<lparr>ab_ticks := ticks\<rparr>"

definition demo_mail :: mail where "demo_mail = Mail (command_to 2 Cmd_activate_reader)"

text \<open>The caller waits, is woken up by a command, and receives the message it brought.\<close>

lemmas demo_defs = demo_api_ops_def demo_api_def demo_mail_def demo_part_def demo_more_def api_new_def options_new_def

lemma demo_process:
  "process_commands demo_api_ops (- 1) False (demo_api 4, ([demo_mail], [])) = Some (OK, demo_api 4, ([], [demo_more]))"
proof -
  have c: "api_command demo_api_ops (command_to 2 Cmd_activate_reader) (demo_api 4, ([], [])) = Some (demo_api 4, ([], [demo_more]))"
    by (simp add: api_command_def) (simp add: demo_api_ops_def)
  have m: "op_mail demo_api_ops 0 ([], [demo_more]) = Some (Mail_again, ([], [demo_more]))" by (simp add: demo_api_ops_def)
  have t: "\<not> ab_ctx_terminated (demo_api 4)" by (simp add: demo_api_def api_new_def)
  have "api_drain demo_api_ops demo_mail (demo_api 4, ([], [])) = Some (OK, demo_api 4, ([], [demo_more]))"
    unfolding demo_mail_def by (subst api_drain.simps) (simp add: c m t)
  moreover have "op_mail demo_api_ops (- 1) ([demo_mail], []) = Some (demo_mail, ([], []))" by (simp add: demo_api_ops_def)
  ultimately show ?thesis by (simp add: process_commands_def Let_def)
qed

lemma api_blocking_witness:
  "\<exists>y. api_recv demo_api_ops False empty_msg (demo_api 3, ([demo_mail], [])) = Some y \<and> fst y \<noteq> Err EAGAIN"
proof -
  have t: "sint (o_sndtimeo (ab_options (fst (demo_api 3, ([demo_mail], []) :: demo_out)))) < 0"
    "sint (o_rcvtimeo (ab_options (fst (demo_api 3, ([demo_mail], []) :: demo_out)))) < 0" by code_simp+
  have d: "\<not> ab_ctx_terminated (demo_api 3)" "valid_msg empty_msg" "ab_ticks (demo_api 3) + 1 \<noteq> inbound_poll_rate"
    "(demo_api 3)\<lparr>ab_ticks := ab_ticks (demo_api 3) + 1\<rparr> = demo_api 4" "ab_ticks (demo_api 4) \<noteq> 0" "ab_ticks (demo_api 4) \<noteq> inbound_poll_rate"
    "sint (o_rcvtimeo (ab_options (demo_api 4))) = - 1" by code_simp+
  have x: "op_xrecv demo_api_ops empty_msg ([demo_mail], []) = Some (Err EAGAIN, empty_msg, ([demo_mail], []))"
    "op_xrecv demo_api_ops empty_msg ([], [demo_more]) = Some (OK, demo_more, ([], []))" by (simp_all add: demo_api_ops_def)
  have "\<exists>y. recv_wait demo_api_ops 0 (- 1) True empty_msg (demo_api 4, ([demo_mail], [])) = Some y"
    by (subst recv_wait.simps) (simp add: demo_process x deliver_def take_more_def Let_def)
  then obtain y where "recv_wait demo_api_ops 0 (- 1) True empty_msg (demo_api 4, ([demo_mail], [])) = Some y" ..
  then have "api_recv demo_api_ops False empty_msg (demo_api 3, ([demo_mail], [])) = Some y"
    using d x by (simp add: api_recv_def Let_def wait_end_def)
  with api_blocking [OF t] show ?thesis by blast
qed

lemma api_recv_delivers_witness:
  "\<exists>m' s' u'. api_recv demo_api_ops True empty_msg (demo_api 3, ([], [demo_more])) = Some (OK, m', s', u') \<and>
   (\<exists>m0 u0 x u1. op_xrecv demo_api_ops m0 u0 = Some (OK, x, u1) \<and> m_body m' = m_body x \<and> \<not> has_more m' \<and>
    ab_rcvmore s' = has_more x)"
proof -
  have d: "\<not> ab_ctx_terminated (demo_api 3)" "valid_msg empty_msg" "ab_ticks (demo_api 3) + 1 \<noteq> inbound_poll_rate" by code_simp+
  have x: "op_xrecv demo_api_ops empty_msg ([], [demo_more]) = Some (OK, demo_more, ([], []))" by (simp add: demo_api_ops_def)
  have "\<exists>m' s' u'. api_recv demo_api_ops True empty_msg (demo_api 3, ([], [demo_more])) = Some (OK, m', s', u')"
    using d x by (simp add: api_recv_def Let_def deliver_def split: prod.split)
  then obtain m' s' u' where r: "api_recv demo_api_ops True empty_msg (demo_api 3, ([], [demo_more])) = Some (OK, m', s', u')" by blast
  from api_recv_delivers [OF this] r show ?thesis by blast
qed

lemma api_terminated_witness:
  "api_recv demo_api_ops False empty_msg ((demo_api 0)\<lparr>ab_ctx_terminated := True\<rparr>, ([], [])) =
     Some (Err ETERM, empty_msg, (demo_api 0)\<lparr>ab_ctx_terminated := True\<rparr>, ([], []))"
proof -
  have "ab_ctx_terminated ((demo_api 0)\<lparr>ab_ctx_terminated := True\<rparr>)" by simp
  from api_terminated [OF this, where ops = demo_api_ops and noblock = False and m = empty_msg and u = "([], [])"
      and opt = ZMQ_HWM and v = "[]" and sndmore = False]
  show ?thesis by simp
qed

lemma api_recv_loses_message_witness:
  "map_option (\<lambda>(rc, m, s, u). (rc, u)) (api_recv demo_api_ops True empty_msg (demo_api 99, ([Mail_intr], [demo_more]))) =
     Some (Err EINTR, ([], []))"
proof -
  have 1: "\<not> ab_ctx_terminated (demo_api 99)" "valid_msg empty_msg" "ab_ticks (demo_api 99) = 99" by code_simp+
  have 2: "op_xrecv demo_api_ops empty_msg ([Mail_intr], [demo_more]) = Some (OK, demo_more, ([Mail_intr], []))" by (simp add: demo_api_ops_def)
  have 3: "process_commands demo_api_ops 0 False ((demo_api 99)\<lparr>ab_ticks := 100\<rparr>, ([Mail_intr], [])) =
    Some (Err EINTR, (demo_api 99)\<lparr>ab_ticks := 100\<rparr>, ([], []))"
    by (simp add: process_commands_def Let_def demo_api_ops_def)
  from api_recv_loses_message [OF 1 2 3] show ?thesis by simp
qed

end
