(* ===== verification/Alternate.thy ===== *)
theory Alternate
  imports Endpoint
begin

text \<open>
  The contract of the REQ and REP sockets towards their user: calls of \<open>send\<close> and \<open>recv\<close> take
  turns, one complete multipart message each way.  The contract is a small automaton over the
  results of the calls; the locale states what a socket type has to show of a single call, and
  concludes that every sequence of calls, with any changes of the pipes in between, is one the
  automaton accepts.
\<close>

section \<open>The automaton\<close>

datatype phase = To_send | To_recv

datatype call_event = Sent bool rc | Received bool rc

text \<open>A call and what the state of the automaton is after it; \<^term>\<open>None\<close> when the automaton does
  not allow the result.  The flag says that more parts of the message follow.\<close>

fun alt_step :: "call_event \<Rightarrow> phase \<Rightarrow> phase option" where
  "alt_step (Sent mo OK) To_send = Some (if mo then To_send else To_recv)"
| "alt_step (Sent mo (Err EAGAIN)) To_send = Some To_send"
| "alt_step (Sent mo (Err EFSM)) To_recv = Some To_recv"
| "alt_step (Received mo OK) To_recv = Some (if mo then To_recv else To_send)"
| "alt_step (Received mo (Err EAGAIN)) To_recv = Some To_recv"
| "alt_step (Received mo (Err EFSM)) To_send = Some To_send"
| "alt_step _ _ = None"

fun alternates :: "call_event list \<Rightarrow> phase \<Rightarrow> bool" where
  "alternates [] ph = True"
| "alternates (e # es) ph = (case alt_step e ph of None \<Rightarrow> False | Some ph' \<Rightarrow> alternates es ph')"

section \<open>Sequences of calls\<close>

type_synonym ('s, 'p) msg_call = "msg \<Rightarrow> 's \<Rightarrow> 'p \<Rightarrow> (rc \<times> msg \<times> 's \<times> 'p) option"

text \<open>
  \<open>call_run send recv env s p es s' p'\<close>: from the socket \<open>s\<close> and the pipes \<open>p\<close> the user's calls
  have the results \<open>es\<close>.  Between the calls the pipes change in any way, and the socket as
  \<open>env\<close> says.
\<close>

inductive call_run ::
    "('s, 'p) msg_call \<Rightarrow> ('s, 'p) msg_call \<Rightarrow> ('s \<Rightarrow> 's \<Rightarrow> bool) \<Rightarrow> 's \<Rightarrow> 'p \<Rightarrow> call_event list \<Rightarrow> 's \<Rightarrow> 'p \<Rightarrow> bool"
  for send recv env where
  no_call: "call_run send recv env s p [] s p"
| call_send: "send m s p = Some (rc, m', s1, p1) \<Longrightarrow> call_run send recv env s1 p1 es s2 p2 \<Longrightarrow>
    call_run send recv env s p (Sent (has_more m) rc # es) s2 p2"
| call_recv: "recv m s p = Some (rc, m', s1, p1) \<Longrightarrow> call_run send recv env s1 p1 es s2 p2 \<Longrightarrow>
    call_run send recv env s p (Received (has_more m') rc # es) s2 p2"
| other_change: "env s s1 \<Longrightarrow> call_run send recv env s1 p1 es s2 p2 \<Longrightarrow> call_run send recv env s p es s2 p2"

locale alternating =
  fixes send recv :: "('s, 'p) msg_call" and env :: "'s \<Rightarrow> 's \<Rightarrow> bool" and phase :: "'s \<Rightarrow> phase"
  assumes send_step: "send m s p = Some (rc, m', s', p') \<Longrightarrow> alt_step (Sent (has_more m) rc) (phase s) = Some (phase s')"
    and recv_step: "recv m s p = Some (rc, m', s', p') \<Longrightarrow> alt_step (Received (has_more m') rc) (phase s) = Some (phase s')"
    and env_step: "env s s' \<Longrightarrow> phase s' = phase s"
begin

lemma run_alternates: "call_run send recv env s p es s' p' \<Longrightarrow> alternates es (phase s)"
  by (induction rule: call_run.induct) (auto dest: send_step recv_step env_step)

end

text \<open>What the automaton means: between two complete messages sent there is a complete message
  received.\<close>

definition complete_sends :: "call_event list \<Rightarrow> nat" where
  "complete_sends es = length (filter (\<lambda>e. e = Sent False OK) es)"

definition complete_recvs :: "call_event list \<Rightarrow> nat" where
  "complete_recvs es = length (filter (\<lambda>e. e = Received False OK) es)"

lemma alternates_counts:
  "alternates es ph \<Longrightarrow>
   (case ph of To_send \<Rightarrow> complete_sends es = complete_recvs es \<or> complete_sends es = Suc (complete_recvs es)
    | To_recv \<Rightarrow> complete_recvs es = complete_sends es \<or> complete_recvs es = Suc (complete_sends es))"
proof (induction es arbitrary: ph)
  case (Cons e es)
  then obtain ph' where a: "alt_step e ph = Some ph'" "alternates es ph'" by (auto split: option.splits)
  with Cons.IH [OF a(2)] show ?case
    by (cases "(e, ph)" rule: alt_step.cases)
      (auto simp: complete_sends_def complete_recvs_def split: if_splits phase.splits)
qed (simp add: complete_sends_def complete_recvs_def split: phase.splits)

end
