(* ===== verification/Socket_Ends.thy ===== *)
theory Socket_Ends
  imports Pipe_Ends
begin

text \<open>
  A socket that reads some pipes and writes others: the laws of both ends, in a state where the
  inbound and the outbound pipes are described together, and when an outbound pipe is ready
  for another part: then a check says so, a write is accepted, and reading other pipes changes
  nothing about it.
\<close>

section \<open>The contract\<close>

locale socket_ends =
  fixes rep :: "'p \<Rightarrow> (addr \<rightharpoonup> msg list) \<Rightarrow> (addr \<rightharpoonup> msg list \<times> msg list) \<Rightarrow> bool"
    and ro :: "'p reader_ops" and wo :: "('p, msg) writer_ops" and ready :: "'p \<Rightarrow> addr \<Rightarrow> bool"
  assumes readers: "message_readers (\<lambda>p f. rep p f g) ro"
    and writers: "message_writers (\<lambda>p g. rep p f g) wo"
    and check_ready: "rep p f g \<Longrightarrow> g a = Some c \<Longrightarrow>
      \<exists>p'. wo_check_write wo a m p = Some (ready p a, p') \<and> rep p' f g \<and> ready p' a = ready p a"
    and write_ready: "rep p f g \<Longrightarrow> g a = Some c \<Longrightarrow> ready p a \<Longrightarrow> \<not> is_delimiter m \<Longrightarrow>
      \<exists>p'. wo_write wo a m p = Some (True, p') \<and> rep p' f (g(a \<mapsto> add_part m c))"
    and read_ready: "rep p f g \<Longrightarrow> g a = Some c \<Longrightarrow> f b = Some ms \<Longrightarrow> ro_read ro b p = Some (v, p') \<Longrightarrow>
      ready p' a = ready p a"

sublocale socket_ends \<subseteq> r: message_readers "\<lambda>p f. rep p f g" ro for g
  by (rule readers)

sublocale socket_ends \<subseteq> w: message_writers "\<lambda>p g. rep p f g" wo for f
  by (rule writers)

section \<open>The table of pipes keeps it\<close>

definition pipe_ready :: "pipe_table \<Rightarrow> addr \<Rightarrow> bool" where
  "pipe_ready t a \<longleftrightarrow> (\<exists>s w. t a = Some s \<and> pp_writer s = Some w \<and> w_active w \<and> \<not> pipe_full w)"

definition ends_rep :: "pipe_table \<Rightarrow> (addr \<rightharpoonup> msg list) \<Rightarrow> (addr \<rightharpoonup> msg list \<times> msg list) \<Rightarrow> bool" where
  "ends_rep t f g \<longleftrightarrow> readers_rep t f \<and> writers_rep t g \<and> dom f \<inter> dom g = {}"

text \<open>A call on one pipe leaves the others alone.\<close>

lemma pipe_ops_elsewhere:
  "ro_read pipe_reader_ops a t = Some (v, t') \<Longrightarrow> b \<noteq> a \<Longrightarrow> t' b = t b"
  "ro_check_read pipe_reader_ops a t = Some (ok, t') \<Longrightarrow> b \<noteq> a \<Longrightarrow> t' b = t b"
  "ro_terminate pipe_reader_ops a t = Some t' \<Longrightarrow> b \<noteq> a \<Longrightarrow> t' b = t b"
  "wo_write pipe_writer_ops a m t = Some (ok, t') \<Longrightarrow> b \<noteq> a \<Longrightarrow> t' b = t b"
  "wo_check_write pipe_writer_ops a m t = Some (ok, t') \<Longrightarrow> b \<noteq> a \<Longrightarrow> t' b = t b"
  "wo_flush pipe_writer_ops a t = Some t' \<Longrightarrow> b \<noteq> a \<Longrightarrow> t' b = t b"
  by (auto simp: pipe_reader_ops_def pipe_writer_ops_def on_pipe_def on_pipe_unit_def split: bind_splits)

lemma readers_rep_elsewhere:
  "readers_rep t f \<Longrightarrow> (\<And>b. b \<noteq> a \<Longrightarrow> t' b = t b) \<Longrightarrow> f a = None \<Longrightarrow> readers_rep t' f"
  unfolding readers_rep_def by (metis option.distinct(1))

lemma writers_rep_elsewhere:
  "writers_rep t g \<Longrightarrow> (\<And>b. b \<noteq> a \<Longrightarrow> t' b = t b) \<Longrightarrow> g a = None \<Longrightarrow> writers_rep t' g"
  unfolding writers_rep_def by (metis option.distinct(1))

lemma ends_rep_read:
  assumes "ends_rep t f g" and "f a = Some ms" and "readers_rep t' f'" and "\<And>b. b \<noteq> a \<Longrightarrow> t' b = t b"
    and "dom f' = dom f"
  shows "ends_rep t' f' g"
proof -
  have "g a = None" using assms(1,2) by (auto simp: ends_rep_def)
  then show ?thesis using assms writers_rep_elsewhere [of t g a t'] by (simp add: ends_rep_def)
qed

lemma ends_rep_write:
  assumes "ends_rep t f g" and "g a = Some c" and "writers_rep t' g'" and "\<And>b. b \<noteq> a \<Longrightarrow> t' b = t b"
    and "dom g' = dom g"
  shows "ends_rep t' f g'"
proof -
  have "f a = None" using assms(1,2) by (auto simp: ends_rep_def)
  then show ?thesis using assms readers_rep_elsewhere [of t f a t'] by (simp add: ends_rep_def)
qed

lemma dom_upd: "f a \<noteq> None \<Longrightarrow> dom (f(a \<mapsto> y)) = dom f"
  by auto

lemma check_write_ready:
  assumes "writes s c" and "pp_writer s = Some w"
  shows "\<exists>s'. writer_check_write m s = Some (w_active w \<and> \<not> pipe_full w, s') \<and> writes s' c \<and>
    (\<exists>w'. pp_writer s' = Some w' \<and> (w_active w' \<and> \<not> pipe_full w' \<longleftrightarrow> w_active w \<and> \<not> pipe_full w))"
proof -
  have n: "\<not> w_swapping w" "w_swap w = None" using assms(2) by (rule_tac writesE [OF assms(1)]; simp)+
  obtain ok s' where "writer_check_write m s = Some (ok, s')" "writes s' c"
    using writes_check_write [OF assms(1), of m] by blast
  then show ?thesis using n assms(2) by (auto simp: writer_check_write_def upd_writer_def split: if_splits)
qed

interpretation ends: socket_ends ends_rep pipe_reader_ops pipe_writer_ops pipe_ready
proof
  fix t f g a
  assume rep: "ends_rep t f g" and f: "f a = Some []"
  then obtain t' where t': "ro_read pipe_reader_ops a t = Some (None, t')" "readers_rep t' f"
    using pr.read_none [of t f a] by (auto simp: ends_rep_def)
  then show "\<exists>t'. ro_read pipe_reader_ops a t = Some (None, t') \<and> ends_rep t' f g"
    using ends_rep_read [OF rep f t'(2) pipe_ops_elsewhere(1) [OF t'(1)] refl] t'(1) by blast
next
  fix t f g a m ms
  assume rep: "ends_rep t f g" and f: "f a = Some (m # ms)"
  then obtain t' where t': "ro_read pipe_reader_ops a t = Some (Some m, t')" "readers_rep t' (f(a \<mapsto> ms))"
    using pr.read_some [of t f a m ms] by (auto simp: ends_rep_def simp del: fun_upd_apply)
  then show "\<exists>t'. ro_read pipe_reader_ops a t = Some (Some m, t') \<and> ends_rep t' (f(a \<mapsto> ms)) g"
    using ends_rep_read [OF rep f t'(2) pipe_ops_elsewhere(1) [OF t'(1)] dom_upd] f t'(1) by blast
next
  fix t f g a ms
  assume rep: "ends_rep t f g" and f: "f a = Some ms"
  obtain t' where t': "ro_check_read pipe_reader_ops a t = Some (ms \<noteq> [], t')" "readers_rep t' f"
    using pr.check [of t f a ms] rep f by (auto simp: ends_rep_def)
  then show "\<exists>t'. ro_check_read pipe_reader_ops a t = Some (ms \<noteq> [], t') \<and> ends_rep t' f g"
    using ends_rep_read [OF rep f t'(2) pipe_ops_elsewhere(2) [OF t'(1)] refl] t'(1) by blast
  obtain t2 where t2: "ro_terminate pipe_reader_ops a t = Some t2" "readers_rep t2 (f(a \<mapsto> []))"
    using pr.terminate [of t f a ms] rep f by (auto simp: ends_rep_def simp del: fun_upd_apply)
  then show "\<exists>t'. ro_terminate pipe_reader_ops a t = Some t' \<and> ends_rep t' (f(a \<mapsto> [])) g"
    using ends_rep_read [OF rep f t2(2) pipe_ops_elsewhere(3) [OF t2(1)] dom_upd] f t2(1) by blast
next
  fix t f g a c and m :: msg
  assume rep: "ends_rep t f g" and g: "g a = Some c" and nd: "\<not> is_delimiter m"
  obtain ok t' where t': "wo_write pipe_writer_ops a m t = Some (ok, t')"
      "writers_rep t' (if ok then g(a \<mapsto> add_part m c) else g)" "snd c \<noteq> [] \<longrightarrow> ok"
    using pw.write_msg [of t g a c m] rep g nd by (auto simp: ends_rep_def simp del: fun_upd_apply)
  have d: "dom (if ok then g(a \<mapsto> add_part m c) else g) = dom g" using dom_upd [of g a] g by simp
  have "t' b = t b" if "b \<noteq> a" for b
    using pipe_ops_elsewhere(4) [OF t'(1)] that by blast
  from ends_rep_write [OF rep g t'(2) this d] t'(1,3)
  show "\<exists>ok t'. wo_write pipe_writer_ops a m t = Some (ok, t') \<and>
      ends_rep t' f (if ok then g(a \<mapsto> add_part m c) else g) \<and> (snd c \<noteq> [] \<longrightarrow> ok)"
    by blast
next
  fix t f g a c and m :: msg
  assume rep: "ends_rep t f g" and g: "g a = Some c"
  obtain ok t' where t': "wo_check_write pipe_writer_ops a m t = Some (ok, t')" "writers_rep t' g"
    using pw.check_write [of t g a c m] rep g by (auto simp: ends_rep_def)
  have "t' b = t b" if "b \<noteq> a" for b
    using pipe_ops_elsewhere(5) [OF t'(1)] that by blast
  from ends_rep_write [OF rep g t'(2) this refl] t'(1)
  show "\<exists>ok t'. wo_check_write pipe_writer_ops a m t = Some (ok, t') \<and> ends_rep t' f g" by blast
  obtain t2 where t2: "wo_flush pipe_writer_ops a t = Some t2" "writers_rep t2 g"
    using pw.flush [of t g a c] rep g by (auto simp: ends_rep_def)
  have "t2 b = t b" if "b \<noteq> a" for b
    using pipe_ops_elsewhere(6) [OF t2(1)] that by blast
  from ends_rep_write [OF rep g t2(2) this refl] t2(1)
  show "\<exists>t'. wo_flush pipe_writer_ops a t = Some t' \<and> ends_rep t' f g" by blast
next
  fix t f g a c and m :: msg
  assume rep: "ends_rep t f g" and g: "g a = Some c"
  obtain s where s: "t a = Some s" "writes s c" using rep g unfolding ends_rep_def writers_rep_def by blast
  obtain w where w: "pp_writer s = Some w" using s(2) by (auto simp: writes_def)
  obtain s' w' where s': "writer_check_write m s = Some (w_active w \<and> \<not> pipe_full w, s')" "writes s' c"
    "pp_writer s' = Some w'" "w_active w' \<and> \<not> pipe_full w' \<longleftrightarrow> w_active w \<and> \<not> pipe_full w"
    using check_write_ready [OF s(2) w, of m] by blast
  have "writers_rep (t(a \<mapsto> s')) g" using rep writers_rep_keep [of t g a c s'] g s'(2) by (simp add: ends_rep_def)
  then have "ends_rep (t(a \<mapsto> s')) f g" by (rule ends_rep_write [OF rep g]) simp_all
  moreover have "wo_check_write pipe_writer_ops a m t = Some (pipe_ready t a, t(a \<mapsto> s'))"
    "pipe_ready (t(a \<mapsto> s')) a = pipe_ready t a"
    using s(1) w s'(1,3,4) by (simp_all add: pipe_writer_ops_def on_pipe_def pipe_ready_def)
  ultimately show "\<exists>t'. wo_check_write pipe_writer_ops a m t = Some (pipe_ready t a, t') \<and> ends_rep t' f g \<and>
      pipe_ready t' a = pipe_ready t a" by blast
  assume rd: "pipe_ready t a" and nd: "\<not> is_delimiter m"
  obtain ok s2 where s2: "writer_write m s = Some (ok, s2)" "writes s2 (if ok then add_part m c else c)"
    using writes_write [OF s(2) nd] by blast
  have "writer_check_write m s = Some (True, s')" using s'(1) rd s(1) w by (simp add: pipe_ready_def)
  then have "ok" using s2(1) by (auto simp: writer_write_def split: bind_splits if_splits)
  then have "writers_rep (t(a \<mapsto> s2)) (g(a \<mapsto> add_part m c))"
    using s2(2) rep writers_rep_upd [of t g s2] by (simp add: ends_rep_def)
  then have "ends_rep (t(a \<mapsto> s2)) f (g(a \<mapsto> add_part m c))"
    using g by (intro ends_rep_write [OF rep g] dom_upd) simp_all
  then show "\<exists>t'. wo_write pipe_writer_ops a m t = Some (True, t') \<and> ends_rep t' f (g(a \<mapsto> add_part m c))"
    using s(1) s2(1) \<open>ok\<close> by (simp add: pipe_writer_ops_def on_pipe_def)
next
  fix t f g a c b ms v t'
  assume rep: "ends_rep t f g" and "g a = Some c" "f b = Some ms" and rd: "ro_read pipe_reader_ops b t = Some (v, t')"
  then have "a \<noteq> b" by (auto simp: ends_rep_def)
  then show "pipe_ready t' a = pipe_ready t a" using pipe_ops_elsewhere(1) [OF rd] by (simp add: pipe_ready_def)
qed

end
