(* ===== verification/Req.thy ===== *)
theory Req
  imports Sockets Alternate
begin

text \<open>
  \<open>req.cpp\<close>: the REQ socket, an XREQ socket that frames its requests with an empty part (the
  bottom of the stack of addresses a reply carries back) and makes sending and receiving take turns.
\<close>

section \<open>The operations\<close>

record req_socket =
  rq_xreq :: xreq_socket
  rq_receiving :: bool
  rq_begins :: bool

definition req_new :: req_socket where
  "req_new = \<lparr>rq_xreq = xreq_new, rq_receiving = False, rq_begins = True\<rparr>"

definition req_options :: "options \<Rightarrow> options" where
  "req_options os = (xreq_options os)\<lparr>o_type := type_code ZMQ_REQ\<rparr>"

text \<open>The empty part with the flag that more parts follow.\<close>

definition stack_bottom :: msg where
  "stack_bottom = empty_msg\<lparr>m_flags := m_flags empty_msg OR ZMQ_MSG_MORE\<rparr>"

definition req_xsend ::
    "('p, msg) writer_ops \<Rightarrow> msg \<Rightarrow> req_socket \<Rightarrow> 'p \<Rightarrow> (rc \<times> msg \<times> req_socket \<times> 'p) option" where
  "req_xsend wo m s p =
     (if rq_receiving s then Some (Err EFSM, m, s, p)
      else do {
        (rc, s, p) \<leftarrow>
          (if rq_begins s then do {
             (rc, _, x, p) \<leftarrow> xreq_xsend wo stack_bottom (rq_xreq s) p;
             let s = s\<lparr>rq_xreq := x\<rparr>;
             Some (rc, if rc = OK then s\<lparr>rq_begins := False\<rparr> else s, p)
           }
           else Some (OK, s, p));
        if rc \<noteq> OK then Some (rc, m, s, p)
        else do {
          let mo = has_more m;
          (rc, m, x, p) \<leftarrow> xreq_xsend wo m (rq_xreq s) p;
          let s = s\<lparr>rq_xreq := x\<rparr>;
          if rc \<noteq> OK then Some (rc, m, s, p)
          else Some (OK, m, if \<not> mo then s\<lparr>rq_receiving := True, rq_begins := True\<rparr> else s, p)
        }
      })"

definition req_xrecv ::
    "'p reader_ops \<Rightarrow> msg \<Rightarrow> req_socket \<Rightarrow> 'p \<Rightarrow> (rc \<times> msg \<times> req_socket \<times> 'p) option" where
  "req_xrecv ro m s p =
     (if \<not> rq_receiving s then Some (Err EFSM, m, s, p)
      else do {
        (rc, m, s, p) \<leftarrow>
          (if rq_begins s then do {
             (rc, m, x, p) \<leftarrow> xreq_xrecv ro (rq_xreq s) p;
             let s = s\<lparr>rq_xreq := x\<rparr>;
             if rc \<noteq> OK then Some (rc, m, s, p)
             else if \<not> has_more m \<or> length (body_data (m_body m)) \<noteq> 0 then Some (Err EAGAIN, m, s, p)
             else Some (OK, m, s\<lparr>rq_begins := False\<rparr>, p)
           }
           else Some (OK, m, s, p));
        if rc \<noteq> OK then Some (rc, m, s, p)
        else do {
          (rc, m, x, p) \<leftarrow> xreq_xrecv ro (rq_xreq s) p;
          let s = s\<lparr>rq_xreq := x\<rparr>;
          if rc \<noteq> OK then Some (rc, m, s, p)
          else Some (OK, m, if \<not> has_more m then s\<lparr>rq_receiving := False, rq_begins := True\<rparr> else s, p)
        }
      })"

definition req_xhas_in :: "'p reader_ops \<Rightarrow> req_socket \<Rightarrow> 'p \<Rightarrow> (bool \<times> req_socket \<times> 'p) option" where
  "req_xhas_in ro s p =
     (if \<not> rq_receiving s then Some (False, s, p)
      else do { (b, x, p) \<leftarrow> xreq_xhas_in ro (rq_xreq s) p; Some (b, s\<lparr>rq_xreq := x\<rparr>, p) })"

definition req_xhas_out :: "('p, msg) writer_ops \<Rightarrow> req_socket \<Rightarrow> 'p \<Rightarrow> (bool \<times> req_socket \<times> 'p) option" where
  "req_xhas_out wo s p =
     (if rq_receiving s then Some (False, s, p)
      else do { (b, x, p) \<leftarrow> xreq_xhas_out wo (rq_xreq s) p; Some (b, s\<lparr>rq_xreq := x\<rparr>, p) })"

section \<open>Sending and receiving take turns\<close>

definition req_phase :: "req_socket \<Rightarrow> phase" where
  "req_phase s = (if rq_receiving s then To_recv else To_send)"

text \<open>What the pipes and the user's other calls change: the XREQ part.\<close>

definition req_env :: "req_socket \<Rightarrow> req_socket \<Rightarrow> bool" where
  "req_env s s' \<longleftrightarrow> (\<exists>x. s' = s\<lparr>rq_xreq := x\<rparr>)"

lemma lb_send_rc: "lb_send wo m q p = Some (rc, m', q', p') \<Longrightarrow> rc = OK \<or> rc = Err EAGAIN"
  by (auto simp: lb_send_def Let_def split: if_splits bind_splits)

lemma fq_recv_rc: "fq_recv ro q p = Some (rc, m, q', p') \<Longrightarrow> rc = OK \<or> rc = Err EAGAIN"
  by (auto simp: fq_recv_def split: bind_splits option.splits)

lemma req_send_step:
  assumes "req_xsend wo m s p = Some (rc, m', s', p')"
  shows "alt_step (Sent (has_more m) rc) (req_phase s) = Some (req_phase s')"
  using assms
  by (auto simp: req_xsend_def xreq_xsend_def req_phase_def Let_def split: if_splits bind_splits dest!: lb_send_rc)

lemma req_recv_step:
  assumes "req_xrecv ro m s p = Some (rc, m', s', p')"
  shows "alt_step (Received (has_more m') rc) (req_phase s) = Some (req_phase s')"
  using assms
  by (auto simp: req_xrecv_def xreq_xrecv_def req_phase_def Let_def split: if_splits bind_splits dest!: fq_recv_rc)

interpretation req: alternating "req_xsend wo" "req_xrecv ro" req_env req_phase
  by unfold_locales (erule req_send_step | erule req_recv_step | auto simp: req_env_def req_phase_def)+

section \<open>The framing of a request\<close>

fun req_send_parts :: "('p, msg) writer_ops \<Rightarrow> msg list \<Rightarrow> req_socket \<Rightarrow> 'p \<Rightarrow> (rc \<times> req_socket \<times> 'p) option" where
  "req_send_parts wo [] s p = Some (OK, s, p)"
| "req_send_parts wo (m # ms) s p = do {
     (rc, _, s, p) \<leftarrow> req_xsend wo m s p;
     if rc \<noteq> OK then Some (rc, s, p) else req_send_parts wo ms s p
   }"

abbreviation req_lb :: "req_socket \<Rightarrow> lb" where "req_lb s \<equiv> xq_lb (rq_xreq s)"
abbreviation req_fq :: "req_socket \<Rightarrow> fq" where "req_fq s \<equiv> xq_fq (rq_xreq s)"

definition set_req_lb :: "lb \<Rightarrow> req_socket \<Rightarrow> req_socket" where
  "set_req_lb q s = s\<lparr>rq_xreq := (rq_xreq s)\<lparr>xq_lb := q\<rparr>\<rparr>"

lemma set_req_lb_simps [simp]:
  "rq_receiving (set_req_lb q s) = rq_receiving s" "rq_begins (set_req_lb q s) = rq_begins s"
  "req_lb (set_req_lb q s) = q" "req_fq (set_req_lb q s) = req_fq s"
  "set_req_lb q (set_req_lb q' s) = set_req_lb q s"
  by (simp_all add: set_req_lb_def)

text \<open>Past the first part the socket only passes the parts on.\<close>

lemma req_rest:
  assumes "lb_send_parts wo (ms @ [l]) (req_lb s) p = Some (OK, q', p')" and "\<not> rq_receiving s" and "\<not> rq_begins s"
    and "\<forall>m \<in> set ms. has_more m" and "\<not> has_more l"
  shows "req_send_parts wo (ms @ [l]) s p =
    Some (OK, (set_req_lb q' s)\<lparr>rq_receiving := True, rq_begins := True\<rparr>, p')"
  using assms
proof (induction ms arbitrary: s p)
  case Nil
  then show ?case
    by (auto simp: req_xsend_def xreq_xsend_def set_req_lb_def split: bind_splits if_splits)
next
  case (Cons m ms)
  then obtain m' q1 p1 where m: "lb_send wo m (req_lb s) p = Some (OK, m', q1, p1)"
    "lb_send_parts wo (ms @ [l]) q1 p1 = Some (OK, q', p')"
    by (auto split: bind_splits if_splits)
  have "req_xsend wo m s p = Some (OK, m', set_req_lb q1 s, p1)"
    using m(1) Cons.prems by (simp add: req_xsend_def xreq_xsend_def set_req_lb_def)
  with Cons.IH [of "set_req_lb q1 s" p1] m(2) Cons.prems show ?case by simp
qed

lemma stack_bottom_simps [simp]: "has_more stack_bottom" "\<not> is_delimiter stack_bottom" "m_body stack_bottom = Data []"
  by (simp_all add: stack_bottom_def empty_msg_def has_more_def is_delimiter_def zmq_flags)

text \<open>C35 (safety).  A request is framed and atomic, when no pipe is attached, activated or terminated
  between the calls that send its parts: either the first call fails with \<open>EAGAIN\<close>, with the pipes and
  the state of the socket as before, or all parts go, after an empty part, to one and the same pipe as
  one message, and the socket then waits for the reply.  (A termination in between can make the load
  balancer drop or split the rest, as the property on \<open>lb_t::terminated\<close> in \<open>Lb\<close> shows.)\<close>

theorem req_request_framing:
  assumes "lb_holds (req_lb s) g" and "writers_rep t g" and "\<not> lb_more (req_lb s)"
    and "\<not> rq_receiving s" and "rq_begins s" and "\<forall>m \<in> set ms. has_more m" and "\<not> has_more l"
    and "\<forall>m \<in> set (ms @ [l]). \<not> is_delimiter m"
  shows "\<exists>rc s' t'. req_send_parts pipe_writer_ops (ms @ [l]) s t = Some (rc, s', t') \<and>
    (rc = Err EAGAIN \<and> writers_rep t' g \<and> \<not> rq_receiving s' \<and> rq_begins s' \<or>
     rc = OK \<and> rq_receiving s' \<and> (\<exists>a \<in> set (lb_active_pipes (req_lb s)).
       writers_rep t' (g(a \<mapsto> (fst (the (g a)) @ stack_bottom # ms @ [l], [])))))"
proof (rule pw.send_cases [OF assms(1,2) stack_bottom_simps(2)])
  fix q' p'
  assume "lb_send pipe_writer_ops stack_bottom (req_lb s) t = Some (Err EAGAIN, stack_bottom, q', p')"
    and "writers_rep p' g"
  then show ?thesis using assms(4,5) by (cases ms) (auto simp: req_xsend_def xreq_xsend_def)
next
  fix a q' p'
  let ?g = "g(a \<mapsto> add_part stack_bottom (the (g a)))"
  assume s: "lb_send pipe_writer_ops stack_bottom (req_lb s) t = Some (OK, empty_msg, q', p')"
    and a: "a \<in> set (lb_active_pipes (req_lb s))" and r: "writers_rep p' ?g" and h: "lb_holds q' ?g"
    and m: "lb_more q' = has_more stack_bottom" and c: "has_more stack_bottom \<longrightarrow> lb_current_pipe q' = a"
  have inc: "snd (the (g a)) = []"
    using assms(1,3) a by (auto simp: lb_holds_def lb_active_pipes_def dest: in_set_takeD)
  have "lb_more q'" using m by simp
  note rest = pw.send_rest [OF h r this assms(6-8)]
  let ?s = "(set_req_lb q' s)\<lparr>rq_begins := False\<rparr>"
  have first: "req_send_parts pipe_writer_ops (ms @ [l]) s t = req_send_parts pipe_writer_ops (ms @ [l]) ?s p'"
    using assms(4,5) s by (cases ms) (simp_all add: req_xsend_def xreq_xsend_def set_req_lb_def)
  obtain q2 p2 where "lb_send_parts pipe_writer_ops (ms @ [l]) q' p' = Some (OK, q2, p2)"
    and r2: "writers_rep p2 (?g(a \<mapsto> (fst (the (?g a)) @ snd (the (?g a)) @ ms @ [l], [])))"
    using rest c by (auto simp del: fun_upd_apply)
  then have "req_send_parts pipe_writer_ops (ms @ [l]) ?s p' =
      Some (OK, (set_req_lb q2 ?s)\<lparr>rq_receiving := True, rq_begins := True\<rparr>, p2)"
    using req_rest [of pipe_writer_ops ms l ?s p' q2 p2] assms(4,6,7) by simp
  moreover have "?g(a \<mapsto> (fst (the (?g a)) @ snd (the (?g a)) @ ms @ [l], [])) =
      g(a \<mapsto> (fst (the (g a)) @ stack_bottom # ms @ [l], []))"
    using inc by (simp add: add_part_cases)
  ultimately show ?thesis using first r2 a by auto
qed

section \<open>Receiving a reply\<close>

fun req_recv_times :: "'p reader_ops \<Rightarrow> nat \<Rightarrow> req_socket \<Rightarrow> 'p \<Rightarrow> ((rc \<times> msg) list \<times> req_socket \<times> 'p) option" where
  "req_recv_times ro 0 s p = Some ([], s, p)"
| "req_recv_times ro (Suc n) s p = do {
     (rc, m, s, p) \<leftarrow> req_xrecv ro empty_msg s p;
     (rs, s, p) \<leftarrow> req_recv_times ro n s p;
     Some ((rc, m) # rs, s, p)
   }"

definition set_req_fq :: "fq \<Rightarrow> req_socket \<Rightarrow> req_socket" where
  "set_req_fq q s = s\<lparr>rq_xreq := (rq_xreq s)\<lparr>xq_fq := q\<rparr>\<rparr>"

lemma set_req_fq_simps [simp]:
  "rq_receiving (set_req_fq q s) = rq_receiving s" "rq_begins (set_req_fq q s) = rq_begins s"
  "req_fq (set_req_fq q s) = q" "req_lb (set_req_fq q s) = req_lb s"
  "set_req_fq q (set_req_fq q' s) = set_req_fq q s"
  by (simp_all add: set_req_fq_def)

lemma req_recv_rest:
  assumes "fq_recv_times ro (Suc (length ms)) (req_fq s) p = Some (map (Pair OK) (ms @ [l]), q', p')"
    and "rq_receiving s" and "\<not> rq_begins s" and "\<forall>m \<in> set ms. has_more m" and "\<not> has_more l"
  shows "req_recv_times ro (Suc (length ms)) s p =
    Some (map (Pair OK) (ms @ [l]), (set_req_fq q' s)\<lparr>rq_receiving := False, rq_begins := True\<rparr>, p')"
  using assms
proof (induction ms arbitrary: s p)
  case Nil
  then show ?case by (auto simp: req_xrecv_def xreq_xrecv_def set_req_fq_def split: bind_splits)
next
  case (Cons m ms)
  then obtain q1 p1 where m: "fq_recv ro (req_fq s) p = Some (OK, m, q1, p1)"
    "fq_recv_times ro (Suc (length ms)) q1 p1 = Some (map (Pair OK) (ms @ [l]), q', p')"
    by (auto simp: fq_recv_times_Suc simp del: fq_recv_times.simps(2))
  have "req_xrecv ro empty_msg s p = Some (OK, m, set_req_fq q1 s, p1)"
    using m(1) Cons.prems by (simp add: req_xrecv_def xreq_xrecv_def set_req_fq_def)
  moreover have "req_recv_times ro (Suc (length ms)) (set_req_fq q1 s) p1 =
      Some (map (Pair OK) (ms @ [l]), (set_req_fq q' s)\<lparr>rq_receiving := False, rq_begins := True\<rparr>, p')"
    using Cons.IH [of "set_req_fq q1 s" p1] m(2) Cons.prems by simp
  ultimately show ?case
    by (simp del: req_recv_times.simps add: req_recv_times.simps(2) [of _ "Suc _"])
qed

text \<open>A reply is unwrapped: when the queue delivers an empty part followed by the
  parts of a reply, the user gets just the parts, and can then send the next request.\<close>

theorem req_reply_unwrapped:
  assumes "fq_recv_times ro (length ms + 2) (req_fq s) p = Some (map (Pair OK) (b # ms @ [l]), q', p')"
    and "rq_receiving s" and "rq_begins s" and "has_more b" and "body_data (m_body b) = []"
    and "\<forall>m \<in> set ms. has_more m" and "\<not> has_more l"
  shows "\<exists>s'. req_recv_times ro (length ms + 1) s p = Some (map (Pair OK) (ms @ [l]), s', p') \<and>
    req_fq s' = q' \<and> \<not> rq_receiving s' \<and> rq_begins s'"
proof -
  obtain q1 p1 where b: "fq_recv ro (req_fq s) p = Some (OK, b, q1, p1)"
    "fq_recv_times ro (Suc (length ms)) q1 p1 = Some (map (Pair OK) (ms @ [l]), q', p')"
    using assms(1) by (auto simp: fq_recv_times_Suc simp del: fq_recv_times.simps(2))
  let ?s = "(set_req_fq q1 s)\<lparr>rq_begins := False\<rparr>"
  have "req_recv_times ro (Suc (length ms)) ?s p1 =
      Some (map (Pair OK) (ms @ [l]), (set_req_fq q' ?s)\<lparr>rq_receiving := False, rq_begins := True\<rparr>, p')"
    using b(2) assms(2,6,7) by (intro req_recv_rest) simp_all
  moreover have "req_xrecv ro empty_msg s p = req_xrecv ro empty_msg ?s p1"
    using b(1) assms(2-5) by (simp add: req_xrecv_def xreq_xrecv_def set_req_fq_def)
  ultimately show ?thesis by (auto simp: set_req_fq_def)
qed

text \<open>A malformed reply is not skipped as a whole: only its first part is, and the call
  returns \<open>EAGAIN\<close>.  The next call takes the second part for the beginning of another reply: when
  that part is empty, the rest of the malformed reply is given to the user as the reply.\<close>

theorem req_malformed_reply_accepted:
  assumes "fq_recv_times ro 3 (req_fq s) p = Some (map (Pair OK) [x, b, y], q', p')"
    and "rq_receiving s" and "rq_begins s" and "body_data (m_body x) \<noteq> []"
    and "has_more b" and "body_data (m_body b) = []" and "\<not> has_more y"
  shows "\<exists>s'. req_recv_times ro 2 s p = Some ([(Err EAGAIN, x), (OK, y)], s', p') \<and> \<not> rq_receiving s'"
proof -
  obtain q1 p1 q2 p2 where r: "fq_recv ro (req_fq s) p = Some (OK, x, q1, p1)" "fq_recv ro q1 p1 = Some (OK, b, q2, p2)"
    "fq_recv ro q2 p2 = Some (OK, y, q', p')"
    using assms(1) by (auto simp: numeral_3_eq_3 fq_recv_times_Suc simp del: fq_recv_times.simps(2))
  have "req_xrecv ro empty_msg s p = Some (Err EAGAIN, x, set_req_fq q1 s, p1)"
    using r(1) assms by (simp add: req_xrecv_def xreq_xrecv_def set_req_fq_def)
  moreover have "req_xrecv ro empty_msg (set_req_fq q1 s) p1 =
      Some (OK, y, (set_req_fq q' s)\<lparr>rq_receiving := False, rq_begins := True\<rparr>, p')"
    using r(2,3) assms by (simp add: req_xrecv_def xreq_xrecv_def set_req_fq_def)
  ultimately show ?thesis by (simp add: numeral_2_eq_2)
qed

text \<open>C36 (refinement).  Requests and replies take turns: whatever the user calls and whatever happens to
  the pipes in between, the results of the calls are those of an automaton that first sends all
  parts of a message and then receives all parts of one, and refuses everything else with
  \<open>EFSM\<close>.\<close>

theorem req_alternates:
  assumes "call_run (req_xsend wo) (req_xrecv ro) req_env s p es s' p'"
  shows "alternates es (req_phase s)"
  using assms by (rule req.run_alternates)

lemma req_reply_unwrapped_witness:
  "\<exists>t s' t'. req_recv_times pipe_reader_ops 2 
     \<lparr>rq_xreq = \<lparr>xq_fq = fq_one 7 False, xq_lb = lb_new\<rparr>, rq_receiving = True, rq_begins = True\<rparr> t =
     Some ([(OK, part [1] True), (OK, part [2] False)], s', t')"
proof -
  let ?ms = "[part [] True, part [1] True, part [2] False]"
  have "\<exists>s. reads s ?ms"
    by (rule run_parts_reads [where as = "map W_write ?ms @ [W_flush]" and n = 4]) (code_simp, simp)
  then obtain s where "reads s ?ms" by blast
  then have "readers_rep [7 \<mapsto> s] [7 \<mapsto> ?ms @ []]" by (simp add: readers_rep_def)
  from pr.one_recv_times [OF this fun_upd_same, of False] obtain t' where
    "fq_recv_times pipe_reader_ops 3 (fq_one 7 False) [7 \<mapsto> s] = Some (map (Pair OK) ?ms, fq_one 7 False, t')"
    by (auto simp: numeral_3_eq_3 simp del: fun_upd_apply fq_recv_times.simps)
  then show ?thesis
    using req_reply_unwrapped [of pipe_reader_ops "[part [1] True]"
      "\<lparr>rq_xreq = \<lparr>xq_fq = fq_one 7 False, xq_lb = lb_new\<rparr>, rq_receiving = True, rq_begins = True\<rparr>" "[7 \<mapsto> s]" "part [] True"
      "part [2] False" "fq_one 7 False" t']
    by (auto simp: numeral_3_eq_3 numeral_2_eq_2 simp del: fun_upd_apply fq_recv_times.simps req_recv_times.simps)
qed

definition req_ready :: req_socket where
  "req_ready = \<lparr>rq_xreq = \<lparr>xq_fq = fq_new, xq_lb = lb_ready\<rparr>, rq_receiving = False, rq_begins = True\<rparr>"

lemma req_request_framing_witness:
  "\<exists>t rc s' t'. req_send_parts pipe_writer_ops [part [1] True, part [2] False]
     req_ready t = Some (rc, s', t') \<and>
   (rc = OK \<longleftrightarrow> rq_receiving s')"
proof -
  obtain s where s: "writes s ([], [])" using start_ends by blast
  let ?t = "[10 \<mapsto> s, 11 \<mapsto> s, 12 \<mapsto> s]" and ?g = "[10 \<mapsto> ([], []), 11 \<mapsto> ([], []), 12 \<mapsto> ([], [])]"
  let ?s = "req_ready"
  have h: "lb_holds (req_lb ?s) ?g"
    by (auto simp: req_ready_def lb_holds_def lb_ok_def lb_ready_def lb_example_def array_ok_def less_Suc_eq)
  have w: "writers_rep ?t ?g" using s by (simp add: writers_rep_def)
  have x: "\<not> lb_more (req_lb ?s)" "\<not> rq_receiving ?s" "rq_begins ?s" "\<forall>m \<in> set [part [1] True]. has_more m"
    "\<not> has_more (part [2] False)" "\<forall>m \<in> set ([part [1] True] @ [part [2] False]). \<not> is_delimiter m"
    by (simp_all add: req_ready_def lb_ready_def)
  show ?thesis using req_request_framing [OF h w x] by (auto simp del: req_send_parts.simps)
qed

lemma req_malformed_reply_accepted_witness:
  "\<exists>t s' t'. req_recv_times pipe_reader_ops 2 
     \<lparr>rq_xreq = \<lparr>xq_fq = fq_one 7 False, xq_lb = lb_new\<rparr>, rq_receiving = True, rq_begins = True\<rparr> t =
     Some ([(Err EAGAIN, part [9] True), (OK, part [2] False)], s', t')"
proof -
  let ?ms = "[part [9] True, part [] True, part [2] False]"
  have "\<exists>s. reads s ?ms"
    by (rule run_parts_reads [where as = "map W_write ?ms @ [W_flush]" and n = 4]) (code_simp, simp)
  then obtain s where "reads s ?ms" by blast
  then have "readers_rep [7 \<mapsto> s] [7 \<mapsto> ?ms @ []]" by (simp add: readers_rep_def)
  from pr.one_recv_times [OF this fun_upd_same, of False] obtain t' where
    "fq_recv_times pipe_reader_ops 3 (fq_one 7 False) [7 \<mapsto> s] = Some (map (Pair OK) ?ms, fq_one 7 False, t')"
    by (auto simp: numeral_3_eq_3 simp del: fun_upd_apply fq_recv_times.simps)
  then show ?thesis
    using req_malformed_reply_accepted [of pipe_reader_ops
      "\<lparr>rq_xreq = \<lparr>xq_fq = fq_one 7 False, xq_lb = lb_new\<rparr>, rq_receiving = True, rq_begins = True\<rparr>" "[7 \<mapsto> s]" "part [9] True"
      "part [] True" "part [2] False" "fq_one 7 False" t']
    by (auto simp del: fun_upd_apply fq_recv_times.simps req_recv_times.simps)
qed

lemma req_alternates_witness:
  "alternates [Sent False OK, Sent True (Err EFSM)] To_send"
proof -
  have "map_option (\<lambda>(rc, m, s, p). (rc, rq_receiving s)) (req_xsend open_writers (part [1] False) req_ready ()) =
      Some (OK, True)"
    by code_simp
  then obtain m' s1 where a: "req_xsend open_writers (part [1] False) req_ready () = Some (OK, m', s1, ())" "rq_receiving s1"
    by auto
  then have b: "req_xsend open_writers (part [1] True) s1 () = Some (Err EFSM, part [1] True, s1, ())"
    by (simp add: req_xsend_def)
  have "call_run (req_xsend open_writers) (req_xrecv closed_readers) req_env req_ready ()
      [Sent (has_more (part [1] False)) OK, Sent (has_more (part [1] True)) (Err EFSM)] s1 ()"
    by (rule call_send, rule a(1), rule call_send, rule b, rule no_call)
  from req_alternates [OF this] show ?thesis by (simp add: req_phase_def req_ready_def)
qed

end
