(* ===== verification/Xsub.thy ===== *)
theory Xsub
  imports Sockets Subscriptions
begin

text \<open>
  \<open>xsub.cpp\<close>, \<open>sub.cpp\<close>: the subscriber sockets.  They read the fair queue until the first
  part of a message matches a subscription; the other messages are dropped whole.  The two loops
  of the code have no bound (they read as long as unwanted messages arrive): they are
  \<^theory_text>\<open>partial_function\<close>s, and the properties show when they end.
\<close>

section \<open>The operations\<close>

record xsub_socket =
  xs_fq :: fq
  xs_subs :: trie
  xs_has_message :: bool
  xs_message :: msg
  xs_more :: bool

definition xsub_new :: xsub_socket where
  "xsub_new = \<lparr>xs_fq = fq_new, xs_subs = trie_new, xs_has_message = False, xs_message = empty_msg, xs_more = False\<rparr>"

definition xsub_options :: "options \<Rightarrow> options" where
  "xsub_options = socket_options ZMQ_XSUB True False"

definition sub_options :: "options \<Rightarrow> options" where
  "sub_options os = (xsub_options os)\<lparr>o_type := type_code ZMQ_SUB\<rparr>"

definition xsub_xattach_pipes ::
    "'p reader_ops \<Rightarrow> addr option \<Rightarrow> addr option \<Rightarrow> xsub_socket \<Rightarrow> 'p \<Rightarrow> (xsub_socket \<times> 'p) option" where
  "xsub_xattach_pipes ro inpipe outpipe s p =
     (case (inpipe, outpipe) of
        (Some a, None) \<Rightarrow> do { (q, p) \<leftarrow> fq_attach ro a (xs_fq s) p; Some (s\<lparr>xs_fq := q\<rparr>, p) }
      | _ \<Rightarrow> None)"

definition xsub_process_term :: "'p reader_ops \<Rightarrow> xsub_socket \<Rightarrow> 'p \<Rightarrow> (xsub_socket \<times> 'p) option" where
  "xsub_process_term ro s p = do { (q, p) \<leftarrow> fq_terminate ro (xs_fq s) p; Some (s\<lparr>xs_fq := q\<rparr>, p) }"

text \<open>A message sent on an XSUB socket is a subscription (first byte 1) or a cancellation (0).\<close>

definition xsub_xsend :: "msg \<Rightarrow> xsub_socket \<Rightarrow> (rc \<times> msg \<times> xsub_socket) option" where
  "xsub_xsend m s =
     (case body_data (m_body m) of
        [] \<Rightarrow> Some (OK, empty_msg, s)
      | b # data \<Rightarrow> do {
          s \<leftarrow> (if b = 1 then do { t \<leftarrow> trie_add data (xs_subs s); Some (s\<lparr>xs_subs := t\<rparr>) } else Some s);
          s \<leftarrow> (if b = 0 then do { (_, t) \<leftarrow> trie_rm data (xs_subs s); Some (s\<lparr>xs_subs := t\<rparr>) } else Some s);
          Some (OK, empty_msg, s)
        })"

definition xsub_xhas_out :: "xsub_socket \<Rightarrow> bool" where "xsub_xhas_out s = True"

definition xsub_match :: "msg \<Rightarrow> xsub_socket \<Rightarrow> bool option" where
  "xsub_match m s = trie_check (body_data (m_body m)) (xs_subs s)"

text \<open>The inner loop: pop the remaining parts of the message.\<close>

partial_function (option) xsub_skip :: "'p reader_ops \<Rightarrow> msg \<Rightarrow> fq \<Rightarrow> 'p \<Rightarrow> (msg \<times> fq \<times> 'p) option" where
  "xsub_skip ro m q p =
     (if has_more m then do {
        (rc, m, q, p) \<leftarrow> fq_recv ro q p;
        u \<leftarrow> zmq_assert (rc = OK);
        xsub_skip ro m q p
      }
      else Some (m, q, p))"

partial_function (option) xsub_recv_loop ::
    "'p reader_ops \<Rightarrow> xsub_socket \<Rightarrow> 'p \<Rightarrow> (rc \<times> msg \<times> xsub_socket \<times> 'p) option" where
  "xsub_recv_loop ro s p = do {
     (rc, m, q, p) \<leftarrow> fq_recv ro (xs_fq s) p;
     if rc \<noteq> OK then Some (rc, m, s\<lparr>xs_fq := q\<rparr>, p)
     else do {
       ok \<leftarrow> (if xs_more s then Some True else xsub_match m s);
       if ok then Some (OK, m, s\<lparr>xs_fq := q, xs_more := has_more m\<rparr>, p)
       else do {
         (_, q, p) \<leftarrow> xsub_skip ro m q p;
         xsub_recv_loop ro (s\<lparr>xs_fq := q\<rparr>) p
       }
     }
   }"

definition xsub_xrecv :: "'p reader_ops \<Rightarrow> xsub_socket \<Rightarrow> 'p \<Rightarrow> (rc \<times> msg \<times> xsub_socket \<times> 'p) option" where
  "xsub_xrecv ro s p =
     (if xs_has_message s then
        let m = xs_message s
        in Some (OK, m, s\<lparr>xs_message := empty_msg, xs_has_message := False, xs_more := has_more m\<rparr>, p)
      else xsub_recv_loop ro s p)"

partial_function (option) xsub_in_loop ::
    "'p reader_ops \<Rightarrow> xsub_socket \<Rightarrow> 'p \<Rightarrow> (bool \<times> xsub_socket \<times> 'p) option" where
  "xsub_in_loop ro s p = do {
     (rc, m, q, p) \<leftarrow> fq_recv ro (xs_fq s) p;
     if rc \<noteq> OK then do {
       u \<leftarrow> zmq_assert (rc = Err EAGAIN);
       Some (False, s\<lparr>xs_message := m, xs_fq := q\<rparr>, p)
     }
     else do {
       ok \<leftarrow> xsub_match m s;
       if ok then Some (True, s\<lparr>xs_message := m, xs_fq := q, xs_has_message := True\<rparr>, p)
       else do {
         (m, q, p) \<leftarrow> xsub_skip ro m q p;
         xsub_in_loop ro (s\<lparr>xs_message := m, xs_fq := q\<rparr>) p
       }
     }
   }"

definition xsub_xhas_in :: "'p reader_ops \<Rightarrow> xsub_socket \<Rightarrow> 'p \<Rightarrow> (bool \<times> xsub_socket \<times> 'p) option" where
  "xsub_xhas_in ro s p =
     (if xs_more s then Some (True, s, p)
      else if xs_has_message s then Some (True, s, p)
      else xsub_in_loop ro s p)"

declare xsub_skip.simps [code] xsub_recv_loop.simps [code] xsub_in_loop.simps [code]

text \<open>\<open>sub.cpp\<close>: subscriptions are socket options, and there is no sending.\<close>

definition sub_xsetsockopt :: "sockopt \<Rightarrow> byte list \<Rightarrow> xsub_socket \<Rightarrow> (rc \<times> xsub_socket) option" where
  "sub_xsetsockopt opt v s =
     (if opt \<noteq> ZMQ_SUBSCRIBE \<and> opt \<noteq> ZMQ_UNSUBSCRIBE then Some (Err EINVAL, s)
      else do {
        let m = empty_msg\<lparr>m_body := Data ((if opt = ZMQ_SUBSCRIBE then 1 else 0) # v)\<rparr>;
        (rc, _, s) \<leftarrow> xsub_xsend m s;
        Some (rc, s)
      })"

definition sub_xsend :: "msg \<Rightarrow> xsub_socket \<Rightarrow> rc \<times> msg \<times> xsub_socket" where
  "sub_xsend m s = (Err ENOTSUP, m, s)"

definition sub_xhas_out :: "xsub_socket \<Rightarrow> bool" where "sub_xhas_out s = False"

section \<open>Deliveries\<close>

abbreviation delivers :: "'p reader_ops \<Rightarrow> msg list \<Rightarrow> fq \<Rightarrow> 'p \<Rightarrow> fq \<Rightarrow> 'p \<Rightarrow> bool" where
  "delivers ro xs q p q' p' \<equiv> fq_recv_times ro (length xs) q p = Some (map (Pair OK) xs, q', p')"

lemma delivers_append:
  "delivers ro (xs @ ys) q p q' p' \<longleftrightarrow> (\<exists>q1 p1. delivers ro xs q p q1 p1 \<and> delivers ro ys q1 p1 q' p')"
  by (induction xs arbitrary: q p) (auto simp: fq_recv_times_Suc simp del: fq_recv_times.simps(2))

section \<open>What is delivered\<close>

lemma skip_whole:
  "whole (m # ms) \<Longrightarrow> delivers ro ms q p q' p' \<Longrightarrow> xsub_skip ro m q p = Some (last (m # ms), q', p')"
proof (induction ms arbitrary: m q p)
  case Nil
  then show ?case by (simp add: xsub_skip.simps whole_Cons)
next
  case (Cons n ms)
  then obtain q1 p1 where r: "fq_recv ro q p = Some (OK, n, q1, p1)" "delivers ro ms q1 p1 q' p'"
    by (auto simp: fq_recv_times_Suc simp del: fq_recv_times.simps(2))
  with Cons.IH [OF _ r(2)] Cons.prems(1) show ?case by (subst xsub_skip.simps) (auto simp: whole_Cons)
qed

fun xsub_recv_times ::
    "'p reader_ops \<Rightarrow> nat \<Rightarrow> xsub_socket \<Rightarrow> 'p \<Rightarrow> ((rc \<times> msg) list \<times> xsub_socket \<times> 'p) option" where
  "xsub_recv_times ro 0 s p = Some ([], s, p)"
| "xsub_recv_times ro (Suc n) s p = do {
     (rc, m, s, p) \<leftarrow> xsub_xrecv ro s p;
     (rs, s, p) \<leftarrow> xsub_recv_times ro n s p;
     Some ((rc, m) # rs, s, p)
   }"

lemma xsub_recv_times_Suc:
  "xsub_recv_times ro (Suc n) s p = Some ((rc, m) # rs, s', p') \<longleftrightarrow>
   (\<exists>s1 p1. xsub_xrecv ro s p = Some (rc, m, s1, p1) \<and> xsub_recv_times ro n s1 p1 = Some (rs, s', p'))"
  by (auto split: bind_splits)

lemma xsub_recv_times_add:
  "xsub_recv_times ro (a + b) s p = do {
     (rs, s, p) \<leftarrow> xsub_recv_times ro a s p;
     (rs', s, p) \<leftarrow> xsub_recv_times ro b s p;
     Some (rs @ rs', s, p)
   }"
  by (induction a arbitrary: s p) (auto split: bind_splits simp: split_beta)

text \<open>The subscriptions \<open>M\<close> accept a message by its first part.\<close>

definition wanted :: "byte list multiset \<Rightarrow> msg list \<Rightarrow> bool" where
  "wanted M ms \<longleftrightarrow> (\<exists>sub \<in># M. prefix sub (body_data (m_body (hd ms))))"

text \<open>The rest of a message whose first part has been delivered is passed on.\<close>

lemma recv_rest_parts:
  "whole (m # ms) \<Longrightarrow> delivers ro ms (xs_fq s) p q' p' \<Longrightarrow> xs_more s = has_more m \<Longrightarrow> \<not> xs_has_message s \<Longrightarrow>
   xsub_recv_times ro (length ms) s p = Some (map (Pair OK) ms, s\<lparr>xs_fq := q', xs_more := False\<rparr>, p')"
proof (induction ms arbitrary: m s p)
  case Nil
  then show ?case by (simp add: whole_Cons)
next
  case (Cons n ms)
  then obtain q1 p1 where r: "fq_recv ro (xs_fq s) p = Some (OK, n, q1, p1)" "delivers ro ms q1 p1 q' p'"
    by (auto simp: fq_recv_times_Suc simp del: fq_recv_times.simps(2))
  let ?s = "s\<lparr>xs_fq := q1, xs_more := has_more n\<rparr>"
  have "xsub_xrecv ro s p = Some (OK, n, ?s, p1)"
    using r(1) Cons.prems by (simp add: xsub_xrecv_def xsub_recv_loop.simps whole_Cons)
  moreover have "xsub_recv_times ro (length ms) ?s p1 = Some (map (Pair OK) ms, ?s\<lparr>xs_fq := q', xs_more := False\<rparr>, p')"
    using Cons.IH [of n ?s p1] r(2) Cons.prems(1,4) by (simp add: whole_Cons split: if_splits)
  ultimately show ?case by simp
qed

lemma recv_filters:
  assumes holds: "trie_holds (xs_subs s) M" "size M < 2 ^ 32" and hm: "\<not> xs_has_message s"
  shows "delivers ro (concat mss) (xs_fq s) p q' p' \<Longrightarrow> fq_recv ro q' p' = Some (Err EAGAIN, e, q2, p2) \<Longrightarrow>
    \<forall>ms \<in> set mss. whole ms \<Longrightarrow> \<not> xs_more s \<Longrightarrow>
    xsub_recv_times ro (Suc (length (concat (filter (wanted M) mss)))) s p =
      Some (map (Pair OK) (concat (filter (wanted M) mss)) @ [(Err EAGAIN, e)], s\<lparr>xs_fq := q2\<rparr>, p2)"
  using holds(1) hm
proof (induction mss arbitrary: s p)
  case Nil
  then show ?case by (simp add: xsub_xrecv_def xsub_recv_loop.simps)
next
  case (Cons ms mss)
  then obtain m ms' where ms: "ms = m # ms'" "whole (m # ms')" by (cases ms) auto
  from Cons.prems(1) obtain q1 p1 q3 p3 where r: "fq_recv ro (xs_fq s) p = Some (OK, m, q1, p1)"
    "delivers ro ms' q1 p1 q3 p3" "delivers ro (concat mss) q3 p3 q' p'"
    using delivers_append [of ro ms' "concat mss"]
    by (auto simp: ms(1) fq_recv_times_Suc simp del: fq_recv_times.simps(2))
  have match: "xsub_match m s = Some (wanted M ms)"
    using trie_holds_check [OF Cons.prems(5) holds(2)] by (simp add: xsub_match_def wanted_def ms(1))
  show ?case
  proof (cases "wanted M ms")
    case False
    let ?s = "s\<lparr>xs_fq := q3\<rparr>"
    have "xsub_xrecv ro s p = xsub_xrecv ro ?s p3"
      using r(1) match False Cons.prems(4,6) skip_whole [OF ms(2) r(2)]
      by (simp add: xsub_xrecv_def xsub_recv_loop.simps [of ro s])
    then have "xsub_recv_times ro (Suc n) s p = xsub_recv_times ro (Suc n) ?s p3" for n by simp
    with Cons.IH [of ?s p3] r(3) Cons.prems False show ?thesis by simp
  next
    case True
    let ?s1 = "s\<lparr>xs_fq := q1, xs_more := has_more m\<rparr>" and ?s = "s\<lparr>xs_fq := q3\<rparr>"
    have 1: "xsub_xrecv ro s p = Some (OK, m, ?s1, p1)"
      using r(1) match True Cons.prems(6) by (simp add: xsub_xrecv_def xsub_recv_loop.simps [of ro s])
    have 2: "xsub_recv_times ro (length ms') ?s1 p1 = Some (map (Pair OK) ms', ?s, p3)"
      using recv_rest_parts [OF ms(2), of ro ?s1 p1 q3 p3] r(2) Cons.prems(4,6) by simp
    have 3: "xsub_recv_times ro (Suc (length (concat (filter (wanted M) mss)))) ?s p3 =
        Some (map (Pair OK) (concat (filter (wanted M) mss)) @ [(Err EAGAIN, e)], s\<lparr>xs_fq := q2\<rparr>, p2)"
      using Cons.IH [of ?s p3] r(3) Cons.prems by simp
    show ?thesis
      using True 1 2 3 xsub_recv_times_add [of ro "length ms'" "Suc (length (concat (filter (wanted M) mss)))" ?s1 p1]
      by (simp add: ms(1) del: xsub_recv_times.simps(2) add: xsub_recv_times.simps(2) [of ro "Suc _" s])
  qed
qed

section \<open>Polling\<close>

lemma recv_loop_message:
  assumes "xsub_recv_loop ro s p = Some r"
  shows "xsub_recv_loop ro (s\<lparr>xs_message := m\<rparr>) p = Some (case r of (rc, x, s', p') \<Rightarrow> (rc, x, s'\<lparr>xs_message := m\<rparr>, p'))"
proof (induction rule: xsub_recv_loop.raw_induct [OF _ assms])
  case (1 loop ro s p r)
  have upd: "s\<lparr>xs_message := m, xs_fq := q\<rparr> = s\<lparr>xs_fq := q, xs_message := m\<rparr>" for q by simp
  show ?case
    using 1(2)
    by (subst xsub_recv_loop.simps)
      (auto simp: xsub_match_def upd simp del: xsub_socket.update_convs intro!: 1(1) split: bind_splits if_splits)
qed

lemma in_loop_recv_loop:
  assumes "xsub_in_loop ro s p = Some r"
  shows "\<not> xs_more s \<longrightarrow> (case r of (b, s1, p1) \<Rightarrow>
     if b then xs_has_message s1 \<and> \<not> xs_more s1 \<and> xs_subs s1 = xs_subs s \<and>
        (\<exists>s2. xsub_recv_loop ro s p = Some (OK, xs_message s1, s2, p1) \<and> xs_fq s2 = xs_fq s1 \<and>
           xs_subs s2 = xs_subs s \<and> xs_more s2 = has_more (xs_message s1) \<and> xs_has_message s2 = xs_has_message s)
     else \<exists>e s2. xsub_recv_loop ro s p = Some (Err EAGAIN, e, s2, p1) \<and> xs_fq s2 = xs_fq s1)"
proof (induction rule: xsub_in_loop.raw_induct [OF _ assms])
  case (1 loop ro s p r)
  from 1(2) obtain rc m q p1 where f: "fq_recv ro (xs_fq s) p = Some (rc, m, q, p1)"
    by (auto split: bind_splits)
  show ?case
  proof (cases "rc = OK")
    case False
    with 1(2) f show ?thesis by (auto simp: xsub_recv_loop.simps [of ro s] split: bind_splits)
  next
    case okrc: True
    with 1(2) f obtain ok where ok: "xsub_match m s = Some ok" by (auto split: bind_splits)
    show ?thesis
    proof (cases ok)
      case True
      with 1(2) f okrc ok show ?thesis by (auto simp: xsub_recv_loop.simps [of ro s])
    next
      case False
      with 1(2) f okrc ok obtain m' q' p' where sk: "xsub_skip ro m q p1 = Some (m', q', p')"
        "loop ro (s\<lparr>xs_message := m', xs_fq := q'\<rparr>) p' = Some r"
        by (auto split: bind_splits)
      let ?t = "s\<lparr>xs_message := m', xs_fq := q'\<rparr>"
      have undo: "xsub_recv_loop ro s p = Some (rc, x, s2\<lparr>xs_message := xs_message s\<rparr>, p2)"
        if "\<not> xs_more s" and "xsub_recv_loop ro ?t p' = Some (rc, x, s2, p2)" for rc x s2 p2
        using f okrc ok False sk(1) that(1) recv_loop_message [OF that(2), of "xs_message s"]
        by (simp add: xsub_recv_loop.simps [of ro s])
      obtain b s1 p2 where r: "r = (b, s1, p2)" by (cases r)
      note IH = 1(1) [OF sk(2), unfolded r prod.case]
      show ?thesis unfolding r prod.case
      proof (intro impI)
        assume nm: "\<not> xs_more s"
        show "if b then xs_has_message s1 \<and> \<not> xs_more s1 \<and> xs_subs s1 = xs_subs s \<and>
            (\<exists>s2. xsub_recv_loop ro s p = Some (OK, xs_message s1, s2, p2) \<and> xs_fq s2 = xs_fq s1 \<and>
               xs_subs s2 = xs_subs s \<and> xs_more s2 = has_more (xs_message s1) \<and> xs_has_message s2 = xs_has_message s)
          else \<exists>e s2. xsub_recv_loop ro s p = Some (Err EAGAIN, e, s2, p2) \<and> xs_fq s2 = xs_fq s1"
        proof (cases b)
          case True
          with IH nm obtain s2 where s2: "xsub_recv_loop ro ?t p' = Some (OK, xs_message s1, s2, p2)" "xs_fq s2 = xs_fq s1"
            "xs_subs s2 = xs_subs s" "xs_more s2 = has_more (xs_message s1)" "xs_has_message s2 = xs_has_message s"
            by auto
          from undo [OF nm s2(1)] IH nm True s2 show ?thesis by simp
        next
          case False
          with IH nm obtain e s2 where s2: "xsub_recv_loop ro ?t p' = Some (Err EAGAIN, e, s2, p2)" "xs_fq s2 = xs_fq s1"
            by auto
          from undo [OF nm s2(1)] False s2 show ?thesis by simp
        qed
      qed
    qed
  qed
qed

section \<open>Subscribing\<close>

fun sub_call :: "trie_op \<Rightarrow> sockopt \<times> byte list" where
  "sub_call (Add p) = (ZMQ_SUBSCRIBE, p)"
| "sub_call (Rm p) = (ZMQ_UNSUBSCRIBE, p)"

fun sub_calls :: "trie_op list \<Rightarrow> xsub_socket \<Rightarrow> xsub_socket option" where
  "sub_calls [] s = Some s"
| "sub_calls (x # xs) s = do { (_, s) \<leftarrow> sub_xsetsockopt (fst (sub_call x)) (snd (sub_call x)) s; sub_calls xs s }"

lemma sub_call_trie:
  "sub_xsetsockopt (fst (sub_call x)) (snd (sub_call x)) s =
     map_option (\<lambda>(_, t). (OK, s\<lparr>xs_subs := t\<rparr>)) (trie_do x (xs_subs s))"
  by (cases x) (auto simp: sub_xsetsockopt_def xsub_xsend_def split: bind_splits option.splits)

lemma sub_calls_trie:
  "sub_calls xs s = map_option (\<lambda>(_, t). s\<lparr>xs_subs := t\<rparr>) (trie_run xs (xs_subs s))"
  by (induction xs arbitrary: s) (auto simp: sub_call_trie split: bind_splits)

text \<open>C38 (equivalence).  A SUB socket is a filter: after any sequence of subscriptions and
  cancellations, of the messages its queue delivers the user gets exactly those whose first part
  starts with a prefix subscribed to more often than cancelled, whole and in the order in which
  they were delivered, and then \<open>EAGAIN\<close>.\<close>

theorem sub_filters:
  assumes "length ops < 2 ^ 32" and "xs_subs s = trie_new" and "\<not> xs_more s" and "\<not> xs_has_message s"
    and "fq_recv_times ro (length (concat mss)) (xs_fq s) p = Some (map (Pair OK) (concat mss), q', p')"
    and "fq_recv ro q' p' = Some (Err EAGAIN, e, q2, p2)" and "\<forall>ms \<in> set mss. whole ms"
  shows "\<exists>s1. sub_calls ops s = Some s1 \<and>
    (let kept = concat (filter (wanted (snd (spec_run ops {#}))) mss)
     in xsub_recv_times ro (Suc (length kept)) s1 p =
        Some (map (Pair OK) kept @ [(Err EAGAIN, e)], s1\<lparr>xs_fq := q2\<rparr>, p2))"
proof -
  let ?M = "snd (spec_run ops {#})"
  obtain t where t: "trie_run ops trie_new = Some (fst (spec_run ops {#}), t)" "trie_holds t ?M"
    using trie_run_spec [OF trie_new_holds] assms(1) by auto
  have s1: "sub_calls ops s = Some (s\<lparr>xs_subs := t\<rparr>)" using t(1) assms(2) by (simp add: sub_calls_trie)
  have "size ?M < 2 ^ 32" using size_spec_run [of ops "{#}"] assms(1) by simp
  then show ?thesis
    using recv_filters [of "s\<lparr>xs_subs := t\<rparr>" ?M ro mss p q' p' e q2 p2] t(2) assms(3-7) s1 by (simp add: Let_def)
qed

text \<open>C39 (equivalence).  Polling is transparent: \<open>xhas_in\<close> may already take a message from the
  queue, but the message the user then receives, and what is left in the queue and the pipes, is
  as without polling; and when \<open>xhas_in\<close> says no, a reception would have returned \<open>EAGAIN\<close>.\<close>

theorem xsub_poll_transparent:
  assumes "xsub_xhas_in ro s p = Some (b, s1, p1)"
  shows "if b then xsub_xrecv ro s1 p1 = None \<and> xsub_xrecv ro s p = None \<or>
      (\<exists>rc m t1 t2 p2. xsub_xrecv ro s1 p1 = Some (rc, m, t1, p2) \<and> xsub_xrecv ro s p = Some (rc, m, t2, p2) \<and>
         xs_fq t1 = xs_fq t2 \<and> xs_subs t1 = xs_subs t2 \<and> xs_more t1 = xs_more t2 \<and>
         xs_has_message t1 = xs_has_message t2)
    else \<exists>e s2. xsub_xrecv ro s p = Some (Err EAGAIN, e, s2, p1) \<and> xs_fq s2 = xs_fq s1"
proof (cases "xs_more s \<or> xs_has_message s")
  case True
  then have "b" "s1 = s" "p1 = p" using assms by (auto simp: xsub_xhas_in_def split: if_splits)
  then show ?thesis by (cases "xsub_xrecv ro s p") auto
next
  case False
  then have "xsub_in_loop ro s p = Some (b, s1, p1)" using assms by (simp add: xsub_xhas_in_def)
  from in_loop_recv_loop [OF this] False show ?thesis
    by (auto simp: xsub_xrecv_def Let_def)
qed

lemma one_pipe_parts:
  assumes "readers_rep t f" and "f a = Some xs"
  shows "\<exists>q' t' q2 t2. delivers pipe_reader_ops xs (fq_one a False) t q' t' \<and>
    (xs = [] \<or> \<not> has_more (last xs) \<longrightarrow> fq_recv pipe_reader_ops q' t' = Some (Err EAGAIN, empty_msg, q2, t2))"
proof -
  obtain t' where t': "delivers pipe_reader_ops xs (fq_one a False) t
      (fq_one a (if xs = [] then False else has_more (last xs))) t'" "readers_rep t' (f(a \<mapsto> []))"
    using pr.one_recv_times [OF assms(1), of a xs "[]" False] assms(2) by auto
  obtain t2 where "ro_read pipe_reader_ops a t' = Some (None, t2)"
    using pr.read_none [OF t'(2) fun_upd_same] by auto
  then have "fq_recv pipe_reader_ops (fq_one a False) t' =
      Some (Err EAGAIN, empty_msg, (fq_one a False)\<lparr>fq_active := 0, fq_pipes := fq_pipes (fq_one a False)\<rparr>, t2)"
    by (auto simp: fq_recv_def fq_one_def array_at_def fq_deactivate_def array_swap_def Let_def)
  with t'(1) show ?thesis by (auto split: if_splits) 
qed

lemma sub_filters_witness:
  "\<exists>t s1 s2 t2. sub_calls [Add [7], Add [1], Rm [1]] (xsub_new\<lparr>xs_fq := fq_one 7 False\<rparr>) = Some s1 \<and>
     xsub_recv_times pipe_reader_ops 3 s1 t =
       Some ([(OK, part [7, 5] True), (OK, part [1] False), (Err EAGAIN, empty_msg)], s2, t2)"
proof -
  let ?mss = "[[part [1, 2] True, part [7] False], [part [7, 5] True, part [1] False], [part [] False]]"
  have "\<exists>s. reads s (concat ?mss)"
    by (rule run_parts_reads [where as = "map W_write (concat ?mss) @ [W_flush]" and n = 6]) (code_simp, simp)
  then obtain s where "reads s (concat ?mss)" by blast
  then have rep: "readers_rep [7 \<mapsto> s] [7 \<mapsto> concat ?mss]" by (simp add: readers_rep_def)
  obtain q' t' q2 t2 where d: "delivers pipe_reader_ops (concat ?mss) (fq_one 7 False) [7 \<mapsto> s] q' t'"
    and e: "fq_recv pipe_reader_ops q' t' = Some (Err EAGAIN, empty_msg, q2, t2)"
    using one_pipe_parts [OF rep fun_upd_same] by auto
  let ?s = "xsub_new\<lparr>xs_fq := fq_one 7 False\<rparr>"
  have s: "xs_subs ?s = trie_new" "\<not> xs_more ?s" "\<not> xs_has_message ?s" "\<forall>ms \<in> set ?mss. whole ms"
    by (simp_all add: xsub_new_def whole_def)
  have k: "concat (filter (wanted (snd (spec_run [Add [7], Add [1], Rm [1]] {#}))) ?mss) =
      [part [7, 5] True, part [1] False]"
    by (simp add: wanted_def)
  have d': "delivers pipe_reader_ops (concat ?mss) (xs_fq ?s) [7 \<mapsto> s] q' t'" using d by simp
  have len: "length [Add [7], Add [1], Rm [1]] < 2 ^ 32" by simp
  from sub_filters [OF len s(1,2,3) d' e s(4)] k show ?thesis
    by (auto simp: numeral_3_eq_3 Let_def simp del: xsub_recv_times.simps fun_upd_apply)
qed

lemma xsub_poll_transparent_witness:
  "\<exists>e s2 p2. xsub_xrecv closed_readers (xsub_new\<lparr>xs_fq := fq_one 7 False\<rparr>) () = Some (Err EAGAIN, e, s2, p2)"
proof -
  have "map_option fst (xsub_xhas_in closed_readers (xsub_new\<lparr>xs_fq := fq_one 7 False\<rparr>) ()) = Some False"
    by code_simp
  then obtain s1 where "xsub_xhas_in closed_readers (xsub_new\<lparr>xs_fq := fq_one 7 False\<rparr>) () = Some (False, s1, ())"
    by auto
  from xsub_poll_transparent [OF this] show ?thesis by auto
qed

end
