(* ===== verification/Xrep.thy ===== *)
theory Xrep
  imports Sockets Socket_Ends Alternate "HOL-Library.List_Lexorder"
begin

text \<open>
  \<open>xrep.cpp\<close>, \<open>rep.cpp\<close>: the sockets that reply to the peer a message came from.  XREP puts
  the identity of the peer before each message received, and takes the first part of a message
  sent for the identity of the peer to send it to; REP keeps the addresses of the request before
  the empty part (the stack), puts them before the reply, and makes receiving and sending take
  turns.
\<close>

section \<open>XREP\<close>

type_synonym identity = "byte list"

record in_pipe =
  ip_reader :: addr
  ip_identity :: identity
  ip_active :: bool

record out_pipe =
  op_writer :: addr
  op_active :: bool

text \<open>\<open>xr_outpipes\<close> is the \<open>std::map\<close> of the outbound pipes, in the order of the keys.\<close>

record xrep_socket =
  xr_inpipes :: "in_pipe list"
  xr_current_in :: nat
  xr_prefetched :: bool
  xr_prefetched_msg :: msg
  xr_more_in :: bool
  xr_outpipes :: "(identity \<times> out_pipe) list"
  xr_current_out :: "addr option"
  xr_more_out :: bool
  xr_terminating :: bool
  xr_calls :: "sink_call list"

definition xrep_new :: "msg \<Rightarrow> xrep_socket" where
  "xrep_new garbage = \<lparr>xr_inpipes = [], xr_current_in = 0, xr_prefetched = False, xr_prefetched_msg = garbage,
     xr_more_in = False, xr_outpipes = [], xr_current_out = None, xr_more_out = False,
     xr_terminating = False, xr_calls = []\<rparr>"

definition xrep_options :: "options \<Rightarrow> options" where
  "xrep_options os = (socket_options ZMQ_XREP True True os)\<lparr>o_immediate_connect := False\<rparr>"

definition xrep_delete :: "xrep_socket \<Rightarrow> unit option" where
  "xrep_delete s = do { zmq_assert (xr_inpipes s = []); zmq_assert (xr_outpipes s = []) }"

definition xrep_call :: "sink_call \<Rightarrow> xrep_socket \<Rightarrow> xrep_socket" where
  "xrep_call c s = s\<lparr>xr_calls := xr_calls s @ [c]\<rparr>"

definition xrep_xattach_pipes ::
    "'p reader_ops \<Rightarrow> ('p, msg) writer_ops \<Rightarrow> addr option \<Rightarrow> addr option \<Rightarrow> identity \<Rightarrow> xrep_socket \<Rightarrow> 'p \<Rightarrow>
     (xrep_socket \<times> 'p) option" where
  "xrep_xattach_pipes ro wo inpipe outpipe peer s p = do {
     (s, p) \<leftarrow>
       (case outpipe of
          None \<Rightarrow> Some (s, p)
        | Some a \<Rightarrow> do {
            p \<leftarrow> wo_set_event_sink wo a p;
            zmq_assert (map_of (xr_outpipes s) peer = None);
            let s = s\<lparr>xr_outpipes := insort_key fst (peer, \<lparr>op_writer = a, op_active = True\<rparr>) (xr_outpipes s)\<rparr>;
            if xr_terminating s then do {
              p \<leftarrow> wo_terminate wo a p;
              Some (xrep_call (Register_term_acks 1) s, p)
            }
            else Some (s, p)
          });
     (case inpipe of
        None \<Rightarrow> Some (s, p)
      | Some a \<Rightarrow> do {
          p \<leftarrow> ro_set_event_sink ro a p;
          let s = s\<lparr>xr_inpipes := xr_inpipes s @ [\<lparr>ip_reader = a, ip_identity = peer, ip_active = True\<rparr>]\<rparr>;
          if xr_terminating s then do {
            p \<leftarrow> ro_terminate ro a p;
            Some (xrep_call (Register_term_acks 1) s, p)
          }
          else Some (s, p)
        })
   }"

definition xrep_process_term ::
    "'p reader_ops \<Rightarrow> ('p, msg) writer_ops \<Rightarrow> xrep_socket \<Rightarrow> 'p \<Rightarrow> (xrep_socket \<times> 'p) option" where
  "xrep_process_term ro wo s p = do {
     let s = s\<lparr>xr_terminating := True\<rparr>;
     let s = xrep_call (Register_term_acks (length (xr_inpipes s) + length (xr_outpipes s))) s;
     p \<leftarrow> terminate_all (ro_terminate ro) (map ip_reader (xr_inpipes s)) p;
     p \<leftarrow> terminate_all (wo_terminate wo) (map (op_writer \<circ> snd) (xr_outpipes s)) p;
     Some (s, p)
   }"

text \<open>The position of the first element with a property: the search loops of the code.\<close>

fun find_index :: "('a \<Rightarrow> bool) \<Rightarrow> 'a list \<Rightarrow> nat option" where
  "find_index P [] = None"
| "find_index P (x # xs) = (if P x then Some 0 else map_option Suc (find_index P xs))"

definition erase_nth :: "nat \<Rightarrow> 'a list \<Rightarrow> 'a list" where
  "erase_nth i xs = take i xs @ drop (Suc i) xs"

definition xrep_reader_terminated :: "addr \<Rightarrow> xrep_socket \<Rightarrow> xrep_socket option" where
  "xrep_reader_terminated pipe s = do {
     i \<leftarrow> find_index (\<lambda>ip. ip_reader ip = pipe) (xr_inpipes s);
     let s = (if i < xr_current_in s then s\<lparr>xr_current_in := xr_current_in s - 1\<rparr> else s);
     let s = s\<lparr>xr_inpipes := erase_nth i (xr_inpipes s)\<rparr>;
     let s = (if xr_current_in s \<ge> length (xr_inpipes s) then s\<lparr>xr_current_in := 0\<rparr> else s);
     Some (if xr_terminating s then xrep_call Unregister_term_ack s else s)
   }"

definition xrep_writer_terminated :: "addr \<Rightarrow> xrep_socket \<Rightarrow> xrep_socket option" where
  "xrep_writer_terminated pipe s = do {
     i \<leftarrow> find_index (\<lambda>kv. op_writer (snd kv) = pipe) (xr_outpipes s);
     let s = s\<lparr>xr_outpipes := erase_nth i (xr_outpipes s)\<rparr>;
     let s = (if xr_current_out s = Some pipe then s\<lparr>xr_current_out := None\<rparr> else s);
     Some (if xr_terminating s then xrep_call Unregister_term_ack s else s)
   }"

definition xrep_delimited :: "addr \<Rightarrow> xrep_socket \<Rightarrow> xrep_socket" where
  "xrep_delimited pipe s = s"

definition xrep_reader_activated :: "addr \<Rightarrow> xrep_socket \<Rightarrow> xrep_socket option" where
  "xrep_reader_activated pipe s = do {
     i \<leftarrow> find_index (\<lambda>ip. ip_reader ip = pipe) (xr_inpipes s);
     zmq_assert (\<not> ip_active (xr_inpipes s ! i));
     Some (s\<lparr>xr_inpipes := (xr_inpipes s)[i := (xr_inpipes s ! i)\<lparr>ip_active := True\<rparr>]\<rparr>)
   }"

text \<open>\<open>it->second.active = b\<close>.\<close>

definition set_out_active :: "bool \<Rightarrow> nat \<Rightarrow> xrep_socket \<Rightarrow> xrep_socket" where
  "set_out_active b i s = s\<lparr>xr_outpipes :=
     (xr_outpipes s)[i := (fst (xr_outpipes s ! i), (snd (xr_outpipes s ! i))\<lparr>op_active := b\<rparr>)]\<rparr>"

definition xrep_writer_activated :: "addr \<Rightarrow> xrep_socket \<Rightarrow> xrep_socket option" where
  "xrep_writer_activated pipe s = do {
     i \<leftarrow> find_index (\<lambda>kv. op_writer (snd kv) = pipe) (xr_outpipes s);
     zmq_assert (\<not> op_active (snd (xr_outpipes s ! i)));
     Some (set_out_active True i s)
   }"

definition xrep_xsend ::
    "('p, msg) writer_ops \<Rightarrow> msg \<Rightarrow> xrep_socket \<Rightarrow> 'p \<Rightarrow> (rc \<times> msg \<times> xrep_socket \<times> 'p) option" where
  "xrep_xsend wo m s p =
     (if \<not> xr_more_out s then do {
        zmq_assert (xr_current_out s = None);
        (s, p) \<leftarrow>
          (if has_more m then
             let s = s\<lparr>xr_more_out := True\<rparr>
             in case find_index (\<lambda>kv. fst kv = body_data (m_body m)) (xr_outpipes s) of
                  None \<Rightarrow> Some (s, p)
                | Some i \<Rightarrow> do {
                    let a = op_writer (snd (xr_outpipes s ! i));
                    let s = s\<lparr>xr_current_out := Some a\<rparr>;
                    (ok, p) \<leftarrow> wo_check_write wo a empty_msg p;
                    Some (if \<not> ok then (set_out_active False i s)\<lparr>xr_more_out := False, xr_current_out := None\<rparr> else s, p)
                  }
           else Some (s, p));
        Some (OK, empty_msg, s, p)
      }
      else do {
        let s = s\<lparr>xr_more_out := has_more m\<rparr>;
        (s, p) \<leftarrow>
          (case xr_current_out s of
             Some a \<Rightarrow> do {
               (ok, p) \<leftarrow> wo_write wo a m p;
               zmq_assert ok;
               if \<not> xr_more_out s then do {
                 p \<leftarrow> wo_flush wo a p;
                 Some (s\<lparr>xr_current_out := None\<rparr>, p)
               }
               else Some (s, p)
             }
           | None \<Rightarrow> Some (s, p));
        Some (OK, empty_msg, s, p)
      })"

definition xrep_in_at :: "nat \<Rightarrow> xrep_socket \<Rightarrow> in_pipe option" where
  "xrep_in_at i s = (if i < length (xr_inpipes s) then Some (xr_inpipes s ! i) else None)"

definition xrep_next_in :: "xrep_socket \<Rightarrow> xrep_socket" where
  "xrep_next_in s = (let i = xr_current_in s + 1 in s\<lparr>xr_current_in := if i \<ge> length (xr_inpipes s) then 0 else i\<rparr>)"

text \<open>Mark the current pipe as passive and move to the next one.\<close>

definition xrep_pass_in :: "xrep_socket \<Rightarrow> xrep_socket" where
  "xrep_pass_in s = xrep_next_in (s\<lparr>xr_inpipes :=
     (xr_inpipes s)[xr_current_in s := (xr_inpipes s ! xr_current_in s)\<lparr>ip_active := False\<rparr>]\<rparr>)"

definition identity_msg :: "identity \<Rightarrow> msg" where
  "identity_msg i = \<lparr>m_body = Data i, m_flags = NOT ZMQ_MSG_MASK OR ZMQ_MSG_MORE\<rparr>"

fun xrep_recv_loop ::
    "'p reader_ops \<Rightarrow> nat \<Rightarrow> xrep_socket \<Rightarrow> 'p \<Rightarrow> (rc \<times> msg \<times> xrep_socket \<times> 'p) option" where
  "xrep_recv_loop ro 0 s p = Some (Err EAGAIN, empty_msg, s, p)"
| "xrep_recv_loop ro (Suc count) s p = do {
     ip \<leftarrow> xrep_in_at (xr_current_in s) s;
     (v, p) \<leftarrow> (if ip_active ip then ro_read ro (ip_reader ip) p else Some (None, p));
     case v of
       Some m \<Rightarrow> Some (OK, identity_msg (ip_identity ip), s\<lparr>xr_prefetched := True, xr_prefetched_msg := m\<rparr>, p)
     | None \<Rightarrow> xrep_recv_loop ro count (xrep_pass_in s) p
   }"

definition xrep_xrecv :: "'p reader_ops \<Rightarrow> xrep_socket \<Rightarrow> 'p \<Rightarrow> (rc \<times> msg \<times> xrep_socket \<times> 'p) option" where
  "xrep_xrecv ro s p =
     (if xr_prefetched s then
        let m = xr_prefetched_msg s
        in Some (OK, m, s\<lparr>xr_prefetched_msg := empty_msg, xr_more_in := has_more m, xr_prefetched := False\<rparr>, p)
      else if xr_more_in s then do {
        ip \<leftarrow> xrep_in_at (xr_current_in s) s;
        zmq_assert (ip_active ip);
        (v, p) \<leftarrow> ro_read ro (ip_reader ip) p;
        m \<leftarrow> v;
        let s = s\<lparr>xr_more_in := has_more m\<rparr>;
        Some (OK, m, if \<not> xr_more_in s then xrep_next_in s else s, p)
      }
      else xrep_recv_loop ro (length (xr_inpipes s)) s p)"

definition xrep_rollback :: "('p, msg) writer_ops \<Rightarrow> xrep_socket \<Rightarrow> 'p \<Rightarrow> (rc \<times> xrep_socket \<times> 'p) option" where
  "xrep_rollback wo s p =
     (case xr_current_out s of
        Some a \<Rightarrow> do {
          p \<leftarrow> wo_rollback wo a p;
          Some (OK, s\<lparr>xr_current_out := None, xr_more_out := False\<rparr>, p)
        }
      | None \<Rightarrow> Some (OK, s, p))"

fun xrep_in_loop :: "'p reader_ops \<Rightarrow> nat \<Rightarrow> xrep_socket \<Rightarrow> 'p \<Rightarrow> (bool \<times> xrep_socket \<times> 'p) option" where
  "xrep_in_loop ro 0 s p = Some (False, s, p)"
| "xrep_in_loop ro (Suc count) s p = do {
     ip \<leftarrow> xrep_in_at (xr_current_in s) s;
     (ok, p) \<leftarrow> (if ip_active ip then ro_check_read ro (ip_reader ip) p else Some (False, p));
     if ok then Some (True, s, p) else xrep_in_loop ro count (xrep_pass_in s) p
   }"

definition xrep_xhas_in :: "'p reader_ops \<Rightarrow> xrep_socket \<Rightarrow> 'p \<Rightarrow> (bool \<times> xrep_socket \<times> 'p) option" where
  "xrep_xhas_in ro s p =
     (if xr_prefetched s \<or> xr_more_in s then Some (True, s, p)
      else xrep_in_loop ro (length (xr_inpipes s)) s p)"

definition xrep_xhas_out :: "xrep_socket \<Rightarrow> bool" where "xrep_xhas_out s = True"

section \<open>REP\<close>

record rep_socket =
  rp_xrep :: xrep_socket
  rp_sending :: bool
  rp_begins :: bool

definition rep_new :: "msg \<Rightarrow> rep_socket" where
  "rep_new garbage = \<lparr>rp_xrep = xrep_new garbage, rp_sending = False, rp_begins = True\<rparr>"

definition rep_options :: "options \<Rightarrow> options" where
  "rep_options os = (xrep_options os)\<lparr>o_type := type_code ZMQ_REP\<rparr>"

definition rep_xsend ::
    "('p, msg) writer_ops \<Rightarrow> msg \<Rightarrow> rep_socket \<Rightarrow> 'p \<Rightarrow> (rc \<times> msg \<times> rep_socket \<times> 'p) option" where
  "rep_xsend wo m s p =
     (if \<not> rp_sending s then Some (Err EFSM, m, s, p)
      else do {
        let mo = has_more m;
        (rc, m, x, p) \<leftarrow> xrep_xsend wo m (rp_xrep s) p;
        let s = s\<lparr>rp_xrep := x\<rparr>;
        if rc \<noteq> OK then Some (rc, m, s, p)
        else Some (OK, m, if \<not> mo then s\<lparr>rp_sending := False\<rparr> else s, p)
      })"

text \<open>Copy the stack of addresses to the reply pipe; malformed requests are dropped.\<close>

partial_function (option) rep_copy_stack ::
    "'p reader_ops \<Rightarrow> ('p, msg) writer_ops \<Rightarrow> xrep_socket \<Rightarrow> 'p \<Rightarrow> (rc \<times> msg \<times> xrep_socket \<times> 'p) option" where
  "rep_copy_stack ro wo x p = do {
     (rc, m, x, p) \<leftarrow> xrep_xrecv ro x p;
     if rc \<noteq> OK then Some (rc, m, x, p)
     else if has_more m then do {
       let bottom = body_data (m_body m) = [];
       (rc, m, x, p) \<leftarrow> xrep_xsend wo m x p;
       u \<leftarrow> zmq_assert (rc = OK);
       if bottom then Some (OK, m, x, p) else rep_copy_stack ro wo x p
     }
     else do {
       (rc, x, p) \<leftarrow> xrep_rollback wo x p;
       u \<leftarrow> zmq_assert (rc = OK);
       rep_copy_stack ro wo x p
     }
   }"

declare rep_copy_stack.simps [code]

definition rep_xrecv ::
    "'p reader_ops \<Rightarrow> ('p, msg) writer_ops \<Rightarrow> msg \<Rightarrow> rep_socket \<Rightarrow> 'p \<Rightarrow> (rc \<times> msg \<times> rep_socket \<times> 'p) option" where
  "rep_xrecv ro wo m s p =
     (if rp_sending s then Some (Err EFSM, m, s, p)
      else do {
        (rc, m, s, p) \<leftarrow>
          (if rp_begins s then do {
             (rc, m, x, p) \<leftarrow> rep_copy_stack ro wo (rp_xrep s) p;
             let s = s\<lparr>rp_xrep := x\<rparr>;
             Some (rc, m, if rc = OK then s\<lparr>rp_begins := False\<rparr> else s, p)
           }
           else Some (OK, m, s, p));
        if rc \<noteq> OK then Some (rc, m, s, p)
        else do {
          (rc, m, x, p) \<leftarrow> xrep_xrecv ro (rp_xrep s) p;
          let s = s\<lparr>rp_xrep := x\<rparr>;
          if rc \<noteq> OK then Some (rc, m, s, p)
          else Some (OK, m, if \<not> has_more m then s\<lparr>rp_sending := True, rp_begins := True\<rparr> else s, p)
        }
      })"

definition rep_xhas_in :: "'p reader_ops \<Rightarrow> rep_socket \<Rightarrow> 'p \<Rightarrow> (bool \<times> rep_socket \<times> 'p) option" where
  "rep_xhas_in ro s p =
     (if rp_sending s then Some (False, s, p)
      else do { (b, x, p) \<leftarrow> xrep_xhas_in ro (rp_xrep s) p; Some (b, s\<lparr>rp_xrep := x\<rparr>, p) })"

definition rep_xhas_out :: "rep_socket \<Rightarrow> bool" where
  "rep_xhas_out s \<longleftrightarrow> rp_sending s \<and> xrep_xhas_out (rp_xrep s)"

section \<open>Receiving\<close>

text \<open>The outbound half of a socket, which receiving leaves alone.\<close>

definition same_out :: "xrep_socket \<Rightarrow> xrep_socket \<Rightarrow> bool" where
  "same_out s s' \<longleftrightarrow> xr_outpipes s' = xr_outpipes s \<and> xr_current_out s' = xr_current_out s \<and>
     xr_more_out s' = xr_more_out s"

lemma same_out_trans: "same_out s s' \<Longrightarrow> same_out s' s'' \<Longrightarrow> same_out s s''"
  by (simp add: same_out_def)

lemma same_out_refl [simp]: "same_out s s" by (simp add: same_out_def)

text \<open>\<open>at_pipe s ip\<close>: the current inbound pipe is \<open>ip\<close>, and active.\<close>

definition at_pipe :: "xrep_socket \<Rightarrow> in_pipe \<Rightarrow> bool" where
  "at_pipe s ip \<longleftrightarrow> xrep_in_at (xr_current_in s) s = Some ip \<and> ip_active ip"

text \<open>The parts not yet given to the user, when a message has been begun: the one prefetched and
  those in the pipe.\<close>

definition left_parts :: "xrep_socket \<Rightarrow> msg list \<Rightarrow> msg list" where
  "left_parts s ms = (if xr_prefetched s then [xr_prefetched_msg s] else []) @ ms"

definition begun :: "xrep_socket \<Rightarrow> bool" where
  "begun s \<longleftrightarrow> xr_prefetched s \<or> xr_more_in s"

context socket_ends begin

abbreviation keeps_ready :: "'p \<Rightarrow> 'p \<Rightarrow> (addr \<rightharpoonup> msg list \<times> msg list) \<Rightarrow> bool" where
  "keeps_ready p p' g \<equiv> \<forall>a \<in> dom g. ready p' a = ready p a"

lemma recv_part:
  assumes rep: "rep p f g" and at: "at_pipe s ip" and b: "begun s" and f: "f (ip_reader ip) = Some ms"
    and parts: "left_parts s ms = m # xs"
  shows "\<exists>s' p'. xrep_xrecv ro s p = Some (OK, m, s', p') \<and> rep p' (f(ip_reader ip \<mapsto> xs)) g \<and> keeps_ready p p' g \<and>
    \<not> xr_prefetched s' \<and> xr_more_in s' = has_more m \<and> same_out s s' \<and> (has_more m \<longrightarrow> at_pipe s' ip)"
proof (cases "xr_prefetched s")
  case True
  with parts have "m = xr_prefetched_msg s" "xs = ms" by (simp_all add: left_parts_def)
  with True rep at f show ?thesis
    by (auto simp: xrep_xrecv_def Let_def same_out_def at_pipe_def xrep_in_at_def left_parts_def fun_upd_idem)
next
  case False
  then have ms: "ms = m # xs" "xr_more_in s" using parts b by (simp_all add: left_parts_def begun_def)
  obtain p' where p': "ro_read ro (ip_reader ip) p = Some (Some m, p')" "rep p' (f(ip_reader ip \<mapsto> xs)) g"
    using r.read_some [OF rep, of "ip_reader ip" m xs] f ms(1) by auto
  have "keeps_ready p p' g" using read_ready [OF rep _ f p'(1)] by auto
  with p' False ms(2) at show ?thesis
    by (auto simp: xrep_xrecv_def at_pipe_def same_out_def xrep_next_in_def Let_def left_parts_def xrep_in_at_def
        simp del: fun_upd_apply)
qed

text \<open>The search for the next message: it finds an active pipe that holds something, or there is none.\<close>

lemma recv_loop_spec:
  assumes "rep p f g" and "\<forall>ip \<in> set (xr_inpipes s). f (ip_reader ip) \<noteq> None" and "xr_current_in s < length (xr_inpipes s)"
    and "\<not> xr_prefetched s" and "\<not> xr_more_in s"
  shows "\<exists>rc m s' p'. xrep_recv_loop ro n s p = Some (rc, m, s', p') \<and> same_out s s' \<and> \<not> xr_more_in s' \<and>
    keeps_ready p p' g \<and>
    (rc = Err EAGAIN \<and> rep p' f g \<and> \<not> xr_prefetched s' \<and>
       (\<forall>k < n. let ip = xr_inpipes s ! ((xr_current_in s + k) mod length (xr_inpipes s))
               in ip_active ip \<longrightarrow> f (ip_reader ip) = Some []) \<or>
     rc = OK \<and> (\<exists>ip x ms. ip \<in> set (xr_inpipes s) \<and> f (ip_reader ip) = Some (x # ms) \<and>
       m = identity_msg (ip_identity ip) \<and> at_pipe s' ip \<and> xr_prefetched s' \<and> xr_prefetched_msg s' = x \<and>
       rep p' (f(ip_reader ip \<mapsto> ms)) g))"
  using assms
proof (induction n arbitrary: s p)
  case 0
  then show ?case by simp
next
  case (Suc n)
  let ?L = "length (xr_inpipes s)" and ?ip = "xr_inpipes s ! xr_current_in s"
  have at: "xrep_in_at (xr_current_in s) s = Some ?ip" using Suc.prems(3) by (simp add: xrep_in_at_def)
  have mem: "?ip \<in> set (xr_inpipes s)" using Suc.prems(3) by simp
  then obtain ms where ms: "f (ip_reader ?ip) = Some ms" using Suc.prems(2) by blast
  show ?case
  proof (cases "ip_active ?ip \<and> ms \<noteq> []")
    case True
    then obtain x xs where x: "ms = x # xs" by (cases ms) auto
    obtain p' where p': "ro_read ro (ip_reader ?ip) p = Some (Some x, p')" "rep p' (f(ip_reader ?ip \<mapsto> xs)) g"
      using r.read_some [OF Suc.prems(1), of "ip_reader ?ip" x xs] ms x by auto
    have "keeps_ready p p' g" using read_ready [OF Suc.prems(1) _ ms p'(1)] by auto
    define t where "t = s\<lparr>xr_prefetched := True, xr_prefetched_msg := x\<rparr>"
    have "xrep_recv_loop ro (Suc n) s p = Some (OK, identity_msg (ip_identity ?ip), t, p')"
      using at True p'(1) by (simp add: t_def)
    moreover have "at_pipe t ?ip" "same_out s t" "xr_prefetched t" "xr_prefetched_msg t = x" "\<not> xr_more_in t"
      using Suc.prems(3,5) True by (simp_all add: t_def at_pipe_def xrep_in_at_def same_out_def)
    moreover have "f (ip_reader ?ip) = Some (x # xs)" using ms x by simp
    ultimately show ?thesis using p'(2) mem \<open>keeps_ready p p' g\<close> by blast
  next
    case False
    obtain p1 where p1: "(if ip_active ?ip then ro_read ro (ip_reader ?ip) p else Some (None, p)) = Some (None, p1)"
      "rep p1 f g"
      using r.read_none [OF Suc.prems(1), of "ip_reader ?ip"] ms False Suc.prems(1) by (cases "ip_active ?ip") auto
    have keep: "keeps_ready p p1 g"
      using p1(1) read_ready [OF Suc.prems(1) _ ms] by (cases "ip_active ?ip") auto
    define t where "t = xrep_pass_in s"
    have t: "length (xr_inpipes t) = ?L" "xr_current_in t = Suc (xr_current_in s) mod ?L" "same_out s t"
      "xr_inpipes t = (xr_inpipes s)[xr_current_in s := ?ip\<lparr>ip_active := False\<rparr>]"
      "\<not> xr_prefetched t" "\<not> xr_more_in t"
      using Suc.prems(3-5) by (auto simp: t_def xrep_pass_in_def xrep_next_in_def Let_def same_out_def mod_Suc)
    have eq: "xrep_recv_loop ro (Suc n) s p = xrep_recv_loop ro n t p1" using at p1(1) by (simp add: t_def)
    have ins: "ip = ?ip\<lparr>ip_active := False\<rparr> \<or> ip \<in> set (xr_inpipes s)" if "ip \<in> set (xr_inpipes t)" for ip
      using that set_update_subset_insert [of "xr_inpipes s" "xr_current_in s" "?ip\<lparr>ip_active := False\<rparr>"]
      unfolding t(4) by blast
    then have old: "ip \<in> set (xr_inpipes s)" if "ip \<in> set (xr_inpipes t)" "ip_active ip" for ip using that by fastforce
    have cov: "\<forall>ip \<in> set (xr_inpipes t). f (ip_reader ip) \<noteq> None" using ins Suc.prems(2) ms by fastforce
    have lt: "xr_current_in t < length (xr_inpipes t)" unfolding t(1,2) using Suc.prems(3) by (intro mod_less_divisor) linarith
    obtain rc m s' p' where IH: "xrep_recv_loop ro n t p1 = Some (rc, m, s', p')" "same_out t s'" "\<not> xr_more_in s'"
      "keeps_ready p1 p' g"
      and d: "rc = Err EAGAIN \<and> rep p' f g \<and> \<not> xr_prefetched s' \<and>
          (\<forall>k < n. let ip = xr_inpipes t ! ((xr_current_in t + k) mod length (xr_inpipes t))
               in ip_active ip \<longrightarrow> f (ip_reader ip) = Some []) \<or>
        rc = OK \<and> (\<exists>ip x ms. ip \<in> set (xr_inpipes t) \<and> f (ip_reader ip) = Some (x # ms) \<and>
          m = identity_msg (ip_identity ip) \<and> at_pipe s' ip \<and> xr_prefetched s' \<and> xr_prefetched_msg s' = x \<and>
          rep p' (f(ip_reader ip \<mapsto> ms)) g)"
      using Suc.IH [OF p1(2) cov lt t(5,6)] by blast
    have ks: "keeps_ready p p' g" using keep IH(4) by auto
    show ?thesis
    proof (cases "rc = OK")
      case True
      with d obtain ip x ms where "ip \<in> set (xr_inpipes t)" "f (ip_reader ip) = Some (x # ms)"
        "m = identity_msg (ip_identity ip)" "at_pipe s' ip" "xr_prefetched s'" "xr_prefetched_msg s' = x"
        "rep p' (f(ip_reader ip \<mapsto> ms)) g" by auto
      moreover from this old have "ip \<in> set (xr_inpipes s)" by (auto simp: at_pipe_def)
      ultimately show ?thesis
        using IH(1,3) eq same_out_trans [OF t(3) IH(2)] ks True by (auto simp del: xrep_recv_loop.simps fun_upd_apply)
    next
      case nOK: False
      have "let ip = xr_inpipes s ! ((xr_current_in s + k) mod ?L) in ip_active ip \<longrightarrow> f (ip_reader ip) = Some []"
        if k: "k < Suc n" for k
      proof (cases k)
        case 0
        then show ?thesis using Suc.prems(3) False ms by (simp add: Let_def)
      next
        case (Suc k')
        let ?j = "(xr_current_in s + k) mod ?L"
        have j: "(xr_current_in t + k') mod length (xr_inpipes t) = ?j"
          using Suc t(1,2) by (simp add: mod_add_left_eq)
        have "?j < ?L" using Suc.prems(3) by (intro mod_less_divisor) linarith
        have "let ip = xr_inpipes t ! ?j in ip_active ip \<longrightarrow> f (ip_reader ip) = Some []"
          using d nOK k Suc j by auto
        then show ?thesis
          using t(4) \<open>?j < ?L\<close> False ms by (cases "?j = xr_current_in s") (auto simp: Let_def nth_list_update)
      qed
      then show ?thesis
        using IH(1,3) eq same_out_trans [OF t(3) IH(2)] ks d nOK by (auto simp del: xrep_recv_loop.simps)
    qed
  qed
qed

end

section \<open>Sending\<close>

definition same_in :: "xrep_socket \<Rightarrow> xrep_socket \<Rightarrow> bool" where
  "same_in s s' \<longleftrightarrow> xr_inpipes s' = xr_inpipes s \<and> xr_current_in s' = xr_current_in s \<and>
     xr_prefetched s' = xr_prefetched s \<and> xr_prefetched_msg s' = xr_prefetched_msg s \<and> xr_more_in s' = xr_more_in s"

lemma same_in_refl [simp]: "same_in s s" by (simp add: same_in_def)

lemma same_in_facts:
  assumes "same_in s s'"
  shows "at_pipe s' ip = at_pipe s ip" and "begun s' = begun s" and "left_parts s' ms = left_parts s ms"
  using assms by (simp_all add: same_in_def at_pipe_def begun_def left_parts_def xrep_in_at_def)

text \<open>No message is being sent; one is being sent to the pipe \<open>a\<close>.\<close>

definition out_idle :: "xrep_socket \<Rightarrow> bool" where
  "out_idle s \<longleftrightarrow> \<not> xr_more_out s \<and> xr_current_out s = None"

definition out_to :: "xrep_socket \<Rightarrow> addr \<Rightarrow> bool" where
  "out_to s a \<longleftrightarrow> xr_more_out s \<and> xr_current_out s = Some a"

text \<open>The pipe to the peer with an identity.\<close>

definition peer_pipe :: "xrep_socket \<Rightarrow> identity \<Rightarrow> addr option" where
  "peer_pipe s i = map_option op_writer (map_of (xr_outpipes s) i)"

lemma find_index_map_of:
  "map_option (\<lambda>k. snd (xs ! k)) (find_index (\<lambda>kv. fst kv = i) xs) = map_of xs i"
  by (induction xs) (auto simp: option.map_comp comp_def)

lemma peer_pipe_find:
  "peer_pipe s i = map_option (\<lambda>k. op_writer (snd (xr_outpipes s ! k))) (find_index (\<lambda>kv. fst kv = i) (xr_outpipes s))"
  by (simp add: peer_pipe_def find_index_map_of [symmetric] option.map_comp comp_def)

lemma find_index_less: "find_index P xs = Some k \<Longrightarrow> k < length xs"
  by (induction xs arbitrary: k) (auto split: if_splits)

lemma peer_pipe_set_out_active:
  assumes "k < length (xr_outpipes s)"
  shows "peer_pipe (set_out_active b k s) = peer_pipe s"
proof -
  have pp: "peer_pipe s = map_of (map (\<lambda>(i, o'). (i, op_writer o')) (xr_outpipes s))" for s
    by (simp add: peer_pipe_def map_of_map fun_eq_iff)
  have "map (\<lambda>(i, o'). (i, op_writer o')) (xr_outpipes (set_out_active b k s)) = map (\<lambda>(i, o'). (i, op_writer o')) (xr_outpipes s)"
    using assms by (intro nth_equalityI) (auto simp: set_out_active_def nth_list_update split_beta)
  then show ?thesis by (simp only: pp)
qed

context socket_ends begin

lemma send_identity:
  assumes rep: "rep p f g" and idle: "out_idle s" and m: "has_more m" "peer_pipe s (body_data (m_body m)) = Some a"
    and g: "g a = Some c"
  shows "\<exists>s' p'. xrep_xsend wo m s p = Some (OK, empty_msg, s', p') \<and> rep p' f g \<and> ready p' a = ready p a \<and>
    same_in s s' \<and> peer_pipe s' = peer_pipe s \<and> (if ready p a then out_to s' a else out_idle s')"
proof -
  obtain k where k: "find_index (\<lambda>kv. fst kv = body_data (m_body m)) (xr_outpipes s) = Some k"
    "op_writer (snd (xr_outpipes s ! k)) = a"
    using m(2) by (auto simp: peer_pipe_find)
  obtain p' where "wo_check_write wo a empty_msg p = Some (ready p a, p')" "rep p' f g" "ready p' a = ready p a"
    using check_ready [OF rep g, of empty_msg] by blast
  note ch = this
  show ?thesis
  proof (cases "ready p a")
    case True
    with ch k idle m(1) show ?thesis
      by (auto simp: xrep_xsend_def out_idle_def out_to_def Let_def same_in_def peer_pipe_def fun_eq_iff)
  next
    case False
    define t where "t = (set_out_active False k s)\<lparr>xr_more_out := False, xr_current_out := None\<rparr>"
    have "t = (set_out_active False k (s\<lparr>xr_more_out := True, xr_current_out := Some a\<rparr>))
        \<lparr>xr_more_out := False, xr_current_out := None\<rparr>"
      by (simp add: t_def set_out_active_def)
    then have "xrep_xsend wo m s p = Some (OK, empty_msg, t, p')"
      using ch(1) False k idle m(1) by (simp add: xrep_xsend_def out_idle_def Let_def)
    moreover have "same_in s t" "out_idle t" by (simp_all add: t_def same_in_def out_idle_def set_out_active_def)
    moreover have "peer_pipe t = peer_pipe s"
      using peer_pipe_set_out_active [OF find_index_less [OF k(1)]] by (simp add: t_def peer_pipe_def fun_eq_iff)
    ultimately show ?thesis using ch(2,3) False by auto
  qed
qed

lemma send_unknown:
  assumes "out_idle s" and "has_more m" and "peer_pipe s (body_data (m_body m)) = None"
  shows "xrep_xsend wo m s p = Some (OK, empty_msg, s\<lparr>xr_more_out := True\<rparr>, p)"
  using assms by (simp add: xrep_xsend_def out_idle_def peer_pipe_find)

lemma send_part:
  assumes rep: "rep p f g" and out: "out_to s a" and g: "g a = Some (cs, inc)" and nd: "\<not> is_delimiter m"
    and rd: "inc \<noteq> [] \<or> ready p a"
  shows "\<exists>s' p'. xrep_xsend wo m s p = Some (OK, empty_msg, s', p') \<and> rep p' f (g(a \<mapsto> add_part m (cs, inc))) \<and>
    same_in s s' \<and> xr_outpipes s' = xr_outpipes s \<and> (if has_more m then out_to s' a else out_idle s')"
proof -
  obtain p1 where p1: "wo_write wo a m p = Some (True, p1)" "rep p1 f (g(a \<mapsto> add_part m (cs, inc)))"
    using write_ready [OF rep g _ nd] w.write_msg [OF rep g nd] rd by (cases "inc = []") auto
  show ?thesis
  proof (cases "has_more m")
    case True
    with p1 out show ?thesis by (auto simp: xrep_xsend_def out_to_def same_in_def Let_def simp del: fun_upd_apply add_part.simps)
  next
    case False
    obtain p2 where p2: "wo_flush wo a p1 = Some p2" "rep p2 f (g(a \<mapsto> add_part m (cs, inc)))"
      using w.flush [OF p1(2), of a] by auto
    with p1 out False show ?thesis
      by (auto simp: xrep_xsend_def out_to_def out_idle_def same_in_def Let_def simp del: fun_upd_apply add_part.simps)
  qed
qed

end

fun xrep_send_parts :: "('p, msg) writer_ops \<Rightarrow> msg list \<Rightarrow> xrep_socket \<Rightarrow> 'p \<Rightarrow> (xrep_socket \<times> 'p) option" where
  "xrep_send_parts wo [] s p = Some (s, p)"
| "xrep_send_parts wo (m # ms) s p = do {
     (rc, _, s, p) \<leftarrow> xrep_xsend wo m s p;
     zmq_assert (rc = OK);
     xrep_send_parts wo ms s p
   }"

context socket_ends begin

lemma send_parts_to:
  "rep p f g \<Longrightarrow> out_to s a \<Longrightarrow> g a = Some (cs, inc) \<Longrightarrow> inc \<noteq> [] \<or> ready p a \<Longrightarrow> whole ms \<Longrightarrow>
   \<forall>m \<in> set ms. \<not> is_delimiter m \<Longrightarrow>
   \<exists>s' p'. xrep_send_parts wo ms s p = Some (s', p') \<and> rep p' f (g(a \<mapsto> (cs @ inc @ ms, []))) \<and> same_in s s' \<and>
     out_idle s' \<and> xr_outpipes s' = xr_outpipes s"
proof (induction ms arbitrary: s p g inc)
  case (Cons m ms)
  obtain s1 p1 where 1: "xrep_xsend wo m s p = Some (OK, empty_msg, s1, p1)" "rep p1 f (g(a \<mapsto> add_part m (cs, inc)))"
    "same_in s s1" "xr_outpipes s1 = xr_outpipes s" "if has_more m then out_to s1 a else out_idle s1"
    using send_part [OF Cons.prems(1-3) _ Cons.prems(4), of m] Cons.prems(6) by auto
  show ?case
  proof (cases "ms = []")
    case True
    with 1 Cons.prems(5) show ?thesis by (auto simp: whole_Cons simp del: fun_upd_apply)
  next
    case False
    then have hm: "has_more m" "whole ms" using Cons.prems(5) by (simp_all add: whole_Cons)
    let ?g = "g(a \<mapsto> (cs, inc @ [m]))"
    have "rep p1 f ?g" "out_to s1 a" using 1(2,5) hm by (simp_all del: fun_upd_apply)
    from Cons.IH [OF this, of "inc @ [m]"] hm Cons.prems(6)
    obtain s2 p2 where "xrep_send_parts wo ms s1 p1 = Some (s2, p2)" "rep p2 f (?g(a \<mapsto> (cs @ (inc @ [m]) @ ms, [])))"
      "same_in s1 s2" "out_idle s2" "xr_outpipes s2 = xr_outpipes s1"
      by (auto simp del: fun_upd_apply) (metis fun_upd_same)
    with 1 show ?thesis by (auto simp: same_in_def simp del: fun_upd_apply)
  qed
qed simp

end

section \<open>The stack of addresses\<close>

text \<open>The parts of a request up to the empty one: addresses, each announcing another part.\<close>

definition stack :: "msg list \<Rightarrow> msg \<Rightarrow> bool" where
  "stack env b \<longleftrightarrow> (\<forall>m \<in> set env. has_more m \<and> body_data (m_body m) \<noteq> [] \<and> \<not> is_delimiter m) \<and>
     has_more b \<and> body_data (m_body b) = [] \<and> \<not> is_delimiter b"

context socket_ends begin

lemma copy_rest:
  "rep p f g \<Longrightarrow> at_pipe x ip \<Longrightarrow> begun x \<Longrightarrow> f (ip_reader ip) = Some ms \<Longrightarrow> left_parts x ms = env @ b # rest \<Longrightarrow>
   out_to x a \<Longrightarrow> g a = Some (cs, inc) \<Longrightarrow> inc \<noteq> [] \<or> ready p a \<Longrightarrow> stack env b \<Longrightarrow>
   \<exists>x' p'. rep_copy_stack ro wo x p = Some (OK, empty_msg, x', p') \<and> rep p' (f(ip_reader ip \<mapsto> rest)) (g(a \<mapsto> (cs, inc @ env @ [b]))) \<and>
     at_pipe x' ip \<and> xr_more_in x' \<and> \<not> xr_prefetched x' \<and> out_to x' a \<and> xr_outpipes x' = xr_outpipes x"
proof (induction env arbitrary: x p f g ms inc)
  case Nil
  obtain x1 p1 where 1: "xrep_xrecv ro x p = Some (OK, b, x1, p1)" "rep p1 (f(ip_reader ip \<mapsto> rest)) g" "keeps_ready p p1 g"
    "\<not> xr_prefetched x1" "xr_more_in x1 = has_more b" "same_out x x1" "has_more b \<longrightarrow> at_pipe x1 ip"
    using recv_part [OF Nil.prems(1-4), of b rest] Nil.prems(5) by auto
  have b: "has_more b" "body_data (m_body b) = []" "\<not> is_delimiter b" using Nil.prems(9) by (simp_all add: stack_def)
  have out1: "out_to x1 a" using Nil.prems(6) 1(6) by (simp add: out_to_def same_out_def)
  have rd: "inc \<noteq> [] \<or> ready p1 a" using Nil.prems(7,8) 1(3) by auto
  obtain x2 p2 where 2: "xrep_xsend wo b x1 p1 = Some (OK, empty_msg, x2, p2)"
    "rep p2 (f(ip_reader ip \<mapsto> rest)) (g(a \<mapsto> add_part b (cs, inc)))" "same_in x1 x2"
    "xr_outpipes x2 = xr_outpipes x1" "if has_more b then out_to x2 a else out_idle x2"
    using send_part [OF 1(2) out1 Nil.prems(7) b(3) rd] by auto
  have "rep_copy_stack ro wo x p = Some (OK, empty_msg, x2, p2)"
    using 1(1) 2(1) b by (simp add: rep_copy_stack.simps)
  moreover have "at_pipe x2 ip" using same_in_facts(1) [OF 2(3)] 1(7) b(1) by simp
  ultimately show ?case
    using 1(4-6) 2(2-5) b(1) by (auto simp: same_in_def same_out_def simp del: fun_upd_apply)
next
  case (Cons e env)
  obtain x1 p1 where 1: "xrep_xrecv ro x p = Some (OK, e, x1, p1)" "rep p1 (f(ip_reader ip \<mapsto> env @ b # rest)) g"
    "keeps_ready p p1 g" "\<not> xr_prefetched x1" "xr_more_in x1 = has_more e" "same_out x x1" "has_more e \<longrightarrow> at_pipe x1 ip"
    using recv_part [OF Cons.prems(1-4), of e "env @ b # rest"] Cons.prems(5) by auto
  have e: "has_more e" "body_data (m_body e) \<noteq> []" "\<not> is_delimiter e" using Cons.prems(9) by (simp_all add: stack_def)
  have out1: "out_to x1 a" using Cons.prems(6) 1(6) by (simp add: out_to_def same_out_def)
  have rd: "inc \<noteq> [] \<or> ready p1 a" using Cons.prems(7,8) 1(3) by auto
  let ?f = "f(ip_reader ip \<mapsto> env @ b # rest)" and ?g = "g(a \<mapsto> (cs, inc @ [e]))"
  obtain x2 p2 where 2: "xrep_xsend wo e x1 p1 = Some (OK, empty_msg, x2, p2)" "rep p2 ?f ?g" "same_in x1 x2"
    "xr_outpipes x2 = xr_outpipes x1" "out_to x2 a"
    using send_part [OF 1(2) out1 Cons.prems(7) e(3) rd] e(1) by (auto simp del: fun_upd_apply)
  have x2: "at_pipe x2 ip" "begun x2" "left_parts x2 (env @ b # rest) = env @ b # rest"
    using same_in_facts [OF 2(3)] 1 e(1) by (simp_all add: begun_def left_parts_def)
  have "rep_copy_stack ro wo x p = rep_copy_stack ro wo x2 p2"
    using 1(1) 2(1) e by (simp add: rep_copy_stack.simps [of ro wo x p])
  moreover have "stack env b" using Cons.prems(9) by (simp add: stack_def)
  moreover obtain x3 p3 where "rep_copy_stack ro wo x2 p2 = Some (OK, empty_msg, x3, p3)"
    "rep p3 (?f(ip_reader ip \<mapsto> rest)) (?g(a \<mapsto> (cs, (inc @ [e]) @ env @ [b])))"
    "at_pipe x3 ip" "xr_more_in x3" "\<not> xr_prefetched x3" "out_to x3 a" "xr_outpipes x3 = xr_outpipes x2"
    using Cons.IH [OF 2(2) x2(1,2) fun_upd_same x2(3) 2(5) fun_upd_same _ \<open>stack env b\<close>] by (auto simp del: fun_upd_apply)
  ultimately show ?case using 1(6) 2(4) by (auto simp: same_out_def simp del: fun_upd_apply)
qed

text \<open>The parts of the body, one reception each.\<close>

lemma recv_body:
  "rep p f g \<Longrightarrow> at_pipe x ip \<Longrightarrow> xr_more_in x \<Longrightarrow> \<not> xr_prefetched x \<Longrightarrow> f (ip_reader ip) = Some (m # ms @ rest) \<Longrightarrow>
   whole (m # ms) \<Longrightarrow>
   \<exists>x' p'. xrep_xrecv ro x p = Some (OK, m, x', p') \<and> rep p' (f(ip_reader ip \<mapsto> ms @ rest)) g \<and> keeps_ready p p' g \<and>
     same_out x x' \<and> xr_more_in x' = has_more m \<and> \<not> xr_prefetched x' \<and> (has_more m \<longrightarrow> at_pipe x' ip)"
  using recv_part [of p f g x ip "m # ms @ rest" m "ms @ rest"] by (auto simp: begun_def left_parts_def)

end

section \<open>Requests and replies\<close>

fun rep_recv_parts :: "'p reader_ops \<Rightarrow> ('p, msg) writer_ops \<Rightarrow> nat \<Rightarrow> rep_socket \<Rightarrow> 'p \<Rightarrow> ((rc \<times> msg) list \<times> rep_socket \<times> 'p) option" where
  "rep_recv_parts ro wo 0 s p = Some ([], s, p)"
| "rep_recv_parts ro wo (Suc n) s p = do {
     (rc, m, s, p) \<leftarrow> rep_xrecv ro wo empty_msg s p;
     (rs, s, p) \<leftarrow> rep_recv_parts ro wo n s p;
     Some ((rc, m) # rs, s, p)
   }"

fun rep_send_parts :: "('p, msg) writer_ops \<Rightarrow> msg list \<Rightarrow> rep_socket \<Rightarrow> 'p \<Rightarrow> (rc list \<times> rep_socket \<times> 'p) option" where
  "rep_send_parts wo [] s p = Some ([], s, p)"
| "rep_send_parts wo (m # ms) s p = do {
     (rc, _, s, p) \<leftarrow> rep_xsend wo m s p;
     (rs, s, p) \<leftarrow> rep_send_parts wo ms s p;
     Some (rc # rs, s, p)
   }"

lemma rep_send_xrep:
  "whole ms \<Longrightarrow> rp_sending s \<Longrightarrow> xrep_send_parts wo ms (rp_xrep s) p = Some (x', p') \<Longrightarrow>
   rep_send_parts wo ms s p = Some (replicate (length ms) OK, s\<lparr>rp_xrep := x', rp_sending := False\<rparr>, p')"
proof (induction ms arbitrary: s p)
  case (Cons m ms)
  then obtain m' x1 p1 where 1: "xrep_xsend wo m (rp_xrep s) p = Some (OK, m', x1, p1)"
    "xrep_send_parts wo ms x1 p1 = Some (x', p')" by (auto split: bind_splits)
  show ?case
  proof (cases "ms = []")
    case True
    with 1 Cons.prems(1,2) show ?thesis by (simp add: rep_xsend_def whole_Cons)
  next
    case False
    with Cons.prems(1) have "has_more m" "whole ms" by (simp_all add: whole_Cons)
    with 1 Cons.IH [of "s\<lparr>rp_xrep := x1\<rparr>" p1] Cons.prems(2) show ?thesis by (simp add: rep_xsend_def)
  qed
qed simp

context socket_ends begin

lemma rep_recv_body:
  "rep p f g \<Longrightarrow> at_pipe (rp_xrep s) ip \<Longrightarrow> xr_more_in (rp_xrep s) \<Longrightarrow> \<not> xr_prefetched (rp_xrep s) \<Longrightarrow>
   f (ip_reader ip) = Some (ms @ rest) \<Longrightarrow> whole ms \<Longrightarrow> \<not> rp_begins s \<Longrightarrow> \<not> rp_sending s \<Longrightarrow>
   \<exists>s' p'. rep_recv_parts ro wo (length ms) s p = Some (map (Pair OK) ms, s', p') \<and> rep p' (f(ip_reader ip \<mapsto> rest)) g \<and>
     keeps_ready p p' g \<and> same_out (rp_xrep s) (rp_xrep s') \<and> rp_sending s' \<and> rp_begins s'"
proof (induction ms arbitrary: s p f)
  case (Cons m ms)
  obtain x1 p1 where 1: "xrep_xrecv ro (rp_xrep s) p = Some (OK, m, x1, p1)" "rep p1 (f(ip_reader ip \<mapsto> ms @ rest)) g"
    "keeps_ready p p1 g" "same_out (rp_xrep s) x1" "xr_more_in x1 = has_more m" "\<not> xr_prefetched x1"
    "has_more m \<longrightarrow> at_pipe x1 ip"
    using recv_body [OF Cons.prems(1-4), of m ms rest] Cons.prems(5,6) by auto
  show ?case
  proof (cases "ms = []")
    case True
    with 1 Cons.prems(6-8) show ?thesis by (auto simp: rep_xrecv_def whole_Cons simp del: fun_upd_apply)
  next
    case False
    with Cons.prems(6) have hm: "has_more m" "whole ms" by (simp_all add: whole_Cons)
    let ?s = "s\<lparr>rp_xrep := x1\<rparr>"
    have "at_pipe (rp_xrep ?s) ip" "xr_more_in (rp_xrep ?s)" "\<not> xr_prefetched (rp_xrep ?s)" "\<not> rp_begins ?s" "\<not> rp_sending ?s"
      using 1 hm Cons.prems(7,8) by simp_all
    note IH = Cons.IH [OF 1(2) this(1-3) fun_upd_same hm(2) this(4,5)]
    then obtain s2 p2 where 2: "rep_recv_parts ro wo (length ms) ?s p1 = Some (map (Pair OK) ms, s2, p2)"
      "rep p2 (f(ip_reader ip \<mapsto> rest)) g" "keeps_ready p1 p2 g" "same_out x1 (rp_xrep s2)"
      "rp_sending s2" "rp_begins s2"
      by (auto simp del: fun_upd_apply)
    have kr: "keeps_ready p p2 g" using 1(3) 2(3) by auto
    have "rep_xrecv ro wo empty_msg s p = Some (OK, m, ?s, p1)"
      using 1(1) hm Cons.prems(7,8) by (simp add: rep_xrecv_def)
    with 2 1(4) kr show ?thesis by (auto simp: same_out_def simp del: fun_upd_apply)
  qed
qed simp

end

context socket_ends begin

text \<open>A request is received up to the bottom of its stack: the stack is in the reply pipe.\<close>

lemma copy_request:
  assumes rep: "rep p f g" and idle: "out_idle x" "\<not> begun x" and cur: "xr_current_in x < length (xr_inpipes x)"
    and cov: "\<forall>ip \<in> set (xr_inpipes x). f (ip_reader ip) \<noteq> None"
    and reqs: "\<forall>ip \<in> set (xr_inpipes x). f (ip_reader ip) \<noteq> Some [] \<longrightarrow>
        (\<exists>env b body rest. f (ip_reader ip) = Some (env @ b # body @ rest) \<and> stack env b \<and> whole body)"
    and peers: "\<forall>ip \<in> set (xr_inpipes x). \<exists>a cs. peer_pipe x (ip_identity ip) = Some a \<and> g a = Some (cs, []) \<and> ready p a"
    and ids: "\<forall>ip \<in> set (xr_inpipes x). ip_identity ip \<noteq> []"
    and some: "\<exists>ip \<in> set (xr_inpipes x). ip_active ip \<and> f (ip_reader ip) \<noteq> Some []"
  shows "\<exists>ip env b body rest a cs x' p'. ip \<in> set (xr_inpipes x) \<and> f (ip_reader ip) = Some (env @ b # body @ rest) \<and> stack env b \<and> whole body \<and>
    peer_pipe x (ip_identity ip) = Some a \<and> g a = Some (cs, []) \<and>
    rep_copy_stack ro wo x p = Some (OK, empty_msg, x', p') \<and>
    rep p' (f(ip_reader ip \<mapsto> body @ rest)) (g(a \<mapsto> (cs, env @ [b]))) \<and> at_pipe x' ip \<and> xr_more_in x' \<and> \<not> xr_prefetched x' \<and> out_to x' a"
proof -
  have nb: "\<not> xr_prefetched x" "\<not> xr_more_in x" using idle(2) by (simp_all add: begun_def)
  let ?L = "length (xr_inpipes x)"
  obtain rc m x1 p1 where 1: "xrep_recv_loop ro ?L x p = Some (rc, m, x1, p1)" "same_out x x1" "\<not> xr_more_in x1"
    "keeps_ready p p1 g"
    and d: "rc = Err EAGAIN \<and> rep p1 f g \<and> \<not> xr_prefetched x1 \<and>
       (\<forall>k < ?L. let ip = xr_inpipes x ! ((xr_current_in x + k) mod ?L) in ip_active ip \<longrightarrow> f (ip_reader ip) = Some []) \<or>
     rc = OK \<and> (\<exists>ip y ms. ip \<in> set (xr_inpipes x) \<and> f (ip_reader ip) = Some (y # ms) \<and>
       m = identity_msg (ip_identity ip) \<and> at_pipe x1 ip \<and> xr_prefetched x1 \<and> xr_prefetched_msg x1 = y \<and>
       rep p1 (f(ip_reader ip \<mapsto> ms)) g)"
    using recv_loop_spec [OF rep cov cur nb, of ?L] by blast
  have "rc = OK"
  proof (rule ccontr)
    assume "rc \<noteq> OK"
    obtain ip where ip: "ip \<in> set (xr_inpipes x)" "ip_active ip" "f (ip_reader ip) \<noteq> Some []" using some by blast
    then obtain j where j: "j < ?L" "xr_inpipes x ! j = ip" by (auto simp: in_set_conv_nth)
    let ?k = "(j + (?L - xr_current_in x)) mod ?L"
    have "(xr_current_in x + ?k) mod ?L = (xr_current_in x + (j + (?L - xr_current_in x))) mod ?L" by (rule mod_add_right_eq)
    also have "\<dots> = (j + ?L) mod ?L" using cur by simp
    also have "\<dots> = j" using j(1) by simp
    finally have "(xr_current_in x + ?k) mod ?L = j" .
    moreover have "?k < ?L" using cur by (intro mod_less_divisor) linarith
    moreover have "\<forall>k < ?L. let ip = xr_inpipes x ! ((xr_current_in x + k) mod ?L) in ip_active ip \<longrightarrow> f (ip_reader ip) = Some []"
      using d \<open>rc \<noteq> OK\<close> by blast
    ultimately show False using ip(2,3) j(2) by (metis (no_types, lifting))
  qed
  then obtain ip y ms where ip: "ip \<in> set (xr_inpipes x)" "f (ip_reader ip) = Some (y # ms)"
    "m = identity_msg (ip_identity ip)" "at_pipe x1 ip" "xr_prefetched x1" "xr_prefetched_msg x1 = y"
    "rep p1 (f(ip_reader ip \<mapsto> ms)) g" using d by blast
  have "f (ip_reader ip) \<noteq> Some []" using ip(2) by simp
  then obtain env b body rest where fr: "f (ip_reader ip) = Some (env @ b # body @ rest)" and req2: "stack env b" "whole body"
    using reqs ip(1) by blast
  then have req1: "y # ms = env @ b # body @ rest" using ip(2) by simp
  note req = req1 req2(1)
  obtain a cs where a: "peer_pipe x (ip_identity ip) = Some a" "g a = Some (cs, [])" "ready p a" using peers ip(1) by blast
  have idm: "has_more m" "body_data (m_body m) = ip_identity ip"
    by (simp_all add: ip(3) identity_msg_def has_more_def zmq_flags)
  have x1: "out_idle x1" "peer_pipe x1 (body_data (m_body m)) = Some a" "ready p1 a"
    using idle(1) 1(2,4) a idm by (auto simp: out_idle_def same_out_def peer_pipe_def)
  obtain x2 p2 where 2: "xrep_xsend wo m x1 p1 = Some (OK, empty_msg, x2, p2)" "rep p2 (f(ip_reader ip \<mapsto> ms)) g"
    "ready p2 a" "same_in x1 x2" "out_to x2 a"
    using send_identity [OF ip(7) x1(1) idm(1) x1(2) a(2)] x1(3) by auto
  have recv: "xrep_xrecv ro x p = Some (OK, m, x1, p1)" using 1(1) nb \<open>rc = OK\<close> by (simp add: xrep_xrecv_def)
  have "rep_copy_stack ro wo x p = rep_copy_stack ro wo x2 p2"
    using recv 2(1) idm ids ip(1) by (simp add: rep_copy_stack.simps [of ro wo x p])
  have x2: "at_pipe x2 ip" "begun x2" "left_parts x2 ms = env @ b # body @ rest"
    using same_in_facts [OF 2(4)] ip(4-6) req(1) by (simp_all add: begun_def left_parts_def)
  obtain x3 p3 where "rep_copy_stack ro wo x2 p2 = Some (OK, empty_msg, x3, p3)"
    "rep p3 (f(ip_reader ip \<mapsto> body @ rest)) (g(a \<mapsto> (cs, env @ [b])))" "at_pipe x3 ip" "xr_more_in x3" "\<not> xr_prefetched x3"
    "out_to x3 a"
    using copy_rest [OF 2(2) x2(1,2) fun_upd_same x2(3) 2(5) a(2) _ req(2)] 2(3) x1(3) by (auto simp del: fun_upd_apply)
  with \<open>rep_copy_stack ro wo x p = _\<close> ip(1) fr req2 a(1,2) show ?thesis by metis
qed

end

end
