(* ===== verification/Routing.thy ===== *)
theory Routing
  imports Xrep
begin

text \<open>
  What the users of REP and XREP can rely on, and where the routing of XREP fails: turns of REP,
  routing by identity, the reception that is not fair, the message misrouted when a pipe is full
  and the one lost after a rollback.
\<close>

section \<open>REP takes turns\<close>

definition rep_phase :: "rep_socket \<Rightarrow> phase" where
  "rep_phase s = (if rp_sending s then To_send else To_recv)"

definition rep_env :: "rep_socket \<Rightarrow> rep_socket \<Rightarrow> bool" where
  "rep_env s s' \<longleftrightarrow> (\<exists>x. s' = s\<lparr>rp_xrep := x\<rparr>)"

lemma xrep_send_rc: "xrep_xsend wo m s p = Some (rc, m', s', p') \<Longrightarrow> rc = OK"
  by (auto simp: xrep_xsend_def Let_def split: if_splits bind_splits option.splits)

lemma xrep_recv_loop_rc: "xrep_recv_loop ro n s p = Some (rc, m, s', p') \<Longrightarrow> rc = OK \<or> rc = Err EAGAIN"
  by (induction n arbitrary: s p) (auto split: if_splits bind_splits option.splits)

lemma xrep_recv_rc: "xrep_xrecv ro s p = Some (rc, m, s', p') \<Longrightarrow> rc = OK \<or> rc = Err EAGAIN"
  by (auto simp: xrep_xrecv_def Let_def split: if_splits bind_splits option.splits dest: xrep_recv_loop_rc)

lemma copy_stack_rc:
  assumes "rep_copy_stack ro wo x p = Some r"
  shows "fst r = OK \<or> fst r = Err EAGAIN"
proof (induction rule: rep_copy_stack.raw_induct [where xa = "(((ro, wo), x), p)" and y = r, unfolded prod.case, OF _ assms])
  case (1 loop ro wo x p r)
  obtain rc m x' p' where "r = (rc, m, x', p')" by (cases r)
  with 1(2) show ?case by (auto simp: Let_def split: bind_splits if_splits dest!: xrep_recv_rc 1(1))
qed

lemma rep_send_step:
  assumes "rep_xsend wo m s p = Some (rc, m', s', p')"
  shows "alt_step (Sent (has_more m) rc) (rep_phase s) = Some (rep_phase s')"
  using assms by (auto simp: rep_xsend_def rep_phase_def Let_def split: if_splits bind_splits dest: xrep_send_rc)

lemma rep_recv_step:
  assumes "rep_xrecv ro wo m s p = Some (rc, m', s', p')"
  shows "alt_step (Received (has_more m') rc) (rep_phase s) = Some (rep_phase s')"
  using assms
  by (auto simp: rep_xrecv_def rep_phase_def Let_def split: if_splits bind_splits dest!: xrep_recv_rc copy_stack_rc)

interpretation rep: alternating "rep_xsend wo" "rep_xrecv ro wo" rep_env rep_phase
  by unfold_locales (erule rep_send_step | erule rep_recv_step | auto simp: rep_env_def rep_phase_def)+

section \<open>XREP: routing and its gaps\<close>

fun xrep_recv_times :: "'p reader_ops \<Rightarrow> nat \<Rightarrow> xrep_socket \<Rightarrow> 'p \<Rightarrow> ((rc \<times> msg) list \<times> xrep_socket \<times> 'p) option" where
  "xrep_recv_times ro 0 s p = Some ([], s, p)"
| "xrep_recv_times ro (Suc n) s p = do {
     (rc, m, s, p) \<leftarrow> xrep_xrecv ro s p;
     (rs, s, p) \<leftarrow> xrep_recv_times ro n s p;
     Some ((rc, m) # rs, s, p)
   }"

context socket_ends begin

lemma recv_current_pair:
  assumes rep: "rep p f g" and at: "at_pipe s ip" and nb: "\<not> begun s" and f: "f (ip_reader ip) = Some (m # ms)"
    and m: "\<not> has_more m"
  shows "\<exists>s' p'. xrep_recv_times ro 2 s p = Some ([(OK, identity_msg (ip_identity ip)), (OK, m)], s', p') \<and>
    rep p' (f(ip_reader ip \<mapsto> ms)) g \<and> at_pipe s' ip \<and> \<not> begun s'"
proof -
  obtain n where n: "length (xr_inpipes s) = Suc n"
    using at by (cases "length (xr_inpipes s)") (auto simp: at_pipe_def xrep_in_at_def)
  obtain p1 where p1: "ro_read ro (ip_reader ip) p = Some (Some m, p1)" "rep p1 (f(ip_reader ip \<mapsto> ms)) g"
    using r.read_some [OF rep f] by blast
  let ?s = "s\<lparr>xr_prefetched := True, xr_prefetched_msg := m\<rparr>"
  have 1: "xrep_xrecv ro s p = Some (OK, identity_msg (ip_identity ip), ?s, p1)"
    using n nb at p1(1) by (simp add: xrep_xrecv_def begun_def at_pipe_def)
  have "xrep_xrecv ro ?s p1 = Some (OK, m, ?s\<lparr>xr_prefetched_msg := empty_msg, xr_more_in := False, xr_prefetched := False\<rparr>, p1)"
    using m by (simp add: xrep_xrecv_def Let_def)
  with 1 p1(2) at show ?thesis
    by (auto simp: numeral_2_eq_2 at_pipe_def xrep_in_at_def begun_def simp del: fun_upd_apply split: if_splits)
qed

lemma recv_starves:
  "rep p f g \<Longrightarrow> at_pipe s ip \<Longrightarrow> \<not> begun s \<Longrightarrow> f (ip_reader ip) = Some (ms @ rest) \<Longrightarrow> \<forall>m \<in> set ms. \<not> has_more m \<Longrightarrow>
   \<exists>s' p'. xrep_recv_times ro (2 * length ms) s p =
      Some (concat (map (\<lambda>m. [(OK, identity_msg (ip_identity ip)), (OK, m)]) ms), s', p') \<and>
     rep p' (f(ip_reader ip \<mapsto> rest)) g"
proof (induction ms arbitrary: s p f)
  case (Cons m ms)
  obtain s1 p1 where 1: "xrep_recv_times ro 2 s p = Some ([(OK, identity_msg (ip_identity ip)), (OK, m)], s1, p1)"
    "rep p1 (f(ip_reader ip \<mapsto> ms @ rest)) g" "at_pipe s1 ip" "\<not> begun s1"
    using recv_current_pair [OF Cons.prems(1-3), of m "ms @ rest"] Cons.prems(4,5) by auto
  obtain s2 p2 where "xrep_recv_times ro (2 * length ms) s1 p1 =
      Some (concat (map (\<lambda>m. [(OK, identity_msg (ip_identity ip)), (OK, m)]) ms), s2, p2)"
    "rep p2 (f(ip_reader ip \<mapsto> rest)) g"
    using Cons.IH [OF 1(2-4) fun_upd_same] Cons.prems(5) by (auto simp del: fun_upd_apply)
  with 1(1) show ?case by (auto simp: numeral_2_eq_2 simp del: fun_upd_apply split: bind_splits)
qed (auto simp: fun_upd_idem)

end

text \<open>The check of one pipe changes nothing about the others.\<close>

lemma send_identity_other:
  assumes "ends_rep t f g" and "out_idle s" and "has_more m" and "peer_pipe s (body_data (m_body m)) = Some a"
    and "g a = Some c" and "g b = Some d"
  shows "\<exists>s' t'. xrep_xsend pipe_writer_ops m s t = Some (OK, empty_msg, s', t') \<and> ends_rep t' f g \<and>
    pipe_ready t' b = pipe_ready t b \<and> peer_pipe s' = peer_pipe s \<and> (if pipe_ready t a then out_to s' a else out_idle s')"
proof -
  obtain s' t' where 1: "xrep_xsend pipe_writer_ops m s t = Some (OK, empty_msg, s', t')" "ends_rep t' f g"
    "pipe_ready t' a = pipe_ready t a" "peer_pipe s' = peer_pipe s" "if pipe_ready t a then out_to s' a else out_idle s'"
    using ends.send_identity [OF assms(1-5)] by blast
  obtain ok where ch: "wo_check_write pipe_writer_ops a empty_msg t = Some (ok, t')"
    using 1(1) assms(2-4) by (auto simp: xrep_xsend_def out_idle_def peer_pipe_find Let_def split: bind_splits option.splits)
  then have "pipe_ready t' b = pipe_ready t b" if "b \<noteq> a"
    using pipe_ops_elsewhere(5) [OF ch that] by (simp add: pipe_ready_def)
  with 1 show ?thesis by (cases "b = a") auto
qed

text \<open>C40 (functional).  XREP routes by identity: when the first part of a message names a peer whose
  pipe has room, the other parts go to that pipe as one message; when it names no peer, the message
  is dropped silently and no pipe changes.  In both cases the next message starts afresh.\<close>

theorem xrep_routes:
  assumes "ends_rep t f g" and "out_idle s" and "has_more m" and "whole ms" and "\<forall>m \<in> set ms. \<not> is_delimiter m"
    and "case peer_pipe s (body_data (m_body m)) of None \<Rightarrow> True | Some a \<Rightarrow> g a = Some (cs, []) \<and> pipe_ready t a"
  shows "\<exists>s' t'. xrep_send_parts pipe_writer_ops (m # ms) s t = Some (s', t') \<and> out_idle s' \<and>
    ends_rep t' f (case peer_pipe s (body_data (m_body m)) of None \<Rightarrow> g | Some a \<Rightarrow> g(a \<mapsto> (cs @ ms, [])))"
proof (cases "peer_pipe s (body_data (m_body m))")
  case None
  have drop: "whole ms \<Longrightarrow> xr_more_out x \<Longrightarrow> xr_current_out x = None \<Longrightarrow>
      \<exists>x'. xrep_send_parts pipe_writer_ops ms x t = Some (x', t) \<and> out_idle x'" for ms x
  proof (induction ms arbitrary: x)
    case (Cons m ms)
    then show ?case
      by (cases "ms = []") (auto simp: xrep_xsend_def Let_def out_idle_def whole_Cons)
  qed simp
  have "xr_current_out s = None" using assms(2) by (simp add: out_idle_def)
  then show ?thesis
    using ends.send_unknown [OF assms(2,3) None] drop [OF assms(4), of "s\<lparr>xr_more_out := True\<rparr>"] assms(1) None by auto
next
  case (Some a)
  then have a: "g a = Some (cs, [])" "pipe_ready t a" using assms(6) by simp_all
  obtain s1 t1 where 1: "xrep_xsend pipe_writer_ops m s t = Some (OK, empty_msg, s1, t1)" "ends_rep t1 f g"
    "pipe_ready t1 a" "out_to s1 a"
    using ends.send_identity [OF assms(1-3) Some a(1)] a(2) by auto
  obtain s2 t2 where "xrep_send_parts pipe_writer_ops ms s1 t1 = Some (s2, t2)" "ends_rep t2 f (g(a \<mapsto> (cs @ [] @ ms, [])))"
    "out_idle s2"
    using ends.send_parts_to [OF 1(2,4) a(1) _ assms(4,5)] 1(3) by blast
  with 1(1) Some show ?thesis by (auto simp del: fun_upd_apply)
qed

text \<open>Reception is not fair: after a message of two frames (the identity and one part)
  \<open>current_in\<close> stays where it is.  As long as the current pipe holds such messages, all
  receptions are from it, whatever the other pipes hold.\<close>

theorem xrep_recv_starves:
  assumes "ends_rep t f g" and "at_pipe s ip" and "\<not> begun s" and "f (ip_reader ip) = Some (ms @ rest)"
    and "\<forall>m \<in> set ms. \<not> has_more m"
  shows "\<exists>s' t'. xrep_recv_times pipe_reader_ops (2 * length ms) s t =
    Some (concat (map (\<lambda>m. [(OK, identity_msg (ip_identity ip)), (OK, m)]) ms), s', t')"
  using ends.recv_starves [OF assms] by blast

text \<open>When the pipe to the peer is full, \<open>xsend\<close> forgets that it is inside a message: it
  takes the second part for the identity of a peer.  When that part happens to name another peer,
  as the second address of a stack may, the rest of the message is delivered to that peer.\<close>

theorem xrep_full_pipe_misroutes:
  assumes "ends_rep t f g" and "out_idle s" and "has_more m" and "has_more n"
    and "peer_pipe s (body_data (m_body m)) = Some a" and "g a = Some c" and "\<not> pipe_ready t a"
    and "peer_pipe s (body_data (m_body n)) = Some b"
    and "g b = Some (cs, [])" and "pipe_ready t b" and "whole ms" and "\<forall>m \<in> set ms. \<not> is_delimiter m"
  shows "\<exists>s' t'. xrep_send_parts pipe_writer_ops (m # n # ms) s t = Some (s', t') \<and>
    ends_rep t' f (g(b \<mapsto> (cs @ ms, [])))"
proof -
  obtain s1 t1 where 1: "xrep_xsend pipe_writer_ops m s t = Some (OK, empty_msg, s1, t1)" "ends_rep t1 f g"
    "out_idle s1" "peer_pipe s1 = peer_pipe s" "pipe_ready t1 b"
    using send_identity_other [OF assms(1,2,3,5,6,9)] assms(7,10) by auto
  obtain s2 t2 where 2: "xrep_xsend pipe_writer_ops n s1 t1 = Some (OK, empty_msg, s2, t2)" "ends_rep t2 f g"
    "out_to s2 b" "pipe_ready t2 b"
    using ends.send_identity [OF 1(2,3) assms(4) _ assms(9)] 1(4,5) assms(8) by auto
  obtain s3 t3 where "xrep_send_parts pipe_writer_ops ms s2 t2 = Some (s3, t3)" "ends_rep t3 f (g(b \<mapsto> (cs @ [] @ ms, [])))"
    using ends.send_parts_to [OF 2(2,3) assms(9) _ assms(11,12)] 2(4) by blast
  with 1(1) 2(1) show ?thesis by (auto simp del: fun_upd_apply)
qed

text \<open>C37 (refinement).  REP takes turns as REQ does, beginning with a reception: the results of any
  sequence of calls are those of the automaton that receives all parts of a message and then
  sends all parts of one, whatever happens to the pipes in between.\<close>

theorem rep_alternates:
  assumes "call_run (rep_xsend wo) (rep_xrecv ro wo) rep_env s p es s' p'"
  shows "alternates es (rep_phase s)"
  using assms by (rule rep.run_alternates)

text \<open>\<open>rollback\<close> does not end a message to an unknown peer (\<open>current_out\<close> is null, but
  \<open>more_out\<close> is set): when a malformed request of a peer without a reply pipe is discarded, the
  next message is taken for the rest of that one, and lost, although its peer is there.\<close>

theorem xrep_rollback_loses_next:
  assumes "out_idle s" and "has_more m" and "peer_pipe s (body_data (m_body m)) = None" and "whole ms"
  shows "\<exists>s1 s2. xrep_xsend wo m s p = Some (OK, empty_msg, s1, p) \<and> xrep_rollback wo s1 p = Some (OK, s1, p) \<and>
    xrep_send_parts wo ms s1 p = Some (s2, p)"
proof -
  have drop: "whole ms \<Longrightarrow> xr_more_out x \<Longrightarrow> xr_current_out x = None \<Longrightarrow>
      \<exists>x'. xrep_send_parts wo ms x p = Some (x', p)" for ms x
  proof (induction ms arbitrary: x)
    case (Cons m ms)
    then show ?case by (cases "ms = []") (auto simp: xrep_xsend_def Let_def whole_Cons)
  qed simp
  have "xrep_xsend wo m s p = Some (OK, empty_msg, s\<lparr>xr_more_out := True\<rparr>, p)"
    using assms(1-3) by (simp add: xrep_xsend_def out_idle_def peer_pipe_find)
  moreover have "xr_current_out s = None" using assms(1) by (simp add: out_idle_def)
  ultimately show ?thesis using drop [OF assms(4), of "s\<lparr>xr_more_out := True\<rparr>"] by (simp add: xrep_rollback_def)
qed

section \<open>The reply goes back to its peer\<close>

text \<open>The REP socket waits for a request.\<close>

definition rep_idle :: "rep_socket \<Rightarrow> bool" where
  "rep_idle s \<longleftrightarrow> \<not> rp_sending s \<and> rp_begins s \<and> out_idle (rp_xrep s) \<and> \<not> begun (rp_xrep s) \<and>
     xr_current_in (rp_xrep s) < length (xr_inpipes (rp_xrep s))"

abbreviation rep_inpipes :: "rep_socket \<Rightarrow> in_pipe list" where "rep_inpipes s \<equiv> xr_inpipes (rp_xrep s)"

text \<open>What peers send: requests with a stack; what a pipe to read holds is one request and more.\<close>

definition request_first :: "msg list option \<Rightarrow> bool" where
  "request_first ms \<longleftrightarrow> ms = Some [] \<or>
     (\<exists>env b body rest. ms = Some (env @ b # body @ rest) \<and> stack env b \<and> whole body)"

text \<open>C34 (functional).  A reply goes to the peer the request came from, provided that the peers keep to the
  protocol and can take the reply: every peer has an identity, and what its pipe holds is a request
  with a well-formed stack of addresses, or nothing; every peer has a pipe for replies, with room in it
  and without an unfinished message; and no pipe is attached, activated or terminated between the calls.
  When the socket then waits for a request and some pipe holds one, the user receives the body of the
  request of one of the peers, part by part, and the parts the user then sends are put, after the stack of
  addresses of that request, as one message into the pipe to that peer; no other pipe changes.  (With
  a full pipe for replies the reply is misrouted, see \<open>xrep_full_pipe_misroutes\<close>.)\<close>

theorem rep_reply_routed:
  assumes "ends_rep t f g" and "rep_idle s"
    and "\<forall>ip \<in> set (rep_inpipes s). ip_identity ip \<noteq> [] \<and> request_first (f (ip_reader ip))"
    and "\<forall>ip \<in> set (rep_inpipes s).
      \<exists>a cs. peer_pipe (rp_xrep s) (ip_identity ip) = Some a \<and> g a = Some (cs, []) \<and> pipe_ready t a"
    and "\<exists>ip \<in> set (rep_inpipes s). ip_active ip \<and> f (ip_reader ip) \<noteq> Some []"
    and "whole reply" and "\<forall>m \<in> set reply. \<not> is_delimiter m"
  shows "\<exists>ip env b body rest a cs s1 t1 s2 t2. ip \<in> set (rep_inpipes s) \<and>
    f (ip_reader ip) = Some (env @ b # body @ rest) \<and> stack env b \<and> whole body \<and> peer_pipe (rp_xrep s) (ip_identity ip) = Some a \<and> g a = Some (cs, []) \<and>
    rep_recv_parts pipe_reader_ops pipe_writer_ops (length body) s t = Some (map (Pair OK) body, s1, t1) \<and>
    rep_send_parts pipe_writer_ops reply s1 t1 = Some (replicate (length reply) OK, s2, t2) \<and>
    ends_rep t2 (f(ip_reader ip \<mapsto> rest)) (g(a \<mapsto> (cs @ env @ b # reply, [])))"
proof -
  let ?x = "rp_xrep s"
  have x: "out_idle ?x" "\<not> begun ?x" "xr_current_in ?x < length (xr_inpipes ?x)" "\<not> rp_sending s" "rp_begins s"
    using assms(2) by (simp_all add: rep_idle_def)
  have cov: "\<forall>ip \<in> set (xr_inpipes ?x). f (ip_reader ip) \<noteq> None" using assms(3) by (auto simp: request_first_def)
  have reqs: "\<forall>ip \<in> set (xr_inpipes ?x). f (ip_reader ip) \<noteq> Some [] \<longrightarrow>
      (\<exists>env b body rest. f (ip_reader ip) = Some (env @ b # body @ rest) \<and> stack env b \<and> whole body)"
    using assms(3) by (auto simp: request_first_def)
  have ids: "\<forall>ip \<in> set (xr_inpipes ?x). ip_identity ip \<noteq> []" using assms(3) by blast
  obtain ip env b body rest a cs x1 t1 where st: "stack env b" and 1: "ip \<in> set (xr_inpipes ?x)" "f (ip_reader ip) = Some (env @ b # body @ rest)"
    "whole body" "peer_pipe ?x (ip_identity ip) = Some a" "g a = Some (cs, [])"
    "rep_copy_stack pipe_reader_ops pipe_writer_ops ?x t = Some (OK, empty_msg, x1, t1)"
    "ends_rep t1 (f(ip_reader ip \<mapsto> body @ rest)) (g(a \<mapsto> (cs, env @ [b])))" "at_pipe x1 ip" "xr_more_in x1"
    "\<not> xr_prefetched x1" "out_to x1 a"
    using ends.copy_request [OF assms(1) x(1-3) cov reqs assms(4) ids assms(5)] by blast
  let ?s = "s\<lparr>rp_xrep := x1, rp_begins := False\<rparr>"
  have s: "at_pipe (rp_xrep ?s) ip" "xr_more_in (rp_xrep ?s)" "\<not> xr_prefetched (rp_xrep ?s)" "\<not> rp_begins ?s" "\<not> rp_sending ?s"
    using 1 x by simp_all
  obtain s2 t2 where 2: "rep_recv_parts pipe_reader_ops pipe_writer_ops (length body) ?s t1 = Some (map (Pair OK) body, s2, t2)"
    "ends_rep t2 (f(ip_reader ip \<mapsto> rest)) (g(a \<mapsto> (cs, env @ [b])))" "same_out x1 (rp_xrep s2)" "rp_sending s2" "rp_begins s2"
    using ends.rep_recv_body [OF 1(7) s(1-3) fun_upd_same 1(3) s(4,5)] by (auto simp del: fun_upd_apply)
  have first: "rep_xrecv pipe_reader_ops pipe_writer_ops empty_msg s t = rep_xrecv pipe_reader_ops pipe_writer_ops empty_msg ?s t1"
    using x(4,5) 1(6) by (simp add: rep_xrecv_def)
  obtain n where n: "length body = Suc n" using 1(3) by (cases body) auto
  have recv: "rep_recv_parts pipe_reader_ops pipe_writer_ops (length body) s t = Some (map (Pair OK) body, s2, t2)"
    using 2(1) by (simp add: n first)
  have out: "out_to (rp_xrep s2) a" using 1(11) 2(3) by (simp add: out_to_def same_out_def)
  obtain x3 t3 where 3: "xrep_send_parts pipe_writer_ops reply (rp_xrep s2) t2 = Some (x3, t3)"
    "ends_rep t3 (f(ip_reader ip \<mapsto> rest)) (g(a \<mapsto> (cs @ (env @ [b]) @ reply, [])))"
    using ends.send_parts_to [OF 2(2) out fun_upd_same _ assms(6,7)] by (auto simp del: fun_upd_apply)
  note send = rep_send_xrep [OF assms(6) 2(4) 3(1)]
  have "ends_rep t3 (f(ip_reader ip \<mapsto> rest)) (g(a \<mapsto> (cs @ env @ b # reply, [])))" using 3(2) by simp
  with 1(1-5) st recv send show ?thesis by blast
qed

section \<open>Examples\<close>

lemma ready_pipe: "\<exists>s w. writes s ([], []) \<and> pp_writer s = Some w \<and> w_active w \<and> \<not> pipe_full w"
proof -
  obtain s where s: "pipe_start 0 = Some s" "writes s ([], [])" using start_ends by blast
  have "map_option (\<lambda>s. map_option (\<lambda>w. (w_active w, pipe_full w)) (pp_writer s)) (pipe_start 0) = Some (Some (True, False))"
    by code_simp
  with s show ?thesis by auto
qed

lemma full_pipe: "\<exists>s c. writes s c \<and> (\<exists>w. pp_writer s = Some w \<and> pipe_full w)"
proof -
  obtain s where s: "pipe_start 1 = Some s" "writes s ([], [])" using start_ends by blast
  have "map_option (\<lambda>s. map_option (\<lambda>(ok, s). (ok, map_option pipe_full (pp_writer s))) (writer_write msg1 s)) (pipe_start 1) =
      Some (Some (True, Some True))"
    by code_simp
  then obtain s' w where s': "writer_write msg1 s = Some (True, s')" "pp_writer s' = Some w" "pipe_full w" using s(1) by auto
  have "\<not> is_delimiter msg1" by (simp add: msg1_def is_delimiter_def)
  then have "writes s' (add_part msg1 ([], []))" using writes_write [OF s(2)] s'(1) by fastforce
  with s'(2,3) show ?thesis by blast
qed

text \<open>Two peers, with the inbound pipes 1 and 3 and the outbound pipes 2 and 4.\<close>

definition two_peers :: xrep_socket where
  "two_peers = (xrep_new empty_msg)\<lparr>
     xr_inpipes := [\<lparr>ip_reader = 1, ip_identity = [7], ip_active = True\<rparr>, \<lparr>ip_reader = 3, ip_identity = [8], ip_active = True\<rparr>],
     xr_outpipes := [([7], \<lparr>op_writer = 2, op_active = True\<rparr>), ([8], \<lparr>op_writer = 4, op_active = True\<rparr>)]\<rparr>"

lemma two_peers_simps [simp]:
  "peer_pipe two_peers [7] = Some 2" "peer_pipe two_peers [8] = Some 4" "peer_pipe two_peers [9] = None"
  "out_idle two_peers" "\<not> begun two_peers" "at_pipe two_peers \<lparr>ip_reader = 1, ip_identity = [7], ip_active = True\<rparr>"
  "xr_current_in two_peers < length (xr_inpipes two_peers)"
  by (simp_all add: two_peers_def peer_pipe_def out_idle_def begun_def at_pipe_def xrep_in_at_def xrep_new_def)

lemma peers_rep:
  assumes "reads s1 xs" and "writes s2 c" and "reads s3 ys" and "writes s4 d"
  shows "ends_rep [1 \<mapsto> s1, 2 \<mapsto> s2, 3 \<mapsto> s3, 4 \<mapsto> s4] [1 \<mapsto> xs, 3 \<mapsto> ys] [2 \<mapsto> c, 4 \<mapsto> d]"
  using assms by (auto simp: ends_rep_def readers_rep_def writers_rep_def)

lemma pipe_ready_at: "t a = Some s \<Longrightarrow> pp_writer s = Some w \<Longrightarrow> pipe_ready t a \<longleftrightarrow> w_active w \<and> \<not> pipe_full w"
  by (simp add: pipe_ready_def)

lemma rep_reply_routed_witness:
  "\<exists>t s1 t1 s2 t2. rep_recv_parts pipe_reader_ops pipe_writer_ops 1 \<lparr>rp_xrep = two_peers, rp_sending = False, rp_begins = True\<rparr> t =
     Some ([(OK, part [5] False)], s1, t1) \<and>
   rep_send_parts pipe_writer_ops [part [6] False] s1 t1 = Some ([OK], s2, t2)"
proof -
  let ?req = "[part [] True, part [5] False]" and ?s = "\<lparr>rp_xrep = two_peers, rp_sending = False, rp_begins = True\<rparr>"
  have "\<exists>s. reads s ?req"
    by (rule run_parts_reads [where as = "map W_write ?req @ [W_flush]" and n = 3]) (code_simp, simp)
  then obtain r e where r: "reads r ?req" and e: "reads e []" using idle_reads by blast
  obtain s w where s: "writes s ([], [])" "pp_writer s = Some w" "w_active w" "\<not> pipe_full w" using ready_pipe by blast
  let ?t = "[1 \<mapsto> r, 2 \<mapsto> s, 3 \<mapsto> e, 4 \<mapsto> s]" and ?f = "[1 \<mapsto> ?req, 3 \<mapsto> []]" and ?g = "[2 \<mapsto> ([], []), 4 \<mapsto> ([], [])]"
  have rep: "ends_rep ?t ?f ?g" using r e s(1) by (intro peers_rep)
  have idle: "rep_idle ?s" by (simp add: rep_idle_def)
  have fr: "request_first (Some ?req)"
    unfolding request_first_def stack_def whole_def
    by (intro disjI2 exI [of _ "[]"] exI [of _ "part [] True"] exI [of _ "[part [5] False]"]) simp
  have p: "\<forall>ip \<in> set (rep_inpipes ?s). ip_identity ip \<noteq> [] \<and> request_first (?f (ip_reader ip))"
    using fr by (auto simp: two_peers_def xrep_new_def request_first_def [of "Some []"])
  have q: "\<forall>ip \<in> set (rep_inpipes ?s).
      \<exists>a cs. peer_pipe (rp_xrep ?s) (ip_identity ip) = Some a \<and> ?g a = Some (cs, []) \<and> pipe_ready ?t a"
    using s(2-4) by (auto simp: two_peers_def xrep_new_def peer_pipe_def pipe_ready_def)
  have x: "\<exists>ip \<in> set (rep_inpipes ?s). ip_active ip \<and> ?f (ip_reader ip) \<noteq> Some []"
    by (simp add: two_peers_def xrep_new_def)
  have w: "whole [part [6] False]" "\<forall>m \<in> set [part [6] False]. \<not> is_delimiter m" by (simp_all add: whole_def)
  obtain ip env b body rest s1 t1 s2 t2 where *: "ip \<in> set (rep_inpipes ?s)" "?f (ip_reader ip) = Some (env @ b # body @ rest)"
    "stack env b" "whole body"
    "rep_recv_parts pipe_reader_ops pipe_writer_ops (length body) ?s ?t = Some (map (Pair OK) body, s1, t1)"
    "rep_send_parts pipe_writer_ops [part [6] False] s1 t1 = Some (replicate (length [part [6] False]) OK, s2, t2)"
    using rep_reply_routed [OF rep idle p q x w] by blast
  have "env @ b # body @ rest = ?req" using *(1,2) by (auto simp: two_peers_def xrep_new_def split: if_splits)
  moreover from this have "env = []" using *(3) by (cases env) (auto simp: stack_def)
  ultimately have "body = [part [5] False]" using *(4) by (cases body) auto
  with *(5,6) show ?thesis by (intro exI [of _ ?t] exI [of _ s1] exI [of _ t1] exI [of _ s2] exI [of _ t2]) simp
qed

lemma xrep_routes_witness:
  "\<exists>t s' t'. xrep_send_parts pipe_writer_ops [part [8] True, part [6] False] two_peers t = Some (s', t') \<and> out_idle s'"
proof -
  obtain e where e: "reads e []" using idle_reads by blast
  obtain s w where s: "writes s ([], [])" "pp_writer s = Some w" "w_active w" "\<not> pipe_full w" using ready_pipe by blast
  let ?t = "[1 \<mapsto> e, 2 \<mapsto> s, 3 \<mapsto> e, 4 \<mapsto> s]" and ?f = "[1 \<mapsto> [], 3 \<mapsto> []]" and ?g = "[2 \<mapsto> ([], []), 4 \<mapsto> ([], [])]"
  have rep: "ends_rep ?t ?f ?g" using e s(1) by (intro peers_rep)
  have "case peer_pipe two_peers (body_data (m_body (part [8] True))) of None \<Rightarrow> True
      | Some a \<Rightarrow> ?g a = Some ([], []) \<and> pipe_ready ?t a"
    using s(2-4) by (simp add: pipe_ready_def)
  from xrep_routes [OF rep _ _ _ _ this, of "[part [6] False]"]
  have "\<exists>s' t'. xrep_send_parts pipe_writer_ops [part [8] True, part [6] False] two_peers ?t = Some (s', t') \<and> out_idle s'"
    by (auto simp: whole_def simp del: xrep_send_parts.simps)
  then show ?thesis by blast
qed

lemma xrep_recv_starves_witness:
  "\<exists>t s' t'. xrep_recv_times pipe_reader_ops 4 two_peers t =
     Some ([(OK, identity_msg [7]), (OK, msg1), (OK, identity_msg [7]), (OK, msg1)], s', t')"
proof -
  obtain r where r: "reads r [msg1, msg1]" using test_reads by blast
  obtain s where s: "writes s ([], [])" using ready_pipe by blast
  let ?t = "[1 \<mapsto> r, 2 \<mapsto> s, 3 \<mapsto> r, 4 \<mapsto> s]" and ?f = "[1 \<mapsto> [msg1, msg1], 3 \<mapsto> [msg1, msg1]]"
  let ?ip = "\<lparr>ip_reader = 1, ip_identity = [7], ip_active = True\<rparr>"
  have rep: "ends_rep ?t ?f [2 \<mapsto> ([], []), 4 \<mapsto> ([], [])]" using r s by (intro peers_rep)
  have h: "at_pipe two_peers ?ip" "\<not> begun two_peers" "?f (ip_reader ?ip) = Some ([msg1, msg1] @ [])"
    "\<forall>m \<in> set [msg1, msg1]. \<not> has_more m"
    by (simp_all add: msg1_def has_more_def del: One_nat_def)
  have "\<exists>s' t'. xrep_recv_times pipe_reader_ops 4 two_peers ?t =
     Some ([(OK, identity_msg [7]), (OK, msg1), (OK, identity_msg [7]), (OK, msg1)], s', t')"
    using xrep_recv_starves [OF rep h] by simp
  then show ?thesis by blast
qed

lemma xrep_full_pipe_misroutes_witness:
  "\<exists>t s' t'. xrep_send_parts pipe_writer_ops [part [7] True, part [8] True, part [6] False] two_peers t = Some (s', t')"
proof -
  obtain e where e: "reads e []" using idle_reads by blast
  obtain s w where s: "writes s ([], [])" "pp_writer s = Some w" "w_active w" "\<not> pipe_full w" using ready_pipe by blast
  obtain u c v where u: "writes u c" "pp_writer u = Some v" "pipe_full v" using full_pipe by blast
  let ?t = "[1 \<mapsto> e, 2 \<mapsto> u, 3 \<mapsto> e, 4 \<mapsto> s]" and ?f = "[1 \<mapsto> [], 3 \<mapsto> []]" and ?g = "[2 \<mapsto> c, 4 \<mapsto> ([], [])] :: addr \<rightharpoonup> msg list \<times> msg list"
  have rep: "ends_rep ?t ?f ?g" using e u(1) s(1) by (intro peers_rep)
  have h: "has_more (part [7] True)" "has_more (part [8] True)" "peer_pipe two_peers (body_data (m_body (part [7] True))) = Some 2"
    "?g 2 = Some c" "\<not> pipe_ready ?t 2" "peer_pipe two_peers (body_data (m_body (part [8] True))) = Some 4"
    "?g 4 = Some ([], [])" "pipe_ready ?t 4" "whole [part [6] False]" "\<forall>m \<in> set [part [6] False]. \<not> is_delimiter m"
    using u s by (simp_all add: pipe_ready_def whole_def)
  show ?thesis using xrep_full_pipe_misroutes [OF rep two_peers_simps(4) h] by blast
qed

lemma xrep_rollback_loses_next_witness:
  "\<exists>s1 s2. xrep_rollback pipe_writer_ops s1 Map.empty = Some (OK, s1, Map.empty) \<and>
     xrep_send_parts pipe_writer_ops [part [7] True, part [6] False] s1 Map.empty = Some (s2, Map.empty)"
proof -
  have "has_more (part [9] True)" "peer_pipe two_peers (body_data (m_body (part [9] True))) = None"
    "whole [part [7] True, part [6] False]" by (simp_all add: whole_def)
  from xrep_rollback_loses_next [OF two_peers_simps(4) this, of pipe_writer_ops Map.empty] show ?thesis by blast
qed

lemma rep_alternates_witness:
  "alternates [Sent True (Err EFSM), Received False (Err EAGAIN)] To_recv"
proof -
  let ?s = "rep_new empty_msg"
  have a: "rep_xsend open_writers (part [1] True) ?s () = Some (Err EFSM, part [1] True, ?s, ())"
    by (simp add: rep_xsend_def rep_new_def)
  have "map_option (\<lambda>(rc, m, s, p). (rc, has_more m)) (rep_xrecv closed_readers open_writers empty_msg ?s ()) =
      Some (Err EAGAIN, False)"
    by code_simp
  then obtain m s1 where b: "rep_xrecv closed_readers open_writers empty_msg ?s () = Some (Err EAGAIN, m, s1, ())" "\<not> has_more m"
    by auto
  have "call_run (rep_xsend open_writers) (rep_xrecv closed_readers open_writers) rep_env ?s ()
      [Sent (has_more (part [1] True)) (Err EFSM), Received (has_more m) (Err EAGAIN)] s1 ()"
    by (rule call_send, rule a, rule call_recv, rule b(1), rule no_call)
  from rep_alternates [OF this] b(2) show ?thesis by (simp add: rep_phase_def rep_new_def)
qed

end
