(* ===== verification/Spec2Isabelle.thy ===== *)
theory Spec2Isabelle
  imports Prelude Wire Atomic Msg Yqueue Ypipe Swap Pipe Array Endpoint Fq Lb Dist Trie Subscriptions Codec Pipe_Ends Options Object Own Own_Tree Own_Protocol Mailbox Poller Event_Loops Context Shutdown Socket_Api Alternate Sockets Socket_Ends Req Xsub Xrep Routing
begin

text \<open>
  A model of the messaging library in \<open>mac/obj-zmq-frame/src\<close> (ZeroMQ 2.1, C++), the core of the
  fsync client, and proofs about it.  (Paths below are relative to that directory.)

  \<^bold>\<open>The program.\<close>  An application sends and receives messages on sockets.  A socket type
  (\<open>req\<close>, \<open>rep\<close>, \<open>xreq\<close>, \<open>xrep\<close>, \<open>pub\<close>, \<open>sub\<close>, \<open>push\<close>, \<open>pull\<close>,
  \<open>pair\<close>) decides from which of its inbound pipes the next message is read (\<open>fq\<close>) and to
  which outbound pipes one is written (\<open>lb\<close>, \<open>dist\<close>).  A pipe connects two objects living in
  different threads: a writer, a reader and, between them, a lock-free queue (\<open>ypipe\<close> over
  \<open>yqueue\<close>), with high and low water marks and an optional swap file.  Everything the two ends tell
  each other besides the messages are commands (\<open>command\<close>, \<open>object\<close>), sent through mailboxes.
  Objects form a tree of owners (\<open>own\<close>), which is shut down by a protocol of term requests and
  acknowledgements.  A connection is an engine with an encoder and a decoder, which turn messages
  into a byte stream and back.

  \<^bold>\<open>The theories.\<close>  Each opens with the files it models; the definitions keep the names of the code.
  \<^item> \<open>Prelude\<close>: machine integers, \<open>errno\<close> values, \<open>zmq_assert\<close> (\<open>err.hpp\<close>), lemmas on
    lists.  A call that can abort is an option; \<^term>\<open>None\<close> is the abort.
  \<^item> \<open>Wire\<close>, \<open>Atomic\<close>: \<open>wire.hpp\<close>, \<open>atomic_counter.hpp\<close>, \<open>atomic_ptr.hpp\<close>.
  \<^item> \<open>Msg\<close>, \<open>Endpoint\<close>: \<open>zmq_msg_*\<close> of \<open>zmq.cpp\<close> over a heap of reference counted contents;
    the messages as values (\<open>msg\<close>), and what a socket uses of the ends of a pipe, as records of
    functions with their laws as locales.
  \<^item> \<open>Yqueue\<close>, \<open>Ypipe\<close>: \<open>yqueue.hpp\<close>, \<open>ypipe.hpp\<close>: the chunked queue over an explicit
    heap, the lock-free pipe, and its refinement of an abstract pipe: FIFO order, no lost wake-up.
  \<^item> \<open>Swap\<close>: \<open>swap.cpp\<close>: the ring file with its two block buffers.
  \<^item> \<open>Pipe\<close>, \<open>Pipe_Ends\<close>, \<open>Socket_Ends\<close>: \<open>pipe.cpp\<close>: reader, writer, \<open>create_pipe\<close> and
    the commands between the two sides; an invariant over all interleavings of a pipe without a
    swap, from which follow the absence of aborts, the high water mark, the wake-ups, and that a
    termination comes to its end whichever side has started it; the ends of a table of pipes as interpretations of the locales of \<open>Endpoint\<close>.
  \<^item> \<open>Array\<close>, \<open>Fq\<close>, \<open>Lb\<close>, \<open>Dist\<close>: \<open>array.hpp\<close>, \<open>fq.cpp\<close>, \<open>lb.cpp\<close>,
    \<open>dist.cpp\<close>: the three ways of choosing pipes.  For \<open>dist\<close> the writes are recorded beside the state of
    the pipes: who is offered which part, who takes it, and the reference count that results.
  \<^item> \<open>Trie\<close>, \<open>Subscriptions\<close>: \<open>trie.cpp\<close> and its refinement of a multiset of prefixes.
  \<^item> \<open>Codec\<close>: \<open>encoder.cpp\<close>, \<open>decoder.cpp\<close> and their base classes: the two state machines,
    their buffers and zero copy; the round trip over any chunking.
  \<^item> \<open>Options\<close>: \<open>options.cpp\<close>.
  \<^item> \<open>Sockets\<close>, \<open>Alternate\<close>, \<open>Req\<close>, \<open>Xsub\<close>, \<open>Xrep\<close>, \<open>Routing\<close>: the socket types; that
    REQ and REP take turns, that a SUB socket is a filter, that replies go to the peer the request
    came from, and where XREP's routing fails.
  \<^item> \<open>Object\<close>, \<open>Own\<close>: \<open>command.hpp\<close>, \<open>object.cpp\<close>, \<open>own.cpp\<close>: all commands, their
    dispatch, the tree of owners and its termination.
  \<^item> \<open>Own_Tree\<close>, \<open>Own_Protocol\<close>: the termination protocol of \<open>own.cpp\<close> for all objects of a process:
    an invariant of the tree and of the commands on their way under any interleaving of launches,
    requests and deliveries; no assertion fails, the commands die out, and a tree whose root was told
    to terminate is deleted as a whole.  Its runs are shorter than 2^32 acts, because the counters
    of the commands sent are 32 bits wide.
  \<^item> \<open>Mailbox\<close>: \<open>mailbox.cpp\<close>, \<open>signaler.cpp\<close>: the pipe of commands of a thread and the signal
    that wakes it, in every interleaving of its senders and its reader.
  \<^item> \<open>Poller\<close>, \<open>Event_Loops\<close>: \<open>poller_base.cpp\<close>, \<open>clock.cpp\<close>, \<open>poll.cpp\<close>, \<open>epoll.cpp\<close>,
    \<open>kqueue.cpp\<close>, \<open>select.cpp\<close>, \<open>io_object.cpp\<close>: timers and the tables of the event loops, which the
    objects called change while the loop runs over them: the timers due are run in order, and only
    registered objects are called.
  \<^item> \<open>Context\<close>, \<open>Shutdown\<close>: \<open>ctx.cpp\<close>, \<open>reaper.cpp\<close>, \<open>io_thread.cpp\<close>, and the closing of a socket in
    \<open>socket_base.cpp\<close>: the slots, the sockets and the endpoints of a context; \<open>zmq_term\<close>, the
    applications and the reaper in every interleaving: an invariant of the tables, and that
    \<open>zmq_term\<close> returns with nothing left.
  \<^item> \<open>Socket_Api\<close>: \<open>socket_base.cpp\<close>: \<open>zmq_send\<close>, \<open>zmq_recv\<close>, the options and \<open>zmq_bind\<close>, over a record
    of functions for the socket type, the mailbox and the clock.

  \<^bold>\<open>Interfaces.\<close>  The components rest on each other through locales: \<open>message_readers\<close> and
  \<open>message_writers\<close> (what \<open>fq\<close> and \<open>lb\<close> assume of pipes), \<open>socket_ends\<close> (a socket with both),
  \<open>alternating\<close> (the contract of REQ and REP), \<open>event_source\<close> (the entries of an event loop); each is interpreted on the model of the code.

  \<^bold>\<open>Loops.\<close>  Loops over the active pipes take their number of passes as an argument, which the code
  bounds by the number of pipes; loops without a bound in the code (the reading loops of \<open>xsub\<close> and
  \<open>rep\<close>, the draining of a pipe) are partial functions with values in option, and the properties
  show that they return.

  \<^bold>\<open>Concurrency.\<close>  The two sides of a pipe act in any order, operation by operation; the atomic
  pointer of \<open>ypipe\<close> makes each operation of the lock-free pipe touch shared memory once.  Memory
  ordering of the hardware is not modelled.

  \<^bold>\<open>Simplifications.\<close>  \<open>own_t::term_acks\<close>, an \<open>int\<close> in the code, is an unbounded integer.  Where
  messages are values, closing one has no effect and is left out (the old message of the caller in
  \<open>fq_t::recv\<close> and its like); \<open>Msg\<close> and \<open>Dist\<close> keep the contents and their counts.  In \<open>Codec\<close> an
  allocation that succeeds has the size asked for; the wrap-around of \<open>zmq_msg_init_size\<close> is in \<open>Msg\<close>.
  The index of an item outside its array is -1 in the code; \<open>array_index\<close> is used on items of the
  array only.

  \<^bold>\<open>Not modelled.\<close>  System calls and what only wraps them (TCP and IPC sockets, socket pairs,
  threads, the reading of clocks; the results of \<open>poll\<close> and its like are arguments of the event loops),
  \<open>devpoll.cpp\<close> (Solaris only), sessions, connecters and listeners, the rest of \<open>connect\<close>, the device
  loop and the C functions that only pass on to the classes, the PGM transport (its library is not in the repository), the XML parser (third
  party), and the user interfaces in Objective-C and Python.  Memory exhaustion aborts the program
  (\<open>alloc_assert\<close>) and is modelled only where the code handles it (\<open>zmq_msg_init_size\<close>).
\<close>

end
